(* ===== verification/Prelude.thy ===== *)
theory Prelude
  imports Complex_Main "HOL-Library.Word"
begin

unbundle bit_operations_syntax

section \<open>Shared vocabulary\<close>

text \<open>
  The vocabulary every component theory uses: Go byte slices and strings, the byte source behind
  \<^verbatim>\<open>crypto/rand\<close>, big-endian integer encodings (\<^verbatim>\<open>encoding/binary\<close>), and the generic lemmas about
  them. Conventions of the whole library:
  \<^item> a Go \<^verbatim>\<open>[]byte\<close> is a list of 8-bit words, a Go \<^verbatim>\<open>string\<close> (a byte sequence) is an Isabelle
    \<^typ>\<open>string\<close>, whose characters are bytes;
  \<^item> a Go \<^verbatim>\<open>(T, error)\<close> result is a value of a sum type: \<open>Inl\<close> the error, \<open>Inr\<close> the result;
  \<^item> a Go pointer that may be \<^verbatim>\<open>nil\<close> is an \<^typ>\<open>'a option\<close>.
\<close>

type_synonym byte = "8 word"
type_synonym bytes = "byte list"

named_theorems go_result \<open>inversion of calls that return a result or an error\<close>
named_theorems enc_len \<open>lengths of byte encodings\<close>

subsection \<open>Results\<close>

text \<open>Sequencing of calls that may fail: the Go idiom \<^verbatim>\<open>if err != nil { return err }\<close>.\<close>

definition bind_err :: "'e + 'a \<Rightarrow> ('a \<Rightarrow> 'e + 'b) \<Rightarrow> 'e + 'b" where
  "bind_err m f = (case m of Inl e \<Rightarrow> Inl e | Inr x \<Rightarrow> f x)"

lemma bind_err_simps [simp]: "bind_err (Inl e) f = Inl e" "bind_err (Inr x) f = f x"
  by (simp_all add: bind_err_def)

lemma bind_err_Inr [go_result]: "bind_err m f = Inr y \<longleftrightarrow> (\<exists>x. m = Inr x \<and> f x = Inr y)"
  by (cases m) auto

lemma bind_err_pair_Inr:
  "bind_err m (\<lambda>(x, y). f x y) = Inr z \<longleftrightarrow> (\<exists>x y. m = Inr (x, y) \<and> f x y = Inr z)"
  by (cases m) auto

lemma bind_err_triple_Inr:
  "bind_err m (\<lambda>(x, y, w). f x y w) = Inr z \<longleftrightarrow> (\<exists>x y w. m = Inr (x, y, w) \<and> f x y w = Inr z)"
  by (cases m) auto

lemma bind_err_Inl [go_result]:
  "bind_err m f = Inl e \<longleftrightarrow> m = Inl e \<or> (\<exists>x. m = Inr x \<and> f x = Inl e)"
  by (cases m) auto

text \<open>Options and partial functions are equal when they have the same results.\<close>

lemma option_eqI: "(\<And>x. a = Some x \<longleftrightarrow> b = Some x) \<Longrightarrow> a = b"
  by (cases a; cases b) auto

lemma map_eqI: "(\<And>k x. f k = Some x \<longleftrightarrow> g k = Some x) \<Longrightarrow> f = g"
  by (rule ext) (rule option_eqI)

text \<open>The loop \<^verbatim>\<open>for _, x := range xs\<close> over a step that may fail.\<close>

fun fold_err :: "('a \<Rightarrow> 's \<Rightarrow> 'e + 's) \<Rightarrow> 'a list \<Rightarrow> 's \<Rightarrow> 'e + 's" where
  "fold_err f [] s = Inr s"
| "fold_err f (x # xs) s = bind_err (f x s) (fold_err f xs)"

text \<open>A call whose error is translated by its caller.\<close>

definition map_err :: "('e \<Rightarrow> 'f) \<Rightarrow> 'e + 'a \<Rightarrow> 'f + 'a" where
  "map_err f m = (case m of Inl e \<Rightarrow> Inl (f e) | Inr x \<Rightarrow> Inr x)"

lemma map_err_simps [simp]: "map_err f (Inl e) = Inl (f e)" "map_err f (Inr x) = Inr x"
  by (simp_all add: map_err_def)

lemma map_err_Inr [go_result]: "map_err f m = Inr x \<longleftrightarrow> m = Inr x"
  by (cases m) simp_all

lemma map_err_Inl [go_result]: "map_err f m = Inl e \<longleftrightarrow> (\<exists>e'. m = Inl e' \<and> e = f e')"
  by (cases m) auto

subsection \<open>Bytes of a string\<close>

definition bytes_of :: "string \<Rightarrow> bytes" where
  "bytes_of s = map of_char s"

lemma of_char_byte_eq_iff [simp]: "of_char c = (of_char d :: byte) \<longleftrightarrow> c = d"
proof
  assume "of_char c = (of_char d :: byte)"
  then have "word_of_nat (of_char c) = (word_of_nat (of_char d) :: byte)"
    by (simp only: of_nat_of_char)
  then show "c = d" by (simp add: word_of_nat_eq_iff take_bit_nat_eq_self)
qed simp

lemma bytes_of_eq_iff [simp]: "bytes_of s = bytes_of t \<longleftrightarrow> s = t"
  by (simp add: bytes_of_def inj_def)

lemma length_bytes_of [simp, enc_len]: "length (bytes_of s) = length s"
  by (simp add: bytes_of_def)

lemma bytes_of_append: "bytes_of (s @ t) = bytes_of s @ bytes_of t"
  by (simp add: bytes_of_def)

subsection \<open>Big-endian integers\<close>

text \<open>
  \<^verbatim>\<open>binary.BigEndian.AppendUint32\<close>, \<^verbatim>\<open>AppendUint64\<close> (and \<^verbatim>\<open>PutUint32\<close>, \<^verbatim>\<open>PutUint64\<close>) and
  \<^verbatim>\<open>Uint32\<close> of the Go standard library.
\<close>

definition be32 :: "32 word \<Rightarrow> bytes" where
  "be32 v = [ucast (drop_bit 24 v), ucast (drop_bit 16 v), ucast (drop_bit 8 v), ucast v]"

definition be64 :: "64 word \<Rightarrow> bytes" where
  "be64 v = [ucast (drop_bit 56 v), ucast (drop_bit 48 v), ucast (drop_bit 40 v), ucast (drop_bit 32 v),
             ucast (drop_bit 24 v), ucast (drop_bit 16 v), ucast (drop_bit 8 v), ucast v]"

definition of_be32 :: "bytes \<Rightarrow> 32 word" where
  "of_be32 b = push_bit 24 (ucast (b ! 0)) OR push_bit 16 (ucast (b ! 1)) OR
               push_bit 8 (ucast (b ! 2)) OR ucast (b ! 3)"

lemma length_be32 [simp, enc_len]: "length (be32 v) = 4"
  by (simp add: be32_def)

lemma length_be64 [simp, enc_len]: "length (be64 v) = 8"
  by (simp add: be64_def)

text \<open>A word is determined by its bytes: bit \<open>n\<close> is bit \<open>n mod 8\<close> of byte \<open>n div 8\<close>.\<close>

lemma word_eq_bytesI:
  fixes v w :: "'a::len word"
  assumes "\<And>k. 8 * k < LENGTH('a) \<Longrightarrow> (ucast (drop_bit (8 * k) v) :: byte) = ucast (drop_bit (8 * k) w)"
  shows "v = w"
proof (rule bit_word_eqI)
  fix n assume n: "n < LENGTH('a)"
  let ?k = "n div 8"
  have "bit (ucast (drop_bit (8 * ?k) v) :: byte) (n mod 8) = bit (ucast (drop_bit (8 * ?k) w) :: byte) (n mod 8)"
    using assms [of ?k] n by simp
  then show "bit v n = bit w n"
    by (simp add: bit_simps)
qed

lemma be32_eq_iff [simp]: "be32 v = be32 w \<longleftrightarrow> v = w"
proof
  assume eq: "be32 v = be32 w"
  show "v = w"
  proof (rule word_eq_bytesI)
    fix k assume "8 * k < LENGTH(32)"
    then have "k \<in> {0, 1, 2, 3}" by auto
    with eq show "(ucast (drop_bit (8 * k) v) :: byte) = ucast (drop_bit (8 * k) w)"
      by (auto simp: be32_def)
  qed
qed simp

lemma be64_eq_iff [simp]: "be64 v = be64 w \<longleftrightarrow> v = w"
proof
  assume eq: "be64 v = be64 w"
  show "v = w"
  proof (rule word_eq_bytesI)
    fix k assume "8 * k < LENGTH(64)"
    then have "k \<in> {0, 1, 2, 3, 4, 5, 6, 7}" by auto
    with eq show "(ucast (drop_bit (8 * k) v) :: byte) = ucast (drop_bit (8 * k) w)"
      by (auto simp: be64_def)
  qed
qed simp

lemma be32_of_be32:
  assumes "length b = 4"
  shows "be32 (of_be32 b) = b"
proof -
  obtain b0 b1 b2 b3 where b: "b = [b0, b1, b2, b3]"
    using assms by (auto simp: numeral_eq_Suc length_Suc_conv)
  have low: "bit x n \<Longrightarrow> n < 8" for x :: byte and n using bit_imp_le_length [of x n] by simp
  have "ucast (drop_bit 24 (of_be32 b)) = b0" "ucast (drop_bit 16 (of_be32 b)) = b1"
    "ucast (drop_bit 8 (of_be32 b)) = b2" "ucast (of_be32 b) = b3"
    by (rule bit_word_eqI; auto simp: b of_be32_def bit_simps dest: low)+
  then show ?thesis by (simp add: be32_def b)
qed

lemma of_be32_be32 [simp]: "of_be32 (be32 v) = v"
  using be32_of_be32 [of "be32 v"] by simp

lemma of_be32_prefix: "4 \<le> length b \<Longrightarrow> of_be32 (take 4 b) = of_be32 b"
  by (simp add: of_be32_def)

text \<open>A non-negative Go \<^verbatim>\<open>int\<close> that fits is recovered from its 64-bit (or 32-bit) encoding.\<close>

lemma word_of_nat_inj64:
  "m < 2 ^ 64 \<Longrightarrow> n < 2 ^ 64 \<Longrightarrow> (word_of_nat m = (word_of_nat n :: 64 word)) \<longleftrightarrow> m = n"
  by (auto simp: word_of_nat_eq_iff take_bit_nat_eq_self)

lemma word_of_nat_inj32:
  "m < 2 ^ 32 \<Longrightarrow> n < 2 ^ 32 \<Longrightarrow> (word_of_nat m = (word_of_nat n :: 32 word)) \<longleftrightarrow> m = n"
  by (auto simp: word_of_nat_eq_iff take_bit_nat_eq_self)

lemma word_xor_eq_0_iff: "a XOR b = 0 \<longleftrightarrow> a = b" for a b :: "'a::len word"
  by (metis xor.assoc xor.left_neutral xor_self_eq)

lemma word_xor_right_cancel: "a XOR c = b XOR c \<longleftrightarrow> a = b" for a b c :: "'a::len word"
  by (metis xor.assoc xor.right_neutral xor_self_eq)

subsection \<open>The random byte source\<close>

text \<open>
  A reader of random bytes (\<^verbatim>\<open>rand.Reader\<close>, or the package's \<^verbatim>\<open>randReader\<close>) is modelled by the bytes
  it still has to give; \<^verbatim>\<open>io.ReadFull\<close> either fills the whole slice or fails. A reader that fails is
  one that runs dry.
\<close>

type_synonym rng = bytes

definition readFull :: "nat \<Rightarrow> rng \<Rightarrow> (bytes \<times> rng) option" where
  "readFull n r = (if length r < n then None else Some (take n r, drop n r))"

lemma readFull_Some [go_result]:
  "readFull n r = Some (b, r') \<longleftrightarrow> n \<le> length r \<and> b = take n r \<and> r' = drop n r"
  by (auto simp: readFull_def)

lemma readFull_length: "readFull n r = Some (b, r') \<Longrightarrow> length b = n"
  by (auto simp: readFull_Some)

end
