(* ===== verification/GF256.thy ===== *)
theory GF256
  imports Prelude
begin

section \<open>Arithmetic in GF(256)\<close>

text \<open>
  The byte arithmetic of \<^verbatim>\<open>internal/crypto/shamir/shamir.go\<close>: \<open>add_gf\<close>, \<open>mult_gf\<close> and
  \<open>inverse_gf\<close> are \<^verbatim>\<open>add\<close>, \<^verbatim>\<open>mult\<close> and \<^verbatim>\<open>inverse\<close> of that file, over 8-bit words with Go's
  wrap-around. The branch-free multiplication loop is shown to be multiplication of polynomials over
  GF(2) modulo \<open>x^8 + x^4 + x^3 + x + 1\<close>: it is bilinear, commutative and associative, and the
  addition chain of \<^verbatim>\<open>inverse\<close> computes the power 254, the inverse of every non-zero byte. The type
  \<open>gf256\<close> packages these facts as an instance of the library's class \<open>field\<close>.
\<close>

unbundle bit_operations_syntax

subsection \<open>The operations of the source\<close>

text \<open>\<^verbatim>\<open>add\<close>: addition (and subtraction) is exclusive or.\<close>

definition add_gf :: "byte \<Rightarrow> byte \<Rightarrow> byte" where
  "add_gf a b = a XOR b"

text \<open>
  \<^verbatim>\<open>mult\<close>: the body of the loop \<^verbatim>\<open>for i > 0 { i--; ... }\<close> on the accumulator \<^verbatim>\<open>r\<close>, the loop, and
  the function, which starts with \<^verbatim>\<open>i = 8\<close> and \<^verbatim>\<open>r = 0\<close>.
\<close>

definition mult_step :: "byte \<Rightarrow> byte \<Rightarrow> nat \<Rightarrow> byte \<Rightarrow> byte" where
  "mult_step a b i r = ((- (drop_bit i b AND 1)) AND a) XOR ((- (drop_bit 7 r)) AND 0x1B) XOR (r + r)"

fun mult_loop :: "byte \<Rightarrow> byte \<Rightarrow> nat \<Rightarrow> byte \<Rightarrow> byte" where
  "mult_loop a b 0 r = r"
| "mult_loop a b (Suc i) r = mult_loop a b i (mult_step a b i r)"

definition mult_gf :: "byte \<Rightarrow> byte \<Rightarrow> byte" where
  "mult_gf a b = mult_loop a b 8 0"

text \<open>\<^verbatim>\<open>inverse\<close>: the addition chain of the source, variable by variable.\<close>

definition inverse_gf :: "byte \<Rightarrow> byte" where
  "inverse_gf a =
    (let b = mult_gf a a;
         c = mult_gf a b;
         b = mult_gf c c;
         b = mult_gf b b;
         c = mult_gf b c;
         b = mult_gf b b;
         b = mult_gf b b;
         b = mult_gf b c;
         b = mult_gf b b;
         b = mult_gf a b
     in mult_gf b b)"

subsection \<open>Linear maps on bytes\<close>

text \<open>
  A map that respects exclusive or is determined by its values on the eight powers of two.
\<close>

fun byte_upto :: "byte \<Rightarrow> nat \<Rightarrow> byte" where
  "byte_upto b 0 = 0"
| "byte_upto b (Suc i) = byte_upto b i XOR (if bit b i then 2 ^ i else 0)"

lemma bit_byte_upto: "m \<le> 8 \<Longrightarrow> n < 8 \<Longrightarrow> bit (byte_upto b m) n \<longleftrightarrow> n < m \<and> bit b n"
  by (induction m) (auto simp: bit_simps less_Suc_eq)

lemma byte_upto_8: "byte_upto b 8 = b"
  by (rule bit_word_eqI) (simp add: bit_byte_upto)

definition xlin :: "(byte \<Rightarrow> byte) \<Rightarrow> bool" where
  "xlin f \<longleftrightarrow> (\<forall>a b. f (a XOR b) = f a XOR f b)"

lemma xlin_0: "xlin f \<Longrightarrow> f 0 = 0"
  unfolding xlin_def by (metis xor_self_eq)

lemma xlin_ext:
  assumes f: "xlin f" and g: "xlin g" and eq: "\<And>i. i < 8 \<Longrightarrow> f (2 ^ i) = g (2 ^ i)"
  shows "f b = g b"
proof -
  have "m \<le> 8 \<Longrightarrow> f (byte_upto b m) = g (byte_upto b m)" for m
  proof (induction m)
    case 0
    then show ?case using f g by (simp add: xlin_0)
  next
    case (Suc m)
    then have "f (byte_upto b m) = g (byte_upto b m)" by simp
    moreover have "f (2 ^ m) = g (2 ^ m)" using Suc.prems eq by simp
    ultimately show ?case using f g by (simp add: xlin_def xlin_0)
  qed
  from this [of 8] show ?thesis by (simp add: byte_upto_8)
qed

subsection \<open>Multiplication is bilinear, commutative and associative\<close>

lemma low_bit_mask: "drop_bit i b AND 1 = (if bit b i then 1 else 0)" for b :: byte
  by (auto intro!: bit_word_eqI simp: bit_simps)

lemma drop_bit_7: "drop_bit 7 r = (if bit r 7 then 1 else 0)" for r :: byte
proof (rule bit_word_eqI)
  fix n assume "n < LENGTH(8)"
  moreover have "\<not> bit r (7 + n)" if "n \<noteq> 0" using that bit_imp_le_length by fastforce
  ultimately show "bit (drop_bit 7 r) n = bit (if bit r 7 then 1 else 0 :: byte) n"
    by (cases "n = 0") (auto simp: bit_simps)
qed

text \<open>Multiplication by \<open>x\<close>, with the reduction by the polynomial \<open>0x11B\<close>.\<close>

definition xtime :: "byte \<Rightarrow> byte" where
  "xtime r = (if bit r 7 then 0x1B else 0) XOR push_bit 1 r"

lemma mult_step_xtime: "mult_step a b i r = (if bit b i then a else 0) XOR xtime r"
proof -
  have "r + r = push_bit 1 r" by (simp add: push_bit_eq_mult)
  then show ?thesis
    unfolding mult_step_def low_bit_mask drop_bit_7 xtime_def by (simp add: mult.commute)
qed

lemma xtime_xor: "xtime (a XOR b) = xtime a XOR xtime b"
  unfolding xtime_def by (auto simp: bit_simps ac_simps)

lemma xtime_0 [simp]: "xtime 0 = 0"
  by (simp add: xtime_def)

lemma xtime_pow2: "j < 7 \<Longrightarrow> xtime (2 ^ j) = 2 ^ Suc j"
  by (simp add: xtime_def bit_simps push_bit_eq_mult)

lemma xtime_funpow_1: "j < 8 \<Longrightarrow> (xtime ^^ j) 1 = 2 ^ j"
  by (induction j) (simp_all only: funpow.simps comp_apply id_apply power_0 xtime_pow2 Suc_lessD Suc_less_eq2, auto simp: xtime_pow2 simp del: power_Suc)

lemma xtime_funpow_xor: "(xtime ^^ j) (a XOR b) = (xtime ^^ j) a XOR (xtime ^^ j) b"
  by (induction j) (simp_all add: xtime_xor)

lemma mult_loop_xor_left:
  "mult_loop (a XOR a') b n (r XOR r') = mult_loop a b n r XOR mult_loop a' b n r'"
proof (induction n arbitrary: r r')
  case (Suc n)
  have "mult_step (a XOR a') b n (r XOR r') = mult_step a b n r XOR mult_step a' b n r'"
    by (auto simp: mult_step_xtime xtime_xor ac_simps)
  then show ?case by (simp add: Suc.IH)
qed simp

lemma mult_loop_xor_right:
  "mult_loop a (b XOR b') n (r XOR r') = mult_loop a b n r XOR mult_loop a b' n r'"
proof (induction n arbitrary: r r')
  case (Suc n)
  have "mult_step a (b XOR b') n (r XOR r') = mult_step a b n r XOR mult_step a b' n r'"
    by (auto simp: mult_step_xtime xtime_xor bit_simps ac_simps)
  then show ?case by (simp add: Suc.IH)
qed simp

lemma mult_gf_xor_left: "mult_gf (a XOR a') b = mult_gf a b XOR mult_gf a' b"
  using mult_loop_xor_left [of a a' b 8 0 0] by (simp add: mult_gf_def)

lemma mult_gf_xor_right: "mult_gf a (b XOR b') = mult_gf a b XOR mult_gf a b'"
  using mult_loop_xor_right [of a b b' 8 0 0] by (simp add: mult_gf_def)

lemma mult_loop_pow2_done: "n \<le> j \<Longrightarrow> mult_loop a (2 ^ j) n r = (xtime ^^ n) r"
  by (induction n arbitrary: r) (auto simp: mult_step_xtime bit_simps funpow_swap1)

lemma mult_loop_pow2: "j < 8 \<Longrightarrow> j < n \<Longrightarrow> mult_loop a (2 ^ j) n 0 = (xtime ^^ j) a"
  by (induction n) (auto simp: mult_step_xtime bit_simps less_Suc_eq mult_loop_pow2_done)

lemma mult_gf_pow2: "j < 8 \<Longrightarrow> mult_gf a (2 ^ j) = (xtime ^^ j) a"
  by (simp add: mult_gf_def mult_loop_pow2)

lemma mult_gf_1_right: "mult_gf a 1 = a"
  using mult_gf_pow2 [of 0 a] by simp

lemma mult_gf_1_left: "mult_gf 1 b = b"
  by (rule xlin_ext) (auto simp: xlin_def mult_gf_xor_right mult_gf_pow2 xtime_funpow_1)

lemma mult_gf_xtime_left: "mult_gf ((xtime ^^ k) a) b = (xtime ^^ k) (mult_gf a b)"
proof (rule xlin_ext [where f = "mult_gf ((xtime ^^ k) a)" and g = "\<lambda>b. (xtime ^^ k) (mult_gf a b)"])
  show "mult_gf ((xtime ^^ k) a) (2 ^ i) = (xtime ^^ k) (mult_gf a (2 ^ i))" if "i < 8" for i
    using that by (simp add: mult_gf_pow2 funpow_add [symmetric, THEN fun_cong, unfolded comp_apply] add.commute)
qed (auto simp: xlin_def mult_gf_xor_right xtime_funpow_xor)

lemma mult_gf_commute: "mult_gf a b = mult_gf b a"
proof (rule xlin_ext [where f = "mult_gf a" and g = "\<lambda>b. mult_gf b a"])
  show "mult_gf a (2 ^ i) = mult_gf (2 ^ i) a" if "i < 8" for i
    using that mult_gf_xtime_left [of i 1 a]
    by (simp add: mult_gf_pow2 xtime_funpow_1 mult_gf_1_left)
qed (auto simp: xlin_def mult_gf_xor_right mult_gf_xor_left)

lemma mult_gf_assoc: "mult_gf (mult_gf a b) c = mult_gf a (mult_gf b c)"
proof (rule xlin_ext [where f = "mult_gf (mult_gf a b)" and g = "\<lambda>c. mult_gf a (mult_gf b c)"])
  show "mult_gf (mult_gf a b) (2 ^ i) = mult_gf a (mult_gf b (2 ^ i))" if "i < 8" for i
    using that by (simp add: mult_gf_pow2 mult_gf_commute [of a] mult_gf_xtime_left)
qed (auto simp: xlin_def mult_gf_xor_right)


subsection \<open>Squaring and its fixed points\<close>

lemma xlin_square: "xlin (\<lambda>x. mult_gf x x)"
proof (unfold xlin_def, intro allI)
  fix a b
  have "mult_gf a b XOR mult_gf b a = 0" by (simp only: mult_gf_commute [of a b] xor_self_eq)
  then show "mult_gf (a XOR b) (a XOR b) = mult_gf a a XOR mult_gf b b"
    by (simp add: mult_gf_xor_left mult_gf_xor_right xor.assoc xor.left_commute)
       (metis xor.assoc xor.left_neutral)
qed

lemma bit_if_zero: "bit (if c then k else (0::byte)) n \<longleftrightarrow> c \<and> bit k n"
  by simp

lemma xlin_expand:
  assumes "xlin f"
  shows "f b = (if bit b 0 then f 1 else 0) XOR (if bit b 1 then f 2 else 0) XOR
    (if bit b 2 then f 4 else 0) XOR (if bit b 3 then f 8 else 0) XOR
    (if bit b 4 then f 16 else 0) XOR (if bit b 5 then f 32 else 0) XOR
    (if bit b 6 then f 64 else 0) XOR (if bit b 7 then f 128 else 0)"
proof -
  have add: "f (x XOR y) = f x XOR f y" for x y using assms by (simp add: xlin_def)
  have ifd: "f (if c then x else 0) = (if c then f x else 0)" for c x using xlin_0 [OF assms] by simp
  have "b = byte_upto b (Suc (Suc (Suc (Suc (Suc (Suc (Suc (Suc 0))))))))"
    using byte_upto_8 [of b] by (simp add: eval_nat_numeral)
  then have "f b = f (byte_upto b (Suc (Suc (Suc (Suc (Suc (Suc (Suc (Suc 0)))))))))" by simp
  also have "\<dots> = (if bit b 0 then f 1 else 0) XOR (if bit b 1 then f 2 else 0) XOR
    (if bit b 2 then f 4 else 0) XOR (if bit b 3 then f 8 else 0) XOR
    (if bit b 4 then f 16 else 0) XOR (if bit b 5 then f 32 else 0) XOR
    (if bit b 6 then f 64 else 0) XOR (if bit b 7 then f 128 else 0)"
    by (simp only: byte_upto.simps add ifd xlin_0 [OF assms])
       (simp add: xor.assoc numeral_eq_Suc)
  finally show ?thesis .
qed

lemma gf_squares:
  "mult_gf 1 1 = 1" "mult_gf 2 2 = 4" "mult_gf 4 4 = 16" "mult_gf 8 8 = 64"
  "mult_gf 16 16 = 0x1B" "mult_gf 32 32 = 0x6C" "mult_gf 64 64 = 0xAB" "mult_gf 128 128 = 0x9A"
  by code_simp+

lemma gf_square_bits:
  "bit (mult_gf e e) n = ((bit e 0 \<and> bit (1::byte) n) \<noteq> ((bit e 1 \<and> bit (4::byte) n) \<noteq>
     ((bit e 2 \<and> bit (16::byte) n) \<noteq> ((bit e 3 \<and> bit (64::byte) n) \<noteq>
     ((bit e 4 \<and> bit (0x1B::byte) n) \<noteq> ((bit e 5 \<and> bit (0x6C::byte) n) \<noteq>
     ((bit e 6 \<and> bit (0xAB::byte) n) \<noteq> (bit e 7 \<and> bit (0x9A::byte) n))))))))"
  by (subst xlin_expand [OF xlin_square]) (simp only: gf_squares bit_xor_iff bit_if_zero)

lemma gf_idempotent:
  assumes e: "mult_gf e e = e"
  shows "e = 0 \<or> e = 1"
proof -
  have "\<not> bit e 6" "bit e 4 = bit e 6" "bit e 1 = bit e 7" "bit e 2 = bit e 7"
    "bit e 3 = bit e 5" 
    using gf_square_bits [of e 0] gf_square_bits [of e 1] gf_square_bits [of e 4]
      gf_square_bits [of e 5] gf_square_bits [of e 6] unfolding e by auto
  moreover have "bit e 2 = (bit e 1 \<noteq> bit e 5)" "bit e 3 = ((bit e 4 \<noteq> bit e 5) \<noteq> (bit e 6 \<noteq> bit e 7))"
    using gf_square_bits [of e 2] gf_square_bits [of e 3] unfolding e by auto
  ultimately have z: "\<not> bit e 1" "\<not> bit e 2" "\<not> bit e 3" "\<not> bit e 4" "\<not> bit e 5" "\<not> bit e 6" "\<not> bit e 7"
    by auto
  have "xlin (\<lambda>x. x)" by (simp add: xlin_def)
  from xlin_expand [OF this, of e] z show ?thesis by (cases "bit e 0") simp_all
qed

subsection \<open>The field\<close>

typedef gf256 = "UNIV :: byte set" morphisms byte_of_gf gf_of_byte ..

setup_lifting type_definition_gf256

instantiation gf256 :: comm_ring_1
begin

lift_definition zero_gf256 :: gf256 is 0 .
lift_definition one_gf256 :: gf256 is 1 .
lift_definition plus_gf256 :: "gf256 \<Rightarrow> gf256 \<Rightarrow> gf256" is add_gf .
lift_definition minus_gf256 :: "gf256 \<Rightarrow> gf256 \<Rightarrow> gf256" is add_gf .
lift_definition uminus_gf256 :: "gf256 \<Rightarrow> gf256" is "\<lambda>a. a" .
lift_definition times_gf256 :: "gf256 \<Rightarrow> gf256 \<Rightarrow> gf256" is mult_gf .

instance
proof
  fix a b c :: gf256
  show "a * b * c = a * (b * c)" by transfer (rule mult_gf_assoc)
  show "a * b = b * a" by transfer (rule mult_gf_commute)
  show "1 * a = a" by transfer (rule mult_gf_1_left)
  show "(a + b) * c = a * c + b * c" by transfer (simp add: add_gf_def mult_gf_xor_left)
  show "a + b + c = a + (b + c)" by transfer (simp add: add_gf_def xor.assoc)
  show "a + b = b + a" by transfer (simp add: add_gf_def xor.commute)
  show "0 + a = a" by transfer (simp add: add_gf_def)
  show "- a + a = 0" by transfer (simp add: add_gf_def)
  show "a - b = a + - b" by transfer (simp add: add_gf_def)
  show "(0::gf256) \<noteq> 1" by transfer simp
qed

end

lemma gf_of_byte_add: "gf_of_byte (a XOR b) = gf_of_byte a + gf_of_byte b"
  by (simp add: plus_gf256.abs_eq add_gf_def)

lemma gf_add_self [simp]: "a + a = (0::gf256)"
  by transfer (simp add: add_gf_def)

lemma gf_two_zero [simp]: "(2::gf256) = 0"
  by (metis gf_add_self one_add_one)

lemma gf_square_add: "(a + b) ^ 2 = a ^ 2 + (b::gf256) ^ 2"
proof -
  have "(a + b) ^ 2 = a ^ 2 + b ^ 2 + 2 * a * b" by (rule power2_sum)
  then show ?thesis by simp
qed

lemma gf_frobenius_add: "(a + b) ^ (2 ^ k) = a ^ (2 ^ k) + (b::gf256) ^ (2 ^ k)"
  by (induction k) (simp_all add: power_mult gf_square_add mult.commute [of 2])

lemma gf_times_2: "gf_of_byte a * gf_of_byte 2 = gf_of_byte (xtime a)"
  using mult_gf_pow2 [of 1 a] by (simp add: times_gf256.abs_eq)

lemma gf_pow2: "i < 8 \<Longrightarrow> gf_of_byte (2 ^ i) = gf_of_byte 2 ^ i"
proof -
  have "gf_of_byte ((xtime ^^ i) 1) = gf_of_byte 2 ^ i" for i
    by (induction i) (simp_all add: one_gf256.abs_eq gf_times_2 [symmetric] mult.commute)
  then show "i < 8 \<Longrightarrow> gf_of_byte (2 ^ i) = gf_of_byte 2 ^ i" by (metis xtime_funpow_1)
qed

lemma gf_2_squarings:
  "mult_gf 0x1B 0x1B = 0x5E" "mult_gf 0x5E 0x5E = 0xE4" "mult_gf 0xE4 0xE4 = 0x4D"
  "mult_gf 0x4D 0x4D = 0xFA" "mult_gf 0xFA 0xFA = 2"
  by code_simp+

lemma gf_2_frobenius: "gf_of_byte 2 ^ 256 = gf_of_byte 2"
proof -
  have sq: "gf_of_byte a ^ 2 = gf_of_byte (mult_gf a a)" for a
    by (simp add: power2_eq_square times_gf256.abs_eq)
  have "gf_of_byte 2 ^ 256 = (((((((gf_of_byte 2 ^ 2) ^ 2) ^ 2) ^ 2) ^ 2) ^ 2) ^ 2) ^ 2"
    by (simp only: power_mult [symmetric]) simp
  also have "\<dots> = gf_of_byte 2" by (simp only: sq gf_squares gf_2_squarings)
  finally show ?thesis .
qed

lemma gf_frobenius: "a ^ 256 = (a::gf256)"
proof -
  let ?f = "\<lambda>b. byte_of_gf (gf_of_byte b ^ 256)"
  have "?f b = b" for b
  proof (rule xlin_ext [where f = ?f and g = "\<lambda>b. b"])
    show "xlin ?f"
      using gf_frobenius_add [of _ _ 8]
      by (simp add: xlin_def gf_of_byte_add plus_gf256.rep_eq add_gf_def)
    show "xlin (\<lambda>b. b)" by (simp add: xlin_def)
    show "?f (2 ^ i) = 2 ^ i" if "i < 8" for i
    proof -
      have "gf_of_byte (2 ^ i) ^ 256 = (gf_of_byte 2 ^ 256) ^ i"
        using that by (simp add: gf_pow2 mult.commute flip: power_mult)
      also have "\<dots> = gf_of_byte (2 ^ i)" using that by (simp add: gf_2_frobenius gf_pow2)
      finally show ?thesis by (simp add: gf_of_byte_inverse)
    qed
  qed
  from this [of "byte_of_gf a"] show ?thesis
    by (simp add: byte_of_gf_inverse) (metis byte_of_gf_inverse)
qed

lemma gf_order: "a \<noteq> 0 \<Longrightarrow> a ^ 255 = (1::gf256)"
proof -
  assume a: "a \<noteq> 0"
  have "a ^ 255 * a ^ 255 = a ^ 256 * a ^ 254" by (simp flip: power_add)
  also have "\<dots> = a ^ 255" by (simp add: gf_frobenius flip: power_Suc)
  finally have "a ^ 255 * a ^ 255 = a ^ 255" .
  moreover have "e * e = e \<Longrightarrow> e = 0 \<or> e = 1" for e :: gf256 by transfer (rule gf_idempotent)
  ultimately consider "a ^ 255 = 0" | "a ^ 255 = 1" by blast
  then show ?thesis
  proof cases
    case 1
    have "a = a ^ 255 * a" using gf_frobenius [of a] by (simp add: mult.commute flip: power_Suc)
    with 1 a show ?thesis by simp
  qed
qed

lemma inverse_gf_power: "gf_of_byte (inverse_gf a) = gf_of_byte a ^ 254"
proof -
  let ?p = "\<lambda>x n. gf_of_byte x = gf_of_byte a ^ n"
  have m: "?p (mult_gf x y) k" if "?p x m" "?p y n" "m + n = k" for x y m n k
    using that(1,2) unfolding that(3) [symmetric] by (simp add: power_add flip: times_gf256.abs_eq)
  have a: "?p a 1" by simp
  have b2: "?p (mult_gf a a) 2" by (rule m [OF a a]) simp
  let ?c3 = "mult_gf a (mult_gf a a)"
  have c3: "?p ?c3 3" by (rule m [OF a b2]) simp
  have b6: "?p (mult_gf ?c3 ?c3) 6" by (rule m [OF c3 c3]) simp
  let ?b12 = "mult_gf (mult_gf ?c3 ?c3) (mult_gf ?c3 ?c3)"
  have b12: "?p ?b12 12" by (rule m [OF b6 b6]) simp
  have c15: "?p (mult_gf ?b12 ?c3) 15" by (rule m [OF b12 c3]) simp
  have b24: "?p (mult_gf ?b12 ?b12) 24" by (rule m [OF b12 b12]) simp
  note b48 = m [OF b24 b24, of 48, simplified]
  note b63 = m [OF b48 c15, of 63, simplified]
  note b126 = m [OF b63 b63, of 126, simplified]
  note b127 = m [OF a b126, of 127, simplified]
  note b254 = m [OF b127 b127, of 254, simplified]
  show ?thesis unfolding inverse_gf_def Let_def by (rule b254)
qed

instantiation gf256 :: field
begin

lift_definition inverse_gf256 :: "gf256 \<Rightarrow> gf256" is inverse_gf .
definition divide_gf256 :: "gf256 \<Rightarrow> gf256 \<Rightarrow> gf256" where "divide_gf256 a b = a * inverse b"

instance
proof
  fix a b :: gf256
  have pow: "inverse x = x ^ 254" for x :: gf256
    using inverse_gf_power [of "byte_of_gf x"] by (simp add: inverse_gf256_def byte_of_gf_inverse)
  show "a \<noteq> 0 \<Longrightarrow> inverse a * a = 1"
    using gf_order [of a] by (simp add: pow mult.commute flip: power_Suc)
  show "a div b = a * inverse b" by (rule divide_gf256_def)
  show "inverse (0::gf256) = 0" by (simp add: pow)
qed

end

lemma UNIV_gf256: "(UNIV :: gf256 set) = gf_of_byte ` UNIV"
  by (metis byte_of_gf_inverse surj_def)

lemma finite_gf256: "finite (UNIV :: gf256 set)"
  by (simp add: UNIV_gf256)

lemma card_gf256: "card (UNIV :: gf256 set) = 256"
  unfolding UNIV_gf256 by (subst card_image) (auto simp: inj_on_def gf_of_byte_inject card_word)

end
