(* ===== verification/Std_Crypto.thy ===== *)
theory Std_Crypto
  imports GF256
begin

section \<open>The cryptographic primitives of the Go standard library\<close>

text \<open>
  What the program uses of \<^verbatim>\<open>crypto/aes\<close>, \<^verbatim>\<open>crypto/cipher\<close> (GCM), \<^verbatim>\<open>crypto/sha256\<close>, \<^verbatim>\<open>crypto/sha1\<close>
  and \<^verbatim>\<open>crypto/hmac\<close>, as executable definitions after FIPS 197, NIST SP 800-38D, FIPS 180-4 and
  RFC 2104. GCM is written over an arbitrary block function, so its laws (opening a sealed message
  gives the message back, an accepted message is exactly the sealing of its plaintext) hold whatever
  the block cipher is; \<open>newAEAD\<close> in \<^verbatim>\<open>Envelope\<close> instantiates it with AES. The library's lemmas use
  nothing of AES but that it is a function, and nothing of the hashes but the lengths they return.
\<close>

subsection \<open>AES\<close>

type_synonym block = "128 word"

definition rotl8 :: "nat \<Rightarrow> byte \<Rightarrow> byte" where
  "rotl8 n b = push_bit n b OR drop_bit (8 - n) b"

definition sbox :: "byte \<Rightarrow> byte" where
  "sbox a = (let b = inverse_gf a in
     b XOR rotl8 1 b XOR rotl8 2 b XOR rotl8 3 b XOR rotl8 4 b XOR 0x63)"

definition xor_bytes :: "bytes \<Rightarrow> bytes \<Rightarrow> bytes" where
  "xor_bytes = map2 (XOR)"

text \<open>The key schedule: the words of the expanded key, each a list of four bytes.\<close>

fun rcon :: "nat \<Rightarrow> byte" where
  "rcon 0 = 1"
| "rcon (Suc n) = xtime (rcon n)"

definition next_word :: "nat \<Rightarrow> bytes list \<Rightarrow> bytes" where
  "next_word nk ws =
    (let i = length ws; t = last ws;
         t' = (if i mod nk = 0
               then (case map sbox (rotate1 t) of [] \<Rightarrow> [] | x # xs \<Rightarrow> (x XOR rcon (i div nk - 1)) # xs)
               else if 6 < nk \<and> i mod nk = 4 then map sbox t else t)
     in xor_bytes (ws ! (i - nk)) t')"

fun expand_words :: "nat \<Rightarrow> nat \<Rightarrow> bytes list \<Rightarrow> bytes list" where
  "expand_words nk 0 ws = ws"
| "expand_words nk (Suc n) ws = expand_words nk n (ws @ [next_word nk ws])"

fun chunks :: "nat \<Rightarrow> nat \<Rightarrow> 'a list \<Rightarrow> 'a list list" where
  "chunks m 0 xs = []"
| "chunks m (Suc n) xs = take m xs # chunks m n (drop m xs)"

definition round_keys :: "bytes \<Rightarrow> bytes list" where
  "round_keys key =
    (let nk = length key div 4; nr = nk + 6;
         ws = expand_words nk (4 * (nr + 1) - nk) (chunks 4 nk key)
     in map concat (chunks 4 (nr + 1) ws))"

text \<open>A state is sixteen bytes in column order.\<close>

definition shift_rows :: "bytes \<Rightarrow> bytes" where
  "shift_rows s = map (\<lambda>i. s ! ((i + 4 * (i mod 4)) mod 16)) [0..<16]"

definition mix_column :: "bytes \<Rightarrow> bytes" where
  "mix_column c = map (\<lambda>i. mult_gf 2 (c ! i) XOR mult_gf 3 (c ! ((i + 1) mod 4)) XOR
      (c ! ((i + 2) mod 4)) XOR (c ! ((i + 3) mod 4))) [0..<4]"

definition mix_columns :: "bytes \<Rightarrow> bytes" where
  "mix_columns s = concat (map mix_column (chunks 4 4 s))"

fun aes_rounds :: "bytes list \<Rightarrow> bytes \<Rightarrow> bytes" where
  "aes_rounds [] s = s"
| "aes_rounds [k] s = xor_bytes (shift_rows (map sbox s)) k"
| "aes_rounds (k # ks) s = aes_rounds ks (xor_bytes (mix_columns (shift_rows (map sbox s))) k)"

definition aes_encrypt :: "bytes \<Rightarrow> bytes \<Rightarrow> bytes" where
  "aes_encrypt key b = (case round_keys key of [] \<Rightarrow> [] | k # ks \<Rightarrow> aes_rounds ks (xor_bytes b k))"

text \<open>Blocks of sixteen bytes as 128-bit words, most significant byte first.\<close>

definition block_of :: "bytes \<Rightarrow> block" where
  "block_of b = foldl (\<lambda>a x. push_bit 8 a OR ucast x) 0 (take 16 (b @ replicate 16 0))"

definition bytes_of_block :: "block \<Rightarrow> bytes" where
  "bytes_of_block w = map (\<lambda>i. ucast (drop_bit (8 * (15 - i)) w)) [0..<16]"

definition aes_block :: "bytes \<Rightarrow> block \<Rightarrow> block" where
  "aes_block key w = block_of (aes_encrypt key (bytes_of_block w))"

subsection \<open>GCM\<close>

text \<open>Multiplication of the field with \<open>2 ^ 128\<close> elements in the bit order of SP 800-38D.\<close>

fun gmult_loop :: "block \<Rightarrow> nat \<Rightarrow> block \<Rightarrow> block \<Rightarrow> block" where
  "gmult_loop x 0 v z = z"
| "gmult_loop x (Suc i) v z =
    gmult_loop x i (if bit v 0 then drop_bit 1 v XOR push_bit 120 0xe1 else drop_bit 1 v)
      (if bit x i then z XOR v else z)"

definition gmult :: "block \<Rightarrow> block \<Rightarrow> block" where
  "gmult x y = gmult_loop x 128 y 0"

definition blocks :: "bytes \<Rightarrow> block list" where
  "blocks b = map block_of (chunks 16 ((length b + 15) div 16) b)"

definition len_block :: "bytes \<Rightarrow> bytes \<Rightarrow> block" where
  "len_block a c = push_bit 64 (word_of_nat (8 * length a)) OR
     take_bit 64 (word_of_nat (8 * length c))"

definition ghash :: "block \<Rightarrow> bytes \<Rightarrow> bytes \<Rightarrow> block" where
  "ghash h a c = foldl (\<lambda>y x. gmult (y XOR x) h) 0 (blocks a @ blocks c @ [len_block a c])"

definition inc32 :: "block \<Rightarrow> block" where
  "inc32 w = push_bit 32 (drop_bit 32 w) OR ucast (ucast w + 1 :: 32 word)"

fun keystream :: "(block \<Rightarrow> block) \<Rightarrow> block \<Rightarrow> nat \<Rightarrow> bytes" where
  "keystream e ctr 0 = []"
| "keystream e ctr (Suc n) = bytes_of_block (e ctr) @ keystream e (inc32 ctr) n"

definition gctr :: "(block \<Rightarrow> block) \<Rightarrow> block \<Rightarrow> bytes \<Rightarrow> bytes" where
  "gctr e ctr p = xor_bytes p (keystream e ctr ((length p + 15) div 16))"

text \<open>The pre-counter block of a 12-byte nonce, the tag, and the two operations of \<^verbatim>\<open>cipher.AEAD\<close>.
  \<^verbatim>\<open>Seal\<close> panics on a plaintext beyond the counter's range (\<open>None\<close>); \<^verbatim>\<open>Open\<close> refuses such a
  ciphertext, a ciphertext shorter than a tag and a tag that does not match (\<open>None\<close>).\<close>

definition gcm_limit :: nat where
  "gcm_limit = (2 ^ 32 - 2) * 16"

definition counter0 :: "bytes \<Rightarrow> block" where
  "counter0 nonce = block_of (nonce @ [0, 0, 0, 1])"

definition gcm_tag :: "(block \<Rightarrow> block) \<Rightarrow> bytes \<Rightarrow> bytes \<Rightarrow> bytes \<Rightarrow> bytes" where
  "gcm_tag e nonce aad c = bytes_of_block (ghash (e 0) aad c XOR e (counter0 nonce))"

definition gcm_seal :: "(block \<Rightarrow> block) \<Rightarrow> bytes \<Rightarrow> bytes \<Rightarrow> bytes \<Rightarrow> bytes option" where
  "gcm_seal e nonce plaintext aad =
    (if gcm_limit < length plaintext then None
     else let c = gctr e (inc32 (counter0 nonce)) plaintext in Some (c @ gcm_tag e nonce aad c))"

definition gcm_open :: "(block \<Rightarrow> block) \<Rightarrow> bytes \<Rightarrow> bytes \<Rightarrow> bytes \<Rightarrow> bytes option" where
  "gcm_open e nonce data aad =
    (if length data < 16 \<or> gcm_limit + 16 < length data then None
     else let c = take (length data - 16) data; tag = drop (length data - 16) data in
       if tag = gcm_tag e nonce aad c then Some (gctr e (inc32 (counter0 nonce)) c) else None)"

lemma length_bytes_of_block [simp, enc_len]: "length (bytes_of_block w) = 16"
  by (simp add: bytes_of_block_def)

lemma bytes_of_block_inj: "bytes_of_block v = bytes_of_block w \<longleftrightarrow> v = w"
proof
  assume eq: "bytes_of_block v = bytes_of_block w"
  show "v = w"
  proof (rule word_eq_bytesI)
    fix k assume "8 * k < LENGTH(128)"
    then have k: "k < 16" by simp
    then have "bytes_of_block v ! (15 - k) = bytes_of_block w ! (15 - k)" by (simp only: eq)
    moreover have "[0..<16] ! (15 - k) = 15 - k" using nth_upt [of 0 "15 - k" 16] k by simp
    ultimately show "(ucast (drop_bit (8 * k) v) :: byte) = ucast (drop_bit (8 * k) w)"
      using k by (simp add: bytes_of_block_def del: upt_Suc)
  qed
qed simp

lemma length_keystream [simp]: "length (keystream e ctr n) = 16 * n"
  by (induction n arbitrary: ctr) auto

lemma length_gcm_tag [simp, enc_len]: "length (gcm_tag e nonce aad c) = 16"
  by (simp add: gcm_tag_def)

lemma length_gctr [simp, enc_len]: "length (gctr e ctr p) = length p"
  by (simp add: gctr_def xor_bytes_def)

lemma xor_bytes_twice: "length p \<le> length k \<Longrightarrow> xor_bytes (xor_bytes p k) k = p"
  by (rule nth_equalityI) (auto simp: xor_bytes_def xor.assoc)

lemma gctr_gctr [simp]: "gctr e ctr (gctr e ctr p) = p"
proof -
  have "length p \<le> 16 * ((length p + 15) div 16)" by linarith
  then show ?thesis
    unfolding gctr_def by (subst length_gctr [unfolded gctr_def], intro xor_bytes_twice) simp
qed

lemma gcm_seal_Some_iff: "(\<exists>d. gcm_seal e n p a = Some d) \<longleftrightarrow> length p \<le> gcm_limit"
  by (simp add: gcm_seal_def Let_def)

lemma gcm_seal_limit: "gcm_seal e n p a = Some d \<Longrightarrow> length p \<le> gcm_limit"
  by (simp add: gcm_seal_def split: if_splits)

lemma gcm_open_seal: "gcm_seal e n p a = Some d \<Longrightarrow> gcm_open e n d a = Some p"
  by (auto simp: gcm_seal_def gcm_open_def Let_def split: if_splits)

lemma gcm_seal_open: "gcm_open e n d a = Some p \<Longrightarrow> gcm_seal e n p a = Some d"
  by (auto simp: gcm_seal_def gcm_open_def Let_def split: if_splits) (metis append_take_drop_id)

lemma gcm_seal_length: "gcm_seal e n p a = Some d \<Longrightarrow> length d = length p + 16"
  by (auto simp: gcm_seal_def Let_def split: if_splits)

subsection \<open>SHA-256, SHA-1 and HMAC\<close>

text \<open>Padding to 64-byte blocks, common to both hashes.\<close>

definition md_pad :: "bytes \<Rightarrow> bytes" where
  "md_pad m = m @ 0x80 # replicate ((119 - length m mod 64) mod 64) 0 @ be64 (word_of_nat (8 * length m))"

definition words32 :: "bytes \<Rightarrow> 32 word list" where
  "words32 b = map of_be32 (chunks 4 (length b div 4) b)"

definition rotr32 :: "nat \<Rightarrow> 32 word \<Rightarrow> 32 word" where
  "rotr32 n w = drop_bit n w OR push_bit (32 - n) w"

text \<open>
  The constants are the first 32 fractional bits of the cube roots of the first 64 primes and of the
  square roots of the first eight, computed by integer roots.
\<close>

fun iroot_loop :: "nat \<Rightarrow> nat \<Rightarrow> nat \<Rightarrow> nat \<Rightarrow> nat" where
  "iroot_loop k n 0 acc = acc"
| "iroot_loop k n (Suc b) acc = iroot_loop k n b (if (acc + 2 ^ b) ^ k \<le> n then acc + 2 ^ b else acc)"

definition root_fraction :: "nat \<Rightarrow> nat \<Rightarrow> 32 word" where
  "root_fraction k p = word_of_nat (iroot_loop k (p * 2 ^ (32 * k)) 36 0)"

definition small_primes :: "nat list" where
  "small_primes = filter (\<lambda>p. 2 \<le> p \<and> (\<forall>d \<in> set [2..<p]. p mod d \<noteq> 0)) [0..<312]"

definition sha256_K :: "32 word list" where
  "sha256_K = map (root_fraction 3) small_primes"

definition sha256_H :: "32 word list" where
  "sha256_H = map (root_fraction 2) [2, 3, 5, 7, 11, 13, 17, 19]"

fun sha256_schedule :: "nat \<Rightarrow> 32 word list \<Rightarrow> 32 word list" where
  "sha256_schedule 0 w = w"
| "sha256_schedule (Suc n) w =
    (let t = length w; a = w ! (t - 15); b = w ! (t - 2);
         s0 = rotr32 7 a XOR rotr32 18 a XOR drop_bit 3 a;
         s1 = rotr32 17 b XOR rotr32 19 b XOR drop_bit 10 b
     in sha256_schedule n (w @ [w ! (t - 16) + s0 + w ! (t - 7) + s1]))"

definition sha256_round :: "32 word list \<Rightarrow> 32 word \<times> 32 word \<Rightarrow> 32 word list" where
  "sha256_round s kw = (case kw of (k, w) \<Rightarrow>
    (let a = s ! 0; b = s ! 1; c = s ! 2; d = s ! 3; e = s ! 4; f = s ! 5; g = s ! 6; h = s ! 7;
         s1 = rotr32 6 e XOR rotr32 11 e XOR rotr32 25 e;
         ch = (e AND f) XOR (NOT e AND g);
         t1 = h + s1 + ch + k + w;
         s0 = rotr32 2 a XOR rotr32 13 a XOR rotr32 22 a;
         maj = (a AND b) XOR (a AND c) XOR (b AND c)
     in [t1 + s0 + maj, a, b, c, d + t1, e, f, g]))"

definition sha256_compress :: "32 word list \<Rightarrow> bytes \<Rightarrow> 32 word list" where
  "sha256_compress h blk =
    map2 (+) h (foldl sha256_round h (zip sha256_K (sha256_schedule 48 (words32 blk))))"

definition sha256 :: "bytes \<Rightarrow> bytes" where
  "sha256 m = (let b = md_pad m in
     concat (map be32 (foldl sha256_compress sha256_H (chunks 64 (length b div 64) b))))"

definition sha1_H :: "32 word list" where
  "sha1_H = [0x67452301, 0xefcdab89, 0x98badcfe, 0x10325476, 0xc3d2e1f0]"

fun sha1_schedule :: "nat \<Rightarrow> 32 word list \<Rightarrow> 32 word list" where
  "sha1_schedule 0 w = w"
| "sha1_schedule (Suc n) w =
    (let t = length w
     in sha1_schedule n (w @ [rotr32 31 (w ! (t - 3) XOR w ! (t - 8) XOR w ! (t - 14) XOR w ! (t - 16))]))"

definition sha1_round :: "32 word list \<Rightarrow> nat \<times> 32 word \<Rightarrow> 32 word list" where
  "sha1_round s tw = (case tw of (t, w) \<Rightarrow>
    (let a = s ! 0; b = s ! 1; c = s ! 2; d = s ! 3; e = s ! 4;
         (f, k) = (if t < 20 then ((b AND c) OR (NOT b AND d), 0x5a827999)
                   else if t < 40 then (b XOR c XOR d, 0x6ed9eba1)
                   else if t < 60 then ((b AND c) OR (b AND d) OR (c AND d), 0x8f1bbcdc)
                   else (b XOR c XOR d, 0xca62c1d6))
     in [rotr32 27 a + f + e + k + w, a, rotr32 2 b, c, d]))"

definition sha1_compress :: "32 word list \<Rightarrow> bytes \<Rightarrow> 32 word list" where
  "sha1_compress h blk =
    map2 (+) h (foldl sha1_round h (zip [0..<80] (sha1_schedule 64 (words32 blk))))"

definition sha1 :: "bytes \<Rightarrow> bytes" where
  "sha1 m = (let b = md_pad m in
     concat (map be32 (foldl sha1_compress sha1_H (chunks 64 (length b div 64) b))))"

definition hmac :: "(bytes \<Rightarrow> bytes) \<Rightarrow> bytes \<Rightarrow> bytes \<Rightarrow> bytes" where
  "hmac hash key m =
    (let k = (if 64 < length key then hash key else key);
         k' = k @ replicate (64 - length k) 0
     in hash (map (\<lambda>b. b XOR 0x5c) k' @ hash (map (\<lambda>b. b XOR 0x36) k' @ m)))"

lemma length_foldl_compress:
  "(\<And>h b. length h = n \<Longrightarrow> length (f h b) = n) \<Longrightarrow> length h0 = n \<Longrightarrow> length (foldl f h0 bs) = n"
  by (induction bs arbitrary: h0) auto

lemma length_concat_be32: "length (concat (map be32 ws)) = 4 * length ws"
  by (induction ws) auto

lemma length_sha256 [simp, enc_len]: "length (sha256 m) = 32"
proof -
  have "length (foldl sha256_round h kws) = 8" if "length h = 8" for h kws
    using that by (intro length_foldl_compress)
      (auto simp: sha256_round_def Let_def split: prod.splits)
  then have "length (sha256_compress h b) = 8" if "length h = 8" for h b
    using that by (simp add: sha256_compress_def)
  then have "length (foldl sha256_compress sha256_H bs) = 8" for bs
    by (intro length_foldl_compress) (auto simp: sha256_H_def)
  then show ?thesis by (simp add: sha256_def Let_def length_concat_be32)
qed

lemma length_sha1 [simp, enc_len]: "length (sha1 m) = 20"
proof -
  have "length (foldl sha1_round h kws) = 5" if "length h = 5" for h kws
    using that by (intro length_foldl_compress)
      (auto simp: sha1_round_def Let_def split: prod.splits)
  then have "length (sha1_compress h b) = 5" if "length h = 5" for h b
    using that by (simp add: sha1_compress_def)
  then have "length (foldl sha1_compress sha1_H bs) = 5" for bs
    by (intro length_foldl_compress) (auto simp: sha1_H_def)
  then show ?thesis by (simp add: sha1_def Let_def length_concat_be32)
qed

end
