(* ===== verification/Interpolation.thy ===== *)
theory Interpolation
  imports Complex_Main
begin

section \<open>Lagrange interpolation\<close>

text \<open>
  Polynomial functions of bounded degree over an arbitrary field, the bound on their number of
  roots, and Lagrange's interpolation formula. Library material for the secret sharing of
  \<^verbatim>\<open>internal/crypto/shamir\<close>; nothing here models code.
\<close>

text \<open>\<open>poly_below n f\<close>: \<open>f\<close> is a polynomial function of degree below \<open>n\<close>.\<close>

definition poly_below :: "nat \<Rightarrow> ('a::field \<Rightarrow> 'a) \<Rightarrow> bool" where
  "poly_below n f \<longleftrightarrow> (\<exists>c. \<forall>z. f z = (\<Sum>i<n. c i * z ^ i))"

lemma poly_belowI: "(\<And>z. f z = (\<Sum>i<n. c i * z ^ i)) \<Longrightarrow> poly_below n f"
  by (auto simp: poly_below_def)

lemma poly_below_mono: "poly_below m f \<Longrightarrow> m \<le> n \<Longrightarrow> poly_below n f"
proof -
  assume "poly_below m f" and le: "m \<le> n"
  then obtain c where c: "\<And>z. f z = (\<Sum>i<m. c i * z ^ i)" by (auto simp: poly_below_def)
  have "f z = (\<Sum>i<n. (if i < m then c i else 0) * z ^ i)" for z
  proof -
    have "(\<Sum>i<m. c i * z ^ i) = (\<Sum>i<n. if i < m then c i * z ^ i else 0)"
      using le by (intro sum.mono_neutral_cong_left) auto
    then show ?thesis by (simp add: c if_distrib [of "\<lambda>x. x * _"] cong: if_cong)
  qed
  then show ?thesis by (rule poly_belowI)
qed

lemma poly_below_zero: "poly_below n (\<lambda>_. 0)"
  by (rule poly_belowI [where c = "\<lambda>_. 0"]) simp

lemma poly_below_const: "0 < n \<Longrightarrow> poly_below n (\<lambda>_. k)"
proof (rule poly_below_mono)
  show "poly_below 1 (\<lambda>_. k)" by (rule poly_belowI [where c = "\<lambda>_. k"]) simp
qed simp

lemma poly_below_add: "poly_below n f \<Longrightarrow> poly_below n g \<Longrightarrow> poly_below n (\<lambda>z. f z + g z)"
proof -
  assume "poly_below n f" "poly_below n g"
  then obtain c d where "\<And>z. f z = (\<Sum>i<n. c i * z ^ i)" "\<And>z. g z = (\<Sum>i<n. d i * z ^ i)"
    by (auto simp: poly_below_def)
  then have "f z + g z = (\<Sum>i<n. (c i + d i) * z ^ i)" for z
    by (simp add: sum.distrib algebra_simps)
  then show ?thesis by (rule poly_belowI)
qed

lemma poly_below_smult: "poly_below n f \<Longrightarrow> poly_below n (\<lambda>z. k * f z)"
proof -
  assume "poly_below n f"
  then obtain c where "\<And>z. f z = (\<Sum>i<n. c i * z ^ i)" by (auto simp: poly_below_def)
  then have "k * f z = (\<Sum>i<n. (k * c i) * z ^ i)" for z
    by (simp add: sum_distrib_left algebra_simps)
  then show ?thesis by (rule poly_belowI)
qed

lemma poly_below_uminus: "poly_below n f \<Longrightarrow> poly_below n (\<lambda>z. - f z)"
  using poly_below_smult [of n f "-1"] by simp

lemma poly_below_diff: "poly_below n f \<Longrightarrow> poly_below n g \<Longrightarrow> poly_below n (\<lambda>z. f z - g z)"
  using poly_below_add [of n f "\<lambda>z. - g z"] by (simp add: poly_below_uminus)

lemma poly_below_sum:
  "finite S \<Longrightarrow> (\<And>s. s \<in> S \<Longrightarrow> poly_below n (f s)) \<Longrightarrow> poly_below n (\<lambda>z. \<Sum>s\<in>S. f s z)"
  by (induction S rule: finite_induct) (auto simp: poly_below_zero intro: poly_below_add)

lemma poly_below_shift: "poly_below n f \<Longrightarrow> poly_below (Suc n) (\<lambda>z. z * f z)"
proof -
  assume "poly_below n f"
  then obtain c where c: "\<And>z. f z = (\<Sum>i<n. c i * z ^ i)" by (auto simp: poly_below_def)
  have "z * f z = (\<Sum>i<Suc n. (case i of 0 \<Rightarrow> 0 | Suc j \<Rightarrow> c j) * z ^ i)" for z
    by (simp only: sum.lessThan_Suc_shift c) (simp add: sum_distrib_left algebra_simps)
  then show ?thesis by (rule poly_belowI)
qed

lemma poly_below_linear: "poly_below n f \<Longrightarrow> poly_below (Suc n) (\<lambda>z. (a * z + b) * f z)"
proof -
  assume f: "poly_below n f"
  have "poly_below (Suc n) (\<lambda>z. a * (z * f z) + b * f z)"
    by (intro poly_below_add poly_below_smult poly_below_shift f poly_below_mono [OF f]) simp
  then show ?thesis by (simp add: algebra_simps)
qed

lemma poly_below_prod:
  assumes "finite S"
  shows "poly_below (Suc (card S)) (\<lambda>z. \<Prod>t\<in>S. (z - t) / (s - t))"
  using assms
proof (induction S rule: finite_induct)
  case empty
  show ?case by (simp add: poly_below_const)
next
  case (insert t S)
  have "poly_below (Suc (Suc (card S)))
    (\<lambda>z. (1 / (s - t) * z + - t / (s - t)) * (\<Prod>t\<in>S. (z - t) / (s - t)))"
    by (rule poly_below_linear [OF insert.IH])
  moreover have "1 / (s - t) * z + - t / (s - t) = (z - t) / (s - t)" for z
    by (simp add: diff_divide_distrib)
  ultimately show ?case using insert.hyps by simp
qed

text \<open>A polynomial function of degree below \<open>n\<close> with \<open>n\<close> roots vanishes everywhere.\<close>

lemma poly_below_roots:
  assumes "poly_below n f" "finite S" "n \<le> card S" "\<And>s. s \<in> S \<Longrightarrow> f s = 0"
  shows "f z = 0"
  using assms
proof (induction n arbitrary: f S z)
  case 0
  then show ?case by (auto simp: poly_below_def)
next
  case (Suc n)
  from Suc.prems obtain c where c: "\<And>z. f z = (\<Sum>i\<le>n. c i * z ^ i)"
    by (auto simp: poly_below_def lessThan_Suc_atMost)
  from Suc.prems obtain u where u: "u \<in> S" by fastforce
  from polyfun_linear_factor [of c n u] c Suc.prems(4) [OF u]
  obtain b where b: "\<And>z. f z = (z - u) * (\<Sum>i<n. b i * z ^ i)" by auto
  have "(\<Sum>i<n. b i * x ^ i) = 0" for x
  proof (rule Suc.IH [where f = "\<lambda>x. \<Sum>i<n. b i * x ^ i" and S = "S - {u}"])
    show "poly_below n (\<lambda>x. \<Sum>i<n. b i * x ^ i)" by (rule poly_belowI [where c = b]) simp
    show "n \<le> card (S - {u})" using Suc.prems u by simp
    show "(\<Sum>i<n. b i * s ^ i) = 0" if "s \<in> S - {u}" for s
      using that b [of s] Suc.prems(4) [of s] by auto
  qed (use Suc.prems in simp)
  then show ?case by (simp add: b)
qed

lemma lagrange_at_node:
  assumes "finite S" "s \<in> S" "v \<in> S"
  shows "(\<Prod>t\<in>S - {s}. (v - t) / (s - t)) = (if s = v then 1 else (0::'a::field))"
proof (cases "s = v")
  case True
  then have "(\<Prod>t\<in>S - {s}. (v - t) / (s - t)) = (\<Prod>t\<in>S - {s}. 1)"
    by (intro prod.cong) auto
  then show ?thesis using True by simp
next
  case False
  then have "v \<in> S - {s}" using assms by simp
  moreover have "finite (S - {s})" using assms by simp
  ultimately have "(\<Prod>t\<in>S - {s}. (v - t) / (s - t)) = 0" by (auto intro!: prod_zero)
  then show ?thesis using False by simp
qed

lemma lagrange_poly_below:
  fixes f :: "'a::field \<Rightarrow> 'a"
  assumes "finite S"
  shows "poly_below (card S) (\<lambda>z. \<Sum>s\<in>S. f s * (\<Prod>t\<in>S - {s}. (z - t) / (s - t)))"
proof (rule poly_below_sum [OF assms], rule poly_below_smult)
  fix s assume s: "s \<in> S"
  have "poly_below (Suc (card (S - {s}))) (\<lambda>z. \<Prod>t\<in>S - {s}. (z - t) / (s - t))"
    by (rule poly_below_prod) (simp add: assms)
  then show "poly_below (card S) (\<lambda>z. \<Prod>t\<in>S - {s}. (z - t) / (s - t))"
    by (simp only: card_Suc_Diff1 [OF assms s])
qed

lemma lagrange_nodes:
  fixes f :: "'a::field \<Rightarrow> 'a"
  assumes "finite S" "v \<in> S"
  shows "(\<Sum>s\<in>S. f s * (\<Prod>t\<in>S - {s}. (v - t) / (s - t))) = f v"
proof -
  have "(\<Sum>s\<in>S. f s * (\<Prod>t\<in>S - {s}. (v - t) / (s - t))) = (\<Sum>s\<in>S. if s = v then f s else 0)"
  proof (rule sum.cong [OF refl])
    fix s assume "s \<in> S"
    then show "f s * (\<Prod>t\<in>S - {s}. (v - t) / (s - t)) = (if s = v then f s else 0)"
      by (simp only: lagrange_at_node [OF assms(1) _ assms(2)]) simp
  qed
  also have "\<dots> = f v" using sum.delta [OF assms(1), of v f] assms(2) by simp
  finally show ?thesis .
qed

lemma lagrange_interpolation:
  fixes f :: "'a::field \<Rightarrow> 'a"
  assumes f: "poly_below n f" and S: "finite S" "n \<le> card S"
  shows "(\<Sum>s\<in>S. f s * (\<Prod>t\<in>S - {s}. (z - t) / (s - t))) = f z"
proof -
  let ?L = "\<lambda>z. \<Sum>s\<in>S. f s * (\<Prod>t\<in>S - {s}. (z - t) / (s - t))"
  have "poly_below (card S) (\<lambda>z. f z - ?L z)"
    by (rule poly_below_diff [OF poly_below_mono [OF f S(2)] lagrange_poly_below [OF S(1)]])
  then have "f z - ?L z = 0"
  proof (rule poly_below_roots [OF _ S(1) order_refl])
    fix v assume "v \<in> S"
    then show "f v - ?L v = 0" by (simp only: lagrange_nodes [OF S(1)] diff_self)
  qed
  then show ?thesis by simp
qed

end
