(* ===== verification/Shamir.thy ===== *)
theory Shamir
  imports GF256 Interpolation
begin

section \<open>Secret sharing\<close>

text \<open>
  \<^verbatim>\<open>internal/crypto/shamir/shamir.go\<close>: a secret is split byte by byte, each byte being the intercept
  of a random polynomial of degree \<open>threshold - 1\<close> over GF(256); a share is the list of the values of
  these polynomials at one non-zero abscissa, followed by the abscissa. \<open>makePolynomial\<close>,
  \<open>evaluate\<close>, \<open>interpolatePolynomial\<close>, \<open>div_gf\<close>, \<open>Split\<close> and \<open>Combine\<close> are the functions of that
  file. The permutation \<^verbatim>\<open>mathrand.Perm(255)\<close> and the bytes of \<^verbatim>\<open>crypto/rand\<close> are arguments of
  \<open>Split\<close>. The theorems: the loop of \<^verbatim>\<open>interpolatePolynomial\<close> is Lagrange's formula, any
  \<open>threshold\<close> shares give the secret back, and fewer shares are consistent with every secret of the
  same length.
\<close>

subsection \<open>The operations of the source\<close>

text \<open>Every error and every panic of the file.\<close>

datatype shamir_err =
    PartsBelowThreshold | PartsExceed255 | ThresholdBelow2 | ThresholdExceeds255 | EmptySecret
  | PolynomialFailed | PanicIndexOutOfRange | PanicDivideByZero
  | LessThanTwoParts | PartsTooShort | PartsLengthMismatch | DuplicatePart

record polynomial =
  coefficients :: bytes

text \<open>
  \<^verbatim>\<open>makePolynomial\<close>: \<^verbatim>\<open>degree+1\<close> is computed in \<^verbatim>\<open>uint8\<close>, so the degree 255 allocates nothing and
  storing the intercept panics.
\<close>

definition makePolynomial :: "byte \<Rightarrow> byte \<Rightarrow> rng \<Rightarrow> shamir_err + (polynomial \<times> rng)" where
  "makePolynomial intercept degree r =
    (let n = unat (degree + 1) in
     if n = 0 then Inl PanicIndexOutOfRange
     else case readFull (n - 1) r of
            None \<Rightarrow> Inl PolynomialFailed
          | Some (rest, r') \<Rightarrow> Inr (\<lparr>coefficients = intercept # rest\<rparr>, r'))"

text \<open>
  \<^verbatim>\<open>evaluate\<close>: Horner's loop runs from the highest coefficient down. Every polynomial has at least
  one coefficient (\<open>makePolynomial\<close>), so its reads are in range.
\<close>

fun evaluate_loop :: "bytes \<Rightarrow> byte \<Rightarrow> nat \<Rightarrow> byte \<Rightarrow> byte" where
  "evaluate_loop cs x 0 out = out"
| "evaluate_loop cs x (Suc i) out = evaluate_loop cs x i (add_gf (mult_gf out x) (cs ! i))"

definition evaluate :: "polynomial \<Rightarrow> byte \<Rightarrow> byte" where
  "evaluate p x =
    (if x = 0 then coefficients p ! 0
     else let degree = length (coefficients p) - 1
          in evaluate_loop (coefficients p) x degree (coefficients p ! degree))"

definition div_gf :: "byte \<Rightarrow> byte \<Rightarrow> shamir_err + byte" where
  "div_gf a b =
    (if b = 0 then Inl PanicDivideByZero
     else let ret = mult_gf a (inverse_gf b) in Inr (if a = 0 then 0 else ret))"

text \<open>\<^verbatim>\<open>interpolatePolynomial\<close>: the inner loop over \<^verbatim>\<open>j\<close>, the outer loop over \<^verbatim>\<open>i\<close>.\<close>

fun basis_loop :: "bytes \<Rightarrow> byte \<Rightarrow> nat \<Rightarrow> nat list \<Rightarrow> byte \<Rightarrow> shamir_err + byte" where
  "basis_loop xs x i [] basis = Inr basis"
| "basis_loop xs x i (j # js) basis =
    (if i = j then basis_loop xs x i js basis
     else let num = add_gf x (xs ! j); denom = add_gf (xs ! i) (xs ! j) in
       bind_err (div_gf num denom) (\<lambda>t. basis_loop xs x i js (mult_gf basis t)))"

fun interpolate_loop :: "bytes \<Rightarrow> bytes \<Rightarrow> byte \<Rightarrow> nat list \<Rightarrow> byte \<Rightarrow> shamir_err + byte" where
  "interpolate_loop xs ys x [] result = Inr result"
| "interpolate_loop xs ys x (i # is) result =
    bind_err (basis_loop xs x i [0..<length xs] 1)
      (\<lambda>basis. if length ys \<le> i then Inl PanicIndexOutOfRange
        else interpolate_loop xs ys x is (add_gf result (mult_gf (ys ! i) basis)))"

definition interpolatePolynomial :: "bytes \<Rightarrow> bytes \<Rightarrow> byte \<Rightarrow> shamir_err + byte" where
  "interpolatePolynomial x_samples y_samples x =
    interpolate_loop x_samples y_samples x [0..<length x_samples] 0"

text \<open>
  \<^verbatim>\<open>Split\<close>. The rows of \<^verbatim>\<open>out\<close> are allocated with the abscissa in the last place; the loop over
  the secret then writes column \<^verbatim>\<open>idx\<close> of every row.
\<close>

definition x_coordinate :: "nat \<Rightarrow> byte" where
  "x_coordinate c = word_of_nat c + 1"

fun split_loop :: "bytes \<Rightarrow> nat \<Rightarrow> byte \<Rightarrow> bytes \<Rightarrow> rng \<Rightarrow> bytes list \<Rightarrow>
    shamir_err + (bytes list \<times> rng)" where
  "split_loop [] idx degree xs r out = Inr (out, r)"
| "split_loop (v # vs) idx degree xs r out =
    bind_err (makePolynomial v degree r) (\<lambda>(p, r').
      split_loop vs (Suc idx) degree xs r'
        (map2 (\<lambda>x row. row[idx := evaluate p x]) xs out))"

definition Split :: "bytes \<Rightarrow> int \<Rightarrow> int \<Rightarrow> nat list \<Rightarrow> rng \<Rightarrow> shamir_err + (bytes list \<times> rng)" where
  "Split secret parts threshold perm r =
    (if parts < threshold then Inl PartsBelowThreshold
     else if parts > 255 then Inl PartsExceed255
     else if threshold < 2 then Inl ThresholdBelow2
     else if threshold > 255 then Inl ThresholdExceeds255
     else if length secret = 0 then Inl EmptySecret
     else let xs = map x_coordinate (take (nat parts) perm);
              out = map (\<lambda>x. replicate (length secret) 0 @ [x]) xs
          in split_loop secret 0 (word_of_int (threshold - 1)) xs r out)"

text \<open>
  \<^verbatim>\<open>Combine\<close>: the loop over \<^verbatim>\<open>checkMap\<close> collects the abscissas and refuses a repeated one, then
  each byte of the secret is the interpolated value at 0.
\<close>

fun collect_x :: "bytes list \<Rightarrow> nat \<Rightarrow> byte set \<Rightarrow> shamir_err + bytes" where
  "collect_x [] n seen = Inr []"
| "collect_x (part # parts) n seen =
    (let samp = part ! (n - 1) in
     if samp \<in> seen then Inl DuplicatePart
     else bind_err (collect_x parts n (insert samp seen)) (\<lambda>xs. Inr (samp # xs)))"

fun combine_loop :: "bytes list \<Rightarrow> bytes \<Rightarrow> nat list \<Rightarrow> shamir_err + bytes" where
  "combine_loop parts xs [] = Inr []"
| "combine_loop parts xs (idx # idxs) =
    bind_err (interpolatePolynomial xs (map (\<lambda>part. part ! idx) parts) 0)
      (\<lambda>v. bind_err (combine_loop parts xs idxs) (\<lambda>vs. Inr (v # vs)))"

definition Combine :: "bytes list \<Rightarrow> shamir_err + bytes" where
  "Combine parts =
    (if length parts < 2 then Inl LessThanTwoParts
     else let firstPartLen = length (hd parts) in
       if firstPartLen < 2 then Inl PartsTooShort
       else if \<exists>part \<in> set (tl parts). length part \<noteq> firstPartLen then Inl PartsLengthMismatch
       else bind_err (collect_x parts firstPartLen {})
              (\<lambda>xs. combine_loop parts xs [0..<firstPartLen - 1]))"

subsection \<open>Evaluation and interpolation as field expressions\<close>

lemmas gf_byte_hom = plus_gf256.abs_eq [symmetric] times_gf256.abs_eq [symmetric]
  zero_gf256.abs_eq one_gf256.abs_eq

lemma gf_of_byte_eq_iff [simp]: "gf_of_byte a = gf_of_byte b \<longleftrightarrow> a = b"
  by (simp add: gf_of_byte_inject)

lemma gf_add: "gf_of_byte (add_gf a b) = gf_of_byte a + gf_of_byte b"
  and gf_mult: "gf_of_byte (mult_gf a b) = gf_of_byte a * gf_of_byte b"
  and gf_zero: "gf_of_byte 0 = 0" and gf_one: "gf_of_byte 1 = 1"
  and gf_inverse: "gf_of_byte (inverse_gf a) = inverse (gf_of_byte a)"
  by (simp_all add: plus_gf256.abs_eq times_gf256.abs_eq zero_gf256.abs_eq one_gf256.abs_eq
      inverse_gf256.abs_eq)

lemmas gf_hom = gf_add gf_mult gf_zero gf_one gf_inverse

lemma gf_minus_plus: "a - b = a + (b::gf256)"
  by (simp add: minus_gf256_def plus_gf256_def)

lemma gf_zero_iff: "gf_of_byte a = 0 \<longleftrightarrow> a = 0"
  by (metis gf_of_byte_eq_iff gf_zero)


lemma evaluate_loop_poly:
  "i \<le> length cs \<Longrightarrow> gf_of_byte (evaluate_loop cs x i out) =
     gf_of_byte out * gf_of_byte x ^ i + (\<Sum>k<i. gf_of_byte (cs ! k) * gf_of_byte x ^ k)"
  by (induction i arbitrary: out) (simp_all add: gf_hom algebra_simps)

lemma evaluate_poly:
  assumes "coefficients p \<noteq> []"
  shows "gf_of_byte (evaluate p x) =
     (\<Sum>k<length (coefficients p). gf_of_byte (coefficients p ! k) * gf_of_byte x ^ k)"
proof -
  obtain d where d: "length (coefficients p) = Suc d"
    using assms by (cases "coefficients p") auto
  show ?thesis
  proof (cases "x = 0")
    case True
    then show ?thesis by (simp add: evaluate_def d gf_zero power_0_left if_distrib cong: if_cong)
  next
    case False
    then show ?thesis
      by (simp add: evaluate_def d evaluate_loop_poly)
  qed
qed

lemma poly_below_evaluate:
  "coefficients p \<noteq> [] \<Longrightarrow>
    poly_below (length (coefficients p)) (\<lambda>z. gf_of_byte (evaluate p (byte_of_gf z)))"
  by (rule poly_belowI) (simp add: evaluate_poly byte_of_gf_inverse)

lemma div_gf_Inr: "b \<noteq> 0 \<Longrightarrow> \<exists>v. div_gf a b = Inr v \<and> gf_of_byte v = gf_of_byte a / gf_of_byte b"
  by (auto simp: div_gf_def Let_def gf_hom divide_inverse)

lemma basis_loop_prod:
  assumes "\<And>j. j \<in> set js \<Longrightarrow> j \<noteq> i \<Longrightarrow> xs ! i \<noteq> xs ! j"
  shows "\<exists>b. basis_loop xs x i js basis = Inr b \<and>
    gf_of_byte b = gf_of_byte basis * (\<Prod>j\<leftarrow>filter (\<lambda>j. j \<noteq> i) js.
      (gf_of_byte x - gf_of_byte (xs ! j)) / (gf_of_byte (xs ! i) - gf_of_byte (xs ! j)))"
  using assms
proof (induction js arbitrary: basis)
  case Nil
  then show ?case by simp
next
  case (Cons j js)
  show ?case
  proof (cases "i = j")
    case True
    with Cons show ?thesis by simp
  next
    case False
    with Cons.prems have "add_gf (xs ! i) (xs ! j) \<noteq> 0"
      by (auto simp: add_gf_def word_xor_eq_0_iff)
    from div_gf_Inr [OF this] obtain t where t: "div_gf (add_gf x (xs ! j)) (add_gf (xs ! i) (xs ! j)) = Inr t"
      "gf_of_byte t = gf_of_byte (add_gf x (xs ! j)) / gf_of_byte (add_gf (xs ! i) (xs ! j))" by blast
    from Cons.IH [of "mult_gf basis t"] Cons.prems False t show ?thesis
      by (auto simp: Let_def gf_hom gf_minus_plus mult.assoc)
  qed
qed

lemma interpolate_loop_sum:
  assumes "\<And>i. i \<in> set is \<Longrightarrow> i < length xs" "distinct xs" "length ys = length xs"
  shows "\<exists>v. interpolate_loop xs ys x is r = Inr v \<and>
    gf_of_byte v = gf_of_byte r + (\<Sum>i\<leftarrow>is. gf_of_byte (ys ! i) *
      (\<Prod>j\<leftarrow>filter (\<lambda>j. j \<noteq> i) [0..<length xs].
        (gf_of_byte x - gf_of_byte (xs ! j)) / (gf_of_byte (xs ! i) - gf_of_byte (xs ! j))))"
  using assms(1)
proof (induction "is" arbitrary: r)
  case Nil
  then show ?case by simp
next
  case (Cons i js)
  have "\<exists>b. basis_loop xs x i [0..<length xs] 1 = Inr b \<and>
    gf_of_byte b = gf_of_byte 1 * (\<Prod>j\<leftarrow>filter (\<lambda>j. j \<noteq> i) [0..<length xs].
      (gf_of_byte x - gf_of_byte (xs ! j)) / (gf_of_byte (xs ! i) - gf_of_byte (xs ! j)))"
    by (rule basis_loop_prod) (use Cons.prems assms(2) in \<open>auto simp: nth_eq_iff_index_eq\<close>)
  then obtain b where
    b: "basis_loop xs x i [0..<length xs] 1 = Inr b" "gf_of_byte b =
      (\<Prod>j\<leftarrow>filter (\<lambda>j. j \<noteq> i) [0..<length xs].
        (gf_of_byte x - gf_of_byte (xs ! j)) / (gf_of_byte (xs ! i) - gf_of_byte (xs ! j)))"
    by (auto simp: gf_one)
  have i: "\<not> length ys \<le> i" using Cons.prems [of i] assms(3) by simp
  from Cons.IH [of "add_gf r (mult_gf (ys ! i) b)"] Cons.prems b(1) i show ?case
    by (auto simp: gf_hom b(2) add.assoc)
qed

lemma interpolatePolynomial_lagrange:
  assumes xs: "distinct xs" and ys: "length ys = length xs"
    and f: "poly_below n f" "n \<le> length xs"
    and y: "\<And>i. i < length xs \<Longrightarrow> gf_of_byte (ys ! i) = f (gf_of_byte (xs ! i))"
  shows "interpolatePolynomial xs ys x = Inr (byte_of_gf (f (gf_of_byte x)))"
proof -
  let ?g = "\<lambda>i. gf_of_byte (xs ! i)" and ?N = "{..<length xs}"
  have inj: "inj_on ?g ?N" using xs by (auto simp: inj_on_def nth_eq_iff_index_eq)
  have img: "?g ` (?N - {i}) = ?g ` ?N - {?g i}" if "i \<in> ?N" for i
    using that inj by (auto simp: inj_on_def)
  have pl: "(\<Prod>j\<leftarrow>filter (\<lambda>j. j \<noteq> i) [0..<length xs]. h (?g j)) = (\<Prod>t\<in>?g ` ?N - {?g i}. h t)"
    if "i \<in> ?N" for i and h :: "gf256 \<Rightarrow> gf256"
  proof -
    have "(\<Prod>j\<leftarrow>filter (\<lambda>j. j \<noteq> i) [0..<length xs]. h (?g j)) = (\<Prod>j\<in>?N - {i}. h (?g j))"
      by (subst prod.distinct_set_conv_list [symmetric]) (auto intro!: prod.cong)
    also have "\<dots> = (\<Prod>t\<in>?g ` (?N - {i}). h t)"
      by (subst prod.reindex) (auto intro: inj_on_subset [OF inj])
    finally show ?thesis by (simp add: img [OF that])
  qed
  obtain v where v: "interpolatePolynomial xs ys x = Inr v"
    and eq: "gf_of_byte v = (\<Sum>i\<leftarrow>[0..<length xs]. gf_of_byte (ys ! i) *
      (\<Prod>j\<leftarrow>filter (\<lambda>j. j \<noteq> i) [0..<length xs].
        (gf_of_byte x - ?g j) / (?g i - ?g j)))"
    using interpolate_loop_sum [of "[0..<length xs]" xs ys x 0] xs ys
    by (auto simp: interpolatePolynomial_def gf_zero)
  have "gf_of_byte v = (\<Sum>i\<in>?N. f (?g i) *
      (\<Prod>t\<in>?g ` ?N - {?g i}. (gf_of_byte x - t) / (?g i - t)))"
  proof (unfold eq, subst sum_list_distinct_conv_sum_set)
    show "(\<Sum>i\<in>set [0..<length xs]. gf_of_byte (ys ! i) * (\<Prod>j\<leftarrow>filter (\<lambda>j. j \<noteq> i) [0..<length xs].
        (gf_of_byte x - ?g j) / (?g i - ?g j))) =
      (\<Sum>i\<in>?N. f (?g i) * (\<Prod>t\<in>?g ` ?N - {?g i}. (gf_of_byte x - t) / (?g i - t)))"
    proof (rule sum.cong)
      fix i assume "i \<in> ?N"
      then show "gf_of_byte (ys ! i) * (\<Prod>j\<leftarrow>filter (\<lambda>j. j \<noteq> i) [0..<length xs].
          (gf_of_byte x - ?g j) / (?g i - ?g j)) =
        f (?g i) * (\<Prod>t\<in>?g ` ?N - {?g i}. (gf_of_byte x - t) / (?g i - t))"
        by (simp only: y lessThan_iff pl [where h = "\<lambda>t. (gf_of_byte x - t) / (?g i - t)"])
    qed auto
  qed simp
  also have "\<dots> = (\<Sum>s\<in>?g ` ?N. f s * (\<Prod>t\<in>?g ` ?N - {s}. (gf_of_byte x - t) / (s - t)))"
    by (subst sum.reindex [OF inj]) simp
  also have "\<dots> = f (gf_of_byte x)"
    by (rule lagrange_interpolation [OF f(1)]) (use f inj in \<open>auto simp: card_image\<close>)
  finally show ?thesis using v by (metis gf_of_byte_inverse UNIV_I)
qed


subsection \<open>The shares of a split\<close>

lemma makePolynomial_Inr:
  assumes "makePolynomial v d r = Inr (p, r')"
  shows "coefficients p \<noteq> []" "length (coefficients p) = unat (d + 1)" "coefficients p ! 0 = v"
    "p = \<lparr>coefficients = v # take (unat (d + 1) - 1) r\<rparr>" "r' = drop (unat (d + 1) - 1) r"
  using assms by (auto simp: makePolynomial_def Let_def readFull_Some split: if_splits option.splits)

text \<open>The polynomials \<open>split_loop\<close> makes, one for each byte of the secret.\<close>

fun split_polys :: "bytes \<Rightarrow> byte \<Rightarrow> rng \<Rightarrow> polynomial list" where
  "split_polys [] d r = []"
| "split_polys (v # vs) d r =
    \<lparr>coefficients = v # take (unat (d + 1) - 1) r\<rparr> # split_polys vs d (drop (unat (d + 1) - 1) r)"

lemma length_split_polys [simp]: "length (split_polys vs d r) = length vs"
  by (induction vs arbitrary: r) auto

lemma split_loop_rows:
  assumes "split_loop vs idx d xs r out = Inr (out', r')" "length out = length xs"
    "\<And>i. i < length xs \<Longrightarrow> length (out ! i) = idx + length vs + 1"
  shows "length out' = length xs \<and> (\<forall>i < length xs.
    out' ! i = take idx (out ! i) @ map (\<lambda>p. evaluate p (xs ! i)) (split_polys vs d r) @
      [out ! i ! (idx + length vs)])"
  using assms
proof (induction vs arbitrary: idx r out)
  case Nil
  then show ?case by (auto simp: take_Suc_conv_app_nth [symmetric])
next
  case (Cons v vs)
  from Cons.prems(1) obtain p r1 where p: "makePolynomial v d r = Inr (p, r1)"
    and rest: "split_loop vs (Suc idx) d xs r1 (map2 (\<lambda>x row. row[idx := evaluate p x]) xs out) = Inr (out', r')"
    by (auto simp: bind_err_Inr)
  note pp = makePolynomial_Inr [OF p]
  have "length out' = length xs \<and> (\<forall>i < length xs.
    out' ! i = take (Suc idx) ((out ! i)[idx := evaluate p (xs ! i)]) @
      map (\<lambda>p. evaluate p (xs ! i)) (split_polys vs d r1) @
      [(out ! i)[idx := evaluate p (xs ! i)] ! (Suc idx + length vs)])"
    using Cons.IH [OF rest] Cons.prems by auto
  then show ?case using Cons.prems(3)
    by (auto simp: take_Suc_conv_app_nth pp(5) simp flip: pp(4) [simplified One_nat_def])
qed


lemma split_loop_ok:
  assumes "unat (d + 1) \<noteq> 0" "length vs * (unat (d + 1) - 1) \<le> length r"
  shows "\<exists>out'. split_loop vs idx d xs r out = Inr (out', drop (length vs * (unat (d + 1) - 1)) r)"
  using assms
proof (induction vs arbitrary: idx r out)
  case (Cons v vs)
  let ?m = "unat (d + 1) - 1"
  have "length vs * ?m \<le> length (drop ?m r)" using Cons.prems by simp
  from Cons.IH [OF Cons.prems(1) this] show ?case
    using Cons.prems by (simp add: makePolynomial_def Let_def readFull_def add.commute)
qed simp

lemma split_polys_length:
  "unat (d + 1) \<noteq> 0 \<Longrightarrow> length vs * (unat (d + 1) - 1) \<le> length r \<Longrightarrow> p \<in> set (split_polys vs d r) \<Longrightarrow>
    length (coefficients p) = unat (d + 1)"
proof (induction vs arbitrary: r)
  case (Cons v vs)
  have "length vs * (unat (d + 1) - 1) \<le> length (drop (unat (d + 1) - 1) r)" using Cons.prems by simp
  from Cons.IH [OF Cons.prems(1) this] Cons.prems show ?case by (auto simp: min_def)
qed simp

lemma split_polys_intercept: "i < length vs \<Longrightarrow> coefficients (split_polys vs d r ! i) ! 0 = vs ! i"
  by (induction vs arbitrary: i r) (auto simp: nth_Cons')

lemma split_degree:
  "2 \<le> t \<Longrightarrow> t \<le> 255 \<Longrightarrow> unat ((word_of_int (t - 1) :: byte) + 1) = nat t"
proof -
  assume "2 \<le> t" "t \<le> 255"
  then have "(word_of_int (t - 1) :: byte) + 1 = word_of_int t" "t mod 256 = t" by simp_all
  then show ?thesis by (simp only: unat_eq_nat_uint uint_word_of_int) simp
qed

lemma x_coordinate_inj:
  "a < 255 \<Longrightarrow> b < 255 \<Longrightarrow> x_coordinate a = x_coordinate b \<longleftrightarrow> a = b"
  by (auto simp: x_coordinate_def word_of_nat_eq_iff take_bit_nat_eq_self)

lemma x_coordinate_nonzero: "a < 255 \<Longrightarrow> x_coordinate a \<noteq> 0"
proof
  assume "a < 255" "x_coordinate a = 0"
  then have "(word_of_nat (Suc a) :: byte) = word_of_nat 0"
    by (simp add: x_coordinate_def add.commute)
  with \<open>a < 255\<close> show False by (simp only: word_of_nat_eq_iff) (simp add: take_bit_nat_eq_self)
qed

text \<open>The parameters \<^verbatim>\<open>Split\<close> accepts, and what it then returns: one row per abscissa.\<close>

definition split_params :: "bytes \<Rightarrow> int \<Rightarrow> int \<Rightarrow> bool" where
  "split_params secret parts threshold \<longleftrightarrow>
    2 \<le> threshold \<and> threshold \<le> parts \<and> parts \<le> 255 \<and> secret \<noteq> []"

definition share_row :: "polynomial list \<Rightarrow> nat \<Rightarrow> bytes" where
  "share_row polys c = map (\<lambda>p. evaluate p (x_coordinate c)) polys @ [x_coordinate c]"

lemma length_share_row [simp]: "length (share_row polys c) = Suc (length polys)"
  by (simp add: share_row_def)

definition perm255 :: "nat list \<Rightarrow> bool" where
  "perm255 perm \<longleftrightarrow> length perm = 255 \<and> distinct perm \<and> set perm \<subseteq> {..<255}"

lemma split_loop_share_rows:
  assumes "split_loop secret 0 d (map x_coordinate cs) r
      (map (\<lambda>x. replicate (length secret) 0 @ [x]) (map x_coordinate cs)) = Inr (shares, r')"
  shows "shares = map (share_row (split_polys secret d r)) cs"
  using split_loop_rows [OF assms]
  by (intro nth_equalityI) (auto simp: nth_append share_row_def)

lemma Split_valid:
  assumes par: "split_params secret parts threshold"
    and rnd: "length secret * (nat threshold - 1) \<le> length r"
  shows "Split secret parts threshold perm r =
    Inr (map (share_row (split_polys secret (word_of_int (threshold - 1)) r)) (take (nat parts) perm),
         drop (length secret * (nat threshold - 1)) r)"
proof -
  let ?d = "word_of_int (threshold - 1) :: byte" and ?cs = "take (nat parts) perm"
  have deg: "unat (?d + 1) = nat threshold"
    using par by (intro split_degree) (auto simp: split_params_def)
  have "unat (?d + 1) \<noteq> 0" "length secret * (unat (?d + 1) - 1) \<le> length r"
    using par rnd by (auto simp only: deg split_params_def)
  from split_loop_ok [OF this] obtain out where
    out: "split_loop secret 0 ?d (map x_coordinate ?cs) r
      (map (\<lambda>x. replicate (length secret) 0 @ [x]) (map x_coordinate ?cs)) =
      Inr (out, drop (length secret * (nat threshold - 1)) r)"
    unfolding deg by blast
  from out split_loop_share_rows [OF out] par show ?thesis
    by (simp add: Split_def split_params_def Let_def)
qed

lemma split_loop_dry:
  assumes "unat (d + 1) \<noteq> 0" "length r < length vs * (unat (d + 1) - 1)"
  shows "split_loop vs idx d xs r out = Inl PolynomialFailed"
  using assms
proof (induction vs arbitrary: idx r out)
  case (Cons v vs)
  let ?m = "unat (d + 1) - 1"
  show ?case
  proof (cases "?m \<le> length r")
    case True
    with Cons.prems have "length (drop ?m r) < length vs * ?m" by auto
    from Cons.IH [OF Cons.prems(1) this] show ?thesis
      using Cons.prems True by (simp add: makePolynomial_def Let_def readFull_def)
  qed (use Cons.prems in \<open>simp add: makePolynomial_def Let_def readFull_def\<close>)
qed simp

lemma Split_dry:
  assumes par: "split_params secret parts threshold"
    and rnd: "length r < length secret * (nat threshold - 1)"
  shows "Split secret parts threshold perm r = Inl PolynomialFailed"
proof -
  let ?d = "word_of_int (threshold - 1) :: byte"
  have deg: "unat (?d + 1) = nat threshold"
    using par by (intro split_degree) (auto simp: split_params_def)
  have "unat (?d + 1) \<noteq> 0" "length r < length secret * (unat (?d + 1) - 1)"
    using par rnd by (auto simp only: deg split_params_def)
  from split_loop_dry [OF this] par show ?thesis by (simp add: Split_def split_params_def Let_def)
qed

lemma Split_invalid:
  "\<not> split_params secret parts threshold \<Longrightarrow> \<exists>e. Split secret parts threshold perm r = Inl e"
  by (auto simp: Split_def split_params_def)

text \<open>A successful \<^verbatim>\<open>Split\<close> had valid parameters and enough random bytes.\<close>

lemma Split_Inr:
  assumes "Split secret parts threshold perm r = Inr (shares, r')"
  shows "split_params secret parts threshold" "length secret * (nat threshold - 1) \<le> length r"
    "shares = map (share_row (split_polys secret (word_of_int (threshold - 1)) r)) (take (nat parts) perm)"
    "r' = drop (length secret * (nat threshold - 1)) r"
proof -
  show par: "split_params secret parts threshold"
    using assms Split_invalid [of secret parts threshold perm r] by (cases "split_params secret parts threshold") auto
  show rnd: "length secret * (nat threshold - 1) \<le> length r"
    using assms Split_dry [OF par, of r perm] by (cases "length r < length secret * (nat threshold - 1)") auto
  from Split_valid [OF par rnd, of perm] assms
  show "shares = map (share_row (split_polys secret (word_of_int (threshold - 1)) r)) (take (nat parts) perm)"
    "r' = drop (length secret * (nat threshold - 1)) r" by auto
qed

subsection \<open>Recombining shares\<close>

lemma collect_x_distinct:
  "distinct (map (\<lambda>p. p ! (n - 1)) parts) \<Longrightarrow> set (map (\<lambda>p. p ! (n - 1)) parts) \<inter> seen = {} \<Longrightarrow>
    collect_x parts n seen = Inr (map (\<lambda>p. p ! (n - 1)) parts)"
  by (induction parts arbitrary: seen) (auto simp: Let_def)

lemma combine_loop_Inr:
  assumes "\<And>idx. idx \<in> set idxs \<Longrightarrow>
    interpolatePolynomial xs (map (\<lambda>part. part ! idx) parts) 0 = Inr (f idx)"
  shows "combine_loop parts xs idxs = Inr (map f idxs)"
  using assms by (induction idxs) auto

lemma Combine_shares:
  assumes sel: "distinct cs" "\<And>c. c \<in> set cs \<Longrightarrow> c < 255"
    and polys: "polys \<noteq> []" "\<And>p. p \<in> set polys \<Longrightarrow> length (coefficients p) = n"
    and n: "2 \<le> n" "n \<le> length cs"
  shows "Combine (map (share_row polys) cs) = Inr (map (\<lambda>p. coefficients p ! 0) polys)"
proof -
  let ?share = "share_row polys"
  let ?xs = "map x_coordinate cs" and ?m = "length polys"
  have len: "length (?share c) = Suc ?m" for c by simp
  have xs: "distinct ?xs" using sel by (auto simp: distinct_map inj_on_def x_coordinate_inj)
  have hd: "length (hd (map ?share cs)) = Suc ?m" using n by (cases cs) auto
  have cx: "collect_x (map ?share cs) (Suc ?m) {} = Inr ?xs"
    using collect_x_distinct [of "Suc ?m" "map ?share cs" "{}"] xs by (simp add: comp_def nth_append share_row_def)
  have interp: "interpolatePolynomial ?xs (map (\<lambda>part. part ! idx) (map ?share cs)) 0 =
    Inr (coefficients (polys ! idx) ! 0)" if "idx < ?m" for idx
  proof -
    let ?p = "polys ! idx"
    have p: "length (coefficients ?p) = n" using polys(2) that by simp
    have ne: "coefficients ?p \<noteq> []" using p n by auto
    have "interpolatePolynomial ?xs (map (\<lambda>part. part ! idx) (map ?share cs)) 0 =
      Inr (byte_of_gf (gf_of_byte (evaluate ?p (byte_of_gf (gf_of_byte 0)))))"
      by (rule interpolatePolynomial_lagrange [OF xs _ poly_below_evaluate [OF ne]])
        (use p n that in \<open>auto simp: nth_append share_row_def gf_of_byte_inverse\<close>)
    then show ?thesis by (simp add: gf_of_byte_inverse evaluate_def)
  qed
  have "combine_loop (map ?share cs) ?xs [0..<?m] = Inr (map (\<lambda>i. coefficients (polys ! i) ! 0) [0..<?m])"
    by (rule combine_loop_Inr) (use interp in simp)
  also have "map (\<lambda>i. coefficients (polys ! i) ! 0) [0..<?m] = map (\<lambda>p. coefficients p ! 0) polys"
    by (rule nth_equalityI) auto
  finally have loop: "combine_loop (map ?share cs) ?xs [0..<?m] = Inr (map (\<lambda>p. coefficients p ! 0) polys)" .
  have "\<not> (\<exists>part \<in> set (tl (map ?share cs)). length part \<noteq> Suc ?m)"
    by (cases cs) auto
  then show ?thesis
    using polys(1) n hd cx loop by (simp add: Combine_def Let_def)
qed

lemma list_preimage:
  "\<forall>y \<in> set ys. \<exists>x \<in> A. y = f x \<Longrightarrow> \<exists>xs. ys = map f xs \<and> set xs \<subseteq> A"
proof (induction ys)
  case (Cons y ys)
  then obtain x xs where "x \<in> A" "y = f x" "ys = map f xs" "set xs \<subseteq> A" by auto
  then show ?case by (intro exI [of _ "x # xs"]) simp
qed simp

lemma split_combine_aux:
  assumes split: "Split secret parts threshold perm r = Inr (shares, r')"
    and perm: "perm255 perm"
    and sel: "distinct sel" "set sel \<subseteq> set shares" "threshold \<le> int (length sel)"
  shows "Combine sel = Inr secret"
proof -
  let ?polys = "split_polys secret (word_of_int (threshold - 1)) r"
  note S = Split_Inr [OF split]
  have deg: "unat ((word_of_int (threshold - 1) :: byte) + 1) = nat threshold"
    using S(1) by (intro split_degree) (auto simp: split_params_def)
  from sel(2) S(3) have "\<forall>s \<in> set sel. \<exists>c \<in> set (take (nat parts) perm). s = share_row ?polys c" by auto
  from list_preimage [OF this] obtain cs where
    cs: "sel = map (share_row ?polys) cs" "set cs \<subseteq> set (take (nat parts) perm)" by blast
  have "Combine (map (share_row ?polys) cs) = Inr (map (\<lambda>p. coefficients p ! 0) ?polys)"
  proof (rule Combine_shares)
    show "distinct cs" using sel(1) cs(1) by (simp add: distinct_map)
    show "c < 255" if "c \<in> set cs" for c
      using that cs(2) perm by (auto simp: perm255_def dest: in_set_takeD)
    show "?polys \<noteq> []" using S(1) by (metis length_0_conv length_split_polys split_params_def)
    show "length (coefficients p) = nat threshold" if "p \<in> set ?polys" for p
      using split_polys_length [OF _ _ that] S(1,2) deg by (auto simp: split_params_def)
    show "2 \<le> nat threshold" using S(1) by (auto simp: split_params_def)
    show "nat threshold \<le> length cs" using sel(3) cs(1) by simp
  qed
  also have "map (\<lambda>p. coefficients p ! 0) ?polys = secret"
    by (rule nth_equalityI) (auto simp: split_polys_intercept)
  finally show ?thesis using cs(1) by simp
qed

subsection \<open>Secrecy of fewer shares\<close>

text \<open>
  Through \<open>n - 1\<close> non-zero abscissas and any intercept there is exactly one choice of the remaining
  \<open>n - 1\<close> coefficients.
\<close>

lemma evaluate_eq_ext:
  assumes "length (coefficients p) = n" "length (coefficients q) = n" "0 < n"
    and X: "finite X" "n \<le> card X" "\<And>x. x \<in> X \<Longrightarrow> evaluate p x = evaluate q x"
  shows "evaluate p z = evaluate q z"
proof -
  let ?f = "\<lambda>p z. gf_of_byte (evaluate p (byte_of_gf z))"
  have "coefficients p \<noteq> []" "coefficients q \<noteq> []" using assms(1-3) by auto
  then have "poly_below n (?f p)" "poly_below n (?f q)"
    using poly_below_evaluate [of p] poly_below_evaluate [of q] by (simp_all only: assms(1,2) simp_thms)
  then have pb: "poly_below n (\<lambda>z. ?f p z - ?f q z)" by (rule poly_below_diff)
  have cX: "n \<le> card (gf_of_byte ` X)" using X by (simp add: card_image inj_on_def)
  have "?f p (gf_of_byte z) - ?f q (gf_of_byte z) = 0"
    by (rule poly_below_roots [OF pb _ cX])
      (use X in \<open>auto simp: gf_of_byte_inverse\<close>)
  then show ?thesis by (simp add: gf_of_byte_inverse)
qed

text \<open>The value at 1 of the generator powers separates coefficient lists: a polynomial that vanishes
  as a function and has fewer than 256 coefficients is the zero list.\<close>

lemma coefficients_zero:
  assumes "length cs \<le> 255" "\<And>z. (\<Sum>k<length cs. cs ! k * z ^ k) = (0::gf256)"
  shows "k < length cs \<Longrightarrow> cs ! k = 0"
  using assms
proof (induction cs arbitrary: k)
  case (Cons c cs)
  have sum: "c + z * (\<Sum>k<length cs. cs ! k * z ^ k) = 0" for z
    using Cons.prems(3) [of z]
    by (simp add: sum.lessThan_Suc_shift sum_distrib_left algebra_simps del: sum.lessThan_Suc)
  have c: "c = 0" using sum [of 0] by simp
  have "poly_below (length cs) (\<lambda>z. \<Sum>k<length cs. cs ! k * z ^ k)"
    by (rule poly_belowI [where c = "\<lambda>k. cs ! k"]) simp
  then have "(\<Sum>k<length cs. cs ! k * z ^ k) = 0" for z
  proof (rule poly_below_roots)
    show "finite (UNIV - {0::gf256})" by (rule finite_Diff [OF finite_gf256])
    show "length cs \<le> card (UNIV - {0::gf256})"
      using Cons.prems(2) by (simp add: card_gf256 card_Diff_singleton)
    show "(\<Sum>k<length cs. cs ! k * s ^ k) = 0" if "s \<in> UNIV - {0}" for s
      using sum [of s] that c by simp
  qed
  with Cons.IH [of "k - 1"] Cons.prems(1,2) c show ?case by (cases k) auto
qed simp

lemma coefficients_ext:
  assumes len: "length (coefficients p) = n" "length (coefficients q) = n" "0 < n" "n \<le> 255"
    and eq: "\<And>z. evaluate p z = evaluate q z"
  shows "coefficients p = coefficients q"
proof (rule nth_equalityI)
  let ?cs = "map2 (\<lambda>a b. gf_of_byte a - gf_of_byte b) (coefficients p) (coefficients q)"
  have "(\<Sum>k<length ?cs. ?cs ! k * gf_of_byte z ^ k) = 0" for z
  proof -
    have "coefficients p \<noteq> []" "coefficients q \<noteq> []" using len by auto
    from evaluate_poly [OF this(1), of z] evaluate_poly [OF this(2), of z] eq [of z]
    have "(\<Sum>k<n. gf_of_byte (coefficients p ! k) * gf_of_byte z ^ k) =
      (\<Sum>k<n. gf_of_byte (coefficients q ! k) * gf_of_byte z ^ k)" by (simp only: len(1,2))
    moreover have "(\<Sum>k<length ?cs. ?cs ! k * gf_of_byte z ^ k) =
      (\<Sum>k<n. gf_of_byte (coefficients p ! k) * gf_of_byte z ^ k) -
      (\<Sum>k<n. gf_of_byte (coefficients q ! k) * gf_of_byte z ^ k)"
      by (simp add: len left_diff_distrib sum_subtractf)
    ultimately show ?thesis by simp
  qed
  then have "(\<Sum>k<length ?cs. ?cs ! k * z ^ k) = 0" for z by (cases z) simp
  then have "?cs ! k = 0" if "k < n" for k
    using coefficients_zero [of ?cs k] that len by simp
  then show "coefficients p ! k = coefficients q ! k" if "k < length (coefficients p)" for k
    using that len by auto
qed (use len in simp)

lemma evaluate_0: "evaluate p 0 = coefficients p ! 0"
  by (simp add: evaluate_def)

lemma unique_polynomial:
  assumes X: "finite X" "0 \<notin> X" "card X = m" and m: "0 < m" "m < 255"
  shows "\<exists>!cs. length cs = m \<and> (\<forall>x \<in> X. evaluate \<lparr>coefficients = v # cs\<rparr> x = y x)"
proof (rule ex_ex1I)
  let ?S = "gf_of_byte ` insert 0 X"
  let ?y = "\<lambda>s. if s = 0 then gf_of_byte v else gf_of_byte (y (byte_of_gf s))"
  let ?f = "\<lambda>z. \<Sum>s\<in>?S. ?y s * (\<Prod>t\<in>?S - {s}. (z - t) / (s - t))"
  have S: "finite ?S" "card ?S = Suc m"
    using X by (simp, subst card_image) (simp_all add: inj_on_def)
  obtain c where c: "\<And>z. ?f z = (\<Sum>i<Suc m. c i * z ^ i)"
    using lagrange_poly_below [OF S(1), of ?y] unfolding S(2) poly_below_def by blast
  let ?cs = "map (\<lambda>i. byte_of_gf (c (Suc i))) [0..<m]"
  have f0: "c 0 = gf_of_byte v"
    using c [of 0] lagrange_nodes [OF S(1), of 0 ?y]
    by (simp add: gf_zero sum.lessThan_Suc_shift del: sum.lessThan_Suc)
  have "gf_of_byte (evaluate \<lparr>coefficients = v # ?cs\<rparr> x) = ?f (gf_of_byte x)" for x
    unfolding c by (simp add: evaluate_poly sum.lessThan_Suc_shift f0 byte_of_gf_inverse del: sum.lessThan_Suc)
  moreover have "?f (gf_of_byte x) = gf_of_byte (y x)" if "x \<in> X" for x
    using lagrange_nodes [OF S(1), of "gf_of_byte x" ?y] that X(2)
    by (auto simp: gf_zero_iff gf_of_byte_inverse)
  ultimately show "\<exists>cs. length cs = m \<and> (\<forall>x \<in> X. evaluate \<lparr>coefficients = v # cs\<rparr> x = y x)"
    by (intro exI [of _ ?cs]) (auto simp flip: gf_of_byte_eq_iff)
next
  fix cs ds
  let ?p = "\<lparr>coefficients = v # cs\<rparr>" and ?q = "\<lparr>coefficients = v # ds\<rparr>"
  assume cs: "length cs = m \<and> (\<forall>x \<in> X. evaluate ?p x = y x)"
    and ds: "length ds = m \<and> (\<forall>x \<in> X. evaluate ?q x = y x)"
  have "evaluate ?p z = evaluate ?q z" for z
    by (rule evaluate_eq_ext [where X = "insert 0 X" and n = "Suc m"])
      (use cs ds X in \<open>auto simp: evaluate_0\<close>)
  then have "coefficients ?p = coefficients ?q"
    by (rule coefficients_ext [where n = "Suc m", rotated -1]) (use cs ds m in auto)
  then show "cs = ds" by simp
qed

lemma unique_tape:
  assumes X: "finite X" "0 \<notin> X" "card X = m" and m: "0 < m" "m < 255" "unat (d + 1) - 1 = m"
  shows "\<exists>!r. length r = length vs * m \<and>
    (\<forall>i < length vs. \<forall>x \<in> X. evaluate (split_polys vs d r ! i) x = y i x)"
proof (induction vs arbitrary: y)
  case (Cons v vs)
  from unique_polynomial [OF X m(1,2), of v "y 0"] obtain cs where
    cs: "length cs = m" "\<forall>x \<in> X. evaluate \<lparr>coefficients = v # cs\<rparr> x = y 0 x"
    and cs_uniq: "\<And>ds. length ds = m \<Longrightarrow> \<forall>x \<in> X. evaluate \<lparr>coefficients = v # ds\<rparr> x = y 0 x \<Longrightarrow> ds = cs"
    by blast
  from Cons.IH [of "\<lambda>i. y (Suc i)"] obtain r where
    r: "length r = length vs * m"
      "\<forall>i < length vs. \<forall>x \<in> X. evaluate (split_polys vs d r ! i) x = y (Suc i) x"
    and r_uniq: "\<And>r'. length r' = length vs * m \<Longrightarrow>
      \<forall>i < length vs. \<forall>x \<in> X. evaluate (split_polys vs d r' ! i) x = y (Suc i) x \<Longrightarrow> r' = r"
    by blast
  show ?case
  proof (rule ex1I)
    show "length (cs @ r) = length (v # vs) * m \<and> (\<forall>i < length (v # vs). \<forall>x \<in> X.
      evaluate (split_polys (v # vs) d (cs @ r) ! i) x = y i x)"
      using cs r by (auto simp: nth_Cons' m(3) [simplified])
  next
    fix r' assume r': "length r' = length (v # vs) * m \<and> (\<forall>i < length (v # vs). \<forall>x \<in> X.
      evaluate (split_polys (v # vs) d r' ! i) x = y i x)"
    have "take m r' = cs"
      by (rule cs_uniq) (use r' [THEN conjunct2, rule_format, of 0] r' in \<open>auto simp: m(3) [simplified]\<close>)
    moreover have "drop m r' = r"
      by (rule r_uniq) (use r' [THEN conjunct2, rule_format, of "Suc _"] r' in \<open>auto simp: m(3) [simplified]\<close>)
    ultimately show "r' = cs @ r" by (metis append_take_drop_id)
  qed
qed simp

lemma x_coordinates:
  assumes "perm255 perm" "K \<subseteq> {..<n}" "n \<le> 255"
  shows "finite ((\<lambda>k. x_coordinate (perm ! k)) ` K)" "0 \<notin> (\<lambda>k. x_coordinate (perm ! k)) ` K"
    "card ((\<lambda>k. x_coordinate (perm ! k)) ` K) = card K"
proof -
  have P: "perm ! k < 255" if "k \<in> K" for k
  proof -
    have "k < length perm" using that assms by (auto simp: perm255_def)
    from nth_mem [OF this] show ?thesis using assms(1) by (auto simp: perm255_def)
  qed
  show "finite ((\<lambda>k. x_coordinate (perm ! k)) ` K)" using assms(2) by (simp add: finite_subset)
  show "0 \<notin> (\<lambda>k. x_coordinate (perm ! k)) ` K" using x_coordinate_nonzero P by fastforce
  have "inj_on (\<lambda>k. x_coordinate (perm ! k)) K"
  proof (rule inj_onI)
    fix j k assume jk: "j \<in> K" "k \<in> K" "x_coordinate (perm ! j) = x_coordinate (perm ! k)"
    then have "perm ! j = perm ! k" using P by (simp add: x_coordinate_inj)
    moreover have "j < length perm" "k < length perm" using jk assms by (auto simp: perm255_def)
    ultimately show "j = k" using assms(1) by (simp add: perm255_def nth_eq_iff_index_eq)
  qed
  then show "card ((\<lambda>k. x_coordinate (perm ! k)) ` K) = card K" by (rule card_image)
qed

lemma share_row_agree:
  assumes "length ps = length qs"
  shows "share_row ps c = share_row qs c \<longleftrightarrow>
    (\<forall>i < length ps. evaluate (ps ! i) (x_coordinate c) = evaluate (qs ! i) (x_coordinate c))"
proof -
  have "share_row ps c = share_row qs c \<longleftrightarrow>
    map (\<lambda>p. evaluate p (x_coordinate c)) ps = map (\<lambda>p. evaluate p (x_coordinate c)) qs"
    by (simp add: share_row_def)
  also have "\<dots> \<longleftrightarrow> (\<forall>i < length ps. evaluate (ps ! i) (x_coordinate c) = evaluate (qs ! i) (x_coordinate c))"
    using assms by (auto simp: list_eq_iff_nth_eq)
  finally show ?thesis .
qed

lemma secrecy_aux:
  assumes split: "Split secret parts threshold perm r = Inr (shares, r')"
    and perm: "perm255 perm" and len: "length secret' = length secret"
    and K: "K \<subseteq> {..<nat parts}" "int (card K) = threshold - 1"
  shows "\<exists>!r2. length r2 = length secret * (nat threshold - 1) \<and>
    (\<exists>shares2. Split secret' parts threshold perm r2 = Inr (shares2, []) \<and> (\<forall>k \<in> K. shares2 ! k = shares ! k))"
proof -
  let ?d = "word_of_int (threshold - 1) :: byte" and ?X = "(\<lambda>k. x_coordinate (perm ! k)) ` K"
  let ?ps = "split_polys secret ?d r" and ?m = "nat threshold - 1"
  note S = Split_Inr [OF split]
  have par: "split_params secret' parts threshold" and b: "2 \<le> threshold" "threshold \<le> 255" "nat parts \<le> 255"
    using S(1) len by (auto simp: split_params_def)
  have deg: "unat (?d + 1) - 1 = ?m" using split_degree [of threshold] b by simp
  note X = x_coordinates [OF perm K(1) b(3)]
  have cX: "card ?X = ?m" using X(3) K(2) b by simp
  have uniq: "\<exists>!r2. length r2 = length secret' * ?m \<and> (\<forall>i < length secret'. \<forall>x \<in> ?X.
      evaluate (split_polys secret' ?d r2 ! i) x = evaluate (?ps ! i) x)"
    by (rule unique_tape [OF X(1,2) cX _ _ deg]) (use b in auto)
  have "(\<exists>shares2. Split secret' parts threshold perm r2 = Inr (shares2, []) \<and> (\<forall>k \<in> K. shares2 ! k = shares ! k))
    \<longleftrightarrow> (\<forall>i < length secret'. \<forall>x \<in> ?X. evaluate (split_polys secret' ?d r2 ! i) x = evaluate (?ps ! i) x)"
    if r2: "length r2 = length secret' * ?m" for r2
  proof -
    have k: "k < length (take (nat parts) perm)" "take (nat parts) perm ! k = perm ! k" if "k \<in> K" for k
      using that K(1) b(3) perm by (auto simp: perm255_def)
    have "Split secret' parts threshold perm r2 =
        Inr (map (share_row (split_polys secret' ?d r2)) (take (nat parts) perm), [])"
      using Split_valid [OF par, of r2 perm] r2 by simp
    then have "(\<exists>shares2. Split secret' parts threshold perm r2 = Inr (shares2, []) \<and>
        (\<forall>k \<in> K. shares2 ! k = shares ! k)) \<longleftrightarrow>
      (\<forall>k \<in> K. share_row (split_polys secret' ?d r2) (perm ! k) = share_row ?ps (perm ! k))"
      using k by (simp add: S(3))
    also have "\<dots> \<longleftrightarrow> (\<forall>i < length secret'. \<forall>x \<in> ?X.
        evaluate (split_polys secret' ?d r2 ! i) x = evaluate (?ps ! i) x)"
      using share_row_agree [of "split_polys secret' ?d r2" ?ps] len by auto
    finally show ?thesis .
  qed
  then show ?thesis using uniq unfolding len by (simp cong: conj_cong)
qed

text \<open>The shares of a valid split.\<close>

lemma Split_ok:
  assumes perm: "perm255 perm" and par: "split_params secret parts threshold"
    and rnd: "length secret * (nat threshold - 1) \<le> length r"
  shows "\<exists>shares r'. Split secret parts threshold perm r = Inr (shares, r') \<and>
      int (length shares) = parts \<and> distinct shares \<and>
      (\<forall>s \<in> set shares. length s = length secret + 1) \<and>
      length r' + length secret * (nat threshold - 1) = length r"
proof -
  let ?ps = "split_polys secret (word_of_int (threshold - 1)) r" and ?cs = "take (nat parts) perm"
  have "inj_on (share_row ?ps) (set ?cs)"
    using perm by (auto simp: inj_on_def share_row_def perm255_def x_coordinate_inj subset_eq dest!: in_set_takeD)
  moreover have "distinct ?cs" "int (length ?cs) = parts"
    using perm par by (auto simp: perm255_def split_params_def)
  ultimately show ?thesis
    using Split_valid [OF par rnd, of perm] rnd by (auto simp: distinct_map)
qed

subsection \<open>The contract of the package\<close>

text \<open>
  C3. Recovery: whatever random bytes and permutation \<^verbatim>\<open>Split\<close> used, \<^verbatim>\<open>Combine\<close> applied to any
  selection of at least \<open>threshold\<close> different shares, in any order, returns exactly the secret.
\<close>

theorem split_combine:
  assumes "Split secret parts threshold perm r = Inr (shares, r')"
    and "perm255 perm"
    and "distinct sel" "set sel \<subseteq> set shares" "threshold \<le> int (length sel)"
  shows "Combine sel = Inr secret"
  by (rule split_combine_aux [OF assms])

text \<open>
  C16. Secrecy: given the \<open>threshold - 1\<close> shares with indices \<open>K\<close> of a split, every other secret of the
  same length is explained by exactly one tape of random bytes. Under uniform random bytes these
  shares therefore carry no information about the secret.
\<close>

theorem split_perfect_secrecy:
  assumes "Split secret parts threshold perm r = Inr (shares, r')"
    and "perm255 perm" and "length secret' = length secret"
    and "K \<subseteq> {..<nat parts}" "int (card K) = threshold - 1"
  shows "\<exists>!r2. length r2 = length secret * (nat threshold - 1) \<and>
    (\<exists>shares2. Split secret' parts threshold perm r2 = Inr (shares2, []) \<and>
      (\<forall>k \<in> K. shares2 ! k = shares ! k))"
  by (rule secrecy_aux [OF assms])

text \<open>
  \<^verbatim>\<open>Split\<close> succeeds exactly on \<open>2 \<le> threshold \<le> parts \<le> 255\<close> and a non-empty secret with enough
  random bytes; it then returns \<open>parts\<close> pairwise different shares, each one byte longer than the
  secret, and consumes \<open>threshold - 1\<close> random bytes per byte of the secret.
\<close>

theorem split_succeeds_iff:
  assumes "perm255 perm"
  shows "(\<exists>shares r'. Split secret parts threshold perm r = Inr (shares, r') \<and>
      int (length shares) = parts \<and> distinct shares \<and>
      (\<forall>s \<in> set shares. length s = length secret + 1) \<and>
      length r' + length secret * (nat threshold - 1) = length r) \<longleftrightarrow>
    2 \<le> threshold \<and> threshold \<le> parts \<and> parts \<le> 255 \<and> secret \<noteq> [] \<and>
    length secret * (nat threshold - 1) \<le> length r"
    (is "?L \<longleftrightarrow> ?R")
proof
  assume ?L
  then show ?R using Split_Inr by (metis split_params_def)
next
  assume ?R
  then show ?L using Split_ok [OF assms, of secret parts threshold r] by (auto simp: split_params_def)
qed

text \<open>Witnesses: a two-of-two split of one byte, with the identity permutation.\<close>

lemma perm255_upt: "perm255 [0..<255]"
  by (auto simp: perm255_def)

lemma split_example: "Split [0x2a] 2 2 [0..<255] [7] = Inr ([[0x2d, 1], [0x24, 2]], [])"
  by code_simp

theorem split_combine_witness: "Combine [[0x24, 2], [0x2d, 1]] = Inr [0x2a]"
  by (rule split_combine [OF split_example perm255_upt]) simp_all

theorem split_perfect_secrecy_witness:
  "\<exists>!r2. length r2 = 1 \<and> (\<exists>shares2. Split [0xff] 2 2 [0..<255] r2 = Inr (shares2, []) \<and>
    (\<forall>k \<in> {1}. shares2 ! k = [[0x2d, 1], [0x24, 2]] ! k))"
  using split_perfect_secrecy [OF split_example perm255_upt, of "[0xff]" "{1}"] by simp

theorem split_succeeds_iff_witness:
  "\<exists>shares r'. Split [0x2a] 2 2 [0..<255] [7] = Inr (shares, r') \<and> length shares = 2"
proof -
  have "\<exists>shares r'. Split [0x2a] 2 2 [0..<255] [7] = Inr (shares, r') \<and> int (length shares) = 2"
    using split_succeeds_iff [OF perm255_upt, of "[0x2a]" 2 2 "[7]"] by auto
  then show ?thesis by simp
qed

end
