(* ===== verification/Envelope.thy ===== *)
theory Envelope
  imports Std_Crypto Shamir "HOL-Library.Sublist"
begin

section \<open>Envelope encryption\<close>

text \<open>
  \<^verbatim>\<open>internal/crypto/aead.go\<close>, \<^verbatim>\<open>keys.go\<close>, \<^verbatim>\<open>errors.go\<close> and the additional data of \<^verbatim>\<open>sign.go\<close> and
  \<^verbatim>\<open>unseal.go\<close>: authenticated encryption under a 32-byte key with a random nonce, the stored form of a
  ciphertext, key wrapping, and the additional authenticated data (AAD) that binds every stored
  ciphertext to its slot. A function that draws from \<^verbatim>\<open>randReader\<close> takes the bytes the reader still
  has and returns those it leaves. The theorems: decryption inverts encryption and accepts nothing
  else, the stored form round-trips, and the AADs of different slots are different byte strings.
\<close>

subsection \<open>Errors and data\<close>

text \<open>
  The sentinel errors of \<^verbatim>\<open>errors.go\<close>; then the errors that come from elsewhere: the random reader,
  the panic of \<^verbatim>\<open>Seal\<close> on an oversized message, \<^verbatim>\<open>shamir.Split\<close>, the seal-config store, the KMS and
  the caller's functions.
\<close>

datatype crypto_err =
    ErrSealed | ErrAlreadyUnsealed | ErrInvalidKeySize | ErrDecryptFailed | ErrInvalidShare
  | ErrDuplicateShare | ErrNotEnoughShares | ErrKeyCheckFailed | ErrNoSealConfig
  | ErrAlreadyInitialized | ErrInvalidSealConfig
  | ErrRandom | PanicMessageTooLarge | ErrShamir shamir_err | ErrExternal string

definition KeySize :: nat where "KeySize = 32"
definition NonceSize :: nat where "NonceSize = 12"
definition ciphertextFormatVersion :: byte where "ciphertextFormatVersion = 1"
definition minMarshaledLen :: nat where "minMarshaledLen = 1 + 4 + NonceSize + 16"

lemmas sizes = KeySize_def NonceSize_def ciphertextFormatVersion_def minMarshaledLen_def

record Ciphertext =
  KeyVersion :: "32 word"
  Nonce :: bytes
  Data :: bytes

subsection \<open>The AEAD\<close>

text \<open>The two methods of Go's \<^verbatim>\<open>cipher.AEAD\<close> the program calls: \<open>Seal nonce plaintext aad\<close> (\<open>None\<close>: it
  panics) and \<open>Open nonce data aad\<close> (\<open>None\<close>: an error).\<close>

record AEAD =
  Seal_aead :: "bytes \<Rightarrow> bytes \<Rightarrow> bytes \<Rightarrow> bytes option"
  Open_aead :: "bytes \<Rightarrow> bytes \<Rightarrow> bytes \<Rightarrow> bytes option"

text \<open>\<^verbatim>\<open>aes.NewCipher\<close> accepts keys of 16, 24 and 32 bytes.\<close>

definition newAEAD :: "bytes \<Rightarrow> AEAD option" where
  "newAEAD key =
    (if length key \<in> {16, 24, 32}
     then Some \<lparr>Seal_aead = gcm_seal (aes_block key), Open_aead = gcm_open (aes_block key)\<rparr>
     else None)"

text \<open>\<^verbatim>\<open>Encrypt\<close> returns a ciphertext whose key version is Go's zero value.\<close>

definition Encrypt :: "bytes \<Rightarrow> bytes \<Rightarrow> bytes \<Rightarrow> rng \<Rightarrow> crypto_err + (Ciphertext \<times> rng)" where
  "Encrypt key plaintext aad r =
    (if length key \<noteq> KeySize then Inl ErrInvalidKeySize
     else case newAEAD key of
       None \<Rightarrow> Inl ErrInvalidKeySize
     | Some aead \<Rightarrow>
        (case readFull NonceSize r of
           None \<Rightarrow> Inl ErrRandom
         | Some (nonce, r') \<Rightarrow>
            (case Seal_aead aead nonce plaintext aad of
               None \<Rightarrow> Inl PanicMessageTooLarge
             | Some d \<Rightarrow> Inr (\<lparr>KeyVersion = 0, Nonce = nonce, Data = d\<rparr>, r'))))"

definition Decrypt :: "bytes \<Rightarrow> Ciphertext \<Rightarrow> bytes \<Rightarrow> crypto_err + bytes" where
  "Decrypt key ct aad =
    (if length key \<noteq> KeySize then Inl ErrInvalidKeySize
     else if length (Nonce ct) \<noteq> NonceSize then Inl ErrDecryptFailed
     else case newAEAD key of
       None \<Rightarrow> Inl ErrDecryptFailed
     | Some aead \<Rightarrow>
        (case Open_aead aead (Nonce ct) (Data ct) aad of
           None \<Rightarrow> Inl ErrDecryptFailed
         | Some plaintext \<Rightarrow> Inr plaintext))"

definition Marshal :: "Ciphertext \<Rightarrow> bytes" where
  "Marshal c = [ciphertextFormatVersion] @ be32 (KeyVersion c) @ Nonce c @ Data c"

definition ParseCiphertext :: "bytes \<Rightarrow> crypto_err + Ciphertext" where
  "ParseCiphertext b =
    (if length b < minMarshaledLen then Inl ErrDecryptFailed
     else if b ! 0 \<noteq> ciphertextFormatVersion then Inl ErrDecryptFailed
     else Inr \<lparr>KeyVersion = of_be32 (take 4 (drop 1 b)),
               Nonce = take NonceSize (drop 5 b),
               Data = drop (5 + NonceSize) b\<rparr>)"

subsection \<open>Keys\<close>

definition GenerateKey :: "rng \<Rightarrow> crypto_err + (bytes \<times> rng)" where
  "GenerateKey r = (case readFull KeySize r of None \<Rightarrow> Inl ErrRandom | Some kr \<Rightarrow> Inr kr)"

definition WrapKey :: "bytes \<Rightarrow> bytes \<Rightarrow> bytes \<Rightarrow> rng \<Rightarrow> crypto_err + (Ciphertext \<times> rng)" where
  "WrapKey wrappingKey keyMaterial aad r =
    (if length keyMaterial \<noteq> KeySize then Inl ErrInvalidKeySize
     else Encrypt wrappingKey keyMaterial aad r)"

definition UnwrapKey :: "bytes \<Rightarrow> Ciphertext \<Rightarrow> bytes \<Rightarrow> crypto_err + bytes" where
  "UnwrapKey wrappingKey ct aad =
    bind_err (Decrypt wrappingKey ct aad) (\<lambda>key.
      if length key \<noteq> KeySize then Inl ErrDecryptFailed else Inr key)"

subsection \<open>Additional authenticated data\<close>

definition appendField :: "bytes \<Rightarrow> string \<Rightarrow> bytes" where
  "appendField b field = b @ be64 (word_of_nat (length field)) @ bytes_of field"

definition ProjectKEKAAD :: "string \<Rightarrow> bytes" where
  "ProjectKEKAAD projectID = appendField (bytes_of ''janus:kek:project'') projectID"

definition AuthKeyAAD :: bytes where
  "AuthKeyAAD = bytes_of ''janus:auth:token-hmac''"

definition OIDCClientSecretAAD :: bytes where
  "OIDCClientSecretAAD = bytes_of ''janus:auth:oidc-client-secret''"

definition RotationConfigAAD :: "string \<Rightarrow> bytes" where
  "RotationConfigAAD policyID = appendField (bytes_of ''janus:rotation:config'') policyID"

definition RotationPendingAAD :: "string \<Rightarrow> bytes" where
  "RotationPendingAAD policyID = appendField (bytes_of ''janus:rotation:pending'') policyID"

definition SyncCredsAAD :: "string \<Rightarrow> bytes" where
  "SyncCredsAAD targetID = appendField (bytes_of ''janus:sync:creds'') targetID"

definition DynamicConfigAAD :: "string \<Rightarrow> bytes" where
  "DynamicConfigAAD roleID = appendField (bytes_of ''janus:dynamic:config'') roleID"

definition NotificationChannelAAD :: "string \<Rightarrow> bytes" where
  "NotificationChannelAAD channelID = appendField (bytes_of ''janus:notification:channel'') channelID"

definition TOTPSecretAAD :: "string \<Rightarrow> bytes" where
  "TOTPSecretAAD userID = appendField (bytes_of ''janus:auth:totp-secret'') userID"

definition ConfigEditRequestAAD :: "string \<Rightarrow> string \<Rightarrow> bytes" where
  "ConfigEditRequestAAD projectID configID =
    appendField (appendField (bytes_of ''janus:config-edit-request'') projectID) configID"

definition DEKAAD :: "string \<Rightarrow> string \<Rightarrow> 64 word \<Rightarrow> bytes" where
  "DEKAAD projectID secretPath version =
    appendField (appendField (bytes_of ''janus:dek'') projectID) secretPath @ be64 version"

text \<open>\<^verbatim>\<open>TransitKeyAAD\<close> (\<^verbatim>\<open>sign.go\<close>) writes the Go \<^verbatim>\<open>int\<close> version as a 64-bit word.\<close>

definition TransitKeyAAD :: "string \<Rightarrow> int \<Rightarrow> bytes" where
  "TransitKeyAAD name version =
    bytes_of ''janus:transit:v1'' @ be64 (word_of_nat (length name)) @ bytes_of name @
    be64 (word_of_int version)"

definition kcvAAD :: bytes where
  "kcvAAD = bytes_of ''janus:kcv''"

subsection \<open>The contract of an AEAD\<close>

text \<open>
  What the clients rely on: sealing and opening are inverse to each other, in both directions, for
  each nonce and AAD, and sealing adds a tag of 16 bytes.
\<close>

locale aead =
  fixes seal op :: "bytes \<Rightarrow> bytes \<Rightarrow> bytes \<Rightarrow> bytes option"
  assumes open_of_seal: "seal n p a = Some d \<Longrightarrow> op n d a = Some p"
    and seal_of_open: "op n d a = Some p \<Longrightarrow> seal n p a = Some d"
    and seal_len: "seal n p a = Some d \<Longrightarrow> length d = length p + 16"
begin

lemma open_iff_seal: "op n d a = Some p \<longleftrightarrow> seal n p a = Some d"
  using open_of_seal seal_of_open by blast

lemma seal_injective: "seal n p a = Some d \<Longrightarrow> seal n q a = Some d \<Longrightarrow> p = q"
  by (metis open_of_seal option.inject)

lemma open_short: "length d < 16 \<Longrightarrow> op n d a = None"
  using seal_of_open seal_len by (cases "op n d a") fastforce+

end

interpretation gcm: aead "gcm_seal e" "gcm_open e" for e
  by unfold_locales (auto intro: gcm_open_seal gcm_seal_open gcm_seal_length)

subsection \<open>Encryption and decryption\<close>

lemma newAEAD_KeySize:
  "length key = KeySize \<Longrightarrow> newAEAD key =
    Some \<lparr>Seal_aead = gcm_seal (aes_block key), Open_aead = gcm_open (aes_block key)\<rparr>"
  by (simp add: newAEAD_def sizes)

lemma Encrypt_Inr [go_result]:
  "Encrypt key p aad r = Inr (ct, r') \<longleftrightarrow>
    length key = KeySize \<and> NonceSize \<le> length r \<and> r' = drop NonceSize r \<and> KeyVersion ct = 0 \<and>
    Nonce ct = take NonceSize r \<and> gcm_seal (aes_block key) (Nonce ct) p aad = Some (Data ct)"
proof (cases "length key = KeySize \<and> NonceSize \<le> length r")
  case True
  then show ?thesis
    by (cases ct) (auto simp: Encrypt_def newAEAD_KeySize readFull_def split: option.splits)
next
  case False
  then show ?thesis
    by (auto simp: Encrypt_def newAEAD_KeySize readFull_def split: option.splits)
qed

lemma Decrypt_Inr [go_result]:
  "Decrypt key ct aad = Inr p \<longleftrightarrow>
    length key = KeySize \<and> length (Nonce ct) = NonceSize \<and>
    gcm_seal (aes_block key) (Nonce ct) p aad = Some (Data ct)"
proof (cases "length key = KeySize \<and> length (Nonce ct) = NonceSize")
  case True
  then have "Decrypt key ct aad = Inr p \<longleftrightarrow> gcm_open (aes_block key) (Nonce ct) (Data ct) aad = Some p"
    by (auto simp: Decrypt_def newAEAD_KeySize split: option.splits)
  with True show ?thesis by (simp add: gcm.open_iff_seal)
qed (auto simp: Decrypt_def)

lemma Decrypt_Inl:
  "Decrypt key ct aad = Inl e \<Longrightarrow> length key = KeySize \<Longrightarrow> e = ErrDecryptFailed"
  by (auto simp: Decrypt_def split: if_splits option.splits)

lemma Decrypt_Encrypt:
  "Encrypt key p aad r = Inr (ct, r') \<Longrightarrow> Decrypt key ct aad = Inr p"
  by (auto simp: go_result)

lemma Decrypt_KeyVersion [simp]: "Decrypt key (ct\<lparr>KeyVersion := v\<rparr>) aad = Decrypt key ct aad"
  by (simp add: Decrypt_def cong: option.case_cong)

lemma Encrypt_ok:
  "length key = KeySize \<Longrightarrow> NonceSize \<le> length r \<Longrightarrow> length p \<le> gcm_limit \<Longrightarrow>
    \<exists>ct. Encrypt key p aad r = Inr (ct, drop NonceSize r)"
  using gcm_seal_Some_iff [of "aes_block key" "take NonceSize r" p aad]
  by (auto simp: Encrypt_def newAEAD_KeySize readFull_def)

lemma Encrypt_wf:
  "Encrypt key p aad r = Inr (ct, r') \<Longrightarrow>
    length (Nonce ct) = NonceSize \<and> length (Data ct) = length p + 16"
  by (auto simp: go_result dest: gcm.seal_len)

lemma KeySize_le_gcm_limit: "KeySize \<le> gcm_limit"
  by (simp add: sizes gcm_limit_def)

subsection \<open>The stored form\<close>

lemma Marshal_length [enc_len]: "length (Marshal c) = 5 + length (Nonce c) + length (Data c)"
  by (simp add: Marshal_def)

lemma ParseCiphertext_Marshal:
  assumes "length (Nonce c) = NonceSize" "16 \<le> length (Data c)"
  shows "ParseCiphertext (Marshal c) = Inr c"
proof -
  obtain b0 b1 b2 b3 where b: "be32 (KeyVersion c) = [b0, b1, b2, b3]"
    by (simp add: be32_def)
  then have "of_be32 [b0, b1, b2, b3] = KeyVersion c" by (metis of_be32_be32)
  then show ?thesis
    using assms by (cases c) (simp add: ParseCiphertext_def Marshal_def sizes b)
qed

lemma Marshal_ParseCiphertext:
  assumes "ParseCiphertext b = Inr c"
  shows "Marshal c = b" "length (Nonce c) = NonceSize" "16 \<le> length (Data c)"
proof -
  from assms have len: "33 \<le> length b" and hd: "b ! 0 = ciphertextFormatVersion"
    and c: "c = \<lparr>KeyVersion = of_be32 (take 4 (drop 1 b)), Nonce = take NonceSize (drop 5 b),
      Data = drop (5 + NonceSize) b\<rparr>"
    by (auto simp: ParseCiphertext_def sizes split: if_splits)
  have "take 1 b = [b ! 0]" using len by (cases b) auto
  moreover have "b = take 1 b @ take 4 (drop 1 b) @ take 12 (drop 5 b) @ drop 17 b"
    using append_take_drop_id [of 1 b] append_take_drop_id [of 4 "drop 1 b"]
      append_take_drop_id [of 12 "drop 5 b"] by simp
  ultimately have "b = [ciphertextFormatVersion] @ take 4 (drop 1 b) @ take 12 (drop 5 b) @ drop 17 b"
    by (simp only: hd)
  moreover have "be32 (of_be32 (take 4 (drop 1 b))) = take 4 (drop 1 b)"
    using len by (intro be32_of_be32) simp
  ultimately show "Marshal c = b"
    unfolding Marshal_def c NonceSize_def by simp
  show "length (Nonce c) = NonceSize" "16 \<le> length (Data c)"
    using len by (simp_all add: c sizes)
qed

lemma ParseCiphertext_Encrypt:
  "Encrypt key p aad r = Inr (ct, r') \<Longrightarrow> ParseCiphertext (Marshal ct) = Inr ct"
  using Encrypt_wf by (intro ParseCiphertext_Marshal) fastforce+

subsection \<open>Key wrapping\<close>

lemma UnwrapKey_WrapKey:
  "WrapKey wk key aad r = Inr (ct, r') \<Longrightarrow> UnwrapKey wk ct aad = Inr key \<and> length key = KeySize"
  by (auto simp: WrapKey_def UnwrapKey_def Decrypt_Encrypt split: if_splits)

lemma WrapKey_ok:
  "length wk = KeySize \<Longrightarrow> length key = KeySize \<Longrightarrow> NonceSize \<le> length r \<Longrightarrow>
    \<exists>ct. WrapKey wk key aad r = Inr (ct, drop NonceSize r)"
  using Encrypt_ok [of wk r key aad] KeySize_le_gcm_limit by (auto simp: WrapKey_def)

lemma UnwrapKey_Inr [go_result]:
  "UnwrapKey wk ct aad = Inr key \<longleftrightarrow> Decrypt wk ct aad = Inr key \<and> length key = KeySize"
  by (auto simp: UnwrapKey_def bind_err_Inr split: if_splits)

lemma GenerateKey_Inr [go_result]:
  "GenerateKey r = Inr (k, r') \<longleftrightarrow> KeySize \<le> length r \<and> k = take KeySize r \<and> r' = drop KeySize r"
  by (auto simp: GenerateKey_def readFull_def)

lemma GenerateKey_length: "GenerateKey r = Inr (k, r') \<Longrightarrow> length k = KeySize"
  by (auto simp: GenerateKey_Inr)

subsection \<open>Separation of the slots\<close>

text \<open>
  Every slot a ciphertext can be stored in, with the AAD the code computes for it. \<open>slot_ok\<close> is what
  Go's types give: a string's length fits an \<^verbatim>\<open>int\<close>, and so does a transit key version.
\<close>

datatype slot =
    ProjectKEK_slot string | AuthKey_slot | OIDCClientSecret_slot | RotationConfig_slot string
  | RotationPending_slot string | SyncCreds_slot string | DynamicConfig_slot string
  | NotificationChannel_slot string | TOTPSecret_slot string | ConfigEditRequest_slot string string
  | DEK_slot string string "64 word" | TransitKey_slot string int | KCV_slot

fun aad_of :: "slot \<Rightarrow> bytes" where
  "aad_of (ProjectKEK_slot i) = ProjectKEKAAD i"
| "aad_of AuthKey_slot = AuthKeyAAD"
| "aad_of OIDCClientSecret_slot = OIDCClientSecretAAD"
| "aad_of (RotationConfig_slot i) = RotationConfigAAD i"
| "aad_of (RotationPending_slot i) = RotationPendingAAD i"
| "aad_of (SyncCreds_slot i) = SyncCredsAAD i"
| "aad_of (DynamicConfig_slot i) = DynamicConfigAAD i"
| "aad_of (NotificationChannel_slot i) = NotificationChannelAAD i"
| "aad_of (TOTPSecret_slot i) = TOTPSecretAAD i"
| "aad_of (ConfigEditRequest_slot p c) = ConfigEditRequestAAD p c"
| "aad_of (DEK_slot p s v) = DEKAAD p s v"
| "aad_of (TransitKey_slot n v) = TransitKeyAAD n v"
| "aad_of KCV_slot = kcvAAD"

fun slot_ok :: "slot \<Rightarrow> bool" where
  "slot_ok (ConfigEditRequest_slot p c) \<longleftrightarrow> length p < 2 ^ 63 \<and> length c < 2 ^ 63"
| "slot_ok (DEK_slot p s v) \<longleftrightarrow> length p < 2 ^ 63 \<and> length s < 2 ^ 63"
| "slot_ok (TransitKey_slot n v) \<longleftrightarrow> length n < 2 ^ 63 \<and> - (2 ^ 63) \<le> v \<and> v < 2 ^ 63"
| "slot_ok _ \<longleftrightarrow> True"

text \<open>The tag each AAD starts with, and what follows it.\<close>

fun slot_tag :: "slot \<Rightarrow> string" where
  "slot_tag (ProjectKEK_slot i) = ''janus:kek:project''"
| "slot_tag AuthKey_slot = ''janus:auth:token-hmac''"
| "slot_tag OIDCClientSecret_slot = ''janus:auth:oidc-client-secret''"
| "slot_tag (RotationConfig_slot i) = ''janus:rotation:config''"
| "slot_tag (RotationPending_slot i) = ''janus:rotation:pending''"
| "slot_tag (SyncCreds_slot i) = ''janus:sync:creds''"
| "slot_tag (DynamicConfig_slot i) = ''janus:dynamic:config''"
| "slot_tag (NotificationChannel_slot i) = ''janus:notification:channel''"
| "slot_tag (TOTPSecret_slot i) = ''janus:auth:totp-secret''"
| "slot_tag (ConfigEditRequest_slot p c) = ''janus:config-edit-request''"
| "slot_tag (DEK_slot p s v) = ''janus:dek''"
| "slot_tag (TransitKey_slot n v) = ''janus:transit:v1''"
| "slot_tag KCV_slot = ''janus:kcv''"

fun slot_rest :: "slot \<Rightarrow> bytes" where
  "slot_rest (ConfigEditRequest_slot p c) = appendField (appendField [] p) c"
| "slot_rest (DEK_slot p s v) = appendField (appendField [] p) s @ be64 v"
| "slot_rest (TransitKey_slot n v) = appendField [] n @ be64 (word_of_int v)"
| "slot_rest (ProjectKEK_slot i) = appendField [] i"
| "slot_rest (RotationConfig_slot i) = appendField [] i"
| "slot_rest (RotationPending_slot i) = appendField [] i"
| "slot_rest (SyncCreds_slot i) = appendField [] i"
| "slot_rest (DynamicConfig_slot i) = appendField [] i"
| "slot_rest (NotificationChannel_slot i) = appendField [] i"
| "slot_rest (TOTPSecret_slot i) = appendField [] i"
| "slot_rest AuthKey_slot = []"
| "slot_rest OIDCClientSecret_slot = []"
| "slot_rest KCV_slot = []"

lemmas aad_defs = ProjectKEKAAD_def AuthKeyAAD_def OIDCClientSecretAAD_def RotationConfigAAD_def
  RotationPendingAAD_def SyncCredsAAD_def DynamicConfigAAD_def NotificationChannelAAD_def
  TOTPSecretAAD_def ConfigEditRequestAAD_def DEKAAD_def TransitKeyAAD_def kcvAAD_def

lemma aad_of_tag: "aad_of s = bytes_of (slot_tag s) @ slot_rest s"
  by (cases s) (simp_all add: aad_defs appendField_def)

definition slot_tags :: "string list" where
  "slot_tags = [''janus:kek:project'', ''janus:auth:token-hmac'', ''janus:auth:oidc-client-secret'',
    ''janus:rotation:config'', ''janus:rotation:pending'', ''janus:sync:creds'',
    ''janus:dynamic:config'', ''janus:notification:channel'', ''janus:auth:totp-secret'',
    ''janus:config-edit-request'', ''janus:dek'', ''janus:transit:v1'', ''janus:kcv'']"

lemma slot_tag_in_tags: "slot_tag s \<in> set slot_tags"
  by (cases s) (simp_all add: slot_tags_def)

text \<open>No tag is a prefix of another one.\<close>

lemma slot_tags_prefix_free:
  "\<forall>t \<in> set slot_tags. \<forall>u \<in> set slot_tags. prefix t u \<longrightarrow> t = u"
  by code_simp

lemma bytes_of_prefix: "prefix (bytes_of s) (bytes_of t) \<Longrightarrow> prefix s t"
proof -
  assume "prefix (bytes_of s) (bytes_of t)"
  then have "bytes_of s = bytes_of (take (length s) t)"
    by (auto simp: prefix_def bytes_of_def take_map [symmetric])
  then show ?thesis by (metis bytes_of_eq_iff take_is_prefix)
qed

lemma aad_of_eq_tag: "aad_of s = aad_of t \<Longrightarrow> slot_tag s = slot_tag t"
proof -
  assume "aad_of s = aad_of t"
  then have "bytes_of (slot_tag s) @ slot_rest s = bytes_of (slot_tag t) @ slot_rest t"
    by (simp only: aad_of_tag)
  then have "prefix (bytes_of (slot_tag s)) (bytes_of (slot_tag t)) \<or>
      prefix (bytes_of (slot_tag t)) (bytes_of (slot_tag s))"
    by (metis prefixI prefix_same_cases)
  then show ?thesis using slot_tags_prefix_free slot_tag_in_tags by (metis bytes_of_prefix)
qed

text \<open>A length-prefixed field can be read back.\<close>

lemma appendField_eq:
  assumes "length f < 2 ^ 63" "length g < 2 ^ 63"
    and eq: "appendField b f @ x = appendField c g @ y" and "length b = length c"
  shows "b = c \<and> f = g \<and> x = y"
proof -
  from eq have "b = c" "be64 (word_of_nat (length f)) = be64 (word_of_nat (length g))"
    "bytes_of f @ x = bytes_of g @ y"
    using assms(4) by (simp_all add: appendField_def)
  moreover from this(2) have "length f = length g"
    using assms(1,2) by (simp add: word_of_nat_inj64)
  ultimately show ?thesis by simp
qed

lemma appendField_inj: "appendField [] f = appendField [] g \<longleftrightarrow> f = g"
proof
  assume "appendField [] f = appendField [] g"
  then have "drop 8 (appendField [] f) = drop 8 (appendField [] g)" by simp
  then show "f = g" by (simp add: appendField_def)
qed simp

lemma dek_rest_eq:
  assumes "length p < 2 ^ 63" "length q < 2 ^ 63" "length s < 2 ^ 63" "length t < 2 ^ 63"
  shows "appendField (appendField [] p) s @ x = appendField (appendField [] q) t @ y \<longleftrightarrow>
    p = q \<and> s = t \<and> x = y"
proof
  assume "appendField (appendField [] p) s @ x = appendField (appendField [] q) t @ y"
  then have "appendField [] p @ (appendField [] s @ x) = appendField [] q @ (appendField [] t @ y)"
    by (simp add: appendField_def)
  from appendField_eq [OF assms(1,2) this] have "p = q" "appendField [] s @ x = appendField [] t @ y" by auto
  with appendField_eq [OF assms(3,4) this(2)] show "p = q \<and> s = t \<and> x = y" by simp
qed simp

lemmas two_fields_eq = dek_rest_eq [where x = "[]" and y = "[]", simplified]

lemma word_of_int_inj64:
  assumes "- (2 ^ 63) \<le> v" "v < 2 ^ 63" "- (2 ^ 63) \<le> w" "w < 2 ^ 63"
  shows "(word_of_int v :: 64 word) = word_of_int w \<longleftrightarrow> v = w"
proof
  assume "(word_of_int v :: 64 word) = word_of_int w"
  then have "v mod 2 ^ 64 = w mod 2 ^ 64" by (simp add: word_of_int_eq_iff take_bit_eq_mod)
  then have dvd: "2 ^ 64 dvd v - w" by (simp only: mod_eq_dvd_iff)
  have "\<bar>v - w\<bar> < 2 ^ 64" using assms by auto
  with dvd show "v = w" using dvd_imp_le_int [of "v - w" "2 ^ 64"] by auto
qed simp

lemma transit_rest_eq:
  assumes "length n < 2 ^ 63" "length m < 2 ^ 63" "- (2 ^ 63) \<le> v" "v < 2 ^ 63" "- (2 ^ 63) \<le> w" "w < 2 ^ 63"
  shows "appendField [] n @ be64 (word_of_int v) = appendField [] m @ be64 (word_of_int w) \<longleftrightarrow> n = m \<and> v = w"
  using appendField_eq [of n m "[]" "be64 (word_of_int v)" "[]" "be64 (word_of_int w)"] assms
  by (auto simp: word_of_int_inj64)

lemma aad_of_inj:
  assumes "slot_ok s" "slot_ok t" "aad_of s = aad_of t"
  shows "s = t"
proof -
  from aad_of_eq_tag [OF assms(3)] have tag: "slot_tag s = slot_tag t" .
  with assms(3) have rest: "slot_rest s = slot_rest t" by (simp add: aad_of_tag)
  show ?thesis
    by (use tag rest assms(1,2) in \<open>cases s; cases t;
      simp add: appendField_inj two_fields_eq dek_rest_eq transit_rest_eq
        word_of_int_inj64 [simplified]\<close>)
qed

subsection \<open>The contract of the package\<close>

text \<open>
  C17. Encryption round trip: \<^verbatim>\<open>Encrypt\<close> succeeds exactly for a 32-byte key, a plaintext within GCM's
  limit and 12 random bytes; the ciphertext it returns carries these bytes as its nonce, is 16 bytes
  longer than the plaintext, survives \<^verbatim>\<open>Marshal\<close> and \<^verbatim>\<open>ParseCiphertext\<close>, and \<^verbatim>\<open>Decrypt\<close> under the same
  key and AAD returns the plaintext.
\<close>

theorem encrypt_decrypt_roundtrip:
  "(\<exists>ct r'. Encrypt key plaintext aad r = Inr (ct, r') \<and>
      r = Nonce ct @ r' \<and> length (Nonce ct) = 12 \<and> length (Data ct) = length plaintext + 16 \<and>
      ParseCiphertext (Marshal ct) = Inr ct \<and> Decrypt key ct aad = Inr plaintext) \<longleftrightarrow>
    length key = 32 \<and> length plaintext \<le> gcm_limit \<and> 12 \<le> length r"
    (is "?L \<longleftrightarrow> ?R")
proof
  assume ?L
  then show ?R
    using gcm_seal_Some_iff [of "aes_block key"] by (auto simp: Encrypt_Inr sizes)
next
  assume ?R
  then obtain ct where ct: "Encrypt key plaintext aad r = Inr (ct, drop NonceSize r)"
    using Encrypt_ok [of key r plaintext aad] by (auto simp: sizes)
  moreover from ct have "r = Nonce ct @ drop NonceSize r" by (auto simp: Encrypt_Inr)
  ultimately show ?L
    using Encrypt_wf [OF ct] Decrypt_Encrypt [OF ct] ParseCiphertext_Encrypt [OF ct]
    by (auto simp: sizes)
qed

text \<open>
  C18. Decryption is exact: \<^verbatim>\<open>Decrypt\<close> returns a plaintext only for the ciphertext that \<^verbatim>\<open>Encrypt\<close> makes
  from it under the same key, AAD and nonce (the key version is not authenticated); every other
  ciphertext under a 32-byte key is refused with the single error \<^verbatim>\<open>ErrDecryptFailed\<close>.
\<close>

theorem decrypt_exact:
  assumes "length key = 32"
  shows "(\<exists>p. Decrypt key ct aad = Inr p \<and> length (Nonce ct) = 12 \<and>
      Encrypt key p aad (Nonce ct) = Inr (ct\<lparr>KeyVersion := 0\<rparr>, [])) \<or>
    (Decrypt key ct aad = Inl ErrDecryptFailed \<and>
      (\<forall>p. Encrypt key p aad (Nonce ct) \<noteq> Inr (ct\<lparr>KeyVersion := 0\<rparr>, [])))"
proof -
  have k: "length key = KeySize" using assms by (simp add: sizes)
  have eq: "Encrypt key p aad (Nonce ct) = Inr (ct\<lparr>KeyVersion := 0\<rparr>, []) \<longleftrightarrow> Decrypt key ct aad = Inr p" for p
    by (auto simp: Encrypt_Inr Decrypt_Inr sizes)
  show ?thesis
  proof (cases "Decrypt key ct aad")
    case (Inl e)
    with Decrypt_Inl [OF Inl k] eq show ?thesis by simp
  next
    case (Inr p)
    then have "length (Nonce ct) = 12" by (simp add: Decrypt_Inr sizes)
    with Inr eq [of p] show ?thesis by blast
  qed
qed

text \<open>
  C19. The AADs separate the slots: two different slots (a project's KEK, the token key, a DEK of a
  given project, path and version, a transit key version, and so on) never have the same AAD.
\<close>

theorem aad_separates_slots:
  assumes "slot_ok s" "slot_ok t" "s \<noteq> t"
  shows "aad_of s \<noteq> aad_of t"
  using aad_of_inj assms by blast

text \<open>
  AAD binding: if a ciphertext made for one AAD opens under another AAD, it opens to the same
  plaintext and the two AADs collide in GHASH under the key's hash subkey. So moving a ciphertext to
  another slot succeeds only on an explicit collision of the authentication code.
\<close>

theorem decrypt_other_aad_collides:
  assumes "Encrypt key plaintext aad r = Inr (ct, r')" "Decrypt key ct aad' = Inr p"
  shows "p = plaintext \<and>
    ghash (aes_block key 0) aad (take (length plaintext) (Data ct)) =
    ghash (aes_block key 0) aad' (take (length plaintext) (Data ct))"
proof -
  let ?e = "aes_block key" and ?j = "inc32 (counter0 (Nonce ct))"
  from assms have s1: "gcm_seal ?e (Nonce ct) plaintext aad = Some (Data ct)"
    and s2: "gcm_seal ?e (Nonce ct) p aad' = Some (Data ct)"
    by (auto simp: Encrypt_Inr Decrypt_Inr)
  then have d1: "Data ct = gctr ?e ?j plaintext @ gcm_tag ?e (Nonce ct) aad (gctr ?e ?j plaintext)"
    and d2: "Data ct = gctr ?e ?j p @ gcm_tag ?e (Nonce ct) aad' (gctr ?e ?j p)"
    by (auto simp: gcm_seal_def Let_def split: if_splits)
  have "length p = length plaintext" using gcm.seal_len [OF s1] gcm.seal_len [OF s2] by simp
  then have "length (gctr ?e ?j plaintext) = length (gctr ?e ?j p)" by simp
  with trans [OF d1 [symmetric] d2] have c: "gctr ?e ?j plaintext = gctr ?e ?j p"
    and t: "gcm_tag ?e (Nonce ct) aad (gctr ?e ?j plaintext) = gcm_tag ?e (Nonce ct) aad' (gctr ?e ?j p)"
    by (metis append_eq_append_conv)+
  from c have "p = plaintext" by (metis gctr_gctr)
  moreover have "take (length plaintext) (Data ct) = gctr ?e ?j plaintext" using d1 by simp
  ultimately show ?thesis
    using t by (simp add: gcm_tag_def bytes_of_block_inj word_xor_right_cancel)
qed

text \<open>
  The stored form is a bijection: a blob parses to a ciphertext exactly when it is that
  ciphertext's serialisation, with a 12-byte nonce and at least a tag of data; anything else is
  refused with \<^verbatim>\<open>ErrDecryptFailed\<close>.
\<close>

theorem parse_marshal_inverse:
  "(ParseCiphertext b = Inr c \<longleftrightarrow> b = Marshal c \<and> length (Nonce c) = 12 \<and> 16 \<le> length (Data c)) \<and>
    ParseCiphertext b \<in> insert (Inl ErrDecryptFailed) (range Inr)"
proof
  show "ParseCiphertext b = Inr c \<longleftrightarrow> b = Marshal c \<and> length (Nonce c) = 12 \<and> 16 \<le> length (Data c)"
    using Marshal_ParseCiphertext [of b c] ParseCiphertext_Marshal [of c] by (auto simp: NonceSize_def)
  show "ParseCiphertext b \<in> insert (Inl ErrDecryptFailed) (range Inr)"
    by (simp add: ParseCiphertext_def)
qed

text \<open>Witnesses.\<close>

definition zero_key :: bytes where "zero_key = replicate 32 0"

lemma length_zero_key [simp]: "length zero_key = 32" by (simp add: zero_key_def)

theorem decrypt_exact_witness:
  "Decrypt zero_key \<lparr>KeyVersion = 7, Nonce = [1, 2, 3], Data = replicate 20 0\<rparr> [] = Inl ErrDecryptFailed"
  using decrypt_exact [of zero_key "\<lparr>KeyVersion = 7, Nonce = [1, 2, 3], Data = replicate 20 0\<rparr>" "[]"] by simp

theorem aad_separates_slots_witness:
  "aad_of (DEK_slot ''p'' ''c/KEY'' 1) \<noteq> aad_of (DEK_slot ''p'' ''c/KEY'' 2) \<and>
   aad_of (ConfigEditRequest_slot ''a'' ''bc'') \<noteq> aad_of (ConfigEditRequest_slot ''ab'' ''c'')"
  by (intro conjI aad_separates_slots) simp_all

theorem decrypt_other_aad_collides_witness:
  "\<exists>ct. Encrypt zero_key [42] [1] (replicate 12 0) = Inr (ct, []) \<and>
    ghash (aes_block zero_key 0) [1] (take 1 (Data ct)) = ghash (aes_block zero_key 0) [1] (take 1 (Data ct)) \<and>
    Decrypt zero_key ct [1] = Inr [42]"
proof -
  obtain ct where ct: "Encrypt zero_key [42] [1] (replicate 12 0) = Inr (ct, [])"
    using Encrypt_ok [of zero_key "replicate 12 0" "[42]" "[1]"] by (auto simp: sizes gcm_limit_def)
  from decrypt_other_aad_collides [OF ct Decrypt_Encrypt [OF ct]] ct Decrypt_Encrypt [OF ct]
  show ?thesis by auto
qed

end
