(* ===== verification/Seal.thy ===== *)
theory Seal
  imports Envelope "HOL-Library.Multiset"
begin

section \<open>Sealing and unsealing\<close>

text \<open>
  \<^verbatim>\<open>internal/crypto/unseal.go\<close>, \<^verbatim>\<open>shamir.go\<close>, \<^verbatim>\<open>kms.go\<close> and \<^verbatim>\<open>internal/store/sealconfig.go\<close>: the key check
  value, the Shamir unsealer (initialisation, share submission, unsealing, resealing), the KMS
  unsealer, and the Postgres table that holds the seal configuration. The unsealers work over an
  abstract \<^verbatim>\<open>SealConfigStore\<close>, whose contract is the locale \<open>seal_store\<close>, interpreted on the Postgres
  store. Go's iteration order over the map of submitted shares is the argument \<open>ord\<close>; zeroing of
  freed buffers is not observable and is left out. The theorems: any threshold of the shares that
  \<^verbatim>\<open>Init\<close> or \<^verbatim>\<open>Reseal\<close> returned unseals to the generated master key, a returned key has passed the key
  check, and a failed attempt keeps the submitted shares.
\<close>

subsection \<open>Data\<close>

definition SealTypeShamir :: string where "SealTypeShamir = ''shamir''"
definition SealTypeAWSKMS :: string where "SealTypeAWSKMS = ''awskms''"
definition SealTypeGCPKMS :: string where "SealTypeGCPKMS = ''gcpkms''"
definition SealTypeAzureKV :: string where "SealTypeAzureKV = ''azurekv''"

lemmas seal_types = SealTypeShamir_def SealTypeAWSKMS_def SealTypeGCPKMS_def SealTypeAzureKV_def

record SealConfig =
  Type :: string
  Threshold :: int
  Shares :: int
  KeyCheckValue :: bytes
  WrappedMasterKey :: bytes

text \<open>The interface \<^verbatim>\<open>SealConfigStore\<close> over a store state.\<close>

record 's SealConfigStore =
  Get_sc :: "'s \<Rightarrow> crypto_err + SealConfig"
  Put_sc :: "SealConfig \<Rightarrow> 's \<Rightarrow> crypto_err + 's"

subsection \<open>The Postgres store\<close>

text \<open>
  The single row of the table \<^verbatim>\<open>seal_config\<close>: the nullable columns are options, the last two columns
  are those of master-key rotation, with their defaults on insertion.
\<close>

record seal_row =
  row_type :: string
  row_threshold :: "int option"
  row_shares :: "int option"
  row_key_check_value :: bytes
  row_wrapped_master_key :: "bytes option"
  row_master_key_version :: int
  row_master_key_rotated_at :: "int option"

definition coalesce :: "'a option \<Rightarrow> 'a \<Rightarrow> 'a" where
  "coalesce v d = (case v of None \<Rightarrow> d | Some x \<Rightarrow> x)"

definition pg_Get :: "seal_row option \<Rightarrow> crypto_err + SealConfig" where
  "pg_Get t = (case t of
      None \<Rightarrow> Inl ErrNoSealConfig
    | Some row \<Rightarrow> Inr \<lparr>Type = row_type row, Threshold = coalesce (row_threshold row) 0,
        Shares = coalesce (row_shares row) 0, KeyCheckValue = row_key_check_value row,
        WrappedMasterKey = coalesce (row_wrapped_master_key row) []\<rparr>)"

definition pg_Put :: "SealConfig \<Rightarrow> seal_row option \<Rightarrow> crypto_err + seal_row option" where
  "pg_Put cfg t = (let
      ins = \<lparr>row_type = Type cfg, row_threshold = Some (Threshold cfg), row_shares = Some (Shares cfg),
        row_key_check_value = KeyCheckValue cfg, row_wrapped_master_key = Some (WrappedMasterKey cfg),
        row_master_key_version = 1, row_master_key_rotated_at = None\<rparr>
    in Inr (Some (case t of
        None \<Rightarrow> ins
      | Some row \<Rightarrow> ins\<lparr>row_master_key_version := row_master_key_version row,
                       row_master_key_rotated_at := row_master_key_rotated_at row\<rparr>)))"

definition NewSealConfigStore :: "seal_row option SealConfigStore" where
  "NewSealConfigStore = \<lparr>Get_sc = pg_Get, Put_sc = pg_Put\<rparr>"

subsection \<open>The key check value\<close>

definition kcvPlaintext :: bytes where
  "kcvPlaintext = bytes_of ''janus-key-check-v1''"

definition makeKCV :: "bytes \<Rightarrow> rng \<Rightarrow> crypto_err + (bytes \<times> rng)" where
  "makeKCV master r =
    bind_err (Encrypt master kcvPlaintext kcvAAD r) (\<lambda>(ct, r'). Inr (Marshal ct, r'))"

definition verifyKCV :: "bytes \<Rightarrow> bytes \<Rightarrow> crypto_err + unit" where
  "verifyKCV master kcv = (case ParseCiphertext kcv of
      Inl _ \<Rightarrow> Inl ErrKeyCheckFailed
    | Inr ct \<Rightarrow> (case Decrypt master ct kcvAAD of
        Inl _ \<Rightarrow> Inl ErrKeyCheckFailed
      | Inr got \<Rightarrow> if got \<noteq> kcvPlaintext then Inl ErrKeyCheckFailed else Inr ()))"

text \<open>The tail common to every way of recovering the master key: its length, then the key check.\<close>

definition checkMaster :: "bytes \<Rightarrow> bytes \<Rightarrow> crypto_err + bytes" where
  "checkMaster master kcv =
    (if length master \<noteq> KeySize then Inl ErrKeyCheckFailed
     else bind_err (verifyKCV master kcv) (\<lambda>_. Inr master))"

definition ReconstructAndVerifyShamir :: "SealConfig option \<Rightarrow> bytes list \<Rightarrow> crypto_err + bytes" where
  "ReconstructAndVerifyShamir cfgp shares = (case cfgp of
      None \<Rightarrow> Inl ErrInvalidSealConfig
    | Some cfg \<Rightarrow>
       if Type cfg \<noteq> SealTypeShamir then Inl ErrInvalidSealConfig
       else if int (length shares) < Threshold cfg then Inl ErrNotEnoughShares
       else if Threshold cfg = 1 then
         (if length shares \<noteq> 1 then Inl ErrInvalidShare
          else checkMaster (shares ! 0) (KeyCheckValue cfg))
       else (case Combine shares of
           Inl _ \<Rightarrow> Inl ErrInvalidShare
         | Inr m \<Rightarrow> checkMaster m (KeyCheckValue cfg)))"

subsection \<open>The Shamir unsealer\<close>

text \<open>\<^verbatim>\<open>submitted\<close> is a map from the hexadecimal form of a share to the share, as an association list.\<close>

record ShamirUnsealer =
  shares :: int
  threshold :: int
  submitted :: "(string \<times> bytes) list"

record Progress =
  Submitted :: nat
  Required :: int

definition hexDigit :: "nat \<Rightarrow> char" where
  "hexDigit n = ''0123456789abcdef'' ! n"

definition EncodeToString :: "bytes \<Rightarrow> string" where
  "EncodeToString b = concat (map (\<lambda>x. [hexDigit (unat x div 16), hexDigit (unat x mod 16)]) b)"

definition NewShamirUnsealer :: "int \<Rightarrow> int \<Rightarrow> ShamirUnsealer" where
  "NewShamirUnsealer sh th =
    (if sh = 0 \<and> th = 0 then \<lparr>shares = 5, threshold = 3, submitted = []\<rparr>
     else \<lparr>shares = sh, threshold = th, submitted = []\<rparr>)"

text \<open>The split both \<^verbatim>\<open>Init\<close> and \<^verbatim>\<open>Reseal\<close> make: 1-of-1 is the master key itself.\<close>

definition splitMaster :: "bytes \<Rightarrow> int \<Rightarrow> int \<Rightarrow> nat list \<Rightarrow> rng \<Rightarrow> crypto_err + (bytes list \<times> rng)" where
  "splitMaster master sh th perm r =
    (if sh = 1 \<and> th = 1 then Inr ([master], r)
     else case Split master sh th perm r of Inl e \<Rightarrow> Inl (ErrShamir e) | Inr p \<Rightarrow> Inr p)"

definition Init :: "'s SealConfigStore \<Rightarrow> ShamirUnsealer \<Rightarrow> nat list \<Rightarrow> rng \<Rightarrow> 's \<Rightarrow>
    crypto_err + (bytes list \<times> 's \<times> rng)" where
  "Init st u perm r s = (case Get_sc st s of
      Inr _ \<Rightarrow> Inl ErrAlreadyInitialized
    | Inl e \<Rightarrow>
       if e \<noteq> ErrNoSealConfig then Inl e
       else bind_err (GenerateKey r) (\<lambda>(master, r1).
         bind_err (splitMaster master (shares u) (threshold u) perm r1) (\<lambda>(parts, r2).
         bind_err (makeKCV master r2) (\<lambda>(kcv, r3).
         bind_err (Put_sc st \<lparr>Type = SealTypeShamir, Threshold = threshold u, Shares = shares u,
             KeyCheckValue = kcv, WrappedMasterKey = []\<rparr> s) (\<lambda>s'.
         Inr (parts, s', r3))))))"

definition loadConfig :: "'s SealConfigStore \<Rightarrow> 's \<Rightarrow> crypto_err + SealConfig" where
  "loadConfig st s = bind_err (Get_sc st s) (\<lambda>cfg.
     if Type cfg \<noteq> SealTypeShamir then Inl ErrInvalidSealConfig else Inr cfg)"

text \<open>
  \<^verbatim>\<open>SubmitShare\<close> returns the unsealer with its progress; a duplicate is an error that still reports
  the progress.
\<close>

definition SubmitShare :: "'s SealConfigStore \<Rightarrow> 's \<Rightarrow> bytes \<Rightarrow> ShamirUnsealer \<Rightarrow>
    (crypto_err option \<times> Progress) \<times> ShamirUnsealer" where
  "SubmitShare st s share u = (case loadConfig st s of
      Inl e \<Rightarrow> ((Some e, \<lparr>Submitted = 0, Required = 0\<rparr>), u)
    | Inr cfg \<Rightarrow>
       if length share < 2 then ((Some ErrInvalidShare, \<lparr>Submitted = 0, Required = 0\<rparr>), u)
       else let key = EncodeToString share in
         (case map_of (submitted u) key of
            Some _ \<Rightarrow> ((Some ErrDuplicateShare,
                \<lparr>Submitted = length (submitted u), Required = Threshold cfg\<rparr>), u)
          | None \<Rightarrow> let u' = u\<lparr>submitted := submitted u @ [(key, share)]\<rparr> in
              ((None, \<lparr>Submitted = length (submitted u'), Required = Threshold cfg\<rparr>), u')))"

definition Unseal :: "(bytes list \<Rightarrow> bytes list) \<Rightarrow> 's SealConfigStore \<Rightarrow> 's \<Rightarrow> ShamirUnsealer \<Rightarrow>
    (crypto_err + bytes) \<times> ShamirUnsealer" where
  "Unseal ord st s u = (case loadConfig st s of
      Inl e \<Rightarrow> (Inl e, u)
    | Inr cfg \<Rightarrow>
       if int (length (submitted u)) < Threshold cfg then (Inl ErrNotEnoughShares, u)
       else let parts = ord (map snd (submitted u));
                finish = (\<lambda>master. case checkMaster master (KeyCheckValue cfg) of
                    Inl e \<Rightarrow> (Inl e, u)
                  | Inr m \<Rightarrow> (Inr m, u\<lparr>submitted := []\<rparr>))
         in if Threshold cfg = 1 then
              (if 1 < length (submitted u) then (Inl ErrInvalidShare, u) else finish (parts ! 0))
            else (case Combine parts of Inl _ \<Rightarrow> (Inl ErrInvalidShare, u) | Inr m \<Rightarrow> finish m))"

definition SubmittedShares :: "ShamirUnsealer \<Rightarrow> nat" where
  "SubmittedShares u = length (submitted u)"

definition Reset :: "ShamirUnsealer \<Rightarrow> ShamirUnsealer" where
  "Reset u = u\<lparr>submitted := []\<rparr>"

definition Reseal :: "'s SealConfigStore \<Rightarrow> nat list \<Rightarrow> 's \<Rightarrow> bytes \<Rightarrow> rng \<Rightarrow>
    crypto_err + (SealConfig \<times> bytes list \<times> rng)" where
  "Reseal st perm s newMaster r = bind_err (loadConfig st s) (\<lambda>cfg.
     if length newMaster \<noteq> KeySize then Inl ErrInvalidKeySize
     else bind_err (splitMaster newMaster (Shares cfg) (Threshold cfg) perm r) (\<lambda>(parts, r1).
       bind_err (makeKCV newMaster r1) (\<lambda>(kcv, r2).
       Inr (\<lparr>Type = SealTypeShamir, Threshold = Threshold cfg, Shares = Shares cfg,
             KeyCheckValue = kcv, WrappedMasterKey = []\<rparr>, parts, r2))))"

subsection \<open>The KMS unsealer\<close>

text \<open>The cloud KMS is outside the program: its two operations are arguments.\<close>

record KMSClient =
  Encrypt_kms :: "bytes \<Rightarrow> crypto_err + bytes"
  Decrypt_kms :: "bytes \<Rightarrow> crypto_err + bytes"

definition Init_kms :: "'s SealConfigStore \<Rightarrow> KMSClient \<Rightarrow> string \<Rightarrow> rng \<Rightarrow> 's \<Rightarrow> crypto_err + ('s \<times> rng)" where
  "Init_kms st client sealType r s = (case Get_sc st s of
      Inr _ \<Rightarrow> Inl ErrAlreadyInitialized
    | Inl e \<Rightarrow>
       if e \<noteq> ErrNoSealConfig then Inl e
       else bind_err (GenerateKey r) (\<lambda>(master, r1).
         bind_err (Encrypt_kms client master) (\<lambda>wrapped.
         bind_err (makeKCV master r1) (\<lambda>(kcv, r2).
         bind_err (Put_sc st \<lparr>Type = sealType, Threshold = 0, Shares = 0,
             KeyCheckValue = kcv, WrappedMasterKey = wrapped\<rparr> s) (\<lambda>s'.
         Inr (s', r2))))))"

definition Reseal_kms :: "KMSClient \<Rightarrow> string \<Rightarrow> bytes \<Rightarrow> rng \<Rightarrow>
    crypto_err + (SealConfig \<times> bytes list \<times> rng)" where
  "Reseal_kms client sealType newMaster r =
    (if length newMaster \<noteq> KeySize then Inl ErrInvalidKeySize
     else bind_err (Encrypt_kms client newMaster) (\<lambda>wrapped.
       bind_err (makeKCV newMaster r) (\<lambda>(kcv, r').
       Inr (\<lparr>Type = sealType, Threshold = 0, Shares = 0, KeyCheckValue = kcv,
             WrappedMasterKey = wrapped\<rparr>, [], r'))))"

definition Unseal_kms :: "'s SealConfigStore \<Rightarrow> KMSClient \<Rightarrow> string \<Rightarrow> 's \<Rightarrow> crypto_err + bytes" where
  "Unseal_kms st client sealType s = bind_err (Get_sc st s) (\<lambda>cfg.
     if Type cfg \<noteq> sealType then Inl ErrInvalidSealConfig
     else bind_err (Decrypt_kms client (WrappedMasterKey cfg)) (\<lambda>master.
       checkMaster master (KeyCheckValue cfg)))"

subsection \<open>The key check\<close>

lemma makeKCV_Inr [go_result]:
  "makeKCV m r = Inr (kcv, r') \<longleftrightarrow> (\<exists>ct. Encrypt m kcvPlaintext kcvAAD r = Inr (ct, r') \<and> kcv = Marshal ct)"
  by (auto simp: makeKCV_def bind_err_Inr)

lemma makeKCV_ok:
  "length m = KeySize \<Longrightarrow> NonceSize \<le> length r \<Longrightarrow> \<exists>kcv. makeKCV m r = Inr (kcv, drop NonceSize r)"
  using Encrypt_ok [of m r kcvPlaintext kcvAAD] by (auto simp: makeKCV_Inr kcvPlaintext_def gcm_limit_def)

lemma verifyKCV_makeKCV: "makeKCV m r = Inr (kcv, r') \<Longrightarrow> verifyKCV m kcv = Inr ()"
  by (auto simp: makeKCV_Inr verifyKCV_def ParseCiphertext_Encrypt Decrypt_Encrypt)

lemma makeKCV_length: "makeKCV m r = Inr (kcv, r') \<Longrightarrow> length m = KeySize"
  by (auto simp: makeKCV_Inr Encrypt_Inr)

lemma checkMaster_makeKCV: "makeKCV m r = Inr (kcv, r') \<Longrightarrow> checkMaster m kcv = Inr m"
  by (simp add: checkMaster_def verifyKCV_makeKCV makeKCV_length)

text \<open>A key that passes the check is the very argument, and the stored value is an encryption of the
  known constant under it.\<close>

lemma verifyKCV_Inr:
  assumes "verifyKCV m kcv = Inr ()"
  obtains ct where "kcv = Marshal ct" "Decrypt m ct kcvAAD = Inr kcvPlaintext"
  using assms that Marshal_ParseCiphertext
  by (auto simp: verifyKCV_def split: sum.splits if_splits)

lemma checkMaster_Inr [go_result]:
  "checkMaster m kcv = Inr k \<longleftrightarrow> k = m \<and> length m = KeySize \<and> verifyKCV m kcv = Inr ()"
  by (auto simp: checkMaster_def bind_err_Inr)

lemma checkMaster_Inl: "checkMaster m kcv = Inl e \<Longrightarrow> e = ErrKeyCheckFailed"
  by (auto simp: checkMaster_def verifyKCV_def bind_err_Inl split: if_splits sum.splits)

subsection \<open>Hexadecimal keys\<close>

lemma hexDigit_inj: "a < 16 \<Longrightarrow> b < 16 \<Longrightarrow> hexDigit a = hexDigit b \<Longrightarrow> a = b"
proof -
  have "distinct ''0123456789abcdef''" "length ''0123456789abcdef'' = 16" by simp_all
  then show "a < 16 \<Longrightarrow> b < 16 \<Longrightarrow> hexDigit a = hexDigit b \<Longrightarrow> a = b"
    unfolding hexDigit_def by (metis nth_eq_iff_index_eq)
qed

lemma EncodeToString_eq_iff [simp]: "EncodeToString a = EncodeToString b \<longleftrightarrow> a = b"
proof
  show "EncodeToString a = EncodeToString b \<Longrightarrow> a = b"
  proof (induction a arbitrary: b)
    case Nil
    then show ?case by (cases b) (auto simp: EncodeToString_def)
  next
    case (Cons x xs)
    then obtain y ys where b: "b = y # ys" by (cases b) (auto simp: EncodeToString_def)
    have "unat z < 2 ^ LENGTH(8)" for z :: byte by (rule unsigned_less)
    then have lt: "unat z div 16 < 16" for z :: byte by (simp add: less_mult_imp_div_less)
    from Cons.prems b have "hexDigit (unat x div 16) = hexDigit (unat y div 16)"
      "hexDigit (unat x mod 16) = hexDigit (unat y mod 16)" "EncodeToString xs = EncodeToString ys"
      by (auto simp: EncodeToString_def)
    then have "unat x div 16 = unat y div 16" "unat x mod 16 = unat y mod 16" "xs = ys"
      using hexDigit_inj lt Cons.IH by (metis, metis mod_less_divisor zero_less_numeral, blast)
    then have "unat x = unat y" by (metis div_mult_mod_eq)
    then show ?case using \<open>xs = ys\<close> b by (simp add: word_unat_eq_iff)
  qed
qed simp

subsection \<open>Shares of the master key\<close>

text \<open>The shares \<open>splitMaster\<close> returns recombine, whatever the shape.\<close>

definition recombine :: "int \<Rightarrow> bytes list \<Rightarrow> crypto_err + bytes" where
  "recombine th parts =
    (if th = 1 then (if length parts \<noteq> 1 then Inl ErrInvalidShare else Inr (parts ! 0))
     else case Combine parts of Inl _ \<Rightarrow> Inl ErrInvalidShare | Inr m \<Rightarrow> Inr m)"

lemma splitMaster_recombine:
  assumes "splitMaster master sh th perm r = Inr (parts, r')" "perm255 perm"
    and "distinct sel" "set sel \<subseteq> set parts" "th \<le> int (length sel)"
  shows "recombine th sel = Inr master"
proof (cases "sh = 1 \<and> th = 1")
  case True
  with assms have "distinct sel" "set sel \<subseteq> {master}" "sel \<noteq> []"
    by (auto simp: splitMaster_def)
  then have "sel = [master]" by (cases sel; cases "tl sel") auto
  then show ?thesis using True by (simp add: recombine_def)
next
  case False
  then have split: "Split master sh th perm r = Inr (parts, r')"
    using assms(1) by (auto simp: splitMaster_def split: sum.splits)
  then have "2 \<le> th" using Split_Inr(1) [OF split] by (simp add: split_params_def)
  with split_combine_aux [OF split assms(2-5)] show ?thesis by (simp add: recombine_def)
qed

lemma splitMaster_share_length:
  assumes "splitMaster master sh th perm r = Inr (parts, r')" "length master = KeySize" "p \<in> set parts"
  shows "2 \<le> length p"
proof (cases "sh = 1 \<and> th = 1")
  case False
  then have "Split master sh th perm r = Inr (parts, r')"
    using assms(1) by (auto simp: splitMaster_def split: sum.splits)
  from Split_Inr(3) [OF this] assms(2,3) show ?thesis by (auto simp: sizes)
qed (use assms in \<open>auto simp: splitMaster_def sizes\<close>)

text \<open>Both consumers of shares check \<open>recombine\<close>'s result.\<close>

lemma ReconstructAndVerifyShamir_eq:
  "Type cfg = SealTypeShamir \<Longrightarrow> Threshold cfg \<le> int (length sel) \<Longrightarrow>
    ReconstructAndVerifyShamir (Some cfg) sel =
      bind_err (recombine (Threshold cfg) sel) (\<lambda>m. checkMaster m (KeyCheckValue cfg))"
  by (auto simp: ReconstructAndVerifyShamir_def recombine_def split: sum.splits)

lemma Unseal_eq:
  assumes "loadConfig st s = Inr cfg" "Threshold cfg \<le> int (length (submitted u))" "length (ord (map snd (submitted u))) = length (submitted u)"
  shows "Unseal ord st s u =
    (case bind_err (recombine (Threshold cfg) (ord (map snd (submitted u)))) (\<lambda>m. checkMaster m (KeyCheckValue cfg)) of
       Inl e \<Rightarrow> (Inl e, u) | Inr m \<Rightarrow> (Inr m, u\<lparr>submitted := []\<rparr>))"
  using assms by (auto simp: Unseal_def recombine_def Let_def split: sum.splits)

subsection \<open>Submitting shares\<close>

definition submitAll :: "'s SealConfigStore \<Rightarrow> 's \<Rightarrow> bytes list \<Rightarrow> ShamirUnsealer \<Rightarrow> ShamirUnsealer" where
  "submitAll st s sel u = fold (\<lambda>share u. snd (SubmitShare st s share u)) sel u"

lemma submitAll_fresh:
  assumes "loadConfig st s = Inr cfg" "distinct sel" "\<And>p. p \<in> set sel \<Longrightarrow> 2 \<le> length p"
    "set sel \<inter> snd ` set (submitted u) = {}" "\<And>k v. (k, v) \<in> set (submitted u) \<Longrightarrow> k = EncodeToString v"
  shows "submitAll st s sel u =
    u\<lparr>submitted := submitted u @ map (\<lambda>p. (EncodeToString p, p)) sel\<rparr>"
  using assms
proof (induction sel arbitrary: u)
  case (Cons p ps)
  have "map_of (submitted u) (EncodeToString p) = None"
    using Cons.prems(4,5) by (force simp: map_of_eq_None_iff)
  then have "snd (SubmitShare st s p u) = u\<lparr>submitted := submitted u @ [(EncodeToString p, p)]\<rparr>"
    using Cons.prems(1) Cons.prems(3) [of p] by (simp add: SubmitShare_def Let_def)
  moreover have "submitAll st s ps (u\<lparr>submitted := submitted u @ [(EncodeToString p, p)]\<rparr>) =
    u\<lparr>submitted := submitted u @ map (\<lambda>p. (EncodeToString p, p)) (p # ps)\<rparr>"
    by (subst Cons.IH) (use Cons.prems in auto)
  ultimately show ?case by (simp add: submitAll_def)
qed (simp add: submitAll_def)

subsection \<open>The contract of the seal-config store\<close>

locale seal_store =
  fixes st :: "'s SealConfigStore"
  assumes get_put: "Put_sc st cfg s = Inr s' \<Longrightarrow> Get_sc st s' = Inr cfg"
begin

lemma Init_Inr:
  assumes "Init st u perm r s = Inr (parts, s', r')"
  obtains r2 kcv where
    "Get_sc st s = Inl ErrNoSealConfig"
    "KeySize \<le> length r"
    "splitMaster (take KeySize r) (shares u) (threshold u) perm (drop KeySize r) = Inr (parts, r2)"
    "makeKCV (take KeySize r) r2 = Inr (kcv, r')"
    "loadConfig st s' = Inr \<lparr>Type = SealTypeShamir, Threshold = threshold u, Shares = shares u,
       KeyCheckValue = kcv, WrappedMasterKey = []\<rparr>"
  using assms get_put that
  by (auto simp: Init_def bind_err_Inr GenerateKey_Inr loadConfig_def split: sum.splits if_splits)

lemma Init_Unseal:
  assumes init: "Init st u perm r s = Inr (parts, s', r')" and "submitted u = []" "perm255 perm"
    and sel: "distinct sel" "set sel \<subseteq> set parts" "threshold u \<le> int (length sel)"
    and ord: "\<And>xs. mset (ord xs) = mset xs"
  shows "Unseal ord st s' (submitAll st s' sel u) = (Inr (take KeySize r), u)"
proof -
  let ?m = "take KeySize r" and ?u = "submitAll st s' sel u"
  obtain r2 kcv where r: "KeySize \<le> length r"
    and sp: "splitMaster ?m (shares u) (threshold u) perm (drop KeySize r) = Inr (parts, r2)"
    and kcv: "makeKCV ?m r2 = Inr (kcv, r')"
    and cfg: "loadConfig st s' = Inr \<lparr>Type = SealTypeShamir, Threshold = threshold u, Shares = shares u,
       KeyCheckValue = kcv, WrappedMasterKey = []\<rparr>"
    using Init_Inr [OF init] by metis
  have u: "?u = u\<lparr>submitted := map (\<lambda>p. (EncodeToString p, p)) sel\<rparr>"
    using splitMaster_share_length [OF sp] r sel(2) assms(2)
    by (subst submitAll_fresh [OF cfg sel(1)]) auto
  then have parts: "map snd (submitted ?u) = sel" by (simp add: comp_def)
  have o: "distinct (ord sel)" "set (ord sel) \<subseteq> set parts" "length (ord sel) = length sel"
    using ord [of sel] sel mset_eq_imp_distinct_iff mset_eq_setD mset_eq_length by blast+
  have "recombine (threshold u) (ord sel) = Inr ?m"
    by (rule splitMaster_recombine [OF sp assms(3) o(1,2)]) (use o sel in simp)
  then show ?thesis
    using u parts o sel(3) by (subst Unseal_eq [OF cfg]) (auto simp: checkMaster_makeKCV [OF kcv] assms(2))
qed

lemma Init_Reconstruct:
  assumes init: "Init st u perm r s = Inr (parts, s', r')" and "perm255 perm"
    and sel: "distinct sel" "set sel \<subseteq> set parts" "threshold u \<le> int (length sel)"
  shows "\<exists>cfg. loadConfig st s' = Inr cfg \<and> ReconstructAndVerifyShamir (Some cfg) sel = Inr (take KeySize r)"
proof -
  obtain r2 kcv where
    sp: "splitMaster (take KeySize r) (shares u) (threshold u) perm (drop KeySize r) = Inr (parts, r2)"
    and kcv: "makeKCV (take KeySize r) r2 = Inr (kcv, r')"
    and cfg: "loadConfig st s' = Inr \<lparr>Type = SealTypeShamir, Threshold = threshold u, Shares = shares u,
       KeyCheckValue = kcv, WrappedMasterKey = []\<rparr>"
    using Init_Inr [OF init] by metis
  from splitMaster_recombine [OF sp assms(2) sel] sel(3) kcv cfg show ?thesis
    by (auto simp: checkMaster_makeKCV ReconstructAndVerifyShamir_eq)
qed

lemma Init_kms_Unseal_kms:
  assumes init: "Init_kms st client sealType r s = Inr (s', r')"
    and kms: "\<And>w. Encrypt_kms client (take KeySize r) = Inr w \<Longrightarrow> Decrypt_kms client w = Inr (take KeySize r)"
  shows "Unseal_kms st client sealType s' = Inr (take KeySize r)"
proof -
  from init obtain w r1 kcv where w: "Encrypt_kms client (take KeySize r) = Inr w"
    and kcv: "makeKCV (take KeySize r) (drop KeySize r) = Inr (kcv, r')"
    and "Put_sc st \<lparr>Type = sealType, Threshold = 0, Shares = 0, KeyCheckValue = kcv, WrappedMasterKey = w\<rparr> s = Inr s'"
    by (auto simp: Init_kms_def bind_err_Inr GenerateKey_Inr split: sum.splits if_splits)
  from get_put [OF this(3)] kms [OF w] checkMaster_makeKCV [OF kcv] show ?thesis
    by (simp add: Unseal_kms_def)
qed

end

interpretation pg: seal_store NewSealConfigStore
  by unfold_locales
    (auto simp: NewSealConfigStore_def pg_Get_def pg_Put_def coalesce_def Let_def split: option.splits)

subsection \<open>The contract of the unsealers\<close>

text \<open>
  C20. Initialise, then unseal: after a successful \<^verbatim>\<open>Init\<close> on the Postgres store, submitting any
  selection of at least \<open>threshold\<close> of the shares it returned makes \<^verbatim>\<open>Unseal\<close> return the generated
  master key (the first 32 random bytes), for every iteration order of the submitted shares, and
  clears them.
\<close>

theorem init_then_unseal:
  assumes "Init NewSealConfigStore u perm r s = Inr (parts, s', r')" "submitted u = []" "perm255 perm"
    and "distinct sel" "set sel \<subseteq> set parts" "threshold u \<le> int (length sel)"
    and "\<And>xs. mset (ord xs) = mset xs"
  shows "Unseal ord NewSealConfigStore s' (submitAll NewSealConfigStore s' sel u) = (Inr (take 32 r), u)"
  using pg.Init_Unseal [OF assms] by (simp add: KeySize_def)

text \<open>
  C21. What \<^verbatim>\<open>Unseal\<close> guarantees of any store and any submitted shares: a key it returns has 32 bytes
  and is a key under which the stored key check value is an encryption of the known constant, and
  the shares are then cleared; on every error the unsealer is left as it was, and fewer shares than
  the threshold always give \<^verbatim>\<open>ErrNotEnoughShares\<close>.
\<close>

theorem unseal_checks_key:
  "(case Unseal ord NewSealConfigStore s u of
     (Inr m, u') \<Rightarrow> length m = 32 \<and> u' = Reset u \<and>
       (\<exists>cfg ct. loadConfig NewSealConfigStore s = Inr cfg \<and> Threshold cfg \<le> int (SubmittedShares u) \<and>
         KeyCheckValue cfg = Marshal ct \<and> Decrypt m ct kcvAAD = Inr kcvPlaintext)
   | (Inl e, u') \<Rightarrow> u' = u) \<and>
   (fst (Unseal ord NewSealConfigStore s u) = Inl ErrNotEnoughShares \<longleftrightarrow>
     (\<exists>cfg. loadConfig NewSealConfigStore s = Inr cfg \<and> int (SubmittedShares u) < Threshold cfg))"
proof (cases "loadConfig NewSealConfigStore s")
  case (Inl e)
  then have "e \<noteq> ErrNotEnoughShares"
    by (auto simp: loadConfig_def NewSealConfigStore_def pg_Get_def bind_err_Inl split: option.splits if_splits)
  with Inl show ?thesis by (simp add: Unseal_def)
next
  case (Inr cfg)
  have ok: "length m = 32 \<and> (\<exists>ct. KeyCheckValue cfg = Marshal ct \<and> Decrypt m ct kcvAAD = Inr kcvPlaintext)"
    if "checkMaster m' (KeyCheckValue cfg) = Inr m" for m m'
    using that verifyKCV_Inr by (metis checkMaster_Inr KeySize_def)
  show ?thesis
  proof (cases "int (length (submitted u)) < Threshold cfg")
    case True
    with Inr show ?thesis by (simp add: Unseal_def SubmittedShares_def)
  next
    case False
    define finish where "finish m = (case checkMaster m (KeyCheckValue cfg) of
        Inl e \<Rightarrow> (Inl e, u) | Inr m \<Rightarrow> (Inr m, u\<lparr>submitted := []\<rparr>))" for m
    have fin: "finish m = (Inl ErrKeyCheckFailed, u) \<or>
      (\<exists>m'. finish m = (Inr m', Reset u) \<and> length m' = 32 \<and>
        (\<exists>ct. KeyCheckValue cfg = Marshal ct \<and> Decrypt m' ct kcvAAD = Inr kcvPlaintext))" for m
      using checkMaster_Inl ok by (auto simp: finish_def Reset_def split: sum.splits)
    let ?parts = "ord (map snd (submitted u))"
    have "Unseal ord NewSealConfigStore s u = (if Threshold cfg = 1
        then (if 1 < length (submitted u) then (Inl ErrInvalidShare, u) else finish (?parts ! 0))
        else case Combine ?parts of Inl _ \<Rightarrow> (Inl ErrInvalidShare, u) | Inr m \<Rightarrow> finish m)"
      using Inr False unfolding Unseal_def finish_def Let_def by simp
    then have "Unseal ord NewSealConfigStore s u = (Inl ErrInvalidShare, u) \<or>
        (\<exists>m. Unseal ord NewSealConfigStore s u = finish m)"
      by (cases "Combine ?parts") auto
    then show ?thesis
    proof
      assume "Unseal ord NewSealConfigStore s u = (Inl ErrInvalidShare, u)"
      then show ?thesis using False Inr by (simp add: SubmittedShares_def)
    next
      assume "\<exists>m. Unseal ord NewSealConfigStore s u = finish m"
      then obtain m where m: "Unseal ord NewSealConfigStore s u = finish m" by blast
      from fin [of m] show ?thesis using False Inr unfolding m by (auto simp: SubmittedShares_def)
    qed
  qed
qed

text \<open>
  The KMS unsealer: if the KMS decrypts what it encrypted for this master key, \<^verbatim>\<open>Unseal\<close> after a
  successful \<^verbatim>\<open>Init\<close> on the Postgres store returns the generated master key.
\<close>

theorem kms_init_then_unseal:
  assumes "Init_kms NewSealConfigStore client sealType r s = Inr (s', r')"
    and "\<And>w. Encrypt_kms client (take 32 r) = Inr w \<Longrightarrow> Decrypt_kms client w = Inr (take 32 r)"
  shows "Unseal_kms NewSealConfigStore client sealType s' = Inr (take 32 r)"
  using pg.Init_kms_Unseal_kms [OF assms(1)] assms(2) by (simp add: KeySize_def)

text \<open>
  Proof of possession: \<^verbatim>\<open>ReconstructAndVerifyShamir\<close>, given the stored configuration and any
  selection of at least \<open>threshold\<close> of the shares of \<^verbatim>\<open>Init\<close>, returns the master key.
\<close>

theorem init_then_reconstruct:
  assumes "Init NewSealConfigStore u perm r s = Inr (parts, s', r')" "perm255 perm"
    and "distinct sel" "set sel \<subseteq> set parts" "threshold u \<le> int (length sel)"
  shows "\<exists>cfg. pg_Get s' = Inr cfg \<and> ReconstructAndVerifyShamir (Some cfg) sel = Inr (take 32 r)"
  using pg.Init_Reconstruct [OF assms]
  by (auto simp: KeySize_def loadConfig_def bind_err_Inr NewSealConfigStore_def split: if_splits)

text \<open>Witnesses: a 2-of-3 seal of an all-zero random tape.\<close>

lemma init_example:
  "\<exists>parts s'. Init NewSealConfigStore (NewShamirUnsealer 3 2) [0..<255] (replicate 76 0) None = Inr (parts, s', []) \<and>
    length parts = 3 \<and> distinct parts"
proof -
  have m: "take KeySize (replicate 76 0) = (replicate 32 0 :: bytes)"
    "drop KeySize (replicate 76 0) = (replicate 44 0 :: bytes)" by (simp_all add: sizes)
  have par: "split_params (replicate 32 0) 3 2" by (simp add: split_params_def)
  obtain parts r2 where sp: "Split (replicate 32 0) 3 2 [0..<255] (replicate 44 0) = Inr (parts, r2)"
    and p: "length parts = 3" "distinct parts" and "length r2 + 32 = 44"
    using Split_ok [OF perm255_upt par, of "replicate 44 0"] by auto
  then have r2: "length r2 = 12" by simp
  then obtain kcv where "makeKCV (replicate 32 0) r2 = Inr (kcv, [])"
    using makeKCV_ok [of "replicate 32 0" r2] by (auto simp: sizes)
  with sp p show ?thesis
    by (auto simp: Init_def NewSealConfigStore_def pg_Get_def pg_Put_def GenerateKey_def readFull_def m
        splitMaster_def NewShamirUnsealer_def Let_def) (auto simp: sizes)
qed

theorem init_then_unseal_witness:
  "\<exists>parts s'. Init NewSealConfigStore (NewShamirUnsealer 3 2) [0..<255] (replicate 76 0) None = Inr (parts, s', []) \<and>
    fst (Unseal rev NewSealConfigStore s' (submitAll NewSealConfigStore s' (tl parts) (NewShamirUnsealer 3 2))) =
      Inr (replicate 32 0)"
proof -
  obtain parts s' where i: "Init NewSealConfigStore (NewShamirUnsealer 3 2) [0..<255] (replicate 76 0) None = Inr (parts, s', [])"
    and p: "length parts = 3" "distinct parts" using init_example by blast
  from init_then_unseal [OF i _ perm255_upt, of "tl parts" rev] p have
    "Unseal rev NewSealConfigStore s' (submitAll NewSealConfigStore s' (tl parts) (NewShamirUnsealer 3 2)) =
      (Inr (replicate 32 0), NewShamirUnsealer 3 2)"
    by (cases parts) (auto simp: NewShamirUnsealer_def)
  with i show ?thesis by auto
qed

theorem kms_init_then_unseal_witness:
  "\<exists>s'. Init_kms NewSealConfigStore \<lparr>Encrypt_kms = (\<lambda>p. Inr (7 # p)), Decrypt_kms = (\<lambda>c. Inr (tl c))\<rparr>
      SealTypeAWSKMS (replicate 44 0) None = Inr (s', []) \<and>
    Unseal_kms NewSealConfigStore \<lparr>Encrypt_kms = (\<lambda>p. Inr (7 # p)), Decrypt_kms = (\<lambda>c. Inr (tl c))\<rparr>
      SealTypeAWSKMS s' = Inr (replicate 32 0)"
proof -
  let ?c = "\<lparr>Encrypt_kms = (\<lambda>p. Inr (7 # p)), Decrypt_kms = (\<lambda>c. Inr (tl c))\<rparr>"
  obtain kcv where "makeKCV (replicate 32 0) (replicate 12 0) = Inr (kcv, [])"
    using makeKCV_ok [of "replicate 32 0" "replicate 12 0"] by (auto simp: sizes)
  then obtain s' where i: "Init_kms NewSealConfigStore ?c SealTypeAWSKMS (replicate 44 0) None = Inr (s', [])"
    by (auto simp: Init_kms_def NewSealConfigStore_def pg_Get_def pg_Put_def GenerateKey_def readFull_def
        sizes Let_def)
  from kms_init_then_unseal [OF i] i show ?thesis by auto
qed

theorem init_then_reconstruct_witness:
  "\<exists>parts s' cfg. Init NewSealConfigStore (NewShamirUnsealer 3 2) [0..<255] (replicate 76 0) None = Inr (parts, s', []) \<and>
    pg_Get s' = Inr cfg \<and> ReconstructAndVerifyShamir (Some cfg) parts = Inr (replicate 32 0)"
proof -
  obtain parts s' where i: "Init NewSealConfigStore (NewShamirUnsealer 3 2) [0..<255] (replicate 76 0) None = Inr (parts, s', [])"
    and p: "length parts = 3" "distinct parts" using init_example by blast
  from init_then_reconstruct [OF i perm255_upt p(2)] p i show ?thesis
    by (auto simp: NewShamirUnsealer_def)
qed

end
