(* ===== verification/Keyring.thy ===== *)
theory Keyring
  imports Seal
begin

section \<open>The keyring\<close>

text \<open>
  \<^verbatim>\<open>internal/crypto/keyring.go\<close> and the transit methods of \<^verbatim>\<open>sign.go\<close>: the in-memory master key, the
  operations that wrap and unwrap under it, and its rotation. Each pair of wrap and unwrap methods is
  a \<open>keyring_slot\<close>: the locale states what a caller relies on (nothing works while sealed, unwrapping
  inverts wrapping), and is interpreted on the six pairs of the source. The master key is an option:
  \<open>None\<close> is Go's \<^verbatim>\<open>nil\<close>, the sealed state. The read-write lock makes every method atomic, so a
  method is one function of the state.
\<close>

subsection \<open>State and operations\<close>

record Keyring =
  master :: "bytes option"

definition NewKeyring :: Keyring where
  "NewKeyring = \<lparr>master = None\<rparr>"

definition Unseal_kr :: "bytes \<Rightarrow> Keyring \<Rightarrow> crypto_err + Keyring" where
  "Unseal_kr m k =
    (if length m \<noteq> KeySize then Inl ErrInvalidKeySize
     else if master k \<noteq> None then Inl ErrAlreadyUnsealed
     else Inr (k\<lparr>master := Some m\<rparr>))"

definition Seal_kr :: "Keyring \<Rightarrow> Keyring" where
  "Seal_kr k = k\<lparr>master := None\<rparr>"

definition Sealed :: "Keyring \<Rightarrow> bool" where
  "Sealed k \<longleftrightarrow> master k = None"

text \<open>The guard every method starts with.\<close>

definition with_master :: "Keyring \<Rightarrow> (bytes \<Rightarrow> crypto_err + 'a) \<Rightarrow> crypto_err + 'a" where
  "with_master k f = (case master k of None \<Rightarrow> Inl ErrSealed | Some m \<Rightarrow> f m)"

definition WrapProjectKEK :: "Keyring \<Rightarrow> bytes \<Rightarrow> string \<Rightarrow> rng \<Rightarrow> crypto_err + (Ciphertext \<times> rng)" where
  "WrapProjectKEK k kek projectID r = with_master k (\<lambda>m. WrapKey m kek (ProjectKEKAAD projectID) r)"

definition UnwrapProjectKEK :: "Keyring \<Rightarrow> Ciphertext \<Rightarrow> string \<Rightarrow> crypto_err + bytes" where
  "UnwrapProjectKEK k ct projectID = with_master k (\<lambda>m. UnwrapKey m ct (ProjectKEKAAD projectID))"

definition WrapAuthKey :: "Keyring \<Rightarrow> bytes \<Rightarrow> rng \<Rightarrow> crypto_err + (Ciphertext \<times> rng)" where
  "WrapAuthKey k key r = with_master k (\<lambda>m. WrapKey m key AuthKeyAAD r)"

definition UnwrapAuthKey :: "Keyring \<Rightarrow> Ciphertext \<Rightarrow> crypto_err + bytes" where
  "UnwrapAuthKey k ct = with_master k (\<lambda>m. UnwrapKey m ct AuthKeyAAD)"

definition WrapOIDCClientSecret :: "Keyring \<Rightarrow> bytes \<Rightarrow> rng \<Rightarrow> crypto_err + (Ciphertext \<times> rng)" where
  "WrapOIDCClientSecret k secret r = with_master k (\<lambda>m. Encrypt m secret OIDCClientSecretAAD r)"

definition UnwrapOIDCClientSecret :: "Keyring \<Rightarrow> Ciphertext \<Rightarrow> crypto_err + bytes" where
  "UnwrapOIDCClientSecret k ct = with_master k (\<lambda>m. Decrypt m ct OIDCClientSecretAAD)"

definition WrapNotificationConfig :: "Keyring \<Rightarrow> string \<Rightarrow> bytes \<Rightarrow> rng \<Rightarrow> crypto_err + (Ciphertext \<times> rng)" where
  "WrapNotificationConfig k channelID config r =
    with_master k (\<lambda>m. Encrypt m config (NotificationChannelAAD channelID) r)"

definition UnwrapNotificationConfig :: "Keyring \<Rightarrow> string \<Rightarrow> Ciphertext \<Rightarrow> crypto_err + bytes" where
  "UnwrapNotificationConfig k channelID ct =
    with_master k (\<lambda>m. Decrypt m ct (NotificationChannelAAD channelID))"

definition WrapTOTPSecret :: "Keyring \<Rightarrow> string \<Rightarrow> bytes \<Rightarrow> rng \<Rightarrow> crypto_err + (Ciphertext \<times> rng)" where
  "WrapTOTPSecret k userID secret r = with_master k (\<lambda>m. Encrypt m secret (TOTPSecretAAD userID) r)"

definition UnwrapTOTPSecret :: "Keyring \<Rightarrow> string \<Rightarrow> Ciphertext \<Rightarrow> crypto_err + bytes" where
  "UnwrapTOTPSecret k userID ct = with_master k (\<lambda>m. Decrypt m ct (TOTPSecretAAD userID))"

definition WrapTransitKey :: "Keyring \<Rightarrow> bytes \<Rightarrow> string \<Rightarrow> int \<Rightarrow> rng \<Rightarrow> crypto_err + (Ciphertext \<times> rng)" where
  "WrapTransitKey k material name version r =
    with_master k (\<lambda>m. WrapKey m material (TransitKeyAAD name version) r)"

definition UnwrapTransitKey :: "Keyring \<Rightarrow> Ciphertext \<Rightarrow> string \<Rightarrow> int \<Rightarrow> crypto_err + bytes" where
  "UnwrapTransitKey k ct name version = with_master k (\<lambda>m. UnwrapKey m ct (TransitKeyAAD name version))"

text \<open>\<^verbatim>\<open>NewDEK\<close> wraps under the project's KEK; the master key is only required to be present.\<close>

definition NewDEK :: "Keyring \<Rightarrow> bytes \<Rightarrow> bytes \<Rightarrow> rng \<Rightarrow> crypto_err + (bytes \<times> Ciphertext \<times> rng)" where
  "NewDEK k projectKEK aad r = with_master k (\<lambda>m.
     bind_err (GenerateKey r) (\<lambda>(dek, r1).
     bind_err (WrapKey projectKEK dek aad r1) (\<lambda>(wrapped, r2). Inr (dek, wrapped, r2))))"

text \<open>
  \<^verbatim>\<open>RotateMaster\<close>: the closures \<^verbatim>\<open>unwrap\<close> and \<^verbatim>\<open>wrap\<close> are bound to the old and the new master key. The
  caller's \<^verbatim>\<open>rewrap\<close> and \<^verbatim>\<open>persist\<close> are state transformers over the caller's state \<open>'c\<close> (the database
  and what \<^verbatim>\<open>rewrap\<close> staged for \<^verbatim>\<open>persist\<close>) and the random source; on an error they return the state
  they leave behind.
\<close>

definition rot_unwrap :: "bytes \<Rightarrow> bytes \<Rightarrow> bytes \<Rightarrow> crypto_err + bytes" where
  "rot_unwrap m oldCT aad = (case ParseCiphertext oldCT of
      Inl _ \<Rightarrow> Inl ErrDecryptFailed
    | Inr ct \<Rightarrow> Decrypt m ct aad)"

definition rot_wrap :: "bytes \<Rightarrow> bytes \<Rightarrow> bytes \<Rightarrow> rng \<Rightarrow> crypto_err + (bytes \<times> rng)" where
  "rot_wrap nm plain aad r = bind_err (Encrypt nm plain aad r) (\<lambda>(ct, r'). Inr (Marshal ct, r'))"

type_synonym 'c stage = "'c \<times> rng \<Rightarrow> crypto_err option \<times> ('c \<times> rng)"

definition RotateMaster :: "bytes \<Rightarrow>
    ((bytes \<Rightarrow> bytes \<Rightarrow> crypto_err + bytes) \<Rightarrow> (bytes \<Rightarrow> bytes \<Rightarrow> rng \<Rightarrow> crypto_err + (bytes \<times> rng)) \<Rightarrow> 'c stage) \<Rightarrow>
    'c stage \<Rightarrow> Keyring \<Rightarrow> 'c \<times> rng \<Rightarrow> crypto_err option \<times> Keyring \<times> ('c \<times> rng)" where
  "RotateMaster newMaster rewrap persist k c =
    (if length newMaster \<noteq> KeySize then (Some ErrInvalidKeySize, k, c)
     else case master k of
       None \<Rightarrow> (Some ErrSealed, k, c)
     | Some m \<Rightarrow>
        (case rewrap (rot_unwrap m) (rot_wrap newMaster) c of
           (Some e, c1) \<Rightarrow> (Some e, k, c1)
         | (None, c1) \<Rightarrow>
            (case persist c1 of
               (Some e, c2) \<Rightarrow> (Some e, k, c2)
             | (None, c2) \<Rightarrow> (None, k\<lparr>master := Some newMaster\<rparr>, c2))))"

definition SyncFingerprint :: "Keyring \<Rightarrow> bytes \<Rightarrow> bytes option" where
  "SyncFingerprint k data = (case master k of
      None \<Rightarrow> None
    | Some m \<Rightarrow> Some (hmac sha256 (hmac sha256 m (bytes_of ''janus:sync:fingerprint-key'')) data))"

subsection \<open>Invariant\<close>

text \<open>The master key, when there is one, has 32 bytes; every state change keeps this.\<close>

definition keyring_wf :: "Keyring \<Rightarrow> bool" where
  "keyring_wf k \<longleftrightarrow> (\<forall>m. master k = Some m \<longrightarrow> length m = KeySize)"

lemma keyring_wf_NewKeyring: "keyring_wf NewKeyring"
  by (simp add: keyring_wf_def NewKeyring_def)

lemma keyring_wf_Unseal: "Unseal_kr m k = Inr k' \<Longrightarrow> keyring_wf k'"
  by (auto simp: Unseal_kr_def keyring_wf_def split: if_splits)

lemma keyring_wf_Seal: "keyring_wf (Seal_kr k)"
  by (simp add: keyring_wf_def Seal_kr_def)

lemma RotateMaster_cases:
  "RotateMaster nm rewrap persist k c = (e, k', c') \<Longrightarrow>
    (e = None \<and> length nm = KeySize \<and> master k \<noteq> None \<and> k' = k\<lparr>master := Some nm\<rparr>) \<or>
    (e \<noteq> None \<and> k' = k)"
  by (auto simp: RotateMaster_def split: if_splits option.splits prod.splits)

subsection \<open>The contract of a slot\<close>

lemma with_master_sealed [simp]: "Sealed k \<Longrightarrow> with_master k f = Inl ErrSealed"
  by (simp add: with_master_def Sealed_def)

lemma with_master_Inr [go_result]:
  "with_master k f = Inr x \<longleftrightarrow> (\<exists>m. master k = Some m \<and> f m = Inr x)"
  by (auto simp: with_master_def split: option.splits)

text \<open>
  A slot is a wrap and an unwrap method for a blob of a given size (\<open>ok\<close>) stored under a given AAD.
\<close>

locale keyring_slot =
  fixes wrap :: "Keyring \<Rightarrow> bytes \<Rightarrow> rng \<Rightarrow> crypto_err + (Ciphertext \<times> rng)"
    and unwrap :: "Keyring \<Rightarrow> Ciphertext \<Rightarrow> crypto_err + bytes"
    and aad :: bytes
    and ok :: "bytes \<Rightarrow> bool"
  assumes wrap_sealed: "Sealed k \<Longrightarrow> wrap k x r = Inl ErrSealed"
    and unwrap_sealed: "Sealed k \<Longrightarrow> unwrap k ct = Inl ErrSealed"
    and wrap_master: "master k = Some m \<Longrightarrow> ok x \<Longrightarrow> wrap k x r = Encrypt m x aad r"
    and wrap_ok: "wrap k x r = Inr p \<Longrightarrow> ok x"
    and unwrap_master: "master k = Some m \<Longrightarrow>
      unwrap k ct = bind_err (Decrypt m ct aad) (\<lambda>x. if ok x then Inr x else Inl ErrDecryptFailed)"
    and ok_size: "ok x \<Longrightarrow> length x \<le> gcm_limit"
begin

lemma unwrap_wrap: "wrap k x r = Inr (ct, r') \<Longrightarrow> unwrap k ct = Inr x"
proof -
  assume w: "wrap k x r = Inr (ct, r')"
  then obtain m where m: "master k = Some m" using wrap_sealed [of k x r] by (cases "master k") (auto simp: Sealed_def)
  from w wrap_ok [OF w] have "Encrypt m x aad r = Inr (ct, r')" by (simp add: wrap_master [OF m])
  with wrap_ok [OF w] show ?thesis by (simp add: unwrap_master [OF m] Decrypt_Encrypt)
qed

lemma wrap_succeeds:
  "keyring_wf k \<Longrightarrow> \<not> Sealed k \<Longrightarrow> ok x \<Longrightarrow> NonceSize \<le> length r \<Longrightarrow> \<exists>ct. wrap k x r = Inr (ct, drop NonceSize r)"
  using Encrypt_ok [of _ r x aad] ok_size [of x]
  by (cases "master k") (auto simp: Sealed_def keyring_wf_def wrap_master)

lemma roundtrip:
  "keyring_wf k \<Longrightarrow> \<not> Sealed k \<Longrightarrow> ok x \<Longrightarrow> NonceSize \<le> length r \<Longrightarrow>
    \<exists>ct. wrap k x r = Inr (ct, drop NonceSize r) \<and> unwrap k ct = Inr x"
  using wrap_succeeds [of k x r] unwrap_wrap [of k x r] by blast

lemma unwrap_other_master:
  "wrap k x r = Inr (ct, r') \<Longrightarrow> unwrap k' ct = Inr y \<Longrightarrow>
    \<exists>m m'. master k = Some m \<and> master k' = Some m' \<and>
      gcm_seal (aes_block m) (Nonce ct) x aad = gcm_seal (aes_block m') (Nonce ct) y aad"
proof -
  assume w: "wrap k x r = Inr (ct, r')" and u: "unwrap k' ct = Inr y"
  obtain m m' where m: "master k = Some m" "master k' = Some m'"
    using w u wrap_sealed [of k x r] unwrap_sealed [of k' ct] by (cases "master k"; cases "master k'") (auto simp: Sealed_def)
  with w u wrap_ok [OF w] have "Encrypt m x aad r = Inr (ct, r')" "Decrypt m' ct aad = Inr y"
    by (auto simp: wrap_master unwrap_master bind_err_Inr split: if_splits)
  with m show ?thesis by (auto simp: Encrypt_Inr Decrypt_Inr)
qed

end

definition key_sized :: "bytes \<Rightarrow> bool" where
  "key_sized x \<longleftrightarrow> length x = KeySize"

definition blob_sized :: "bytes \<Rightarrow> bool" where
  "blob_sized x \<longleftrightarrow> length x \<le> gcm_limit"

lemma Decrypt_blob_sized: "Decrypt m ct aad = Inr x \<Longrightarrow> blob_sized x"
  by (auto simp: Decrypt_Inr blob_sized_def dest: gcm_seal_limit)

lemma Decrypt_check_blob:
  "bind_err (Decrypt m ct aad) (\<lambda>x. if blob_sized x then Inr x else Inl ErrDecryptFailed) = Decrypt m ct aad"
  using Decrypt_blob_sized by (cases "Decrypt m ct aad") auto

lemma UnwrapKey_key_sized:
  "UnwrapKey m ct aad = bind_err (Decrypt m ct aad) (\<lambda>x. if key_sized x then Inr x else Inl ErrDecryptFailed)"
  by (cases "Decrypt m ct aad") (auto simp: UnwrapKey_def key_sized_def)

lemma Encrypt_blob_sized: "Encrypt m x aad r = Inr p \<Longrightarrow> blob_sized x"
  by (cases p) (auto simp: Encrypt_Inr blob_sized_def dest: gcm_seal_limit)

lemmas slot_proof = with_master_def key_sized_def WrapKey_def UnwrapKey_key_sized [unfolded key_sized_def]
  Decrypt_check_blob Sealed_def

interpretation project_kek: keyring_slot
  "\<lambda>k x r. WrapProjectKEK k x i r" "\<lambda>k ct. UnwrapProjectKEK k ct i" "ProjectKEKAAD i" key_sized for i
  by unfold_locales (auto simp: WrapProjectKEK_def UnwrapProjectKEK_def slot_proof
      KeySize_le_gcm_limit split: option.splits if_splits)

interpretation auth_key: keyring_slot WrapAuthKey UnwrapAuthKey AuthKeyAAD key_sized
  by unfold_locales (auto simp: WrapAuthKey_def UnwrapAuthKey_def slot_proof
      KeySize_le_gcm_limit split: option.splits if_splits)

interpretation transit_key: keyring_slot
  "\<lambda>k x r. WrapTransitKey k x n v r" "\<lambda>k ct. UnwrapTransitKey k ct n v" "TransitKeyAAD n v" key_sized for n v
  by unfold_locales (auto simp: WrapTransitKey_def UnwrapTransitKey_def slot_proof
      KeySize_le_gcm_limit split: option.splits if_splits)

interpretation oidc_secret: keyring_slot
  WrapOIDCClientSecret UnwrapOIDCClientSecret OIDCClientSecretAAD blob_sized
  by unfold_locales (auto simp: WrapOIDCClientSecret_def UnwrapOIDCClientSecret_def slot_proof
      blob_sized_def [symmetric] dest: Encrypt_blob_sized split: option.splits)

interpretation notification_config: keyring_slot
  "\<lambda>k x r. WrapNotificationConfig k i x r" "\<lambda>k ct. UnwrapNotificationConfig k i ct"
  "NotificationChannelAAD i" blob_sized for i
  by unfold_locales (auto simp: WrapNotificationConfig_def UnwrapNotificationConfig_def slot_proof
      blob_sized_def [symmetric] dest: Encrypt_blob_sized split: option.splits)

interpretation totp_secret: keyring_slot
  "\<lambda>k x r. WrapTOTPSecret k i x r" "\<lambda>k ct. UnwrapTOTPSecret k i ct" "TOTPSecretAAD i" blob_sized for i
  by unfold_locales (auto simp: WrapTOTPSecret_def UnwrapTOTPSecret_def slot_proof
      blob_sized_def [symmetric] dest: Encrypt_blob_sized split: option.splits)

subsection \<open>The life of a keyring\<close>

text \<open>The state changes a keyring can go through, as a step relation, and the states it can reach.\<close>

inductive kr_step :: "Keyring \<Rightarrow> Keyring \<Rightarrow> bool" where
  step_unseal: "Unseal_kr m k = Inr k' \<Longrightarrow> kr_step k k'"
| step_seal: "kr_step k (Seal_kr k)"
| step_rotate: "length nm = KeySize \<Longrightarrow> \<not> Sealed k \<Longrightarrow> kr_step k (k\<lparr>master := Some nm\<rparr>)"

inductive kr_reach :: "Keyring \<Rightarrow> bool" where
  reach_new: "kr_reach NewKeyring"
| reach_step: "kr_reach k \<Longrightarrow> kr_step k k' \<Longrightarrow> kr_reach k'"

inductive_cases kr_stepE: "kr_step k k'"

lemma RotateMaster_step: "RotateMaster nm rewrap persist k c = (e, k', c') \<Longrightarrow> k' = k \<or> kr_step k k'"
  using RotateMaster_cases [of nm rewrap persist k c e k' c'] by (auto simp: Sealed_def intro: step_rotate)

lemma kr_reach_wf: "kr_reach k \<Longrightarrow> keyring_wf k"
proof (induction rule: kr_reach.induct)
  case (reach_step k k')
  from reach_step.hyps(2) reach_step.IH show ?case
    by (elim kr_stepE) (auto intro: keyring_wf_Unseal keyring_wf_Seal, simp add: keyring_wf_def)
qed (rule keyring_wf_NewKeyring)

subsection \<open>The contract of the keyring\<close>

text \<open>
  Fail closed: on a sealed keyring every operation that would use the master key is refused with
  \<^verbatim>\<open>ErrSealed\<close> (the fingerprint is \<^verbatim>\<open>nil\<close>), and a rotation changes nothing.
\<close>

theorem sealed_keyring_refuses:
  assumes "Sealed k"
  shows "WrapProjectKEK k key i r = Inl ErrSealed \<and> UnwrapProjectKEK k ct i = Inl ErrSealed \<and>
    WrapAuthKey k key r = Inl ErrSealed \<and> UnwrapAuthKey k ct = Inl ErrSealed \<and>
    WrapOIDCClientSecret k b r = Inl ErrSealed \<and> UnwrapOIDCClientSecret k ct = Inl ErrSealed \<and>
    WrapNotificationConfig k i b r = Inl ErrSealed \<and> UnwrapNotificationConfig k i ct = Inl ErrSealed \<and>
    WrapTOTPSecret k i b r = Inl ErrSealed \<and> UnwrapTOTPSecret k i ct = Inl ErrSealed \<and>
    WrapTransitKey k key i v r = Inl ErrSealed \<and> UnwrapTransitKey k ct i v = Inl ErrSealed \<and>
    NewDEK k kek aad r = Inl ErrSealed \<and> SyncFingerprint k b = None \<and>
    fst (RotateMaster (replicate 32 x) rewrap persist k c) = Some ErrSealed \<and>
    snd (RotateMaster (replicate 32 x) rewrap persist k c) = (k, c)"
  using project_kek.wrap_sealed [OF assms] project_kek.unwrap_sealed [OF assms]
    auth_key.wrap_sealed [OF assms] auth_key.unwrap_sealed [OF assms]
    oidc_secret.wrap_sealed [OF assms] oidc_secret.unwrap_sealed [OF assms]
    notification_config.wrap_sealed [OF assms] notification_config.unwrap_sealed [OF assms]
    totp_secret.wrap_sealed [OF assms] totp_secret.unwrap_sealed [OF assms]
    transit_key.wrap_sealed [OF assms] transit_key.unwrap_sealed [OF assms] assms
  by (simp add: NewDEK_def SyncFingerprint_def RotateMaster_def Sealed_def with_master_def KeySize_def)

text \<open>
  C22. Round trip of every slot: on a reachable keyring that is not sealed, with twelve random bytes,
  each of the six wrap methods succeeds on a blob of its size and the matching unwrap method, called
  with the same identifiers, returns the blob.
\<close>

theorem keyring_roundtrip:
  assumes "kr_reach k" "\<not> Sealed k" "12 \<le> length r" "length key = 32" "length blob \<le> gcm_limit"
  shows "(\<exists>ct. WrapProjectKEK k key i r = Inr (ct, drop 12 r) \<and> UnwrapProjectKEK k ct i = Inr key) \<and>
    (\<exists>ct. WrapAuthKey k key r = Inr (ct, drop 12 r) \<and> UnwrapAuthKey k ct = Inr key) \<and>
    (\<exists>ct. WrapTransitKey k key i v r = Inr (ct, drop 12 r) \<and> UnwrapTransitKey k ct i v = Inr key) \<and>
    (\<exists>ct. WrapOIDCClientSecret k blob r = Inr (ct, drop 12 r) \<and> UnwrapOIDCClientSecret k ct = Inr blob) \<and>
    (\<exists>ct. WrapNotificationConfig k i blob r = Inr (ct, drop 12 r) \<and> UnwrapNotificationConfig k i ct = Inr blob) \<and>
    (\<exists>ct. WrapTOTPSecret k i blob r = Inr (ct, drop 12 r) \<and> UnwrapTOTPSecret k i ct = Inr blob)"
proof -
  note wf = kr_reach_wf [OF assms(1)]
  have r: "NonceSize \<le> length r" and sz: "key_sized key" "blob_sized blob"
    using assms(3-5) by (simp_all add: sizes key_sized_def blob_sized_def)
  show ?thesis
    unfolding NonceSize_def [symmetric]
    by (intro conjI project_kek.roundtrip auth_key.roundtrip transit_key.roundtrip
        oidc_secret.roundtrip notification_config.roundtrip totp_secret.roundtrip wf assms(2) sz r)
qed

text \<open>
  Rotation of the in-memory key is all or nothing: either it reports an error and the keyring is
  the old one, or the new key has 32 bytes, the keyring was unsealed, both of the caller's stages
  succeeded in order, and the keyring holds exactly the new key.
\<close>

theorem rotate_master_all_or_nothing:
  "case RotateMaster nm rewrap persist k c of
     (Some e, k', c') \<Rightarrow> k' = k
   | (None, k', c') \<Rightarrow> length nm = 32 \<and> k' = k\<lparr>master := Some nm\<rparr> \<and>
       (\<exists>m c1. master k = Some m \<and> rewrap (rot_unwrap m) (rot_wrap nm) c = (None, c1) \<and> persist c1 = (None, c'))"
  by (auto simp: RotateMaster_def KeySize_def split: if_splits option.splits prod.splits)

text \<open>Witnesses.\<close>

lemma unsealed_example: "kr_reach \<lparr>master = Some zero_key\<rparr>"
proof (rule reach_step [OF reach_new], rule step_unseal)
  show "Unseal_kr zero_key NewKeyring = Inr \<lparr>master = Some zero_key\<rparr>"
    by (simp add: Unseal_kr_def NewKeyring_def KeySize_def)
qed

theorem sealed_keyring_refuses_witness:
  "Sealed NewKeyring \<and> WrapAuthKey NewKeyring zero_key (replicate 12 0) = Inl ErrSealed \<and>
    SyncFingerprint NewKeyring [1, 2] = None"
proof -
  have s: "Sealed NewKeyring" by (simp add: Sealed_def NewKeyring_def)
  show ?thesis by (simp add: s sealed_keyring_refuses [OF s])
qed

theorem keyring_roundtrip_witness:
  "\<exists>ct. WrapTransitKey \<lparr>master = Some zero_key\<rparr> (replicate 32 9) ''k'' 1 (replicate 12 0) = Inr (ct, []) \<and>
    UnwrapTransitKey \<lparr>master = Some zero_key\<rparr> ct ''k'' 1 = Inr (replicate 32 9)"
  using keyring_roundtrip [OF unsealed_example, of "replicate 12 0" "replicate 32 9" "[]" "''k''" 1]
  by (simp add: Sealed_def)

end
