(* ===== verification/Masterkeys.thy ===== *)
theory Masterkeys
  imports Keyring
begin

section \<open>Rotation of the master key\<close>

text \<open>
  \<^verbatim>\<open>internal/store/masterkey.go\<close> and \<^verbatim>\<open>internal/masterkeys/service.go\<close>: re-wrapping of every blob stored
  under the master key in one transaction, the rotation core, the single-call rotation of KMS
  instances and the Shamir rekey ceremony. A table is a list of rows; a row is a key and a blob. The
  outcome of committing a transaction is the argument \<open>commit\<close>, the clock is \<open>now\<close>, and the
  unsealer's \<^verbatim>\<open>Reseal\<close> is the argument \<open>reseal\<close>, whose contract is the locale \<open>unsealer\<close>, interpreted
  on both unsealers. The theorems: a rotation keeps the plaintext of every blob or changes nothing,
  the shares it returns unseal the new key, and the ceremony rotates only on proof of possession.
\<close>

subsection \<open>The tables\<close>

record mk_db =
  projects :: "(string \<times> bytes) list"
  project_kek_versions :: "((string \<times> int) \<times> bytes) list"
  auth_config :: "bytes option"
  oidc_providers :: "(string \<times> bytes) list"
  transit_keys :: "(string \<times> string) list"
  transit_key_versions :: "((string \<times> string \<times> int) \<times> bytes) list"
  notification_channels :: "(string \<times> bytes) list"
  user_totp :: "(string \<times> bytes) list"
  seal_config :: "seal_row option"

definition ErrNotFound_crypto :: crypto_err where
  "ErrNotFound_crypto = ErrExternal ''store: not found''"

text \<open>\<^verbatim>\<open>UPDATE ... SET blob WHERE id\<close>.\<close>

definition update_blob :: "('k \<Rightarrow> 'i) \<Rightarrow> 'i \<Rightarrow> bytes \<Rightarrow> ('k \<times> bytes) list \<Rightarrow> ('k \<times> bytes) list" where
  "update_blob idOf i nc tbl = map (\<lambda>(k, b). if idOf k = i then (k, nc) else (k, b)) tbl"

type_synonym rewrapFn = "bytes \<Rightarrow> bytes \<Rightarrow> rng \<Rightarrow> crypto_err + (bytes \<times> rng)"

text \<open>The loop over the buffered rows: identifier, AAD and blob.\<close>

fun rewrap_rows :: "rewrapFn \<Rightarrow> ('k \<Rightarrow> 'i) \<Rightarrow> ('i \<times> bytes \<times> bytes) list \<Rightarrow> ('k \<times> bytes) list \<Rightarrow> rng \<Rightarrow>
    crypto_err + (('k \<times> bytes) list \<times> rng)" where
  "rewrap_rows rewrap idOf [] tbl r = Inr (tbl, r)"
| "rewrap_rows rewrap idOf ((i, aad, blob) # buf) tbl r =
    bind_err (rewrap blob aad r) (\<lambda>(nc, r'). rewrap_rows rewrap idOf buf (update_blob idOf i nc tbl) r')"

definition rewrapByID :: "rewrapFn \<Rightarrow> (string \<Rightarrow> bytes) \<Rightarrow> (string \<times> bytes) list \<Rightarrow> rng \<Rightarrow>
    crypto_err + ((string \<times> bytes) list \<times> rng)" where
  "rewrapByID rewrap aadFor tbl r =
    rewrap_rows rewrap (\<lambda>k. k) (map (\<lambda>(i, b). (i, aadFor i, b)) tbl) tbl r"

definition rewrapKEKVersions :: "rewrapFn \<Rightarrow> ((string \<times> int) \<times> bytes) list \<Rightarrow> rng \<Rightarrow>
    crypto_err + (((string \<times> int) \<times> bytes) list \<times> rng)" where
  "rewrapKEKVersions rewrap tbl r =
    rewrap_rows rewrap (\<lambda>k. k) (map (\<lambda>((p, v), b). ((p, v), ProjectKEKAAD p, b)) tbl) tbl r"

definition rewrapSingle :: "rewrapFn \<Rightarrow> bytes \<Rightarrow> bytes option \<Rightarrow> rng \<Rightarrow> crypto_err + (bytes option \<times> rng)" where
  "rewrapSingle rewrap aad row r = (case row of
      None \<Rightarrow> Inr (None, r)
    | Some blob \<Rightarrow> bind_err (rewrap blob aad r) (\<lambda>(nc, r'). Inr (Some nc, r')))"

text \<open>The join of \<^verbatim>\<open>transit_key_versions\<close> with \<^verbatim>\<open>transit_keys\<close> gives each version row its key's name.\<close>

definition transit_join :: "(string \<times> string) list \<Rightarrow> ((string \<times> string \<times> int) \<times> bytes) list \<Rightarrow>
    (string \<times> bytes \<times> bytes) list" where
  "transit_join keys vs = concat (map (\<lambda>((i, kid, v), b).
     map (\<lambda>(_, n). (i, TransitKeyAAD n v, b)) (filter (\<lambda>(k, _). k = kid) keys)) vs)"

definition rewrapTransit :: "rewrapFn \<Rightarrow> (string \<times> string) list \<Rightarrow> ((string \<times> string \<times> int) \<times> bytes) list \<Rightarrow>
    rng \<Rightarrow> crypto_err + (((string \<times> string \<times> int) \<times> bytes) list \<times> rng)" where
  "rewrapTransit rewrap keys vs r = rewrap_rows rewrap fst (transit_join keys vs) vs r"

definition writeResealCfg :: "int \<Rightarrow> SealConfig \<Rightarrow> seal_row option \<Rightarrow> crypto_err + seal_row option" where
  "writeResealCfg now cfg t = (case t of
      None \<Rightarrow> Inl ErrNotFound_crypto
    | Some row \<Rightarrow> Inr (Some \<lparr>row_type = Type cfg, row_threshold = Some (Threshold cfg),
        row_shares = Some (Shares cfg), row_key_check_value = KeyCheckValue cfg,
        row_wrapped_master_key = Some (WrappedMasterKey cfg),
        row_master_key_version = row_master_key_version row + 1,
        row_master_key_rotated_at = Some now\<rparr>))"

text \<open>
  \<^verbatim>\<open>RewrapAllUnderNewMaster\<close>: the body of the transaction, then the transaction, which leaves the
  database unchanged when the body or the commit fails. \<open>reseal\<close> also returns the new shares.
\<close>

definition rewrap_all :: "rewrapFn \<Rightarrow> (rng \<Rightarrow> crypto_err + (SealConfig \<times> bytes list \<times> rng)) \<Rightarrow> int \<Rightarrow>
    mk_db \<Rightarrow> rng \<Rightarrow> crypto_err + (mk_db \<times> bytes list \<times> rng)" where
  "rewrap_all rewrap reseal now db r =
    bind_err (rewrapByID rewrap ProjectKEKAAD (projects db) r) (\<lambda>(t1, r1).
    bind_err (rewrapKEKVersions rewrap (project_kek_versions db) r1) (\<lambda>(t2, r2).
    bind_err (rewrapSingle rewrap AuthKeyAAD (auth_config db) r2) (\<lambda>(t3, r3).
    bind_err (rewrapByID rewrap (\<lambda>_. OIDCClientSecretAAD) (oidc_providers db) r3) (\<lambda>(t4, r4).
    bind_err (rewrapTransit rewrap (transit_keys db) (transit_key_versions db) r4) (\<lambda>(t5, r5).
    bind_err (rewrapByID rewrap NotificationChannelAAD (notification_channels db) r5) (\<lambda>(t6, r6).
    bind_err (rewrapByID rewrap TOTPSecretAAD (user_totp db) r6) (\<lambda>(t7, r7).
    bind_err (reseal r7) (\<lambda>(cfg, sh, r8).
    bind_err (writeResealCfg now cfg (seal_config db)) (\<lambda>sc.
    Inr (db\<lparr>projects := t1, project_kek_versions := t2, auth_config := t3, oidc_providers := t4,
            transit_key_versions := t5, notification_channels := t6, user_totp := t7,
            seal_config := sc\<rparr>, sh, r8))))))))))"

definition RewrapAllUnderNewMaster :: "rewrapFn \<Rightarrow> (rng \<Rightarrow> crypto_err + (SealConfig \<times> bytes list \<times> rng)) \<Rightarrow>
    int \<Rightarrow> crypto_err option \<Rightarrow> mk_db \<Rightarrow> rng \<Rightarrow> crypto_err + (mk_db \<times> bytes list \<times> rng)" where
  "RewrapAllUnderNewMaster rewrap reseal now commit db r =
    bind_err (rewrap_all rewrap reseal now db r) (\<lambda>res.
      case commit of Some e \<Rightarrow> Inl e | None \<Rightarrow> Inr res)"

definition GetMasterKeyMeta :: "mk_db \<Rightarrow> crypto_err + (string \<times> int \<times> int option)" where
  "GetMasterKeyMeta db = (case seal_config db of
      None \<Rightarrow> Inl ErrNotFound_crypto
    | Some row \<Rightarrow> Inr (row_type row, row_master_key_version row, row_master_key_rotated_at row))"

subsection \<open>The service\<close>

datatype mk_err =
    MkCrypto crypto_err | ErrShamirCeremonyRequired | ErrRekeyInProgress | ErrNoRekey
  | ErrKMSNoCeremony | ErrRekeyNonce

record rekeyState =
  active :: bool
  nonce :: string
  required :: int
  rk_submitted :: "(string \<times> bytes) list"

record mk_service =
  kr :: Keyring
  rekey :: rekeyState
  db :: mk_db

type_synonym resealFn = "seal_row option \<Rightarrow> bytes \<Rightarrow> rng \<Rightarrow> crypto_err + (SealConfig \<times> bytes list \<times> rng)"

text \<open>
  \<^verbatim>\<open>performRotation\<close>. The closures \<^verbatim>\<open>RotateMaster\<close> hands to the first stage are kept in local
  variables for the second stage, which is why the caller's state carries them.
\<close>

type_synonym rot_state = "mk_db \<times> bytes list \<times>
  ((bytes \<Rightarrow> bytes \<Rightarrow> crypto_err + bytes) \<times> (bytes \<Rightarrow> bytes \<Rightarrow> rng \<Rightarrow> crypto_err + (bytes \<times> rng))) option"

definition capture_stage :: "(bytes \<Rightarrow> bytes \<Rightarrow> crypto_err + bytes) \<Rightarrow>
    (bytes \<Rightarrow> bytes \<Rightarrow> rng \<Rightarrow> crypto_err + (bytes \<times> rng)) \<Rightarrow> rot_state stage" where
  "capture_stage unwrap wrap c = (case c of ((d, sh, _), r) \<Rightarrow> (None, ((d, sh, Some (unwrap, wrap)), r)))"

definition persist_stage :: "resealFn \<Rightarrow> int \<Rightarrow> crypto_err option \<Rightarrow> bytes \<Rightarrow> rot_state stage" where
  "persist_stage reseal now commit m2 c = (case c of
      ((d, sh, None), r) \<Rightarrow> (Some ErrDecryptFailed, c)
    | ((d, sh, Some (unwrap, wrap)), r) \<Rightarrow>
       (case RewrapAllUnderNewMaster
               (\<lambda>old aad r. bind_err (unwrap old aad) (\<lambda>pt. wrap pt aad r))
               (reseal (seal_config d) m2) now commit d r of
          Inl e \<Rightarrow> (Some e, c)
        | Inr (d', sh', r') \<Rightarrow> (None, ((d', sh', Some (unwrap, wrap)), r'))))"

definition performRotation :: "resealFn \<Rightarrow> int \<Rightarrow> crypto_err option \<Rightarrow> mk_service \<Rightarrow> rng \<Rightarrow>
    (crypto_err + (bytes list \<times> int)) \<times> mk_service \<times> rng" where
  "performRotation reseal now commit s r =
    (if Sealed (kr s) then (Inl ErrSealed, s, r)
     else case GenerateKey r of
       Inl e \<Rightarrow> (Inl e, s, r)
     | Inr (m2, r1) \<Rightarrow>
        (case RotateMaster m2 capture_stage (persist_stage reseal now commit m2) (kr s) ((db s, [], None), r1) of
           (Some e, k', ((d', sh, _), r2)) \<Rightarrow> (Inl e, s\<lparr>kr := k', db := d'\<rparr>, r2)
         | (None, k', ((d', sh, _), r2)) \<Rightarrow>
            (case GetMasterKeyMeta d' of
               Inl _ \<Rightarrow> (Inr (sh, 0), s\<lparr>kr := k', db := d'\<rparr>, r2)
             | Inr (_, version, _) \<Rightarrow> (Inr (sh, version), s\<lparr>kr := k', db := d'\<rparr>, r2))))"

definition Rotate :: "resealFn \<Rightarrow> int \<Rightarrow> crypto_err option \<Rightarrow> mk_service \<Rightarrow> rng \<Rightarrow>
    (mk_err + int) \<times> mk_service \<times> rng" where
  "Rotate reseal now commit s r = (case pg_Get (seal_config (db s)) of
      Inl e \<Rightarrow> (Inl (MkCrypto e), s, r)
    | Inr cfg \<Rightarrow>
       if Type cfg \<noteq> SealTypeAWSKMS then (Inl ErrShamirCeremonyRequired, s, r)
       else (case performRotation reseal now commit s r of
           (Inl e, s', r') \<Rightarrow> (Inl (MkCrypto e), s', r')
         | (Inr (_, version), s', r') \<Rightarrow> (Inr version, s', r')))"

definition clearLocked :: "rekeyState" where
  "clearLocked = \<lparr>active = False, nonce = '''', required = 0, rk_submitted = []\<rparr>"

definition RekeyInit :: "mk_service \<Rightarrow> rng \<Rightarrow> (mk_err + (string \<times> int)) \<times> mk_service \<times> rng" where
  "RekeyInit s r =
    (if Sealed (kr s) then (Inl (MkCrypto ErrSealed), s, r)
     else case pg_Get (seal_config (db s)) of
       Inl e \<Rightarrow> (Inl (MkCrypto e), s, r)
     | Inr cfg \<Rightarrow>
        if Type cfg \<noteq> SealTypeShamir then (Inl ErrKMSNoCeremony, s, r)
        else if active (rekey s) then (Inl ErrRekeyInProgress, s, r)
        else (case GenerateKey r of
            Inl e \<Rightarrow> (Inl (MkCrypto e), s, r)
          | Inr (n, r') \<Rightarrow>
             (Inr (EncodeToString n, Threshold cfg),
              s\<lparr>rekey := \<lparr>active = True, nonce = EncodeToString n, required = Threshold cfg, rk_submitted = []\<rparr>\<rparr>,
              r')))"

text \<open>
  What \<^verbatim>\<open>RekeySubmit\<close> returns: an error, the progress, or the completed rotation. \<open>ord\<close> is the
  iteration order over the submitted shares.
\<close>

datatype submit_result =
    SubmitErr mk_err
  | SubmitProgress (submitted_n: nat) (required_n: int)
  | SubmitComplete (new_shares: "bytes list") (new_version: int)

definition RekeySubmit :: "resealFn \<Rightarrow> (bytes list \<Rightarrow> bytes list) \<Rightarrow> int \<Rightarrow> crypto_err option \<Rightarrow>
    string \<Rightarrow> bytes \<Rightarrow> mk_service \<Rightarrow> rng \<Rightarrow> submit_result \<times> mk_service \<times> rng" where
  "RekeySubmit reseal ord now commit n share s r =
    (let rk = rekey s in
     if \<not> active rk then (SubmitErr ErrNoRekey, s, r)
     else if n \<noteq> nonce rk then (SubmitErr ErrRekeyNonce, s, r)
     else if length share < 2 then (SubmitErr (MkCrypto ErrInvalidShare), s, r)
     else let key = EncodeToString share;
              sub = (case map_of (rk_submitted rk) key of
                  Some _ \<Rightarrow> rk_submitted rk | None \<Rightarrow> rk_submitted rk @ [(key, share)]);
              s1 = s\<lparr>rekey := rk\<lparr>rk_submitted := sub\<rparr>\<rparr> in
       if int (length sub) < required rk then (SubmitProgress (length sub) (required rk), s1, r)
       else let parts = ord (map snd sub);
                s2 = s1\<lparr>rekey := (rekey s1)\<lparr>active := False\<rparr>\<rparr>;
                close = (\<lambda>s. s\<lparr>rekey := clearLocked\<rparr>) in
         (case pg_Get (seal_config (db s2)) of
            Inl e \<Rightarrow> (SubmitErr (MkCrypto e), close s2, r)
          | Inr cfg \<Rightarrow>
             (case ReconstructAndVerifyShamir (Some cfg) parts of
                Inl e \<Rightarrow> (SubmitErr (MkCrypto e), close s2, r)
              | Inr candidate \<Rightarrow>
                 (case performRotation reseal now commit s2 r of
                    (Inl e, s3, r') \<Rightarrow> (SubmitErr (MkCrypto e), close s3, r')
                  | (Inr (sh, ver), s3, r') \<Rightarrow> (SubmitComplete sh ver, close s3, r')))))"

definition RekeyCancel :: "mk_service \<Rightarrow> mk_err option \<times> mk_service" where
  "RekeyCancel s =
    (if \<not> active (rekey s) then (Some ErrNoRekey, s) else (None, s\<lparr>rekey := clearLocked\<rparr>))"

record mk_Status =
  UnsealType :: string
  Version :: int
  RotatedAt :: "int option"
  RekeyInProg :: bool
  Submitted_st :: nat
  Required_st :: int

definition Status :: "mk_service \<Rightarrow> crypto_err + mk_Status" where
  "Status s = bind_err (GetMasterKeyMeta (db s)) (\<lambda>(ty, v, rot).
     Inr \<lparr>UnsealType = ty, Version = v, RotatedAt = rot, RekeyInProg = active (rekey s),
          Submitted_st = length (rk_submitted (rekey s)),
          Required_st = (if active (rekey s) then required (rekey s) else 0)\<rparr>)"

subsection \<open>What a stored blob says\<close>

text \<open>
  The abstraction: the plaintext of every row under a master key. Rotation is correct when it keeps
  this view while the master key changes.
\<close>

definition plain_rows :: "bytes \<Rightarrow> ('k \<Rightarrow> bytes) \<Rightarrow> ('k \<times> bytes) list \<Rightarrow> ('k \<times> (crypto_err + bytes)) list" where
  "plain_rows m aadFor tbl = map (\<lambda>(k, b). (k, rot_unwrap m b (aadFor k))) tbl"

definition transit_aad :: "(string \<times> string) list \<Rightarrow> string \<times> string \<times> int \<Rightarrow> bytes" where
  "transit_aad keys = (\<lambda>(i, kid, v). TransitKeyAAD (the (map_of keys kid)) v)"

record mk_view =
  v_projects :: "(string \<times> (crypto_err + bytes)) list"
  v_kek_versions :: "((string \<times> int) \<times> (crypto_err + bytes)) list"
  v_auth :: "(crypto_err + bytes) option"
  v_oidc :: "(string \<times> (crypto_err + bytes)) list"
  v_transit :: "((string \<times> string \<times> int) \<times> (crypto_err + bytes)) list"
  v_notification :: "(string \<times> (crypto_err + bytes)) list"
  v_totp :: "(string \<times> (crypto_err + bytes)) list"

definition mk_view_of :: "bytes \<Rightarrow> mk_db \<Rightarrow> mk_view" where
  "mk_view_of m d = \<lparr>
     v_projects = plain_rows m ProjectKEKAAD (projects d),
     v_kek_versions = plain_rows m (\<lambda>(p, v). ProjectKEKAAD p) (project_kek_versions d),
     v_auth = map_option (\<lambda>b. rot_unwrap m b AuthKeyAAD) (auth_config d),
     v_oidc = plain_rows m (\<lambda>_. OIDCClientSecretAAD) (oidc_providers d),
     v_transit = plain_rows m (transit_aad (transit_keys d)) (transit_key_versions d),
     v_notification = plain_rows m NotificationChannelAAD (notification_channels d),
     v_totp = plain_rows m TOTPSecretAAD (user_totp d)\<rparr>"

text \<open>The primary and foreign keys of the schema.\<close>

definition mk_db_wf :: "mk_db \<Rightarrow> bool" where
  "mk_db_wf d \<longleftrightarrow> distinct (map fst (projects d)) \<and> distinct (map fst (project_kek_versions d)) \<and>
    distinct (map fst (oidc_providers d)) \<and> distinct (map fst (transit_keys d)) \<and>
    distinct (map (fst \<circ> fst) (transit_key_versions d)) \<and> distinct (map fst (notification_channels d)) \<and>
    distinct (map fst (user_totp d)) \<and>
    (\<forall>row \<in> set (transit_key_versions d). fst (snd (fst row)) \<in> fst ` set (transit_keys d))"

subsection \<open>Re-wrapping keeps the plaintext\<close>

definition rewrap_fn :: "bytes \<Rightarrow> bytes \<Rightarrow> rewrapFn" where
  "rewrap_fn m nm old aad r = bind_err (rot_unwrap m old aad) (\<lambda>pt. rot_wrap nm pt aad r)"

lemma rot_unwrap_wrap: "rot_wrap nm p aad r = Inr (nc, r') \<Longrightarrow> rot_unwrap nm nc aad = Inr p"
  by (auto simp: rot_wrap_def bind_err_Inr rot_unwrap_def ParseCiphertext_Encrypt Decrypt_Encrypt)

lemma rewrap_fn_Inr:
  assumes "rewrap_fn m nm b aad r = Inr (nc, r')"
  obtains p where "rot_unwrap m b aad = Inr p" "rot_unwrap nm nc aad = Inr p"
  using assms by (auto simp: rewrap_fn_def bind_err_Inr dest: rot_unwrap_wrap)

lemma update_blob_here:
  "i \<notin> idOf ` fst ` set pre \<Longrightarrow> i \<notin> idOf ` fst ` set post \<Longrightarrow> idOf k = i \<Longrightarrow>
    update_blob idOf i nc (pre @ (k, b) # post) = pre @ (k, nc) # post"
  by (auto simp: update_blob_def image_image intro!: map_idI) force+

lemma rewrap_rows_plain:
  assumes "rewrap_rows (rewrap_fn m nm) idOf (map (\<lambda>(k, b). (idOf k, aadFor k, b)) post) (pre @ post) r = Inr (tbl, r')"
    and "distinct (map (idOf \<circ> fst) (pre @ post))"
  shows "\<exists>post'. tbl = pre @ post' \<and> plain_rows nm aadFor post' = plain_rows m aadFor post \<and>
    (\<forall>x \<in> snd ` set (plain_rows m aadFor post). \<exists>p. x = Inr p)"
  using assms
proof (induction post arbitrary: pre r)
  case (Cons row post)
  obtain k b where row: "row = (k, b)" by (cases row)
  from Cons.prems(1) obtain nc r1 where nc: "rewrap_fn m nm b (aadFor k) r = Inr (nc, r1)"
    and rest: "rewrap_rows (rewrap_fn m nm) idOf (map (\<lambda>(k, b). (idOf k, aadFor k, b)) post)
      (update_blob idOf (idOf k) nc (pre @ (k, b) # post)) r1 = Inr (tbl, r')"
    by (auto simp: row bind_err_Inr)
  have upd: "update_blob idOf (idOf k) nc (pre @ (k, b) # post) = (pre @ [(k, nc)]) @ post"
    using Cons.prems(2) by (subst update_blob_here) (auto simp: row comp_def image_image)
  from rewrap_fn_Inr [OF nc] obtain p where p: "rot_unwrap m b (aadFor k) = Inr p"
    "rot_unwrap nm nc (aadFor k) = Inr p" .
  from Cons.IH [OF rest [unfolded upd]] Cons.prems(2) obtain post' where
    "tbl = (pre @ [(k, nc)]) @ post'" "plain_rows nm aadFor post' = plain_rows m aadFor post"
    "\<forall>x \<in> snd ` set (plain_rows m aadFor post). \<exists>p. x = Inr p"
    by (auto simp: row)
  then show ?case
    by (intro exI [of _ "(k, nc) # post'"]) (auto simp: plain_rows_def row p)
qed (simp add: plain_rows_def)

text \<open>A table whose rows are all readable, before and after.\<close>

definition same_plain :: "bytes \<Rightarrow> bytes \<Rightarrow> ('k \<Rightarrow> bytes) \<Rightarrow> ('k \<times> bytes) list \<Rightarrow> ('k \<times> bytes) list \<Rightarrow> bool" where
  "same_plain m nm aadFor tbl tbl' \<longleftrightarrow> plain_rows nm aadFor tbl' = plain_rows m aadFor tbl \<and>
    (\<forall>x \<in> snd ` set (plain_rows m aadFor tbl). \<exists>p. x = Inr p)"

lemma rewrap_rows_same:
  assumes "rewrap_rows (rewrap_fn m nm) idOf (map (\<lambda>(k, b). (idOf k, aadFor k, b)) tbl) tbl r = Inr (tbl', r')"
    and "distinct (map (idOf \<circ> fst) tbl)"
  shows "same_plain m nm aadFor tbl tbl'"
  using rewrap_rows_plain [of m nm idOf aadFor tbl "[]" r tbl' r'] assms by (auto simp: same_plain_def)

lemma rewrapByID_same:
  "rewrapByID (rewrap_fn m nm) aadFor tbl r = Inr (tbl', r') \<Longrightarrow> distinct (map fst tbl) \<Longrightarrow>
    same_plain m nm aadFor tbl tbl'"
  using rewrap_rows_same [of m nm "\<lambda>k. k" aadFor tbl r tbl' r'] by (simp add: rewrapByID_def comp_def)

lemma rewrapKEKVersions_same:
  "rewrapKEKVersions (rewrap_fn m nm) tbl r = Inr (tbl', r') \<Longrightarrow> distinct (map fst tbl) \<Longrightarrow>
    same_plain m nm (\<lambda>(p, v). ProjectKEKAAD p) tbl tbl'"
  using rewrap_rows_same [of m nm "\<lambda>k. k" "\<lambda>(p, v). ProjectKEKAAD p" tbl r tbl' r']
  by (simp add: rewrapKEKVersions_def comp_def case_prod_unfold)

lemma rewrapSingle_same:
  "rewrapSingle (rewrap_fn m nm) aad row r = Inr (row', r') \<Longrightarrow>
    map_option (\<lambda>b. rot_unwrap nm b aad) row' = map_option (\<lambda>b. rot_unwrap m b aad) row \<and>
    (\<forall>b. row = Some b \<longrightarrow> (\<exists>p. rot_unwrap m b aad = Inr p))"
  by (auto simp: rewrapSingle_def bind_err_Inr split: option.splits elim!: rewrap_fn_Inr)

lemma filter_key: "distinct (map fst ks) \<Longrightarrow> (kid, n) \<in> set ks \<Longrightarrow> filter (\<lambda>(k, _). k = kid) ks = [(kid, n)]"
proof (induction ks)
  case (Cons p ks)
  then show ?case by (cases p) (force simp: filter_empty_conv)
qed simp

lemma transit_join_fk:
  assumes "distinct (map fst keys)" "\<forall>row \<in> set vs. fst (snd (fst row)) \<in> fst ` set keys"
  shows "transit_join keys vs = map (\<lambda>(k, b). (fst k, transit_aad keys k, b)) vs"
  using assms(2)
proof (induction vs)
  case (Cons row vs)
  obtain i kid v b where row: "row = ((i, kid, v), b)" by (metis prod_cases4 surj_pair)
  with Cons.prems obtain n where "(kid, n) \<in> set keys" by auto
  then have "filter (\<lambda>(k, _). k = kid) keys = [(kid, n)]" "map_of keys kid = Some n"
    using assms(1) by (auto simp: filter_key)
  with Cons show ?case by (simp add: transit_join_def row transit_aad_def)
qed (simp add: transit_join_def)

lemma rewrapTransit_same:
  assumes "rewrapTransit (rewrap_fn m nm) keys vs r = Inr (vs', r')" "distinct (map fst keys)"
    "distinct (map (fst \<circ> fst) vs)" "\<forall>row \<in> set vs. fst (snd (fst row)) \<in> fst ` set keys"
  shows "same_plain m nm (transit_aad keys) vs vs'"
  using rewrap_rows_same [of m nm fst "transit_aad keys" vs r vs' r'] assms
  by (simp add: rewrapTransit_def transit_join_fk)

text \<open>Every entry of a view can be read.\<close>

definition view_readable :: "mk_view \<Rightarrow> bool" where
  "view_readable v \<longleftrightarrow> (\<forall>x \<in> snd ` set (v_projects v) \<union> snd ` set (v_kek_versions v) \<union> set_option (v_auth v) \<union>
     snd ` set (v_oidc v) \<union> snd ` set (v_transit v) \<union> snd ` set (v_notification v) \<union> snd ` set (v_totp v).
     \<exists>p. x = Inr p)"

lemma rewrap_all_view:
  assumes "rewrap_all (rewrap_fn m nm) reseal now d r = Inr (d', sh, r')" "mk_db_wf d"
  shows "mk_view_of nm d' = mk_view_of m d \<and> view_readable (mk_view_of m d)"
proof -
  from assms(1) obtain t1 r1 t2 r2 t3 r3 t4 r4 t5 r5 t6 r6 t7 r7 sc where
    t: "rewrapByID (rewrap_fn m nm) ProjectKEKAAD (projects d) r = Inr (t1, r1)"
       "rewrapKEKVersions (rewrap_fn m nm) (project_kek_versions d) r1 = Inr (t2, r2)"
       "rewrapSingle (rewrap_fn m nm) AuthKeyAAD (auth_config d) r2 = Inr (t3, r3)"
       "rewrapByID (rewrap_fn m nm) (\<lambda>_. OIDCClientSecretAAD) (oidc_providers d) r3 = Inr (t4, r4)"
       "rewrapTransit (rewrap_fn m nm) (transit_keys d) (transit_key_versions d) r4 = Inr (t5, r5)"
       "rewrapByID (rewrap_fn m nm) NotificationChannelAAD (notification_channels d) r5 = Inr (t6, r6)"
       "rewrapByID (rewrap_fn m nm) TOTPSecretAAD (user_totp d) r6 = Inr (t7, r7)"
    and d': "d' = d\<lparr>projects := t1, project_kek_versions := t2, auth_config := t3, oidc_providers := t4,
            transit_key_versions := t5, notification_channels := t6, user_totp := t7, seal_config := sc\<rparr>"
    by (simp only: rewrap_all_def bind_err_pair_Inr [of "rewrapByID _ _ _ _"]
        bind_err_pair_Inr [of "rewrapKEKVersions _ _ _"] bind_err_pair_Inr [of "rewrapSingle _ _ _ _"]
        bind_err_pair_Inr [of "rewrapTransit _ _ _ _"] bind_err_triple_Inr [of "reseal _"]
        bind_err_Inr [of "writeResealCfg _ _ _"] sum.inject prod.inject) blast
  note wf = assms(2) [unfolded mk_db_wf_def]
  have s: "same_plain m nm ProjectKEKAAD (projects d) t1"
    "same_plain m nm (\<lambda>(p, v). ProjectKEKAAD p) (project_kek_versions d) t2"
    "same_plain m nm (\<lambda>_. OIDCClientSecretAAD) (oidc_providers d) t4"
    "same_plain m nm (transit_aad (transit_keys d)) (transit_key_versions d) t5"
    "same_plain m nm NotificationChannelAAD (notification_channels d) t6"
    "same_plain m nm TOTPSecretAAD (user_totp d) t7"
    using t wf by (auto intro!: rewrapByID_same rewrapKEKVersions_same rewrapTransit_same)
  from rewrapSingle_same [OF t(3)] s show ?thesis
    by (auto simp: mk_view_of_def d' same_plain_def view_readable_def)
qed

subsection \<open>The contract of an unsealer\<close>

lemma writeResealCfg_Inr:
  assumes "writeResealCfg now cfg t = Inr sc"
  obtains row row' where "t = Some row" "sc = Some row'" "pg_Get sc = Inr cfg"
    "row_master_key_version row' = row_master_key_version row + 1" "row_key_check_value row' = KeyCheckValue cfg"
  using assms by (cases t; cases cfg) (auto simp: writeResealCfg_def pg_Get_def coalesce_def)

text \<open>What rotation relies on: the new configuration carries a key check value of the new key.\<close>

locale unsealer =
  fixes reseal :: resealFn
  assumes reseal_kcv: "reseal sc m r = Inr (cfg, sh, r') \<Longrightarrow> checkMaster m (KeyCheckValue cfg) = Inr m"
begin

lemma performRotation_cases:
  assumes "performRotation reseal now commit s r = (res, s', r')" "mk_db_wf (db s)"
  shows "(\<exists>e. res = Inl e \<and> s' = s) \<or>
    (\<exists>m nm sh v row row'. res = Inr (sh, v) \<and> s' = s\<lparr>kr := (kr s)\<lparr>master := Some nm\<rparr>, db := db s'\<rparr> \<and>
      master (kr s) = Some m \<and> nm = take KeySize r \<and> length nm = KeySize \<and>
      mk_view_of nm (db s') = mk_view_of m (db s) \<and> view_readable (mk_view_of m (db s)) \<and>
      seal_config (db s) = Some row \<and> seal_config (db s') = Some row' \<and>
      v = row_master_key_version row + 1 \<and> row_master_key_version row' = v \<and>
      checkMaster nm (row_key_check_value row') = Inr nm \<and>
      (\<exists>cfg r7 r8. reseal (Some row) nm r7 = Inr (cfg, sh, r8) \<and> pg_Get (Some row') = Inr cfg))"
proof (cases "res")
  case (Inl e)
  have "s' = s"
    using assms(1) Inl
    by (auto simp: performRotation_def RotateMaster_def capture_stage_def persist_stage_def
        split: if_splits sum.splits prod.splits option.splits)
  then show ?thesis using Inl by blast
next
  case (Inr p)
  then obtain sh v where res: "res = Inr (sh, v)" by (cases p) auto
  from assms(1) res obtain m nm r1 where gen: "GenerateKey r = Inr (nm, r1)" and m: "master (kr s) = Some m"
    and nm: "length nm = KeySize"
    by (auto simp: performRotation_def RotateMaster_def split: if_splits sum.splits prod.splits option.splits)
  have rw: "(\<lambda>old aad r. bind_err (rot_unwrap m old aad) (\<lambda>pt. rot_wrap nm pt aad r)) = rewrap_fn m nm"
    by (intro ext) (simp add: rewrap_fn_def)
  from assms(1) res gen m nm obtain d' r2 where
    rot: "rewrap_all (rewrap_fn m nm) (reseal (seal_config (db s)) nm) now (db s) r1 = Inr (d', sh, r2)"
    and s': "s' = s\<lparr>kr := (kr s)\<lparr>master := Some nm\<rparr>, db := d'\<rparr>"
    and v: "(case GetMasterKeyMeta d' of Inl _ \<Rightarrow> 0 | Inr (_, version, _) \<Rightarrow> version) = v"
    by (auto simp: performRotation_def RotateMaster_def capture_stage_def persist_stage_def rw
        RewrapAllUnderNewMaster_def bind_err_Inr split: if_splits sum.splits prod.splits option.splits)
  from rot obtain cfg r7 r8 sc where re: "reseal (seal_config (db s)) nm r7 = Inr (cfg, sh, r8)"
    and wr: "writeResealCfg now cfg (seal_config (db s)) = Inr sc" and sc: "seal_config d' = sc"
    by (simp only: rewrap_all_def bind_err_pair_Inr [of "rewrapByID _ _ _ _"]
        bind_err_pair_Inr [of "rewrapKEKVersions _ _ _"] bind_err_pair_Inr [of "rewrapSingle _ _ _ _"]
        bind_err_pair_Inr [of "rewrapTransit _ _ _ _"] bind_err_triple_Inr [of "reseal _ _ _"]
        bind_err_Inr [of "writeResealCfg _ _ _"] sum.inject prod.inject) auto
  from writeResealCfg_Inr [OF wr] obtain row row' where row: "seal_config (db s) = Some row" "sc = Some row'"
    "pg_Get sc = Inr cfg" "row_master_key_version row' = row_master_key_version row + 1"
    "row_key_check_value row' = KeyCheckValue cfg" .
  have "v = row_master_key_version row + 1" using v sc row by (simp add: GetMasterKeyMeta_def)
  with rewrap_all_view [OF rot assms(2)] reseal_kcv [OF re] re sc s' m nm res gen row show ?thesis
    by (auto simp: GenerateKey_Inr)
qed

end

lemma Reseal_kcv:
  "Reseal st perm s m r = Inr (cfg, sh, r') \<Longrightarrow> checkMaster m (KeyCheckValue cfg) = Inr m"
  by (auto simp: Reseal_def bind_err_Inr checkMaster_makeKCV split: if_splits)

lemma Reseal_kms_kcv:
  "Reseal_kms client ty m r = Inr (cfg, sh, r') \<Longrightarrow> checkMaster m (KeyCheckValue cfg) = Inr m"
  by (auto simp: Reseal_kms_def bind_err_Inr checkMaster_makeKCV split: if_splits)

interpretation shamir_seal: unsealer "Reseal NewSealConfigStore perm" for perm
  by unfold_locales (rule Reseal_kcv)

interpretation kms_seal: unsealer "\<lambda>_. Reseal_kms client ty" for client ty
  by unfold_locales (rule Reseal_kms_kcv)

subsection \<open>The ceremony\<close>

lemma RekeySubmit_complete:
  assumes "RekeySubmit reseal ord now commit n share s r = (SubmitComplete sh v, s', r')"
  obtains cfg parts m k s3 where "active (rekey s)" "n = nonce (rekey s)" "2 \<le> length share"
    "pg_Get (seal_config (db s)) = Inr cfg"
    "parts = ord (map snd (case map_of (rk_submitted (rekey s)) (EncodeToString share) of
        Some _ \<Rightarrow> rk_submitted (rekey s) | None \<Rightarrow> rk_submitted (rekey s) @ [(EncodeToString share, share)]))"
    "ReconstructAndVerifyShamir (Some cfg) parts = Inr m"
    "performRotation reseal now commit (s\<lparr>rekey := k\<rparr>) r = (Inr (sh, v), s3, r')" "s' = s3\<lparr>rekey := clearLocked\<rparr>"
proof -
  let ?sub = "case map_of (rk_submitted (rekey s)) (EncodeToString share) of
      Some _ \<Rightarrow> rk_submitted (rekey s) | None \<Rightarrow> rk_submitted (rekey s) @ [(EncodeToString share, share)]"
  let ?k = "(rekey s)\<lparr>rk_submitted := ?sub, active := False\<rparr>"
  from assms have a: "active (rekey s)" "n = nonce (rekey s)" "2 \<le> length share"
    by (auto simp: RekeySubmit_def Let_def split: if_splits)
  from assms a obtain cfg where cfg: "pg_Get (seal_config (db s)) = Inr cfg"
    by (auto simp: RekeySubmit_def Let_def split: if_splits sum.splits)
  from assms a cfg obtain m where m: "ReconstructAndVerifyShamir (Some cfg) (ord (map snd ?sub)) = Inr m"
    by (auto simp: RekeySubmit_def Let_def split: if_splits sum.splits)
  from assms a cfg m obtain s3 where
    "performRotation reseal now commit (s\<lparr>rekey := ?k\<rparr>) r = (Inr (sh, v), s3, r')" "s' = s3\<lparr>rekey := clearLocked\<rparr>"
    by (auto simp: RekeySubmit_def Let_def split: if_splits sum.splits prod.splits)
  with a cfg m show thesis by (intro that) auto
qed

lemma RekeySubmit_incomplete:
  assumes "RekeySubmit reseal ord now commit n share s r = (res, s', r')"
    and "\<And>sh v. res \<noteq> SubmitComplete sh v"
    and "\<And>s2 e s3 r3. performRotation reseal now commit s2 r = (Inl e, s3, r3) \<Longrightarrow> s3 = s2"
  shows "kr s' = kr s \<and> db s' = db s"
  using assms(1,2) unfolding RekeySubmit_def Let_def
  by (auto split: if_splits sum.splits prod.splits dest!: assms(3))

lemma performRotation_error:
  "performRotation reseal now commit s r = (Inl e, s', r') \<Longrightarrow> s' = s"
  by (auto simp: performRotation_def RotateMaster_def capture_stage_def persist_stage_def
      split: if_splits sum.splits prod.splits option.splits)

lemma Reseal_shares:
  assumes "Reseal NewSealConfigStore perm (Some row) m r = Inr (cfg, sh, r')" "perm255 perm"
    and "distinct sel" "set sel \<subseteq> set sh" "Threshold cfg \<le> int (length sel)"
  shows "ReconstructAndVerifyShamir (Some cfg) sel = Inr m"
proof -
  from assms(1) obtain sh' th r1 kcv where
    sp: "splitMaster m sh' th perm r = Inr (sh, r1)" and kcv: "makeKCV m r1 = Inr (kcv, r')"
    and cfg: "cfg = \<lparr>Type = SealTypeShamir, Threshold = th, Shares = sh', KeyCheckValue = kcv, WrappedMasterKey = []\<rparr>"
    by (auto simp: Reseal_def bind_err_Inr split: if_splits)
  have "recombine th sel = Inr m"
    by (rule splitMaster_recombine [OF sp assms(2-4)]) (use assms(5) cfg in simp)
  then show ?thesis
    using assms(5) checkMaster_makeKCV [OF kcv] by (subst ReconstructAndVerifyShamir_eq) (simp_all add: cfg)
qed

subsection \<open>The contract of the service\<close>

lemma Reseal_kms_unseals:
  assumes "Reseal_kms client ty nm r = Inr (cfg, sh, r')" "pg_Get t = Inr cfg"
    and "\<And>w. Encrypt_kms client nm = Inr w \<Longrightarrow> Decrypt_kms client w = Inr nm"
  shows "Unseal_kms NewSealConfigStore client ty t = Inr nm"
  using assms by (auto simp: Reseal_kms_def Unseal_kms_def NewSealConfigStore_def bind_err_Inr checkMaster_makeKCV split: if_splits)

text \<open>
  A finished rotation: the keyring went from one master key to another, every blob has the plaintext it had, and the stored
  seal configuration belongs to the new key and carries the next version number.
\<close>

definition key_rotated :: "bytes \<Rightarrow> int \<Rightarrow> mk_service \<Rightarrow> mk_service \<Rightarrow> bool" where
  "key_rotated nm v s s' \<longleftrightarrow> (\<exists>m row row'. master (kr s) = Some m \<and> master (kr s') = Some nm \<and>
     mk_view_of nm (db s') = mk_view_of m (db s) \<and> view_readable (mk_view_of nm (db s')) \<and>
     seal_config (db s) = Some row \<and> seal_config (db s') = Some row' \<and> verifyKCV nm (row_key_check_value row') = Inr () \<and>
     row_master_key_version row' = row_master_key_version row + 1 \<and> v = row_master_key_version row')"

context unsealer
begin

lemma performRotation_rotated:
  assumes "performRotation reseal now commit s r = (Inr (sh, v), s', r')" "mk_db_wf (db s)"
  shows "rekey s' = rekey s \<and> key_rotated (take KeySize r) v s s' \<and>
    (\<exists>sc cfg r7 r8. reseal sc (take KeySize r) r7 = Inr (cfg, sh, r8) \<and> pg_Get (seal_config (db s')) = Inr cfg)"
proof -
  from performRotation_cases [OF assms] obtain m nm row row' cfg r7 r8 where
    s': "s' = s\<lparr>kr := (kr s)\<lparr>master := Some nm\<rparr>, db := db s'\<rparr>" and m: "master (kr s) = Some m" "nm = take KeySize r"
    and v: "mk_view_of nm (db s') = mk_view_of m (db s)" "view_readable (mk_view_of m (db s))"
    and row: "seal_config (db s) = Some row" "seal_config (db s') = Some row'" "v = row_master_key_version row + 1"
      "row_master_key_version row' = v" "checkMaster nm (row_key_check_value row') = Inr nm"
    and re: "reseal (Some row) nm r7 = Inr (cfg, sh, r8)" "pg_Get (Some row') = Inr cfg"
    by auto
  have "master (kr s') = Some nm" "rekey s' = rekey s" by (subst s', simp)+
  then have "key_rotated nm v s s'" unfolding key_rotated_def using m(1) v row by (simp add: checkMaster_Inr)
  then show ?thesis using re row(2) m(2) \<open>rekey s' = rekey s\<close> by auto
qed

end

lemma key_rotated_rekey [simp]: "key_rotated nm v (s\<lparr>rekey := k\<rparr>) s' = key_rotated nm v s s'" "key_rotated nm v s (s'\<lparr>rekey := k\<rparr>) = key_rotated nm v s s'"
  by (simp_all add: key_rotated_def)

lemma Rotate_kms:
  assumes wf: "mk_db_wf (db s)"
  shows "case Rotate (\<lambda>_. Reseal_kms client ty) now commit s r of
      (Inl e, s', r') \<Rightarrow> s' = s
    | (Inr v, s', r') \<Rightarrow> rekey s' = rekey s \<and> key_rotated (take KeySize r) v s s' \<and>
        ((\<forall>w. Encrypt_kms client (take KeySize r) = Inr w \<longrightarrow> Decrypt_kms client w = Inr (take KeySize r)) \<longrightarrow>
          Unseal_kms NewSealConfigStore client ty (seal_config (db s')) = Inr (take KeySize r))"
proof (cases "performRotation (\<lambda>_. Reseal_kms client ty) now commit s r")
  case (fields res s' r')
  then have p: "performRotation (\<lambda>_. Reseal_kms client ty) now commit s r = (res, s', r')" by simp
  show ?thesis
  proof (cases res)
    case (Inl e)
    then show ?thesis using p performRotation_error [of _ now commit s r e s' r'] by (auto simp: Rotate_def split: sum.split)
  next
    case (Inr a)
    obtain sh v where a: "a = (sh, v)" by fastforce
    note rot = kms_seal.performRotation_rotated [OF p [unfolded Inr a] wf]
    then have "Unseal_kms NewSealConfigStore client ty (seal_config (db s')) = Inr (take KeySize r)"
      if "\<forall>w. Encrypt_kms client (take KeySize r) = Inr w \<longrightarrow> Decrypt_kms client w = Inr (take KeySize r)"
      using Reseal_kms_unseals that by blast
    then show ?thesis using p Inr a rot by (auto simp: Rotate_def split: sum.split)
  qed
qed

lemma RekeySubmit_shamir:
  assumes wf: "mk_db_wf (db s)"
  shows "case RekeySubmit (Reseal NewSealConfigStore perm) ord now commit n share s r of
      (SubmitComplete sh v, s', r') \<Rightarrow> rekey s' = clearLocked \<and> key_rotated (take KeySize r) v s s'
    | (_, s', r') \<Rightarrow> kr s' = kr s \<and> db s' = db s"
proof (cases "RekeySubmit (Reseal NewSealConfigStore perm) ord now commit n share s r")
  case (fields res s' r')
  then have p: "RekeySubmit (Reseal NewSealConfigStore perm) ord now commit n share s r = (res, s', r')" by simp
  show ?thesis
  proof (cases "\<exists>sh v. res = SubmitComplete sh v")
    case True
    then obtain sh v where res: "res = SubmitComplete sh v" by blast
    obtain k s3 where q: "performRotation (Reseal NewSealConfigStore perm) now commit (s\<lparr>rekey := k\<rparr>) r = (Inr (sh, v), s3, r')"
      and s': "s' = s3\<lparr>rekey := clearLocked\<rparr>" using RekeySubmit_complete [OF p [unfolded res]] by metis
    from shamir_seal.performRotation_rotated [OF q] wf show ?thesis by (simp add: p res s')
  next
    case False
    from RekeySubmit_incomplete [OF p _ performRotation_error] False p show ?thesis by (cases res) auto
  qed
qed

text \<open>
  C4. A rotation of the master key is all or nothing, by either door: the single call \<^verbatim>\<open>Rotate\<close> of an instance sealed by a
  cloud KMS, and the submission that completes the Shamir ceremony, \<^verbatim>\<open>RekeySubmit\<close>. If the call reports an error, or only
  progress, the keyring and every table are as before. If it succeeds, the keyring holds the fresh key, every
  blob that was stored under the old master key (project KEKs and their superseded versions, the token
  key, OIDC client secrets, transit keys, notification configs, TOTP secrets) was readable and has the same plaintext
  under the new key, the stored seal configuration passes the key check of the new key, the version is one
  higher, and the ceremony is closed or, for \<^verbatim>\<open>Rotate\<close>, as it was. With a KMS that decrypts what it has encrypted, unsealing
  from the new configuration returns the new key; the shares of the ceremony do so by C23.
\<close>

theorem rotation_preserves_blobs:
  assumes "mk_db_wf (db s)"
  shows "(case Rotate (\<lambda>_. Reseal_kms client ty) now commit s r of
      (Inl e, s', r') \<Rightarrow> s' = s
    | (Inr v, s', r') \<Rightarrow> rekey s' = rekey s \<and> key_rotated (take 32 r) v s s' \<and>
        ((\<forall>w. Encrypt_kms client (take 32 r) = Inr w \<longrightarrow> Decrypt_kms client w = Inr (take 32 r)) \<longrightarrow>
          Unseal_kms NewSealConfigStore client ty (seal_config (db s')) = Inr (take 32 r))) \<and>
    (case RekeySubmit (Reseal NewSealConfigStore perm) ord now commit n share s r of
      (SubmitComplete sh v, s', r') \<Rightarrow> rekey s' = clearLocked \<and> key_rotated (take 32 r) v s s'
    | (_, s', r') \<Rightarrow> kr s' = kr s \<and> db s' = db s)"
  by (intro conjI Rotate_kms [OF assms, unfolded KeySize_def] RekeySubmit_shamir [OF assms, unfolded KeySize_def])

text \<open>
  C23. The rekey ceremony returns usable shares: when a submission completes the ceremony, any
  selection of at least the stored threshold of the new shares reconstructs the master key the
  keyring now holds, and passes the new key check.
\<close>

theorem rekey_shares_unseal:
  assumes "RekeySubmit (Reseal NewSealConfigStore perm) ord now commit n share s r = (SubmitComplete sh v, s', r')"
    and "mk_db_wf (db s)" "perm255 perm"
  shows "\<exists>cfg nm. pg_Get (seal_config (db s')) = Inr cfg \<and> master (kr s') = Some nm \<and>
    (\<forall>sel. distinct sel \<longrightarrow> set sel \<subseteq> set sh \<longrightarrow> Threshold cfg \<le> int (length sel) \<longrightarrow>
      ReconstructAndVerifyShamir (Some cfg) sel = Inr nm)"
proof -
  obtain k s3 where
    p: "performRotation (Reseal NewSealConfigStore perm) now commit (s\<lparr>rekey := k\<rparr>) r = (Inr (sh, v), s3, r')"
    and s': "s' = s3\<lparr>rekey := clearLocked\<rparr>"
    using RekeySubmit_complete [OF assms(1)] by metis
  from shamir_seal.performRotation_cases [OF p] assms(2) obtain nm row row' cfg r7 r8 where
    s3: "s3 = s\<lparr>rekey := k, kr := (kr s)\<lparr>master := Some nm\<rparr>, db := db s3\<rparr>" and row': "seal_config (db s3) = Some row'"
    and re: "Reseal NewSealConfigStore perm (Some row) nm r7 = Inr (cfg, sh, r8)"
    and get: "pg_Get (Some row') = Inr cfg" by auto
  have "master (kr s3) = Some nm" by (subst s3) simp
  then show ?thesis
    using Reseal_shares [OF re assms(3)] get row' s' by auto
qed

text \<open>
  Proof of possession: a ceremony rotates the key only if it is open, the nonce matches, and the
  shares submitted so far reconstruct a key that passes the current key check, with at least the
  stored threshold of shares; it is then closed. A submission that does not complete leaves the
  keyring and the database unchanged.
\<close>

theorem rekey_needs_possession:
  "case RekeySubmit reseal ord now commit n share s r of
     (SubmitComplete sh v, s', r') \<Rightarrow> active (rekey s) \<and> n = nonce (rekey s) \<and> rekey s' = clearLocked \<and>
       (\<exists>cfg parts m. pg_Get (seal_config (db s)) = Inr cfg \<and> Type cfg = SealTypeShamir \<and>
         Threshold cfg \<le> int (length parts) \<and>
         (parts = ord (map snd (rk_submitted (rekey s))) \<or> parts = ord (map snd (rk_submitted (rekey s)) @ [share])) \<and>
         ReconstructAndVerifyShamir (Some cfg) parts = Inr m \<and> verifyKCV m (KeyCheckValue cfg) = Inr ())
   | (_, s', r') \<Rightarrow> kr s' = kr s \<and> db s' = db s"
proof (cases "RekeySubmit reseal ord now commit n share s r")
  case (fields res s' r')
  then have p: "RekeySubmit reseal ord now commit n share s r = (res, s', r')" by simp
  show ?thesis
  proof (cases "\<exists>sh v. res = SubmitComplete sh v")
    case True
    then obtain sh v where res: "res = SubmitComplete sh v" by blast
    obtain cfg parts m k s3 where a: "active (rekey s)" "n = nonce (rekey s)"
      "pg_Get (seal_config (db s)) = Inr cfg"
      "parts = ord (map snd (case map_of (rk_submitted (rekey s)) (EncodeToString share) of
        Some _ \<Rightarrow> rk_submitted (rekey s) | None \<Rightarrow> rk_submitted (rekey s) @ [(EncodeToString share, share)]))"
      "ReconstructAndVerifyShamir (Some cfg) parts = Inr m" "s' = s3\<lparr>rekey := clearLocked\<rparr>"
      using RekeySubmit_complete [OF p [unfolded res]] by metis
    have "Type cfg = SealTypeShamir" "Threshold cfg \<le> int (length parts)" "verifyKCV m (KeyCheckValue cfg) = Inr ()"
      using a(5) by (auto simp: ReconstructAndVerifyShamir_def checkMaster_Inr split: if_splits sum.splits)
    moreover have "parts = ord (map snd (rk_submitted (rekey s))) \<or> parts = ord (map snd (rk_submitted (rekey s)) @ [share])"
      using a(4) by (auto split: option.splits)
    ultimately show ?thesis using a p res by auto
  next
    case False
    from RekeySubmit_incomplete [OF p _ performRotation_error] False p show ?thesis
      by (cases res) auto
  qed
qed

text \<open>
  C24. A seal of a cloud provider other than AWS cannot be rotated at all: the single-call rotation
  refuses it as if it were a Shamir seal, and the Shamir ceremony refuses it as a KMS seal.
\<close>

theorem gcp_azure_seals_cannot_rotate:
  assumes "pg_Get (seal_config (db s)) = Inr cfg" "Type cfg = SealTypeGCPKMS \<or> Type cfg = SealTypeAzureKV"
    "\<not> Sealed (kr s)"
  shows "Rotate reseal now commit s r = (Inl ErrShamirCeremonyRequired, s, r) \<and>
    RekeyInit s r = (Inl ErrKMSNoCeremony, s, r)"
  using assms by (auto simp: Rotate_def RekeyInit_def seal_types)

text \<open>Witnesses: a 1-of-1 ceremony on a database with a single seal row.\<close>

definition example_row :: "string \<Rightarrow> bytes \<Rightarrow> seal_row" where
  "example_row ty kcv = \<lparr>row_type = ty, row_threshold = Some 1, row_shares = Some 1, row_key_check_value = kcv,
     row_wrapped_master_key = None, row_master_key_version = 1, row_master_key_rotated_at = None\<rparr>"

definition example_service :: "string \<Rightarrow> bytes \<Rightarrow> mk_service" where
  "example_service ty kcv = \<lparr>kr = \<lparr>master = Some zero_key\<rparr>,
     rekey = \<lparr>active = True, nonce = ''n'', required = 1, rk_submitted = []\<rparr>,
     db = \<lparr>projects = [], project_kek_versions = [], auth_config = None, oidc_providers = [], transit_keys = [],
       transit_key_versions = [], notification_channels = [], user_totp = [], seal_config = Some (example_row ty kcv)\<rparr>\<rparr>"

lemma example_service_wf: "mk_db_wf (db (example_service ty kcv))"
  by (simp add: example_service_def mk_db_wf_def)

lemma example_rotation:
  "\<exists>s'. performRotation (Reseal NewSealConfigStore [0..<255]) 0 None
      ((example_service SealTypeShamir kcv)\<lparr>rekey := k\<rparr>) (replicate 44 1) = (Inr ([replicate 32 1], 2), s', [])"
proof -
  obtain kcv' where k: "makeKCV (replicate 32 1) (replicate 12 1) = Inr (kcv', [])"
    using makeKCV_ok [of "replicate 32 1" "replicate 12 1"] by (auto simp: sizes)
  have "Reseal NewSealConfigStore [0..<255] (Some (example_row SealTypeShamir kcv)) (replicate 32 1) (replicate 12 1) =
    Inr (\<lparr>Type = SealTypeShamir, Threshold = 1, Shares = 1, KeyCheckValue = kcv', WrappedMasterKey = []\<rparr>,
      [replicate 32 1], [])"
    by (simp add: Reseal_def loadConfig_def NewSealConfigStore_def pg_Get_def example_row_def coalesce_def
        KeySize_def splitMaster_def k)
  then show ?thesis
    by (simp add: performRotation_def example_service_def Sealed_def GenerateKey_def readFull_def KeySize_def
        RotateMaster_def capture_stage_def persist_stage_def RewrapAllUnderNewMaster_def rewrap_all_def
        rewrapByID_def rewrapKEKVersions_def rewrapSingle_def rewrapTransit_def transit_join_def
        writeResealCfg_def GetMasterKeyMeta_def example_row_def)
qed

lemma example_kcv: "\<exists>kcv. checkMaster zero_key kcv = Inr zero_key"
  using makeKCV_ok [of zero_key "replicate 12 0"] checkMaster_makeKCV by (fastforce simp: sizes)

lemma example_submit:
  assumes "checkMaster zero_key kcv = Inr zero_key"
  shows "\<exists>s'. RekeySubmit (Reseal NewSealConfigStore [0..<255]) rev 0 None ''n'' zero_key (example_service SealTypeShamir kcv)
      (replicate 44 1) = (SubmitComplete [replicate 32 1] 2, s', [])"
  using example_rotation [where kcv = kcv and k = "\<lparr>active = False, nonce = ''n'', required = 1, rk_submitted = [(EncodeToString zero_key, zero_key)]\<rparr>"] assms
  by (auto simp: RekeySubmit_def example_service_def example_row_def pg_Get_def coalesce_def
      ReconstructAndVerifyShamir_def)

text \<open>The same service with a project key and a TOTP secret stored under the master key, and a KMS that only prefixes a byte.\<close>

definition example_blob :: "bytes \<Rightarrow> bytes" where
  "example_blob aad = (case rot_wrap zero_key [5, 6] aad (replicate 12 0) of Inr (b, _) \<Rightarrow> b | Inl _ \<Rightarrow> [])"

definition blob_service :: "string \<Rightarrow> bytes \<Rightarrow> mk_service" where
  "blob_service ty kcv = (example_service ty kcv)\<lparr>db := (db (example_service ty kcv))\<lparr>
     projects := [(''p'', example_blob (ProjectKEKAAD ''p''))], user_totp := [(''u'', example_blob (TOTPSecretAAD ''u''))]\<rparr>\<rparr>"

definition example_kms :: KMSClient where
  "example_kms = \<lparr>Encrypt_kms = (\<lambda>p. Inr (7 # p)), Decrypt_kms = (\<lambda>c. Inr (tl c))\<rparr>"

lemma rot_wrap_ok: "length m = KeySize \<Longrightarrow> \<exists>b. rot_wrap m [5, 6] aad (replicate (n + 12) x) = Inr (b, replicate n x)"
  using Encrypt_ok [of m "replicate (n + 12) x" "[5, 6]" aad] by (auto simp: rot_wrap_def sizes gcm_limit_def)

lemma example_blob_plain: "rot_unwrap zero_key (example_blob aad) aad = Inr [5, 6]"
proof -
  obtain b where "rot_wrap zero_key [5, 6] aad (replicate 12 0) = Inr (b, [])" using rot_wrap_ok [of zero_key aad 0 0] by (auto simp: sizes)
  then show ?thesis using rot_unwrap_wrap by (simp add: example_blob_def)
qed

lemma blob_service_wf: "mk_db_wf (db (blob_service ty kcv))"
  by (simp add: blob_service_def example_service_def mk_db_wf_def)

lemma blob_rotation:
  assumes "reseal (Some (example_row ty kcv)) (replicate 32 1) (replicate 12 1) = Inr (cfg, sh, [])"
  shows "\<exists>s'. performRotation reseal 0 None ((blob_service ty kcv)\<lparr>rekey := k\<rparr>) (replicate 68 1) = (Inr (sh, 2), s', [])"
proof -
  obtain b1 where b1: "rot_wrap (replicate 32 1) [5, 6] (ProjectKEKAAD ''p'') (replicate 36 1) = Inr (b1, replicate 24 1)"
    using rot_wrap_ok [of "replicate 32 1" "ProjectKEKAAD ''p''" 24 1] by (auto simp: sizes)
  obtain b2 where b2: "rot_wrap (replicate 32 1) [5, 6] (TOTPSecretAAD ''u'') (replicate 24 1) = Inr (b2, replicate 12 1)"
    using rot_wrap_ok [of "replicate 32 1" "TOTPSecretAAD ''u''" 12 1] by (auto simp: sizes)
  show ?thesis
    by (simp add: performRotation_def blob_service_def example_service_def Sealed_def GenerateKey_def readFull_def KeySize_def
        RotateMaster_def capture_stage_def persist_stage_def RewrapAllUnderNewMaster_def rewrap_all_def
        rewrapByID_def rewrapKEKVersions_def rewrapSingle_def rewrapTransit_def transit_join_def update_blob_def
        example_blob_plain b1 b2 assms writeResealCfg_def GetMasterKeyMeta_def example_row_def [symmetric])
      (simp add: example_row_def)
qed

lemma blob_rotate: "\<exists>s'. Rotate (\<lambda>_. Reseal_kms example_kms SealTypeAWSKMS) 0 None (blob_service SealTypeAWSKMS []) (replicate 68 1) = (Inr 2, s', [])"
proof -
  obtain kcv where k: "makeKCV (replicate 32 1) (replicate 12 1) = Inr (kcv, [])"
    using makeKCV_ok [of "replicate 32 1" "replicate 12 1"] by (auto simp: sizes)
  then have "Reseal_kms example_kms SealTypeAWSKMS (replicate 32 1) (replicate 12 1) =
      Inr (\<lparr>Type = SealTypeAWSKMS, Threshold = 0, Shares = 0, KeyCheckValue = kcv, WrappedMasterKey = 7 # replicate 32 1\<rparr>, [], [])"
    by (simp add: Reseal_kms_def example_kms_def KeySize_def)
  from blob_rotation [where reseal = "\<lambda>_. Reseal_kms example_kms SealTypeAWSKMS" and k = "rekey (blob_service SealTypeAWSKMS [])" and
      ty = SealTypeAWSKMS and kcv = "[]", OF this] obtain s'
    where "performRotation (\<lambda>_. Reseal_kms example_kms SealTypeAWSKMS) 0 None (blob_service SealTypeAWSKMS []) (replicate 68 1) = (Inr ([], 2), s', [])"
    by auto
  then show ?thesis by (auto simp: Rotate_def pg_Get_def blob_service_def example_service_def example_row_def coalesce_def)
qed

theorem rotation_preserves_blobs_witness:
  "\<exists>s'. Rotate (\<lambda>_. Reseal_kms example_kms SealTypeAWSKMS) 0 None (blob_service SealTypeAWSKMS []) (replicate 68 1) = (Inr 2, s', []) \<and>
    rot_unwrap (replicate 32 1) (snd (hd (projects (db s')))) (ProjectKEKAAD ''p'') = Inr [5, 6] \<and>
    rot_unwrap (replicate 32 1) (snd (hd (user_totp (db s')))) (TOTPSecretAAD ''u'') = Inr [5, 6] \<and>
    Unseal_kms NewSealConfigStore example_kms SealTypeAWSKMS (seal_config (db s')) = Inr (replicate 32 1)"
proof -
  obtain s' where p: "Rotate (\<lambda>_. Reseal_kms example_kms SealTypeAWSKMS) 0 None (blob_service SealTypeAWSKMS []) (replicate 68 1) = (Inr 2, s', [])"
    using blob_rotate by blast
  note res = conjunct1 [OF rotation_preserves_blobs [OF blob_service_wf [of SealTypeAWSKMS "[]"], where client = example_kms and
      ty = SealTypeAWSKMS and now = 0 and commit = None and r = "replicate 68 1"], unfolded p]
  have law: "\<forall>w. Encrypt_kms example_kms m = Inr w \<longrightarrow> Decrypt_kms example_kms w = Inr m" for m by (simp add: example_kms_def)
  have rot: "key_rotated (replicate 32 1) 2 (blob_service SealTypeAWSKMS []) s'"
    and un: "Unseal_kms NewSealConfigStore example_kms SealTypeAWSKMS (seal_config (db s')) = Inr (replicate 32 1)"
    using res law by simp_all
  have "plain_rows zero_key ProjectKEKAAD (projects (db (blob_service SealTypeAWSKMS []))) = [(''p'', Inr [5, 6])]"
    "plain_rows zero_key TOTPSecretAAD (user_totp (db (blob_service SealTypeAWSKMS []))) = [(''u'', Inr [5, 6])]"
    "master (kr (blob_service SealTypeAWSKMS [])) = Some zero_key"
    by (simp_all add: plain_rows_def blob_service_def example_service_def example_blob_plain)
  then have "plain_rows (replicate 32 1) ProjectKEKAAD (projects (db s')) = [(''p'', Inr [5, 6])]"
    "plain_rows (replicate 32 1) TOTPSecretAAD (user_totp (db s')) = [(''u'', Inr [5, 6])]"
    using rot by (auto simp: key_rotated_def mk_view_of_def)
  then show ?thesis using p un by (auto simp: plain_rows_def map_eq_Cons_conv)
qed

theorem rekey_shares_unseal_witness:
  "\<exists>kcv s' cfg nm. RekeySubmit (Reseal NewSealConfigStore [0..<255]) rev 0 None ''n'' zero_key
      (example_service SealTypeShamir kcv) (replicate 44 1) = (SubmitComplete [replicate 32 1] 2, s', []) \<and>
    pg_Get (seal_config (db s')) = Inr cfg \<and> master (kr s') = Some nm"
proof -
  obtain kcv where "checkMaster zero_key kcv = Inr zero_key" using example_kcv by blast
  from example_submit [OF this] obtain s' where
    p: "RekeySubmit (Reseal NewSealConfigStore [0..<255]) rev 0 None ''n'' zero_key (example_service SealTypeShamir kcv)
      (replicate 44 1) = (SubmitComplete [replicate 32 1] 2, s', [])" by blast
  from rekey_shares_unseal [OF p example_service_wf perm255_upt] p show ?thesis by blast
qed

theorem gcp_azure_seals_cannot_rotate_witness:
  "Rotate (Reseal NewSealConfigStore [0..<255]) 0 None (example_service SealTypeGCPKMS []) [] =
    (Inl ErrShamirCeremonyRequired, example_service SealTypeGCPKMS [], [])"
  using gcp_azure_seals_cannot_rotate [where s = "example_service SealTypeGCPKMS []"]
  by (simp add: example_service_def example_row_def pg_Get_def Sealed_def)

end
