(* ===== verification/Store_Base.thy ===== *)
theory Store_Base
  imports Prelude
begin

section \<open>Errors of the persistence layer\<close>

text \<open>
  \<^verbatim>\<open>internal/store/errors.go\<close>: the sentinels of the store and \<^verbatim>\<open>mapError\<close>, which translates the errors of
  the Postgres driver. A driver error is the absence of a row, a Postgres error with its SQLSTATE
  code, or anything else. \<^verbatim>\<open>execAffectingOne\<close> and \<^verbatim>\<open>withTx\<close> are those of \<^verbatim>\<open>internal/store/store.go\<close>.
\<close>

datatype pg_err = PgNoRows | PgError string | PgOther string

datatype store_err =
    ErrNotFound | ErrAlreadyExists | ErrParentNotFound | ErrConflict | ErrDriver pg_err

definition mapError :: "pg_err \<Rightarrow> store_err" where
  "mapError e = (case e of
      PgNoRows \<Rightarrow> ErrNotFound
    | PgError code \<Rightarrow>
       if code = ''23505'' then ErrAlreadyExists
       else if code = ''23503'' then ErrParentNotFound
       else ErrDriver e
    | PgOther _ \<Rightarrow> ErrDriver e)"

text \<open>A write that is expected to touch a row: the rows it touched, and the table after it.\<close>

definition execAffectingOne :: "pg_err + (nat \<times> 't) \<Rightarrow> store_err + 't" where
  "execAffectingOne res = (case res of
      Inl e \<Rightarrow> Inl (mapError e)
    | Inr (n, t) \<Rightarrow> if n = 0 then Inl ErrNotFound else Inr t)"

text \<open>
  A transaction: the state is the new one only when the body and the commit succeed.
\<close>

definition withTx :: "'e option \<Rightarrow> ('s \<Rightarrow> 'e + ('a \<times> 's)) \<Rightarrow> 's \<Rightarrow> ('e + 'a) \<times> 's" where
  "withTx commit body s = (case body s of
      Inl e \<Rightarrow> (Inl e, s)
    | Inr (a, s') \<Rightarrow> (case commit of Some e \<Rightarrow> (Inl e, s) | None \<Rightarrow> (Inr a, s')))"

lemma withTx_error: "withTx commit body s = (Inl e, s') \<Longrightarrow> s' = s"
  by (auto simp: withTx_def split: sum.splits option.splits)

lemma withTx_ok: "withTx commit body s = (Inr a, s') \<longleftrightarrow> commit = None \<and> body s = Inr (a, s')"
  by (auto simp: withTx_def split: sum.splits option.splits)


section \<open>Keyset pages\<close>

text \<open>
  A client of a paged listing follows the cursor of each page until a page carries none.
\<close>

fun follow :: "('c \<Rightarrow> 'r list \<times> 'c option) \<Rightarrow> nat \<Rightarrow> 'c \<Rightarrow> 'r list" where
  "follow page 0 c = []"
| "follow page (Suc n) c = (case page c of
      (rows, None) \<Rightarrow> rows
    | (rows, Some c') \<Rightarrow> rows @ follow page n c')"

definition full_page_cursor :: "('r \<Rightarrow> 'c) \<Rightarrow> nat \<Rightarrow> 'r list \<Rightarrow> 'c option" where
  "full_page_cursor cur limit rows = (if length rows = limit \<and> limit > 0 then Some (cur (last rows)) else None)"

text \<open>
  The contract of a listing: a page is the next rows behind the cursor, and the cursor of a row names
  exactly the rows after it.
\<close>

locale keyset_pages =
  fixes wf :: "'s \<Rightarrow> bool"
    and rows :: "'s \<Rightarrow> 'r list"
    and behind :: "'c \<Rightarrow> 'r \<Rightarrow> bool"
    and cur :: "'r \<Rightarrow> 'c"
    and page :: "'s \<Rightarrow> nat \<Rightarrow> 'c \<Rightarrow> 'r list"
  assumes page: "wf s \<Longrightarrow> page s n c = take n (filter (behind c) (rows s))"
    and behind_cur: "wf s \<Longrightarrow> rows s = xs @ r # ys \<Longrightarrow> filter (behind (cur r)) (rows s) = ys"
begin

lemma follow_rest:
  assumes wf: "wf s" and "0 < n"
  shows "filter (behind c) (rows s) = ys \<Longrightarrow> rows s = xs @ ys \<Longrightarrow> length ys < fuel \<Longrightarrow>
    follow (\<lambda>c. (page s n c, full_page_cursor cur n (page s n c))) fuel c = ys"
proof (induction fuel arbitrary: c xs ys)
  case (Suc fuel)
  have p: "page s n c = take n ys" using page [OF wf] Suc.prems(1) by simp
  show ?case
  proof (cases "n \<le> length ys")
    case False
    then show ?thesis by (simp add: p full_page_cursor_def)
  next
    case True
    then have ne: "take n ys \<noteq> []" using \<open>0 < n\<close> by auto
    let ?r = "last (take n ys)"
    have split: "rows s = (xs @ butlast (take n ys)) @ ?r # drop n ys"
      using Suc.prems(2) append_butlast_last_id [OF ne] append_take_drop_id [of n ys]
      by (metis append.assoc append_Cons append_Nil)
    then have "rows s = (xs @ take n ys) @ drop n ys" using Suc.prems(2) by simp
    moreover have "length (drop n ys) < fuel" using Suc.prems(3) \<open>0 < n\<close> True by simp
    ultimately have "follow (\<lambda>c. (page s n c, full_page_cursor cur n (page s n c))) fuel (cur ?r) = drop n ys"
      by (rule Suc.IH [OF behind_cur [OF wf split]])
    then show ?thesis using True \<open>0 < n\<close> by (simp add: p full_page_cursor_def)
  qed
qed simp

lemma follow_all:
  assumes "wf s" "0 < n" "\<forall>r\<in>set (rows s). behind c r" "length (rows s) < fuel"
  shows "follow (\<lambda>c. (page s n c, full_page_cursor cur n (page s n c))) fuel c = rows s"
  using follow_rest [OF assms(1,2), of c "rows s" "[]" fuel] assms(3,4) by simp

end

end
