(* ===== verification/Audit_Log.thy ===== *)
theory Audit_Log
  imports Std_Crypto Store_Base
begin

section \<open>The hash-chained audit log\<close>

text \<open>
  \<^verbatim>\<open>internal/audit\<close> and its repositories \<^verbatim>\<open>internal/store/audit.go\<close>, \<^verbatim>\<open>audit_checkpoint.go\<close> and
  \<^verbatim>\<open>audit_retention.go\<close>, with the prune guards of \<^verbatim>\<open>internal/api/audit_checkpoint_handlers.go\<close>. The two
  tables are lists of rows in insertion order; a query sorts what it selects. The advisory lock
  makes \<^verbatim>\<open>Append\<close> atomic, so a run of the log is a sequence of whole operations. Instants are
  nanoseconds since the Unix epoch; a \<^verbatim>\<open>timestamptz\<close> column keeps whole microseconds of them. A clock
  reading is an argument. A MAC-key provider that is not wired is \<^const>\<open>None\<close>; it may also fail.
\<close>

record AuditRow =
  Seq :: int
  OccurredAt :: int
  ActorKind :: string
  ActorID :: "string option"
  ActorName :: string
  ActionName :: string
  ResourceName :: string
  Detail :: "string option"
  ResultKind :: string
  ResultCode :: "string option"
  IP :: string
  PrevHash :: bytes
  Hash :: bytes
  ar_ProjectID :: "string option"

record AuditHead =
  head_Seq :: int
  head_Hash :: "bytes option"

record AuditCheckpointRow =
  ThroughSeq :: int
  ThroughHash :: bytes
  EventCount :: int
  MAC :: bytes
  cp_CreatedAt :: int

record audit_db =
  events :: "AuditRow list"
  checkpoints :: "AuditCheckpointRow list"

record Event =
  ev_ActorKind :: string
  ev_ActorID :: string
  ev_ActorName :: string
  ev_Action :: string
  ev_Resource :: string
  ev_Detail :: string
  ev_Result :: string
  ev_ResultCode :: string
  ev_IP :: string
  ev_ProjectID :: "string option"

subsection \<open>The chain hash (\<^verbatim>\<open>hash.go\<close>)\<close>

definition domainTag :: bytes where
  "domainTag = bytes_of ''janus:audit:v1''"

definition genesisPrevHash :: bytes where
  "genesisPrevHash = replicate 32 0"

definition writeInt64 :: "int \<Rightarrow> bytes" where
  "writeInt64 v = be64 (word_of_int v)"

definition writeStr :: "string \<Rightarrow> bytes" where
  "writeStr s = be32 (word_of_nat (length s)) @ bytes_of s"

definition writeNullable :: "string option \<Rightarrow> bytes" where
  "writeNullable s = (case s of None \<Rightarrow> [0] | Some t \<Rightarrow> 1 # writeStr t)"

definition hash_input :: "bytes \<Rightarrow> AuditRow \<Rightarrow> bytes" where
  "hash_input prevHash r =
     domainTag @ prevHash @ writeInt64 (Seq r) @ writeInt64 (OccurredAt r) @
     writeStr (ActorKind r) @ writeNullable (ActorID r) @ writeStr (ActorName r) @
     writeStr (ActionName r) @ writeStr (ResourceName r) @ writeNullable (Detail r) @
     writeStr (ResultKind r) @ writeNullable (ResultCode r) @ writeStr (IP r)"

definition computeHash :: "bytes \<Rightarrow> AuditRow \<Rightarrow> bytes" where
  "computeHash prevHash r = sha256 (hash_input prevHash r)"

subsection \<open>Checkpoint MACs (\<^verbatim>\<open>checkpoint.go\<close>)\<close>

definition checkpointKeyInfo :: bytes where
  "checkpointKeyInfo = bytes_of ''janus/audit-checkpoint/v1''"

definition checkpointMACDomain :: bytes where
  "checkpointMACDomain = bytes_of ''janus:audit:checkpoint:v1''"

definition DeriveCheckpointKey :: "bytes \<Rightarrow> bytes" where
  "DeriveCheckpointKey tokenHMACKey = hmac sha256 tokenHMACKey checkpointKeyInfo"

definition writeCkInt64 :: "int \<Rightarrow> bytes" where
  "writeCkInt64 v = be64 (word_of_int v)"

definition writeCkBytes :: "bytes \<Rightarrow> bytes" where
  "writeCkBytes b = be32 (word_of_nat (length b)) @ b"

definition mac_input :: "int \<Rightarrow> bytes \<Rightarrow> int \<Rightarrow> bytes" where
  "mac_input throughSeq throughHash eventCount =
     checkpointMACDomain @ writeCkInt64 throughSeq @ writeCkBytes throughHash @ writeCkInt64 eventCount"

definition computeCheckpointMAC :: "bytes \<Rightarrow> int \<Rightarrow> bytes \<Rightarrow> int \<Rightarrow> bytes" where
  "computeCheckpointMAC ckKey throughSeq throughHash eventCount =
     hmac sha256 ckKey (mac_input throughSeq throughHash eventCount)"

definition verifyCheckpointMAC :: "bytes \<Rightarrow> AuditCheckpointRow \<Rightarrow> bool" where
  "verifyCheckpointMAC ckKey cp \<longleftrightarrow>
     computeCheckpointMAC ckKey (ThroughSeq cp) (ThroughHash cp) (EventCount cp) = MAC cp"

subsection \<open>The repositories\<close>

text \<open>A \<^verbatim>\<open>timestamptz\<close> keeps microseconds.\<close>

definition timestamptz :: "int \<Rightarrow> int" where
  "timestamptz t = t - t mod 1000"

definition asc :: "AuditRow list \<Rightarrow> AuditRow list" where
  "asc rows = sort_key Seq rows"

definition Iterate :: "audit_db \<Rightarrow> AuditRow list" where
  "Iterate db = asc (events db)"

definition IterateFrom :: "int \<Rightarrow> audit_db \<Rightarrow> AuditRow list" where
  "IterateFrom fromSeq db = asc (filter (\<lambda>r. fromSeq \<le> Seq r) (events db))"

text \<open>The row of highest \<^verbatim>\<open>seq\<close>; \<^verbatim>\<open>COALESCE(MAX(seq), 0)\<close> is its number.\<close>

definition audit_head :: "audit_db \<Rightarrow> AuditHead" where
  "audit_head db = (case rev (asc (events db)) of
      [] \<Rightarrow> \<lparr>head_Seq = 0, head_Hash = None\<rparr>
    | r # _ \<Rightarrow> \<lparr>head_Seq = Seq r, head_Hash = Some (Hash r)\<rparr>)"

definition insert_event :: "AuditRow \<Rightarrow> audit_db \<Rightarrow> store_err + (AuditRow \<times> audit_db)" where
  "insert_event row db =
     (if Seq row \<in> Seq ` set (events db) then Inl (mapError (PgError ''23505''))
      else Inr (row, db\<lparr>events := events db @ [row\<lparr>OccurredAt := timestamptz (OccurredAt row)\<rparr>]\<rparr>))"

definition Append :: "store_err option \<Rightarrow> (AuditHead \<Rightarrow> AuditRow) \<Rightarrow> audit_db \<Rightarrow>
    (store_err + AuditRow) \<times> audit_db" where
  "Append commit compute db = withTx commit (\<lambda>db. insert_event (compute (audit_head db)) db) db"

definition Head :: "audit_db \<Rightarrow> store_err + (int \<times> bytes \<times> int)" where
  "Head db =
     (let seq = head_Seq (audit_head db); count = int (length (events db)) in
      if seq = 0 then Inr (0, [], 0)
      else case filter (\<lambda>r. Seq r = seq) (events db) of
          [] \<Rightarrow> Inl (mapError PgNoRows)
        | r # _ \<Rightarrow> Inr (seq, Hash r, count))"

definition Insert :: "int \<Rightarrow> AuditCheckpointRow \<Rightarrow> audit_db \<Rightarrow> store_err + audit_db" where
  "Insert now cp db =
     (if ThroughSeq cp \<in> ThroughSeq ` set (checkpoints db) then Inl (mapError (PgError ''23505''))
      else Inr (db\<lparr>checkpoints := checkpoints db @ [cp\<lparr>cp_CreatedAt := timestamptz now\<rparr>]\<rparr>))"

definition Latest :: "audit_db \<Rightarrow> AuditCheckpointRow option" where
  "Latest db = (case rev (sort_key ThroughSeq (checkpoints db)) of [] \<Rightarrow> None | cp # _ \<Rightarrow> Some cp)"

definition PruneThrough :: "int \<Rightarrow> audit_db \<Rightarrow> int \<times> audit_db" where
  "PruneThrough throughSeq db =
     (int (length (filter (\<lambda>r. Seq r \<le> throughSeq) (events db))),
      db\<lparr>events := filter (\<lambda>r. \<not> Seq r \<le> throughSeq) (events db)\<rparr>)"

subsection \<open>Recording (\<^verbatim>\<open>recorder.go\<close>)\<close>

definition nz :: "string \<Rightarrow> string option" where
  "nz s = (if s = '''' then None else Some s)"

definition compute_row :: "int \<Rightarrow> Event \<Rightarrow> AuditHead \<Rightarrow> AuditRow" where
  "compute_row now e head =
     (let seq = head_Seq head + 1;
          prev = (case head_Hash head of None \<Rightarrow> genesisPrevHash | Some h \<Rightarrow> h);
          occurred = now - now mod 1000;
          row = \<lparr>Seq = seq, OccurredAt = occurred, ActorKind = ev_ActorKind e,
            ActorID = nz (ev_ActorID e), ActorName = ev_ActorName e, ActionName = ev_Action e,
            ResourceName = ev_Resource e, Detail = nz (ev_Detail e), ResultKind = ev_Result e,
            ResultCode = nz (ev_ResultCode e), IP = ev_IP e, PrevHash = prev, Hash = [],
            ar_ProjectID = ev_ProjectID e\<rparr>
      in row\<lparr>Hash := computeHash prev row\<rparr>)"

definition Record :: "store_err option \<Rightarrow> int \<Rightarrow> Event \<Rightarrow> audit_db \<Rightarrow> store_err option \<times> audit_db" where
  "Record commit now e db = (case Append commit (compute_row now e) db of
      (Inl err, db') \<Rightarrow> (Some err, db')
    | (Inr _, db') \<Rightarrow> (None, db'))"

subsection \<open>Verification (\<^verbatim>\<open>verify.go\<close>)\<close>

definition hex_digit :: "nat \<Rightarrow> char" where
  "hex_digit n = ''0123456789abcdef'' ! n"

definition hexstr :: "bytes \<Rightarrow> string" where
  "hexstr b = concat (map (\<lambda>x. [hex_digit (unat x div 16), hex_digit (unat x mod 16)]) b)"

record CheckpointInfo =
  ci_ThroughSeq :: int
  ci_ThroughHash :: string
  ci_EventCount :: int
  ci_CreatedAt :: int
  ci_MACValid :: bool

record VerifyResult =
  Valid :: bool
  Count :: int
  HeadSeq :: int
  HeadHash :: string
  BrokenAtSeq :: int
  Reason :: string
  Checkpoint :: "CheckpointInfo option"
  FromCheckpoint :: bool

record chainWalk =
  prev :: bytes
  expectSeq :: int
  count :: int
  headSeq :: int
  headHash :: bytes
  broken :: bool
  reason :: string
  brokenAt :: int

definition walk_start :: chainWalk where
  "walk_start = \<lparr>prev = genesisPrevHash, expectSeq = 1, count = 0, headSeq = 0, headHash = [],
     broken = False, reason = '''', brokenAt = 0\<rparr>"

definition walk_anchor :: "AuditCheckpointRow \<Rightarrow> chainWalk" where
  "walk_anchor cp = \<lparr>prev = ThroughHash cp, expectSeq = ThroughSeq cp + 1, count = EventCount cp,
     headSeq = ThroughSeq cp, headHash = ThroughHash cp, broken = False, reason = '''', brokenAt = 0\<rparr>"

fun walk_rows :: "int \<Rightarrow> AuditRow list \<Rightarrow> chainWalk \<Rightarrow> chainWalk" where
  "walk_rows throughSeq [] w = w"
| "walk_rows throughSeq (row # rows) w =
     (let want = computeHash (prev w) row in
      if Seq row \<noteq> expectSeq w \<or> PrevHash row \<noteq> prev w
      then w\<lparr>broken := True, reason := ''chain_break'', brokenAt := Seq row\<rparr>
      else if Hash row \<noteq> want
      then w\<lparr>broken := True, reason := ''hash_mismatch'', brokenAt := Seq row\<rparr>
      else let w' = w\<lparr>prev := Hash row, count := count w + 1, headSeq := Seq row,
                      headHash := Hash row, expectSeq := expectSeq w + 1\<rparr> in
        if throughSeq > 0 \<and> Seq row \<ge> throughSeq then w' else walk_rows throughSeq rows w')"

definition iterate_rows :: "int \<Rightarrow> audit_db \<Rightarrow> AuditRow list" where
  "iterate_rows fromSeq db = (if fromSeq > 1 then IterateFrom fromSeq db else Iterate db)"

definition walkChain :: "int \<Rightarrow> audit_db \<Rightarrow> chainWalk \<Rightarrow> chainWalk" where
  "walkChain throughSeq db w = walk_rows throughSeq (iterate_rows (expectSeq w) db) w"

datatype audit_err =
    ErrCheckpointsDisabled | ErrNoEvents | ErrNoCheckpoint | ErrCheckpointMAC
  | ErrPrunePastShipHWM | ErrChainInvalid | ErrAuditStore store_err | ErrMACKey string

type_synonym MACKeyFunc = "audit_err + bytes"

definition latestVerifiedCheckpoint :: "MACKeyFunc \<Rightarrow> audit_db \<Rightarrow>
    audit_err + (AuditCheckpointRow \<times> bool) option" where
  "latestVerifiedCheckpoint macKey db = (case Latest db of
      None \<Rightarrow> Inr None
    | Some row \<Rightarrow> (case macKey of
        Inl e \<Rightarrow> Inl e
      | Inr key \<Rightarrow> Inr (Some (row, verifyCheckpointMAC key row))))"

definition info_of :: "AuditCheckpointRow \<Rightarrow> bool \<Rightarrow> CheckpointInfo" where
  "info_of cp ok = \<lparr>ci_ThroughSeq = ThroughSeq cp, ci_ThroughHash = hexstr (ThroughHash cp),
     ci_EventCount = EventCount cp, ci_CreatedAt = cp_CreatedAt cp, ci_MACValid = ok\<rparr>"

definition walk_result :: "CheckpointInfo option \<Rightarrow> chainWalk \<Rightarrow> VerifyResult" where
  "walk_result ck w = \<lparr>Valid = (\<not> broken w), Count = count w, HeadSeq = headSeq w,
     HeadHash = (if headHash w \<noteq> [] then hexstr (headHash w) else ''''),
     BrokenAtSeq = (if broken w then brokenAt w else 0),
     Reason = (if broken w then reason w else ''''),
     Checkpoint = ck, FromCheckpoint = (ck \<noteq> None)\<rparr>"

definition Verify :: "MACKeyFunc option \<Rightarrow> audit_db \<Rightarrow> audit_err + VerifyResult" where
  "Verify wired db = (case wired of
      None \<Rightarrow> Inr (walk_result None (walkChain 0 db walk_start))
    | Some macKey \<Rightarrow> (case latestVerifiedCheckpoint macKey db of
        Inl e \<Rightarrow> Inl e
      | Inr None \<Rightarrow> Inr (walk_result None (walkChain 0 db walk_start))
      | Inr (Some (cp, ok)) \<Rightarrow>
          if \<not> ok then Inr \<lparr>Valid = False, Count = 0, HeadSeq = 0, HeadHash = '''',
            BrokenAtSeq = ThroughSeq cp, Reason = ''checkpoint_mac_invalid'',
            Checkpoint = Some (info_of cp ok), FromCheckpoint = False\<rparr>
          else Inr (walk_result (Some (info_of cp ok)) (walkChain 0 db (walk_anchor cp)))))"

subsection \<open>Checkpoints and pruning (\<^verbatim>\<open>checkpoint_ops.go\<close>)\<close>

definition walk_reaches :: "int \<Rightarrow> bytes \<Rightarrow> chainWalk \<Rightarrow> audit_err + int" where
  "walk_reaches hSeq hHash w =
     (if broken w then Inl ErrChainInvalid
      else if headSeq w \<noteq> hSeq \<or> headHash w \<noteq> hHash then Inl ErrChainInvalid
      else Inr (count w))"

definition verifyBeforeAnchor :: "MACKeyFunc \<Rightarrow> int \<Rightarrow> bytes \<Rightarrow> audit_db \<Rightarrow> audit_err + int" where
  "verifyBeforeAnchor macKey hSeq hHash db = (case latestVerifiedCheckpoint macKey db of
      Inl e \<Rightarrow> Inl e
    | Inr None \<Rightarrow> walk_reaches hSeq hHash (walkChain hSeq db walk_start)
    | Inr (Some (cp, ok)) \<Rightarrow>
        if \<not> ok then Inl ErrChainInvalid
        else if ThroughSeq cp > hSeq then Inl ErrChainInvalid
        else if ThroughSeq cp = hSeq then
          if ThroughHash cp \<noteq> hHash then Inl ErrChainInvalid else Inr (EventCount cp)
        else walk_reaches hSeq hHash (walkChain hSeq db (walk_anchor cp)))"

definition CreateCheckpoint :: "MACKeyFunc option \<Rightarrow> int \<Rightarrow> audit_db \<Rightarrow>
    (audit_err + CheckpointInfo) \<times> audit_db" where
  "CreateCheckpoint wired now db = (case wired of
      None \<Rightarrow> (Inl ErrCheckpointsDisabled, db)
    | Some macKey \<Rightarrow> (case Head db of
        Inl e \<Rightarrow> (Inl (ErrAuditStore e), db)
      | Inr (seq, hash, _) \<Rightarrow>
          if seq = 0 then (Inl ErrNoEvents, db)
          else case verifyBeforeAnchor macKey seq hash db of
            Inl e \<Rightarrow> (Inl e, db)
          | Inr n \<Rightarrow> (case macKey of
              Inl e \<Rightarrow> (Inl e, db)
            | Inr key \<Rightarrow>
                (let cp = \<lparr>ThroughSeq = seq, ThroughHash = hash, EventCount = n,
                    MAC = computeCheckpointMAC key seq hash n, cp_CreatedAt = 0\<rparr>
                 in case Insert now cp db of
                      Inl e \<Rightarrow> (Inl (ErrAuditStore e), db)
                    | Inr db' \<Rightarrow> (Inr (info_of (cp\<lparr>cp_CreatedAt := now\<rparr>) True), db')))))"

definition checkAnchorBoundary :: "AuditCheckpointRow \<Rightarrow> audit_db \<Rightarrow> bool" where
  "checkAnchorBoundary cp db = (case IterateFrom (ThroughSeq cp + 1) db of
      [] \<Rightarrow> True
    | row # _ \<Rightarrow> Seq row = ThroughSeq cp + 1 \<and> PrevHash row = ThroughHash cp)"

definition LatestCheckpoint :: "MACKeyFunc option \<Rightarrow> audit_db \<Rightarrow> audit_err + CheckpointInfo option" where
  "LatestCheckpoint wired db = (case wired of
      None \<Rightarrow> Inr None
    | Some macKey \<Rightarrow> (case latestVerifiedCheckpoint macKey db of
        Inl e \<Rightarrow> Inl e
      | Inr None \<Rightarrow> Inr None
      | Inr (Some (cp, ok)) \<Rightarrow> Inr (Some (info_of cp ok))))"

record PruneResult =
  PrunedThrough :: int
  Deleted :: int

definition Prune :: "MACKeyFunc option \<Rightarrow> int \<Rightarrow> audit_db \<Rightarrow> (audit_err + PruneResult) \<times> audit_db" where
  "Prune wired shipHWM db = (case wired of
      None \<Rightarrow> (Inl ErrCheckpointsDisabled, db)
    | Some macKey \<Rightarrow> (case latestVerifiedCheckpoint macKey db of
        Inl e \<Rightarrow> (Inl e, db)
      | Inr None \<Rightarrow> (Inl ErrNoCheckpoint, db)
      | Inr (Some (cp, ok)) \<Rightarrow>
          if \<not> ok then (Inl ErrCheckpointMAC, db)
          else if \<not> checkAnchorBoundary cp db then (Inl ErrChainInvalid, db)
          else let pruneThrough = (if shipHWM \<ge> 0 \<and> shipHWM < ThroughSeq cp then shipHWM
                                   else ThroughSeq cp) in
            if pruneThrough < 1 then (Inl ErrPrunePastShipHWM, db)
            else case PruneThrough pruneThrough db of (deleted, db') \<Rightarrow>
              (Inr \<lparr>PrunedThrough = pruneThrough, Deleted = deleted\<rparr>, db')))"

subsection \<open>Prune guards of the API\<close>

definition pruneCeilingUnbounded :: int where
  "pruneCeilingUnbounded = -1"

fun combine_loop_ceil :: "int list \<Rightarrow> int \<Rightarrow> int" where
  "combine_loop_ceil [] out = out"
| "combine_loop_ceil (c # cs) out =
     (if c < 0 then combine_loop_ceil cs out
      else if out < 0 \<or> c < out then combine_loop_ceil cs c
      else combine_loop_ceil cs out)"

definition combinePruneCeilings :: "int list \<Rightarrow> int" where
  "combinePruneCeilings ceilings = combine_loop_ceil ceilings pruneCeilingUnbounded"

text \<open>
  How the server's store answers what the handler asks: the ship mark, or the error of reading it, and for each of the two
  retention queries the error it fails with, if it does. A server without a store is \<open>None\<close>.
\<close>

record prune_store =
  getHighWater :: "store_err + int"
  days_fails :: "store_err option"
  events_fails :: "store_err option"

definition shipPruneCeiling :: "prune_store option \<Rightarrow> store_err + int" where
  "shipPruneCeiling st = (case st of
      None \<Rightarrow> Inr pruneCeilingUnbounded
    | Some q \<Rightarrow> (case getHighWater q of
        Inl e \<Rightarrow> if e = ErrNotFound then Inr pruneCeilingUnbounded else Inl e
      | Inr hwm \<Rightarrow> if hwm \<le> 0 then Inr pruneCeilingUnbounded else Inr hwm))"

text \<open>The two questions of \<^verbatim>\<open>audit_retention.go\<close>; a day is 86400 seconds of \<^verbatim>\<open>make_interval\<close> in UTC.\<close>

definition SeqOlderThanDays :: "int \<Rightarrow> int \<Rightarrow> audit_db \<Rightarrow> int" where
  "SeqOlderThanDays now days db =
     head_Seq (audit_head (db\<lparr>events :=
       filter (\<lambda>r. OccurredAt r < timestamptz now - days * 86400000000000) (events db)\<rparr>))"

definition SeqRetainingNewest :: "int \<Rightarrow> audit_db \<Rightarrow> int" where
  "SeqRetainingNewest n db = (case rev (take (nat n) (rev (asc (events db)))) of
      [] \<Rightarrow> 0
    | oldest # _ \<Rightarrow> if Seq oldest \<le> 1 then 0 else Seq oldest - 1)"

definition retentionPruneCeiling :: "prune_store option \<Rightarrow> int \<Rightarrow> int \<Rightarrow> int \<Rightarrow> audit_db \<Rightarrow> store_err + int" where
  "retentionPruneCeiling st now days evs db = (case st of
      None \<Rightarrow> Inr pruneCeilingUnbounded
    | Some q \<Rightarrow>
        if days \<le> 0 \<and> evs \<le> 0 then Inr pruneCeilingUnbounded
        else bind_err (if days > 0 then (case days_fails q of Some e \<Rightarrow> Inl e | None \<Rightarrow> Inr (SeqOlderThanDays now days db))
                       else Inr pruneCeilingUnbounded) (\<lambda>byDays.
             bind_err (if evs > 0 then (case events_fails q of Some e \<Rightarrow> Inl e | None \<Rightarrow> Inr (SeqRetainingNewest evs db))
                       else Inr pruneCeilingUnbounded) (\<lambda>byEvents.
             Inr (combinePruneCeilings [byDays, byEvents]))))"

datatype prune_response =
    PruneInternal store_err | PruneFloorRetainsAll | PruneRefused audit_err | PruneDone PruneResult

text \<open>
  The handler after its authorisation check, on a server with an audit log. The event that records the prune is appended after the
  delete; a failure to record it does not change the response.
\<close>

definition handleAuditPrune :: "MACKeyFunc option \<Rightarrow> prune_store option \<Rightarrow> int \<Rightarrow> int \<Rightarrow>
    store_err option \<Rightarrow> int \<Rightarrow> (PruneResult \<Rightarrow> Event) \<Rightarrow> audit_db \<Rightarrow> prune_response \<times> audit_db" where
  "handleAuditPrune wired st days evs commit now event db =
     (case shipPruneCeiling st of
        Inl e \<Rightarrow> (PruneInternal e, db)
      | Inr ship \<Rightarrow>
       (case retentionPruneCeiling st now days evs db of
          Inl e \<Rightarrow> (PruneInternal e, db)
        | Inr retention \<Rightarrow>
          if retention = 0 then (PruneFloorRetainsAll, db)
          else case Prune wired (combinePruneCeilings [ship, retention]) db of
            (Inl e, db') \<Rightarrow> (PruneRefused e, db')
          | (Inr res, db') \<Rightarrow> (PruneDone res, snd (Record commit now (event res) db'))))"

subsection \<open>Reading the log\<close>

record AuditFilter =
  From :: "int option"
  To :: "int option"
  af_Actor :: string
  af_Action :: string
  af_Result :: string
  af_Projects :: "string list option"

definition auditWhere :: "AuditFilter \<Rightarrow> AuditRow \<Rightarrow> bool" where
  "auditWhere f r \<longleftrightarrow>
     (case From f of None \<Rightarrow> True | Some t \<Rightarrow> timestamptz t \<le> OccurredAt r) \<and>
     (case To f of None \<Rightarrow> True | Some t \<Rightarrow> OccurredAt r \<le> timestamptz t) \<and>
     (af_Action f = '''' \<or> ActionName r = af_Action f) \<and>
     (af_Result f = '''' \<or> ResultKind r = af_Result f) \<and>
     (af_Actor f = '''' \<or> ActorID r = Some (af_Actor f) \<or> ActorName r = af_Actor f) \<and>
     (case af_Projects f of None \<Rightarrow> True
      | Some ps \<Rightarrow> (case ar_ProjectID r of None \<Rightarrow> False | Some p \<Rightarrow> p \<in> set ps))"

definition List_audit :: "AuditFilter \<Rightarrow> audit_db \<Rightarrow> AuditRow list" where
  "List_audit f db = asc (filter (auditWhere f) (events db))"

definition ListPage :: "AuditFilter \<Rightarrow> int \<Rightarrow> nat \<Rightarrow> audit_db \<Rightarrow> AuditRow list" where
  "ListPage f beforeSeq limit db =
     take limit (rev (asc (filter (\<lambda>r. auditWhere f r \<and> (beforeSeq = 0 \<or> Seq r < beforeSeq)) (events db))))"

definition ListSince :: "int \<Rightarrow> nat \<Rightarrow> audit_db \<Rightarrow> AuditRow list" where
  "ListSince afterSeq limit db = take limit (asc (filter (\<lambda>r. afterSeq < Seq r) (events db)))"

text \<open>The events endpoint: a page and the cursor of the next one.\<close>

definition next_cursor :: "nat \<Rightarrow> AuditRow list \<Rightarrow> int option" where
  "next_cursor limit rows = (if length rows = limit \<and> limit > 0 then Some (Seq (last rows)) else None)"

section \<open>Chains\<close>

fun chained :: "bytes \<Rightarrow> int \<Rightarrow> AuditRow list \<Rightarrow> bool" where
  "chained p s [] \<longleftrightarrow> True"
| "chained p s (r # rs) \<longleftrightarrow>
     Seq r = s \<and> PrevHash r = p \<and> Hash r = computeHash p r \<and> chained (Hash r) (s + 1) rs"

definition last_hash :: "bytes \<Rightarrow> AuditRow list \<Rightarrow> bytes" where
  "last_hash p rows = (if rows = [] then p else Hash (last rows))"

lemma last_hash_simps [simp]:
  "last_hash p [] = p"
  "last_hash p (rows @ [r]) = Hash r"
  "last_hash p (r # rows) = last_hash (Hash r) rows"
  by (simp_all add: last_hash_def)

lemma chained_append:
  "chained p s (xs @ ys) \<longleftrightarrow> chained p s xs \<and> chained (last_hash p xs) (s + int (length xs)) ys"
  by (induction xs arbitrary: p s) (auto simp: algebra_simps)

lemma chained_drop: "chained p s xs \<Longrightarrow> k \<le> length xs \<Longrightarrow> chained (last_hash p (take k xs)) (s + int k) (drop k xs)"
  using chained_append [of p s "take k xs" "drop k xs"] by simp

lemma chained_nth_Seq: "chained p s xs \<Longrightarrow> i < length xs \<Longrightarrow> Seq (xs ! i) = s + int i"
proof (induction xs arbitrary: p s i)
  case (Cons r rs)
  then show ?case by (cases i) auto
qed simp

lemma chained_Seq_le: "chained p s xs \<Longrightarrow> r \<in> set xs \<Longrightarrow> s \<le> Seq r"
  by (induction xs arbitrary: p s) force+

lemma chained_last:
  "chained p s xs \<Longrightarrow> xs \<noteq> [] \<Longrightarrow> Seq (last xs) = s + int (length xs) - 1 \<and> length (Hash (last xs)) = 32"
proof (induction xs arbitrary: p s)
  case (Cons r rs)
  then show ?case by (cases "rs = []") (auto simp: computeHash_def)
qed simp

lemma chained_sorted: "chained p s xs \<Longrightarrow> sorted (map Seq xs)"
proof (induction xs arbitrary: p s)
  case (Cons r rs)
  then show ?case using chained_Seq_le [of "Hash r" "s + 1" rs] by fastforce
qed simp

lemma chained_distinct: "chained p s xs \<Longrightarrow> distinct (map Seq xs)"
proof (induction xs arbitrary: p s)
  case (Cons r rs)
  then show ?case using chained_Seq_le [of "Hash r" "s + 1" rs] by fastforce
qed simp

lemma asc_chained [simp]: "chained p s xs \<Longrightarrow> asc xs = xs"
  by (simp add: asc_def chained_sorted sort_key_id_if_sorted)

lemma chained_filter_from: "chained p s xs \<Longrightarrow> filter (\<lambda>r. t \<le> Seq r) xs = drop (nat (t - s)) xs"
proof (induction xs arbitrary: p s)
  case (Cons r rs)
  show ?case
  proof (cases "t \<le> s")
    case True
    then have "filter (\<lambda>r. t \<le> Seq r) (r # rs) = r # rs"
      using Cons.prems chained_Seq_le [OF Cons.prems] by (intro filter_True) fastforce
    then show ?thesis using True by simp
  next
    case False
    then have "nat (t - s) = Suc (nat (t - (s + 1)))" by simp
    moreover have "filter (\<lambda>r. t \<le> Seq r) rs = drop (nat (t - (s + 1))) rs"
      using Cons.prems by (intro Cons.IH [of "Hash r"]) auto
    ultimately show ?thesis using Cons.prems False by simp
  qed
qed simp

lemma chained_filter_upto:
  assumes "chained p s xs"
  shows "filter (\<lambda>r. \<not> Seq r \<le> t) xs = drop (nat (t + 1 - s)) xs"
proof -
  have "(\<lambda>r :: AuditRow. \<not> Seq r \<le> t) = (\<lambda>r. t + 1 \<le> Seq r)" by auto
  then show ?thesis using chained_filter_from [OF assms, of "t + 1"] by (simp only:)
qed

subsection \<open>The walk\<close>

definition walk_end :: "AuditRow list \<Rightarrow> chainWalk \<Rightarrow> chainWalk" where
  "walk_end rows w = (if rows = [] then w else
     w\<lparr>prev := Hash (last rows), count := count w + int (length rows), headSeq := Seq (last rows),
       headHash := Hash (last rows), expectSeq := expectSeq w + int (length rows)\<rparr>)"

lemma walk_end_Nil [simp]: "walk_end [] w = w"
  by (simp add: walk_end_def)

lemma walk_end_Cons:
  "walk_end (r # rows) w = walk_end rows (w\<lparr>prev := Hash r, count := count w + 1, headSeq := Seq r,
     headHash := Hash r, expectSeq := expectSeq w + 1\<rparr>)"
  by (simp add: walk_end_def)

lemma walk_end_broken [simp]: "broken (walk_end rows w) = broken w"
  by (simp add: walk_end_def)

lemma walk_rows_chained:
  "chained (prev w) (expectSeq w) rows \<Longrightarrow> walk_rows 0 rows w = walk_end rows w"
proof (induction rows arbitrary: w)
  case (Cons r rows)
  let ?w = "w\<lparr>prev := Hash r, count := count w + 1, headSeq := Seq r, headHash := Hash r,
    expectSeq := expectSeq w + 1\<rparr>"
  have "walk_rows 0 rows ?w = walk_end rows ?w" using Cons.prems by (intro Cons.IH) auto
  then show ?case using Cons.prems by (simp add: Let_def walk_end_Cons)
qed simp

lemma walk_rows_break:
  assumes "chained (prev w) (expectSeq w) pre" "\<not> chained (prev w) (expectSeq w) (pre @ [row])"
  shows "\<exists>why. walk_rows 0 (pre @ row # post) w =
    (walk_end pre w)\<lparr>broken := True, reason := why, brokenAt := Seq row\<rparr> \<and> why \<in> {''chain_break'', ''hash_mismatch''}"
  using assms
proof (induction pre arbitrary: w)
  case Nil
  then show ?case by (auto simp: Let_def)
next
  case (Cons r pre)
  let ?w = "w\<lparr>prev := Hash r, count := count w + 1, headSeq := Seq r, headHash := Hash r,
    expectSeq := expectSeq w + 1\<rparr>"
  have "chained (prev ?w) (expectSeq ?w) pre" "\<not> chained (prev ?w) (expectSeq ?w) (pre @ [row])"
    using Cons.prems by auto
  from Cons.IH [OF this] Cons.prems(1) show ?case by (simp add: Let_def walk_end_Cons)
qed

lemma first_break:
  "\<not> chained p s rows \<Longrightarrow> \<exists>pre row post. rows = pre @ row # post \<and> chained p s pre \<and> \<not> chained p s (pre @ [row])"
proof (induction rows arbitrary: p s)
  case (Cons r rows)
  show ?case
  proof (cases "chained p s [r]")
    case True
    then have "\<not> chained (Hash r) (s + 1) rows" using Cons.prems by simp
    from Cons.IH [OF this] obtain pre row post where
      "rows = pre @ row # post" "chained (Hash r) (s + 1) pre" "\<not> chained (Hash r) (s + 1) (pre @ [row])" by blast
    then have "r # rows = (r # pre) @ row # post" "chained p s (r # pre)" "\<not> chained p s ((r # pre) @ [row])"
      using True by auto
    then show ?thesis by blast
  next
    case False
    then have "r # rows = [] @ r # rows" "chained p s []" "\<not> chained p s ([] @ [r])" by auto
    then show ?thesis by blast
  qed
qed simp

lemma walk_rows_broken_iff:
  assumes "\<not> broken w"
  shows "broken (walk_rows 0 rows w) \<longleftrightarrow> \<not> chained (prev w) (expectSeq w) rows"
proof (cases "chained (prev w) (expectSeq w) rows")
  case True
  then show ?thesis using assms by (simp add: walk_rows_chained)
next
  case False
  from first_break [OF this] obtain pre row post where
    "rows = pre @ row # post" "chained (prev w) (expectSeq w) pre"
    "\<not> chained (prev w) (expectSeq w) (pre @ [row])" by blast
  with walk_rows_break [of w pre row post] False show ?thesis by auto
qed

text \<open>A walk bounded by the number of its last row is the whole walk.\<close>

lemma walk_rows_bounded:
  assumes "\<forall>r\<in>set (butlast rows). Seq r < t" "t > 0"
  shows "walk_rows t rows w = walk_rows 0 rows w"
  using assms(1)
proof (induction rows arbitrary: w)
  case (Cons r rows)
  show ?case
  proof (cases rows)
    case Nil
    then show ?thesis by (simp add: Let_def)
  next
    case (Cons r' rows')
    then have "Seq r < t" "\<forall>r\<in>set (butlast rows). Seq r < t" using Cons.prems by auto
    then show ?thesis using Cons.IH by (simp add: Let_def)
  qed
qed simp


section \<open>Runs of the log\<close>

text \<open>
  A run: events are recorded, checkpoints taken and verified prefixes pruned, in any order and with any outcome, with the
  same MAC key. The number counts the events recorded so far; the flag says that a prune has deleted the last row of the
  table. What such a prune leads to is the subject of \<^verbatim>\<open>pruned_to_empty_restarts\<close> below.
\<close>

inductive audit_reach :: "bytes \<Rightarrow> nat \<Rightarrow> bool \<Rightarrow> audit_db \<Rightarrow> bool" for key :: bytes where
  reach_empty: "audit_reach key 0 False \<lparr>events = [], checkpoints = []\<rparr>"
| reach_record: "audit_reach key n emptied db \<Longrightarrow> Record commit now e db = (err, db') \<Longrightarrow>
    audit_reach key (if err = None then n + 1 else n) emptied db'"
| reach_checkpoint: "audit_reach key n emptied db \<Longrightarrow> CreateCheckpoint (Some (Inr key)) now db = (res, db') \<Longrightarrow>
    audit_reach key n emptied db'"
| reach_prune: "audit_reach key n emptied db \<Longrightarrow> Prune (Some (Inr key)) hwm db = (res, db') \<Longrightarrow>
    audit_reach key n (emptied \<or> events db \<noteq> [] \<and> events db' = []) db'"

text \<open>The invariant: the table is the tail of one chain, and the checkpoints are signed points of it.\<close>

definition anchors :: "bytes \<Rightarrow> AuditRow list \<Rightarrow> AuditCheckpointRow \<Rightarrow> bool" where
  "anchors key L cp \<longleftrightarrow> (\<exists>t. 1 \<le> t \<and> t \<le> length L \<and> ThroughSeq cp = int t \<and>
     ThroughHash cp = Hash (L ! (t - 1)) \<and> EventCount cp = int t \<and> verifyCheckpointMAC key cp)"

definition audit_inv :: "bytes \<Rightarrow> AuditRow list \<Rightarrow> nat \<Rightarrow> audit_db \<Rightarrow> bool" where
  "audit_inv key L k db \<longleftrightarrow>
     chained genesisPrevHash 1 L \<and> events db = drop k L \<and>
     (k = 0 \<or> k < length L \<and> (\<exists>cp\<in>set (checkpoints db). int k \<le> ThroughSeq cp)) \<and>
     (\<forall>cp\<in>set (checkpoints db). anchors key L cp)"

lemma audit_invD:
  assumes "audit_inv key L k db"
  shows "chained genesisPrevHash 1 L" "events db = drop k L" "k \<le> length L"
    "\<And>cp. cp \<in> set (checkpoints db) \<Longrightarrow> anchors key L cp"
    "chained (last_hash genesisPrevHash (take k L)) (1 + int k) (drop k L)"
  using assms chained_drop [of genesisPrevHash 1 L k] by (auto simp: audit_inv_def)

lemma Latest_SomeD:
  assumes "Latest db = Some cp"
  shows "cp \<in> set (checkpoints db)" "\<And>c. c \<in> set (checkpoints db) \<Longrightarrow> ThroughSeq c \<le> ThroughSeq cp"
proof -
  let ?S = "sort_key ThroughSeq (checkpoints db)"
  obtain cs where cs: "rev ?S = cp # cs" using assms by (auto simp: Latest_def split: list.splits)
  then have S: "?S = rev cs @ [cp]" by (metis rev.simps(2) rev_rev_ident)
  show "cp \<in> set (checkpoints db)" using arg_cong [OF S, of set] by auto
  fix c assume "c \<in> set (checkpoints db)"
  then have "c \<in> set (rev cs @ [cp])" using arg_cong [OF S, of set] by auto
  moreover have "sorted (map ThroughSeq (rev cs @ [cp]))" using S by (metis sorted_sort_key)
  ultimately show "ThroughSeq c \<le> ThroughSeq cp" by (auto simp: sorted_append)
qed

lemma Latest_None_iff: "Latest db = None \<longleftrightarrow> checkpoints db = []"
proof -
  have "sort_key ThroughSeq (checkpoints db) = [] \<longleftrightarrow> checkpoints db = []"
    by (metis length_0_conv length_sort)
  then show ?thesis by (auto simp: Latest_def split: list.splits)
qed

text \<open>The rows behind an anchor are the tail of the chain.\<close>

lemma IterateFrom_inv:
  assumes "audit_inv key L k db" "k \<le> t"
  shows "IterateFrom (int t + 1) db = drop t L"
proof -
  note inv = audit_invD [OF assms(1)]
  have "filter (\<lambda>r. int t + 1 \<le> Seq r) (drop k L) = drop (nat (int t + 1 - (1 + int k))) (drop k L)"
    by (rule chained_filter_from [OF inv(5)])
  also have "\<dots> = drop t L" using assms(2) by (simp add: nat_diff_distrib' flip: of_nat_diff)
  finally have "filter (\<lambda>r. int t + 1 \<le> Seq r) (events db) = drop t L" using inv(2) by simp
  moreover have "asc (drop t L) = drop t L"
    using asc_chained [OF chained_drop [OF inv(1), of t]] by (cases "t \<le> length L") (auto simp: asc_def)
  ultimately show ?thesis by (simp add: IterateFrom_def)
qed

lemma inv_Latest:
  assumes inv: "audit_inv key L k db" and cp: "Latest db = Some cp"
  obtains t where "1 \<le> t" "t \<le> length L" "k \<le> t" "ThroughSeq cp = int t"
    "ThroughHash cp = Hash (L ! (t - 1))" "EventCount cp = int t" "verifyCheckpointMAC key cp"
    "chained (ThroughHash cp) (int t + 1) (drop t L)"
proof -
  note L = Latest_SomeD [OF cp]
  have "anchors key L cp" using audit_invD(4) [OF inv L(1)] .
  then obtain t where t: "1 \<le> t" "t \<le> length L" "ThroughSeq cp = int t"
    "ThroughHash cp = Hash (L ! (t - 1))" "EventCount cp = int t" "verifyCheckpointMAC key cp"
    by (auto simp: anchors_def)
  have "k \<le> t" using inv t(3) L(2) by (fastforce simp: audit_inv_def)
  moreover have "last_hash genesisPrevHash (take t L) = ThroughHash cp"
    using t by (cases L) (simp_all add: last_hash_def last_conv_nth)
  then have "chained (ThroughHash cp) (int t + 1) (drop t L)"
    using chained_drop [OF audit_invD(1) [OF inv] t(2)] by (simp add: add.commute)
  ultimately show ?thesis using that t by blast
qed

lemma verify_inv:
  assumes inv: "audit_inv key L k db"
  shows "\<exists>res. Verify (Some (Inr key)) db = Inr res \<and> Valid res \<and> Count res = int (length L) \<and>
    HeadSeq res = int (length L) \<and> HeadHash res = (if L = [] then '''' else hexstr (Hash (last L)))"
proof (cases "Latest db")
  case None
  then have k: "k = 0" using inv by (auto simp: audit_inv_def Latest_None_iff)
  note L = audit_invD(1) [OF inv]
  have "walkChain 0 db walk_start = walk_end L walk_start"
    using L k audit_invD(2) [OF inv]
    by (simp add: walkChain_def iterate_rows_def Iterate_def walk_start_def walk_rows_chained)
  then show ?thesis using None chained_last [OF L]
    by (auto simp: Verify_def latestVerifiedCheckpoint_def walk_result_def walk_start_def walk_end_def)
next
  case (Some cp)
  from inv_Latest [OF inv Some] obtain t where t: "1 \<le> t" "t \<le> length L" "k \<le> t" "ThroughSeq cp = int t"
    "ThroughHash cp = Hash (L ! (t - 1))" "EventCount cp = int t" "verifyCheckpointMAC key cp"
    "chained (ThroughHash cp) (int t + 1) (drop t L)" by blast
  have "walkChain 0 db (walk_anchor cp) = walk_end (drop t L) (walk_anchor cp)"
    using t IterateFrom_inv [OF inv t(3)]
    by (simp add: walkChain_def iterate_rows_def walk_anchor_def walk_rows_chained)
  moreover have "L \<noteq> []" using t by auto
  moreover have "t = length L \<Longrightarrow> ThroughHash cp = Hash (last L)"
    using t \<open>L \<noteq> []\<close> by (simp add: last_conv_nth)
  ultimately show ?thesis using Some t chained_last [OF audit_invD(1) [OF inv]] chained_last [OF t(8)]
    by (cases "t = length L")
       (auto simp: Verify_def latestVerifiedCheckpoint_def walk_result_def walk_anchor_def walk_end_def
         last_drop)
qed


subsection \<open>Every operation keeps the invariant\<close>

lemma head_inv:
  assumes inv: "audit_inv key L k db"
  shows "audit_head db = \<lparr>head_Seq = int (length L), head_Hash = (if L = [] then None else Some (Hash (last L)))\<rparr>"
proof -
  have "asc (events db) = drop k L" using audit_invD [OF inv] by simp
  moreover have "L \<noteq> [] \<Longrightarrow> drop k L \<noteq> []" using inv by (auto simp: audit_inv_def)
  moreover have "L \<noteq> [] \<Longrightarrow> Seq (last L) = int (length L)"
    using chained_last [OF audit_invD(1) [OF inv]] by simp
  moreover have "drop k L = ys @ [y] \<Longrightarrow> y = last L" for ys y
    by (metis drop_eq_Nil last_drop last_snoc not_le snoc_eq_iff_butlast)
  ultimately show ?thesis
    by (cases "drop k L" rule: rev_cases) (auto simp: audit_head_def)
qed

lemma Head_inv:
  assumes inv: "audit_inv key L k db" and L: "L \<noteq> []"
  shows "Head db = Inr (int (length L), Hash (last L), int (length (events db)))"
proof -
  have k: "k < length L" using inv L by (auto simp: audit_inv_def)
  obtain pre where pre: "drop k L = pre @ [last L]"
    using k by (metis append_butlast_last_id drop_eq_Nil last_drop not_le)
  note ch = audit_invD(5) [OF inv]
  have "distinct (map Seq (drop k L))" using chained_distinct [OF ch] .
  then have "filter (\<lambda>r. Seq r = Seq (last L)) (drop k L) = [last L]"
    unfolding pre by (auto simp: filter_empty_conv image_iff)
  moreover have "Seq (last L) = int (length L)" using chained_last [OF audit_invD(1) [OF inv] L] by simp
  ultimately show ?thesis using head_inv [OF inv] L audit_invD(2) [OF inv] by (simp add: Head_def)
qed

lemma hash_input_stored [simp]:
  "hash_input p (row\<lparr>Hash := h\<rparr>) = hash_input p row"
  by (simp add: hash_input_def)

lemma compute_row_simps:
  "Seq (compute_row now e head) = head_Seq head + 1"
  "OccurredAt (compute_row now e head) = now - now mod 1000"
  "PrevHash (compute_row now e head) = (case head_Hash head of None \<Rightarrow> genesisPrevHash | Some h \<Rightarrow> h)"
  "Hash (compute_row now e head) = computeHash (PrevHash (compute_row now e head)) (compute_row now e head)"
  by (simp_all add: compute_row_def Let_def computeHash_def hash_input_def)

text \<open>The instant is on a microsecond already, so the stored row is the row that was hashed.\<close>

lemma stored_row [simp]:
  "(compute_row now e head)\<lparr>OccurredAt := timestamptz (OccurredAt (compute_row now e head))\<rparr> = compute_row now e head"
proof -
  have "timestamptz (now - now mod 1000) = now - now mod 1000" by (simp add: timestamptz_def mod_diff_left_eq [symmetric] mod_diff_right_eq)
  then show ?thesis by (simp add: compute_row_def Let_def)
qed

lemma record_inv:
  assumes inv: "audit_inv key L k db" and rec: "Record commit now e db = (err, db')"
  shows "err = commit \<and> (if commit = None then audit_inv key (L @ [compute_row now e (audit_head db)]) k db' else db' = db)"
proof -
  let ?r = "compute_row now e (audit_head db)"
  note iv = audit_invD [OF inv]
  have head: "head_Seq (audit_head db) = int (length L)"
    "(case head_Hash (audit_head db) of None \<Rightarrow> genesisPrevHash | Some h \<Rightarrow> h) = last_hash genesisPrevHash L"
    using head_inv [OF inv] by (auto simp: last_hash_def)
  have fresh: "Seq ?r \<notin> Seq ` set (events db)"
  proof
    assume "Seq ?r \<in> Seq ` set (events db)"
    then obtain i where "i < length L" "Seq (L ! i) = int (length L) + 1"
      using iv(2) set_drop_subset [of k L] head by (fastforce simp: compute_row_simps in_set_conv_nth)
    then show False using chained_nth_Seq [OF iv(1), of i] by simp
  qed
  have "chained genesisPrevHash 1 (L @ [?r])"
    using iv(1) head by (simp add: chained_append compute_row_simps add.commute)
  moreover have "drop k (L @ [?r]) = drop k L @ [?r]" using iv(3) by simp
  moreover have "anchors key L cp \<Longrightarrow> anchors key (L @ [?r]) cp" for cp
    by (fastforce simp: anchors_def nth_append)
  ultimately have "commit = None \<Longrightarrow> audit_inv key (L @ [?r]) k (db\<lparr>events := events db @ [?r]\<rparr>)"
    using inv iv(2) by (auto simp: audit_inv_def)
  then show ?thesis using rec fresh
    by (auto simp: Record_def Append_def withTx_def insert_event_def split: option.splits)
qed

lemma verifyBeforeAnchor_inv:
  assumes inv: "audit_inv key L k db" and L: "L \<noteq> []"
  shows "verifyBeforeAnchor (Inr key) (int (length L)) (Hash (last L)) db = Inr (int (length L))"
proof (cases "Latest db")
  case None
  then have k: "k = 0" using inv by (auto simp: audit_inv_def Latest_None_iff)
  note ch = audit_invD(1) [OF inv]
  have "\<forall>r\<in>set (butlast L). Seq r < int (length L)"
    using chained_nth_Seq [OF ch] by (auto simp: in_set_conv_nth nth_butlast)
  then have "walkChain (int (length L)) db walk_start = walk_end L walk_start"
    using ch k L audit_invD(2) [OF inv]
    by (simp add: walkChain_def iterate_rows_def Iterate_def walk_start_def walk_rows_bounded walk_rows_chained)
  then show ?thesis using None L chained_last [OF ch L]
    by (simp add: verifyBeforeAnchor_def latestVerifiedCheckpoint_def walk_reaches_def walk_end_def walk_start_def)
next
  case (Some cp)
  from inv_Latest [OF inv Some] obtain t where t: "1 \<le> t" "t \<le> length L" "k \<le> t" "ThroughSeq cp = int t"
    "ThroughHash cp = Hash (L ! (t - 1))" "EventCount cp = int t" "verifyCheckpointMAC key cp"
    "chained (ThroughHash cp) (int t + 1) (drop t L)" by blast
  show ?thesis
  proof (cases "t = length L")
    case True
    then show ?thesis using Some t L
      by (simp add: verifyBeforeAnchor_def latestVerifiedCheckpoint_def last_conv_nth)
  next
    case False
    have "\<forall>r\<in>set (butlast (drop t L)). Seq r < int (length L)"
      using chained_nth_Seq [OF t(8)] by (auto simp: in_set_conv_nth nth_butlast)
    then have "walkChain (int (length L)) db (walk_anchor cp) = walk_end (drop t L) (walk_anchor cp)"
      using t L IterateFrom_inv [OF inv t(3)]
      by (simp add: walkChain_def iterate_rows_def walk_anchor_def walk_rows_bounded walk_rows_chained)
    then show ?thesis using Some t False chained_last [OF t(8)]
      by (auto simp: verifyBeforeAnchor_def latestVerifiedCheckpoint_def walk_reaches_def walk_end_def
          walk_anchor_def last_drop)
  qed
qed

lemma checkpoint_inv:
  assumes inv: "audit_inv key L k db" and L: "L \<noteq> []"
  shows "\<exists>res db'. CreateCheckpoint (Some (Inr key)) now db = (res, db') \<and>
    (if int (length L) \<in> ThroughSeq ` set (checkpoints db)
     then res = Inl (ErrAuditStore ErrAlreadyExists) \<and> db' = db
     else (\<exists>info. res = Inr info \<and> ci_ThroughSeq info = int (length L) \<and> ci_EventCount info = int (length L)) \<and>
       (\<exists>cp. db' = db\<lparr>checkpoints := checkpoints db @ [cp]\<rparr> \<and> ThroughSeq cp = int (length L)) \<and>
       audit_inv key L k db')"
proof -
  let ?cp = "\<lparr>ThroughSeq = int (length L), ThroughHash = Hash (last L), EventCount = int (length L),
    MAC = computeCheckpointMAC key (int (length L)) (Hash (last L)) (int (length L)), cp_CreatedAt = timestamptz now\<rparr>"
  have "anchors key L ?cp"
    using L by (auto simp: anchors_def verifyCheckpointMAC_def last_conv_nth Suc_le_eq)
  then have "audit_inv key L k (db\<lparr>checkpoints := checkpoints db @ [?cp]\<rparr>)"
    using inv by (auto simp: audit_inv_def)
  then show ?thesis using L
    by (auto simp: CreateCheckpoint_def Head_inv [OF inv L] verifyBeforeAnchor_inv [OF inv L] Let_def
        Insert_def mapError_def info_of_def)
qed

definition prune_point :: "int \<Rightarrow> AuditCheckpointRow \<Rightarrow> int" where
  "prune_point hwm cp = (if hwm \<ge> 0 \<and> hwm < ThroughSeq cp then hwm else ThroughSeq cp)"

lemma Prune_Some:
  assumes "Latest db = Some cp"
  shows "Prune (Some (Inr key)) hwm db =
    (if \<not> verifyCheckpointMAC key cp then (Inl ErrCheckpointMAC, db)
     else if \<not> checkAnchorBoundary cp db then (Inl ErrChainInvalid, db)
     else if prune_point hwm cp < 1 then (Inl ErrPrunePastShipHWM, db)
     else (Inr \<lparr>PrunedThrough = prune_point hwm cp,
         Deleted = int (length (filter (\<lambda>r. Seq r \<le> prune_point hwm cp) (events db)))\<rparr>,
       db\<lparr>events := filter (\<lambda>r. \<not> Seq r \<le> prune_point hwm cp) (events db)\<rparr>))"
  using assms
  by (simp add: Prune_def latestVerifiedCheckpoint_def PruneThrough_def prune_point_def Let_def)

lemma prune_inv:
  assumes inv: "audit_inv key L k db" and pr: "Prune (Some (Inr key)) hwm db = (res, db')"
  shows "(\<exists>e. res = Inl e \<and> db' = db) \<or>
    (\<exists>cp pr p. Latest db = Some cp \<and> res = Inr pr \<and> PrunedThrough pr = int p \<and> 1 \<le> p \<and>
       int p \<le> ThroughSeq cp \<and> (hwm \<ge> 0 \<longrightarrow> int p \<le> hwm) \<and>
       events db' = drop (max k p) L \<and> checkpoints db' = checkpoints db)"
proof (cases "Latest db")
  case None
  then show ?thesis using pr by (auto simp: Prune_def latestVerifiedCheckpoint_def)
next
  case (Some cp)
  from inv_Latest [OF inv Some] obtain t where t: "ThroughSeq cp = int t" "verifyCheckpointMAC key cp" by blast
  define p where "p = prune_point hwm cp"
  have "filter (\<lambda>r. \<not> Seq r \<le> p) (drop k L) = drop (nat (p - int k)) (drop k L)"
    using chained_filter_upto [OF audit_invD(5) [OF inv], of p] by simp
  also have "\<dots> = drop (max k (nat p)) L"
    by (cases "k \<le> nat p") (auto simp: max_def nat_diff_distrib' intro: arg_cong [of _ _ "\<lambda>n. drop n L"])
  finally have ev: "filter (\<lambda>r. \<not> Seq r \<le> p) (events db) = drop (max k (nat p)) L"
    using audit_invD(2) [OF inv] by simp
  have le: "p \<le> ThroughSeq cp" "hwm \<ge> 0 \<longrightarrow> p \<le> hwm" by (auto simp: p_def prune_point_def)
  show ?thesis using Prune_Some [OF Some, of key hwm, folded p_def] t pr Some le ev
    by (auto split: if_splits intro!: exI [of _ "nat p"])
qed

lemma reach_inv: "audit_reach key n emptied db \<Longrightarrow> \<not> emptied \<Longrightarrow> \<exists>L k. audit_inv key L k db \<and> length L = n"
proof (induction rule: audit_reach.induct)
  case reach_empty
  then show ?case by (auto simp: audit_inv_def intro!: exI [of _ "[]"])
next
  case (reach_record n emptied db commit now e err db')
  then obtain L k where "audit_inv key L k db" "length L = n" by blast
  with record_inv [OF _ reach_record.hyps(2)] show ?case
    by (cases "commit = None") (fastforce+)
next
  case (reach_checkpoint n emptied db now res db')
  then obtain L k where inv: "audit_inv key L k db" "length L = n" by blast
  show ?case
  proof (cases "L = []")
    case True
    then have "Head db = Inr (0, [], 0)" using head_inv [OF inv(1)] by (simp add: Head_def)
    then have "db' = db" using reach_checkpoint.hyps(2) by (simp add: CreateCheckpoint_def)
    then show ?thesis using inv by blast
  next
    case False
    from checkpoint_inv [OF inv(1) this, of now] reach_checkpoint.hyps(2) inv show ?thesis
      by (metis prod.inject)
  qed
next
  case (reach_prune n emptied db hwm res db')
  then obtain L k where inv: "audit_inv key L k db" "length L = n" by blast
  from prune_inv [OF inv(1) reach_prune.hyps(2)] show ?case
  proof
    assume "\<exists>e. res = Inl e \<and> db' = db"
    then show ?thesis using inv by blast
  next
    assume "\<exists>cp pr p. Latest db = Some cp \<and> res = Inr pr \<and> PrunedThrough pr = int p \<and> 1 \<le> p \<and>
       int p \<le> ThroughSeq cp \<and> (hwm \<ge> 0 \<longrightarrow> int p \<le> hwm) \<and>
       events db' = drop (max k p) L \<and> checkpoints db' = checkpoints db"
    then obtain cp p where p: "Latest db = Some cp" "int p \<le> ThroughSeq cp" "events db' = drop (max k p) L"
      "checkpoints db' = checkpoints db" by blast
    from inv_Latest [OF inv(1) p(1)] obtain t where t: "ThroughSeq cp = int t" "k \<le> t" by blast
    show ?thesis
    proof (cases "events db = []")
      case True
      then have "db' = db" using p(3,4) audit_invD(2) [OF inv(1)] by (auto simp: max_def)
      then show ?thesis using inv by blast
    next
      case False
      then have "events db' \<noteq> []" using reach_prune.prems by simp
      then have "audit_inv key L (max k p) db'"
        using inv(1) p t Latest_SomeD(1) [OF p(1)]
        by (auto simp: audit_inv_def max_def split: if_splits intro!: bexI [of _ cp])
      then show ?thesis using inv(2) by blast
    qed
  qed
qed

subsection \<open>Properties\<close>

text \<open>
  C5. In every run of the log in which no prune deletes the last row of the table, whatever the order of recorded
  events, checkpoints and prunes and whatever their outcome, Verify reports a valid chain, and its count and
  head are the number of events recorded over the whole life of the log, pruned ones included.
\<close>

theorem log_always_verifies:
  assumes "audit_reach key n emptied db" "\<not> emptied"
  shows "\<exists>res. Verify (Some (Inr key)) db = Inr res \<and> Valid res \<and> Count res = int n \<and> HeadSeq res = int n"
  using reach_inv [OF assms] verify_inv by fastforce

text \<open>
  C28. Verify reports a valid chain exactly when the latest checkpoint, if there is one, carries the
  right MAC and the rows behind it form an unbroken chain from it (from genesis without a checkpoint);
  otherwise, when the MAC is right, it names the first row at which the chain breaks and counts the
  rows before it.
\<close>

theorem verify_exact:
  assumes "Verify (Some (Inr key)) db = Inr res"
  defines "start \<equiv> (case Latest db of None \<Rightarrow> walk_start | Some cp \<Rightarrow> walk_anchor cp)"
  defines "rows \<equiv> iterate_rows (expectSeq start) db"
  defines "mac_ok \<equiv> (case Latest db of None \<Rightarrow> True | Some cp \<Rightarrow> verifyCheckpointMAC key cp)"
  shows "(Valid res \<longleftrightarrow> mac_ok \<and> chained (prev start) (expectSeq start) rows) \<and>
    (mac_ok \<and> \<not> Valid res \<longrightarrow> (\<exists>pre row post. rows = pre @ row # post \<and>
       chained (prev start) (expectSeq start) pre \<and> \<not> chained (prev start) (expectSeq start) (pre @ [row]) \<and>
       BrokenAtSeq res = Seq row \<and> Count res = count start + int (length pre)))"
proof (cases mac_ok)
  case False
  then show ?thesis using assms(1)
    by (auto simp: mac_ok_def Verify_def latestVerifiedCheckpoint_def split: option.splits)
next
  case True
  define ck where "ck = map_option (\<lambda>cp. info_of cp True) (Latest db)"
  have res: "res = walk_result ck (walk_rows 0 rows start)"
    using assms(1) True by (auto simp: mac_ok_def rows_def start_def ck_def Verify_def
        latestVerifiedCheckpoint_def walkChain_def split: option.splits)
  have nb: "\<not> broken start" by (simp add: start_def walk_start_def walk_anchor_def split: option.split)
  show ?thesis
  proof (cases "chained (prev start) (expectSeq start) rows")
    case chain: True
    then show ?thesis using True nb res by (simp add: walk_result_def walk_rows_chained)
  next
    case False
    from first_break [OF False] obtain pre row post where br: "rows = pre @ row # post"
      "chained (prev start) (expectSeq start) pre" "\<not> chained (prev start) (expectSeq start) (pre @ [row])" by blast
    from walk_rows_break [OF br(2,3), of post] obtain why where
      "walk_rows 0 rows start = (walk_end pre start)\<lparr>broken := True, reason := why, brokenAt := Seq row\<rparr>"
      using br(1) by blast
    then have "\<not> Valid res" "BrokenAtSeq res = Seq row" "Count res = count start + int (length pre)"
      using res by (auto simp: walk_result_def walk_end_def)
    then show ?thesis using br False by blast
  qed
qed

section \<open>Tamper evidence\<close>

text \<open>
  What the chain hash protects: every column of a row but its project, which is an index for
  authorised reads. Lengths are below \<open>2^32\<close> and the two integers are 64-bit values.
\<close>

definition evidence :: "AuditRow \<Rightarrow> AuditRow" where
  "evidence r = r\<lparr>PrevHash := [], Hash := [], ar_ProjectID := None\<rparr>"

definition int64_ok :: "int \<Rightarrow> bool" where
  "int64_ok v \<longleftrightarrow> - (2 ^ 63) \<le> v \<and> v < 2 ^ 63"

definition str_ok :: "string \<Rightarrow> bool" where
  "str_ok s \<longleftrightarrow> length s < 2 ^ 32"

definition row_ok :: "AuditRow \<Rightarrow> bool" where
  "row_ok r \<longleftrightarrow> int64_ok (Seq r) \<and> int64_ok (OccurredAt r) \<and> str_ok (ActorKind r) \<and>
     pred_option str_ok (ActorID r) \<and> str_ok (ActorName r) \<and> str_ok (ActionName r) \<and>
     str_ok (ResourceName r) \<and> pred_option str_ok (Detail r) \<and> str_ok (ResultKind r) \<and>
     pred_option str_ok (ResultCode r) \<and> str_ok (IP r)"

lemma writeInt64_append_iff:
  assumes "int64_ok v" "int64_ok w"
  shows "writeInt64 v @ x = writeInt64 w @ y \<longleftrightarrow> v = w \<and> x = y"
proof -
  have "(word_of_int v :: 64 word) = word_of_int w \<longleftrightarrow> v = w"
  proof
    assume "(word_of_int v :: 64 word) = word_of_int w"
    then have "v mod 2 ^ 64 = w mod 2 ^ 64" by (simp add: word_of_int_eq_iff take_bit_eq_mod)
    then have "2 ^ 64 dvd v - w" by (simp add: mod_eq_dvd_iff)
    then have "v - w = 0 \<or> 2 ^ 64 \<le> \<bar>v - w\<bar>" using dvd_imp_le_int [of "v - w" "2 ^ 64"] by auto
    then show "v = w" using assms by (auto simp: int64_ok_def)
  qed simp
  then show ?thesis by (simp add: writeInt64_def)
qed

lemma writeStr_append_iff:
  assumes "str_ok s" "str_ok t"
  shows "writeStr s @ x = writeStr t @ y \<longleftrightarrow> s = t \<and> x = y"
proof
  assume eq: "writeStr s @ x = writeStr t @ y"
  then have "be32 (word_of_nat (length s)) = be32 (word_of_nat (length t))"
    by (simp add: writeStr_def)
  then have "length s = length t"
    using assms word_of_nat_inj32 by (simp add: str_ok_def)
  then show "s = t \<and> x = y" using eq by (simp add: writeStr_def)
qed simp

lemma writeNullable_append_iff:
  assumes "pred_option str_ok s" "pred_option str_ok t"
  shows "writeNullable s @ x = writeNullable t @ y \<longleftrightarrow> s = t \<and> x = y"
  using assms by (cases s; cases t) (auto simp: writeNullable_def writeStr_append_iff)

lemma hash_input_inj:
  assumes "length p = length p'" "row_ok r" "row_ok r'" "hash_input p r = hash_input p' r'"
  shows "p = p' \<and> evidence r = evidence r'"
proof -
  have "writeStr a = writeStr b \<longleftrightarrow> a = b" if "str_ok a" "str_ok b" for a b
    using writeStr_append_iff [OF that, of "[]" "[]"] by simp
  then show ?thesis using assms
    by (simp add: hash_input_def row_ok_def writeInt64_append_iff writeStr_append_iff
        writeNullable_append_iff evidence_def)
qed

lemma mac_input_inj:
  assumes "int64_ok s" "int64_ok s'" "int64_ok c" "int64_ok c'" "length h < 2 ^ 32" "length h' < 2 ^ 32"
    "mac_input s h c = mac_input s' h' c'"
  shows "s = s' \<and> h = h' \<and> c = c'"
proof -
  have "s = s'" and rest: "writeCkBytes h @ writeCkInt64 c = writeCkBytes h' @ writeCkInt64 c'"
    using assms writeInt64_append_iff [OF assms(1,2)] by (auto simp: mac_input_def writeCkInt64_def writeInt64_def)
  from rest have "length h = length h'" using assms(5,6) word_of_nat_inj32 by (simp add: writeCkBytes_def)
  then have "h = h'" "writeInt64 c @ [] = writeInt64 c' @ []"
    using rest by (auto simp: writeCkBytes_def writeCkInt64_def writeInt64_def)
  then show ?thesis using \<open>s = s'\<close> writeInt64_append_iff [OF assms(3,4)] by blast
qed

text \<open>A collision of the chain hash between the rows of two logs at one position.\<close>

definition collision_at :: "AuditRow list \<Rightarrow> AuditRow list \<Rightarrow> nat \<Rightarrow> bool" where
  "collision_at xs ys i \<longleftrightarrow> i < length xs \<and> i < length ys \<and>
     hash_input (PrevHash (xs ! i)) (xs ! i) \<noteq> hash_input (PrevHash (ys ! i)) (ys ! i) \<and>
     sha256 (hash_input (PrevHash (xs ! i)) (xs ! i)) = sha256 (hash_input (PrevHash (ys ! i)) (ys ! i))"

lemma chains_agree:
  assumes "length xs = length ys" "chained p s xs" "chained p s ys" "last_hash p xs = last_hash p ys"
    "\<forall>r\<in>set xs. row_ok r" "\<forall>r\<in>set ys. row_ok r"
  shows "map evidence xs = map evidence ys \<or> (\<exists>i. collision_at xs ys i)"
  using assms
proof (induction xs ys rule: rev_induct2)
  case (4 x xs y ys)
  have len: "length xs = length ys" using "4.prems"(1) by simp
  have rows: "PrevHash x = last_hash p xs" "Hash x = computeHash (last_hash p xs) x"
    "PrevHash y = last_hash p ys" "Hash y = computeHash (last_hash p ys) y"
    using "4.prems"(2,3) by (simp_all add: chained_append)
  have eq: "sha256 (hash_input (PrevHash x) x) = sha256 (hash_input (PrevHash y) y)"
    using "4.prems"(4) rows by (simp add: computeHash_def)
  show ?case
  proof (cases "hash_input (PrevHash x) x = hash_input (PrevHash y) y")
    case False
    then have "collision_at (xs @ [x]) (ys @ [y]) (length xs)"
      using eq len by (simp add: collision_at_def nth_append)
    then show ?thesis by blast
  next
    case True
    have chains: "chained p s xs" "chained p s ys" using "4.prems"(2,3) by (simp_all add: chained_append)
    have "length (PrevHash x) = length (PrevHash y)"
      using rows len chained_last [OF chains(1)] chained_last [OF chains(2)]
      by (cases "xs = []") (auto simp: last_hash_def)
    then have same: "PrevHash x = PrevHash y" "evidence x = evidence y"
      using hash_input_inj [OF _ _ _ True] "4.prems"(5,6) by auto
    have "map evidence xs = map evidence ys \<or> (\<exists>i. collision_at xs ys i)"
      using "4.IH" len chains rows same(1) "4.prems"(5,6) by simp
    then show ?thesis
    proof
      assume "\<exists>i. collision_at xs ys i"
      then have "\<exists>i. collision_at (xs @ [x]) (ys @ [y]) i"
        by (auto simp: collision_at_def nth_append)
      then show ?thesis by blast
    qed (use same(2) in simp)
  qed
qed auto

lemma hex_digit_inj: "m < 16 \<Longrightarrow> n < 16 \<Longrightarrow> hex_digit m = hex_digit n \<Longrightarrow> m = n"
  by (auto simp: hex_digit_def less_Suc_eq numeral_eq_Suc nth_Cons' split: if_splits)

lemma hexstr_eq_iff: "hexstr a = hexstr b \<longleftrightarrow> a = b"
proof (induction a arbitrary: b)
  case Nil
  then show ?case by (cases b) (auto simp: hexstr_def)
next
  case (Cons x xs)
  have "unat x = unat y" if "hex_digit (unat x div 16) = hex_digit (unat y div 16)"
    "hex_digit (unat x mod 16) = hex_digit (unat y mod 16)" for y :: byte
  proof -
    have "unat z < 2 ^ LENGTH(8)" for z :: byte by (rule unsigned_less)
    then have "unat z div 16 < 16" for z :: byte by (simp add: less_mult_imp_div_less)
    with that have "unat x div 16 = unat y div 16" "unat x mod 16 = unat y mod 16"
      by (auto intro: hex_digit_inj)
    then show ?thesis by (metis div_mult_mod_eq)
  qed
  then show ?case using Cons by (cases b) (auto simp: hexstr_def word_unat_eq_iff)
qed

lemma verify_valid_rows:
  assumes "Verify wired db = Inr res" "Valid res"
  defines "start \<equiv> (case (wired, Latest db) of (Some _, Some cp) \<Rightarrow> walk_anchor cp | _ \<Rightarrow> walk_start)"
  defines "rows \<equiv> iterate_rows (expectSeq start) db"
  shows "chained (prev start) (expectSeq start) rows" "HeadSeq res = headSeq start + int (length rows)"
    "HeadHash res = hexstr (if rows = [] then headHash start else Hash (last rows))"
proof -
  have res: "\<exists>ck. res = walk_result ck (walk_rows 0 rows start)"
    using assms(1,2) by (auto simp: rows_def start_def Verify_def
        latestVerifiedCheckpoint_def walkChain_def split: option.splits sum.splits if_splits)
  have nb: "\<not> broken start" and hd: "headSeq start = expectSeq start - 1"
    by (auto simp: start_def walk_start_def walk_anchor_def split: option.split)
  show ch: "chained (prev start) (expectSeq start) rows"
    using res assms(2) walk_rows_broken_iff [OF nb] by (auto simp: walk_result_def)
  then obtain ck where "res = walk_result ck (walk_end rows start)"
    using res by (auto simp: walk_rows_chained)
  then show "HeadSeq res = headSeq start + int (length rows)"
    "HeadHash res = hexstr (if rows = [] then headHash start else Hash (last rows))"
    using chained_last [OF ch] hd by (auto simp: walk_result_def walk_end_def hexstr_def)
qed

text \<open>
  C15. Behind a common anchor, tampering is evident. Let two states of the log have the same latest checkpoint, both
  verify, and report the same head number and head hash. Then the rows after that checkpoint (all rows, when there is
  none or checkpoints are not wired) carry the same evidence one by one, or two rows at one position exhibit a
  SHA-256 collision. Nothing is said of rows at or before the checkpoint that have not been pruned: Verify does not read them.
\<close>

theorem tampering_is_evident:
  assumes "Verify wired db = Inr res" "Valid res" "Verify wired db' = Inr res'" "Valid res'"
    and "Latest db = Latest db'" "HeadSeq res = HeadSeq res'" "HeadHash res = HeadHash res'"
    and "\<forall>r\<in>set (events db). row_ok r" "\<forall>r\<in>set (events db'). row_ok r"
  defines "from \<equiv> (case (wired, Latest db) of (Some _, Some cp) \<Rightarrow> ThroughSeq cp + 1 | _ \<Rightarrow> 1)"
  shows "map evidence (iterate_rows from db) = map evidence (iterate_rows from db') \<or>
    (\<exists>i. collision_at (iterate_rows from db) (iterate_rows from db') i)"
proof -
  define start where "start = (case (wired, Latest db) of (Some _, Some cp) \<Rightarrow> walk_anchor cp | _ \<Rightarrow> walk_start)"
  have "from": "from = expectSeq start"
    by (simp add: from_def start_def walk_start_def walk_anchor_def split: option.split)
  note v = verify_valid_rows [OF assms(1,2), folded start_def, folded "from"]
  note v' = verify_valid_rows [OF assms(3,4), folded assms(5), folded start_def, folded "from"]
  have len: "length (iterate_rows from db) = length (iterate_rows from db')"
    using v(2) v'(2) assms(6) by simp
  then have "last_hash (prev start) (iterate_rows from db) = last_hash (prev start) (iterate_rows from db')"
    using v(3) v'(3) assms(7) by (auto simp: last_hash_def hexstr_eq_iff split: if_splits)
  moreover have "set (iterate_rows from d) \<subseteq> set (events d)" for d
    by (auto simp: iterate_rows_def IterateFrom_def Iterate_def asc_def)
  ultimately show ?thesis using chains_agree [OF len v(1) v'(1)] assms(8,9) by blast
qed

section \<open>Checkpoints attest and prunes keep what verification sees\<close>

lemma asc_last_max:
  assumes "distinct (map Seq rows)" "asc rows = xs @ [m]"
  shows "m \<in> set rows" "\<forall>r\<in>set xs. Seq r < Seq m" "\<forall>r\<in>set rows. Seq r \<le> Seq m"
proof -
  have set: "set rows = set (xs @ [m])" using assms(2) by (metis asc_def set_sort)
  have "sorted (map Seq (xs @ [m]))" using assms(2) by (metis asc_def sorted_sort_key)
  moreover have "distinct (map Seq (xs @ [m]))"
    using assms by (metis asc_def distinct_map distinct_sort set_sort)
  ultimately show "\<forall>r\<in>set xs. Seq r < Seq m" by (auto simp: sorted_append less_le image_iff)
  then show "m \<in> set rows" "\<forall>r\<in>set rows. Seq r \<le> Seq m" using set by auto
qed

lemma head_max:
  assumes "distinct (map Seq (events db))"
  shows "\<forall>r\<in>set (events db). Seq r \<le> head_Seq (audit_head db)"
proof (cases "asc (events db)" rule: rev_cases)
  case Nil
  then have "events db = []" by (metis asc_def length_0_conv length_sort)
  then show ?thesis by simp
next
  case (snoc xs m)
  then show ?thesis using asc_last_max [OF assms snoc] by (simp add: audit_head_def)
qed

text \<open>The rows a walk reads, when they reach the head of the table.\<close>

lemma iterate_rows_head:
  assumes "distinct (map Seq (events db))" "head_Seq (audit_head db) = h" "0 < h"
  shows "\<forall>r\<in>set (butlast (iterate_rows s db)). Seq r < h"
proof -
  have top: "\<forall>r\<in>set (filter P (events db)). Seq r \<le> h" for P
    using head_max [OF assms(1)] assms(2) by simp
  have "\<forall>r\<in>set (butlast (asc (filter P (events db)))). Seq r < h" for P
  proof (cases "asc (filter P (events db))" rule: rev_cases)
    case (snoc xs m)
    then show ?thesis
      using asc_last_max [OF distinct_map_filter [OF assms(1)] snoc] top [of P] by fastforce
  qed simp
  from this [of "\<lambda>_. True"] this [of "\<lambda>r. s \<le> Seq r"] show ?thesis
    by (simp add: iterate_rows_def Iterate_def IterateFrom_def)
qed

lemma Head_InrD:
  assumes "Head db = Inr (h, hash, n)" "h \<noteq> 0"
  shows "head_Seq (audit_head db) = h"
  using assms by (auto simp: Head_def Let_def split: if_splits list.splits)

lemma Head_row: "Head db = Inr (h, hash, n) \<Longrightarrow> h \<noteq> 0 \<Longrightarrow> \<exists>r\<in>set (events db). Seq r = h"
  by (auto simp: Head_def Let_def filter_eq_Cons_iff split: if_splits list.splits)

lemma verifyBeforeAnchor_InrD:
  assumes "verifyBeforeAnchor (Inr key) h hash db = Inr n" "h > 0"
    and "distinct (map Seq (events db))" "head_Seq (audit_head db) = h"
    and fresh: "h \<notin> ThroughSeq ` set (checkpoints db)"
  shows "\<exists>res. Verify (Some (Inr key)) db = Inr res \<and> Valid res \<and> Count res = n \<and> HeadSeq res = h \<and>
    HeadHash res = hexstr hash \<and> (\<forall>c\<in>set (checkpoints db). ThroughSeq c < h)"
proof -
  define start where "start = (case Latest db of None \<Rightarrow> walk_start | Some cp \<Rightarrow> walk_anchor cp)"
  have bounded: "walkChain h db start = walkChain 0 db start"
    using iterate_rows_head [OF assms(3,4,2)] assms(2) by (simp add: walkChain_def walk_rows_bounded)
  have latest: "Latest db = Some cp \<Longrightarrow> ThroughSeq cp \<noteq> h" for cp
    using fresh Latest_SomeD(1) by blast
  then have reach: "walk_reaches h hash (walkChain 0 db start) = Inr n"
    using assms(1) bounded
    by (auto simp: start_def verifyBeforeAnchor_def latestVerifiedCheckpoint_def split: option.splits if_splits)
  have ver: "Verify (Some (Inr key)) db =
    Inr (walk_result (map_option (\<lambda>cp. info_of cp True) (Latest db)) (walkChain 0 db start))"
    using assms(1) by (auto simp: start_def verifyBeforeAnchor_def latestVerifiedCheckpoint_def Verify_def
        split: option.splits if_splits)
  have "ThroughSeq c < h" if c: "c \<in> set (checkpoints db)" for c
  proof -
    obtain cp where cp: "Latest db = Some cp" using c Latest_None_iff [of db] by (cases "Latest db") auto
    then have "ThroughSeq cp < h"
      using assms(1) latest [OF cp]
      by (auto simp: verifyBeforeAnchor_def latestVerifiedCheckpoint_def split: if_splits)
    then show ?thesis using Latest_SomeD(2) [OF cp c] by simp
  qed
  then show ?thesis using reach ver
    by (auto simp: walk_reaches_def walk_result_def hexstr_def split: if_splits)
qed

lemma Latest_append:
  assumes "\<forall>c\<in>set (checkpoints db). ThroughSeq c < ThroughSeq cp"
  shows "Latest (db\<lparr>checkpoints := checkpoints db @ [cp]\<rparr>) = Some cp"
proof -
  let ?db = "db\<lparr>checkpoints := checkpoints db @ [cp]\<rparr>"
  obtain c where c: "Latest ?db = Some c" using Latest_None_iff [of ?db] by (cases "Latest ?db") auto
  have "ThroughSeq cp \<le> ThroughSeq c" using Latest_SomeD(2) [OF c, of cp] by simp
  then have "c = cp" using Latest_SomeD(1) [OF c] assms by force
  then show ?thesis using c by simp
qed

text \<open>
  A checkpoint is created only over a log that verifies: its number, hash and event count are
  those Verify reports at that moment, and the log still verifies with the same count and head when
  anchored on the new checkpoint. A refused checkpoint changes nothing.
\<close>

theorem checkpoint_attests:
  assumes "distinct (map Seq (events db))" "\<forall>r\<in>set (events db). 0 < Seq r"
  shows "case CreateCheckpoint (Some (Inr key)) now db of
      (Inl e, db') \<Rightarrow> db' = db
    | (Inr info, db') \<Rightarrow> \<exists>res res'. Verify (Some (Inr key)) db = Inr res \<and> Valid res \<and>
        Count res = ci_EventCount info \<and> HeadSeq res = ci_ThroughSeq info \<and> HeadHash res = ci_ThroughHash info \<and>
        Verify (Some (Inr key)) db' = Inr res' \<and> Valid res' \<and> FromCheckpoint res' \<and>
        Count res' = Count res \<and> HeadSeq res' = HeadSeq res \<and> HeadHash res' = HeadHash res"
proof (cases "CreateCheckpoint (Some (Inr key)) now db")
  case (Pair r db')
  show ?thesis
  proof (cases r)
    case (Inl e)
    then show ?thesis using Pair by (auto simp: CreateCheckpoint_def Let_def split: sum.splits prod.splits if_splits)
  next
    case (Inr info)
    obtain h hash n c where head: "Head db = Inr (h, hash, n)" "h \<noteq> 0"
      and anchor: "verifyBeforeAnchor (Inr key) h hash db = Inr c"
      and fresh: "h \<notin> ThroughSeq ` set (checkpoints db)"
      and info: "info = info_of \<lparr>ThroughSeq = h, ThroughHash = hash, EventCount = c,
        MAC = computeCheckpointMAC key h hash c, cp_CreatedAt = now\<rparr> True"
      and db': "db' = db\<lparr>checkpoints := checkpoints db @ [\<lparr>ThroughSeq = h, ThroughHash = hash, EventCount = c,
        MAC = computeCheckpointMAC key h hash c, cp_CreatedAt = timestamptz now\<rparr>]\<rparr>"
      using Pair Inr by (auto simp: CreateCheckpoint_def Insert_def Let_def split: sum.splits prod.splits if_splits)
    have hs: "head_Seq (audit_head db) = h" using Head_InrD [OF head] .
    have max: "\<forall>r\<in>set (events db). Seq r \<le> h" using head_max [OF assms(1)] hs by simp
    have pos: "h > 0" using Head_row [OF head] assms(2) by auto
    from verifyBeforeAnchor_InrD [OF anchor pos assms(1) hs fresh] obtain res where
      res: "Verify (Some (Inr key)) db = Inr res" "Valid res" "Count res = c" "HeadSeq res = h"
        "HeadHash res = hexstr hash" "\<forall>c\<in>set (checkpoints db). ThroughSeq c < h" by blast
    have "filter (\<lambda>r. h + 1 \<le> Seq r) (events db) = []" using max by (auto simp: filter_empty_conv)
    then have "IterateFrom (h + 1) db' = []" using db' by (simp add: IterateFrom_def asc_def)
    then have "\<exists>res'. Verify (Some (Inr key)) db' = Inr res' \<and> Valid res' \<and> FromCheckpoint res' \<and>
        Count res' = c \<and> HeadSeq res' = h \<and> HeadHash res' = hexstr hash"
      using res(6) pos db'
      by (auto simp: Verify_def latestVerifiedCheckpoint_def Latest_append verifyCheckpointMAC_def walkChain_def
          iterate_rows_def walk_anchor_def walk_result_def hexstr_def)
    then show ?thesis using Pair Inr res info by (auto simp: info_of_def)
  qed
qed

lemma Prune_cases:
  assumes "Prune (Some (Inr key)) hwm db = (res, db')"
  obtains (err) e where "res = Inl e" "db' = db"
  | (ok) cp p where "Latest db = Some cp" "verifyCheckpointMAC key cp" "checkAnchorBoundary cp db"
      "1 \<le> p" "p \<le> ThroughSeq cp" "hwm \<ge> 0 \<longrightarrow> p \<le> hwm"
      "res = Inr \<lparr>PrunedThrough = p, Deleted = int (length (filter (\<lambda>r. Seq r \<le> p) (events db)))\<rparr>"
      "db' = db\<lparr>events := filter (\<lambda>r. \<not> Seq r \<le> p) (events db)\<rparr>"
proof (cases "Latest db")
  case None
  then show thesis using err assms by (auto simp: Prune_def latestVerifiedCheckpoint_def)
next
  case (Some cp)
  have "prune_point hwm cp \<le> ThroughSeq cp" "hwm \<ge> 0 \<longrightarrow> prune_point hwm cp \<le> hwm"
    by (auto simp: prune_point_def)
  then show thesis using Prune_Some [OF Some, of key hwm] assms err
    by (cases "verifyCheckpointMAC key cp \<and> checkAnchorBoundary cp db \<and> \<not> prune_point hwm cp < 1")
      (auto split: if_splits intro: ok [OF Some, of "prune_point hwm cp"])
qed

lemma Verify_filter:
  assumes "Latest db = Some cp" "1 \<le> p" "p \<le> ThroughSeq cp"
  shows "Verify (Some k) (db\<lparr>events := filter (\<lambda>r. \<not> Seq r \<le> p) (events db)\<rparr>) = Verify (Some k) db"
proof -
  let ?db = "db\<lparr>events := filter (\<lambda>r. \<not> Seq r \<le> p) (events db)\<rparr>"
  have "filter (\<lambda>r. ThroughSeq cp + 1 \<le> Seq r) (filter (\<lambda>r. \<not> Seq r \<le> p) (events db)) =
    filter (\<lambda>r. ThroughSeq cp + 1 \<le> Seq r) (events db)"
    using assms by (auto simp: intro: filter_cong)
  then have "walkChain 0 ?db (walk_anchor cp) = walkChain 0 db (walk_anchor cp)"
    using assms by (simp add: walkChain_def iterate_rows_def walk_anchor_def IterateFrom_def)
  moreover have "Latest ?db = Latest db" by (simp add: Latest_def)
  ultimately show ?thesis using assms(1)
    by (auto simp: Verify_def latestVerifiedCheckpoint_def split: sum.splits)
qed

text \<open>
  C29. Pruning deletes exactly the rows up to a point that the latest checkpoint covers, whose MAC is
  valid, and that the ship mark allows; whatever it does, Verify reports the same before and after, and
  a refused prune changes nothing.
\<close>

theorem prune_keeps_verification:
  assumes "Prune (Some (Inr key)) hwm db = (res, db')"
  shows "Verify (Some (Inr key)) db' = Verify (Some (Inr key)) db \<and> checkpoints db' = checkpoints db \<and>
    (case res of Inl e \<Rightarrow> db' = db
     | Inr pr \<Rightarrow> \<exists>cp. Latest db = Some cp \<and> verifyCheckpointMAC key cp \<and>
         1 \<le> PrunedThrough pr \<and> PrunedThrough pr \<le> ThroughSeq cp \<and> (hwm \<ge> 0 \<longrightarrow> PrunedThrough pr \<le> hwm) \<and>
         events db' = filter (\<lambda>r. Seq r > PrunedThrough pr) (events db) \<and>
         Deleted pr = int (length (events db) - length (events db')))"
  using assms
proof (cases rule: Prune_cases)
  case (err e)
  then show ?thesis by simp
next
  case (ok cp p)
  have "length (filter (\<lambda>r. Seq r \<le> p) (events db)) = length (events db) - length (filter (\<lambda>r. \<not> Seq r \<le> p) (events db))"
    using sum_length_filter_compl [of "\<lambda>r. Seq r \<le> p" "events db"] by linarith
  then show ?thesis using ok Verify_filter [OF ok(1,4,5)] by (simp add: not_le)
qed

text \<open>
  C31. When a prune has emptied the table, the next event restarts the chain at number 1: Verify, still
  anchored on the checkpoint, does not look at it and reports what it reported before, and the next
  prune deletes it although no checkpoint covers it.
\<close>

theorem pruned_to_empty_restarts:
  assumes "Prune (Some (Inr key)) hwm db = (Inr pr, db1)" "events db1 = []"
    and "Record None now e db1 = (err, db2)"
  shows "err = None \<and> (\<exists>row. events db2 = [row] \<and> Seq row = 1 \<and> PrevHash row = genesisPrevHash) \<and>
    Verify (Some (Inr key)) db2 = Verify (Some (Inr key)) db \<and>
    (\<exists>pr2 db3. Prune (Some (Inr key)) (-1) db2 = (Inr pr2, db3) \<and> events db3 = [])"
  using assms(1)
proof (cases rule: Prune_cases)
  case (ok cp p)
  let ?row = "compute_row now e \<lparr>head_Seq = 0, head_Hash = None\<rparr>"
  have "audit_head db1 = \<lparr>head_Seq = 0, head_Hash = None\<rparr>" using assms(2) by (simp add: audit_head_def asc_def)
  then have rec: "err = None" "db2 = db1\<lparr>events := [?row]\<rparr>"
    using assms(2,3) by (auto simp: Record_def Append_def withTx_def insert_event_def)
  have row: "Seq ?row = 1" "PrevHash ?row = genesisPrevHash" by (simp_all add: compute_row_simps)
  have latest: "Latest db1 = Some cp" "Latest db2 = Some cp" using ok rec(2) by (simp_all add: Latest_def)
  have "db2\<lparr>events := filter (\<lambda>r. \<not> Seq r \<le> p) (events db2)\<rparr> = db1"
    using rec(2) row(1) ok(4) assms(2) by simp
  then have "Verify (Some (Inr key)) db2 = Verify (Some (Inr key)) db1"
    using Verify_filter [OF latest(2) ok(4,5)] by metis
  moreover have "Verify (Some (Inr key)) db1 = Verify (Some (Inr key)) db"
    using Verify_filter [OF ok(1,4,5)] ok(8) by simp
  moreover have "\<exists>pr2 db3. Prune (Some (Inr key)) (-1) db2 = (Inr pr2, db3) \<and> events db3 = []"
    using latest(2) ok(2,4,5) rec(2) row(1)
    by (simp add: Prune_def latestVerifiedCheckpoint_def checkAnchorBoundary_def IterateFrom_def asc_def
        PruneThrough_def Let_def)
  ultimately show ?thesis using rec row by simp
qed simp

section \<open>The prune guards of the API\<close>

lemma combine_loop_ceil_bound:
  "combine_loop_ceil cs out \<ge> 0 \<longrightarrow>
     (0 \<le> out \<longrightarrow> combine_loop_ceil cs out \<le> out) \<and> (\<forall>c\<in>set cs. 0 \<le> c \<longrightarrow> combine_loop_ceil cs out \<le> c)"
  "combine_loop_ceil cs out < 0 \<longleftrightarrow> out < 0 \<and> (\<forall>c\<in>set cs. c < 0)"
  by (induction cs arbitrary: out) force+

lemma combinePruneCeilings_bound:
  assumes "c \<in> set cs" "0 \<le> c"
  shows "0 \<le> combinePruneCeilings cs" "combinePruneCeilings cs \<le> c"
  using combine_loop_ceil_bound [of cs "-1"] assms
  by (auto simp: combinePruneCeilings_def pruneCeilingUnbounded_def not_less)

lemma SeqOlderThanDays_row:
  assumes "distinct (map Seq (events db))" "\<forall>r\<in>set (events db). \<forall>r'\<in>set (events db). Seq r \<le> Seq r' \<longrightarrow> OccurredAt r \<le> OccurredAt r'"
    and "r \<in> set (events db)" "Seq r \<le> SeqOlderThanDays now days db" "0 < Seq r"
  shows "OccurredAt r < timestamptz now - days * 86400000000000"
proof -
  let ?P = "\<lambda>r. OccurredAt r < timestamptz now - days * 86400000000000"
  let ?old = "filter ?P (events db)"
  have "asc ?old \<noteq> []"
    using assms(4,5) by (auto simp: SeqOlderThanDays_def audit_head_def)
  then obtain xs m where m: "asc ?old = xs @ [m]" by (metis rev_exhaust)
  then have "m \<in> set ?old" using asc_last_max(1) [OF distinct_map_filter [OF assms(1)] m] by simp
  moreover have "Seq r \<le> Seq m" using assms(4) m by (simp add: SeqOlderThanDays_def audit_head_def)
  ultimately show ?thesis using assms(2,3) by fastforce
qed

lemma sorted_newest:
  assumes "sorted (map Seq xs)" "distinct (map Seq xs)" "xs = ys @ zs" "zs \<noteq> []"
  shows "filter (\<lambda>r. Seq (hd zs) \<le> Seq r) xs = zs"
proof -
  have "\<forall>r\<in>set ys. Seq r < Seq (hd zs)" "\<forall>r\<in>set zs. Seq (hd zs) \<le> Seq r"
    using assms by (cases zs; fastforce simp: sorted_append less_le image_iff)+
  then show ?thesis using assms(3) by (auto simp: filter_empty_conv)
qed

text \<open>The rows above the ceiling are the newest ones, all of them when there are not more.\<close>

lemma SeqRetainingNewest_rows:
  assumes "distinct (map Seq (events db))" "0 < n" "\<forall>r\<in>set (events db). 0 < Seq r"
  shows "length (filter (\<lambda>r. SeqRetainingNewest n db < Seq r) (events db)) \<ge> min (nat n) (length (events db))"
proof -
  let ?xs = "asc (events db)"
  let ?zs = "drop (length ?xs - nat n) ?xs"
  have zs: "rev (take (nat n) (rev ?xs)) = ?zs" by (simp add: rev_take)
  have len: "length ?xs = length (events db)" by (simp add: asc_def)
  have srt: "sorted (map Seq ?xs)" "distinct (map Seq ?xs)"
    using assms(1) by (simp_all add: asc_def distinct_map)
  have cnt: "length (filter P (events db)) = length (filter P ?xs)" for P
    by (simp add: asc_def filter_sort)
  show ?thesis
  proof (cases "?zs = []")
    case True
    then show ?thesis using assms(2) len by auto
  next
    case False
    then obtain z zs' where z: "?zs = z # zs'" by (cases ?zs) auto
    have "filter (\<lambda>r. Seq z \<le> Seq r) ?xs = ?zs"
      using sorted_newest [OF srt append_take_drop_id [symmetric] False] z by simp
    then have "length (filter (\<lambda>r. Seq z \<le> Seq r) (events db)) = min (nat n) (length (events db))"
      using len by (simp add: cnt min_def)
    moreover have "filter (\<lambda>r. SeqRetainingNewest n db < Seq r) (events db) = filter (\<lambda>r. Seq z \<le> Seq r) (events db)"
    proof (rule filter_cong)
      fix r assume r: "r \<in> set (events db)"
      have "z \<in> set ?xs" using z in_set_dropD [of z "length ?xs - nat n" ?xs] by simp
      then have "0 < Seq z" using assms(3) by (simp add: asc_def)
      then show "(SeqRetainingNewest n db < Seq r) = (Seq z \<le> Seq r)"
        using assms(3) r z zs by (auto simp: SeqRetainingNewest_def)
    qed simp
    ultimately show ?thesis by simp
  qed
qed

lemma SeqOlderThanDays_nonneg:
  assumes "\<forall>r\<in>set (events db). 0 < Seq r"
  shows "0 \<le> SeqOlderThanDays now days db"
proof -
  define rows where "rows = filter (\<lambda>r. OccurredAt r < timestamptz now - days * 86400000000000) (events db)"
  have eq: "SeqOlderThanDays now days db = head_Seq (audit_head (db\<lparr>events := rows\<rparr>))"
    by (simp add: SeqOlderThanDays_def rows_def)
  show ?thesis
  proof (cases "rev (asc rows)")
    case Nil
    then show ?thesis using eq by (simp add: audit_head_def)
  next
    case (Cons r rs)
    then have "r \<in> set (rev (asc rows))" by simp
    then have "r \<in> set (events db)" by (simp add: asc_def rows_def)
    then have "0 < Seq r" using assms by blast
    then show ?thesis using eq Cons by (simp add: audit_head_def)
  qed
qed

lemma SeqRetainingNewest_nonneg: "0 \<le> SeqRetainingNewest n db"
  by (simp add: SeqRetainingNewest_def split: list.split)

lemma length_filter_mono: "\<forall>x\<in>set xs. P x \<longrightarrow> Q x \<Longrightarrow> length (filter P xs) \<le> length (filter Q xs)"
  by (induction xs) auto

lemma Record_keeps: "r \<in> set (events db) \<Longrightarrow> r \<in> set (events (snd (Record commit now e db)))"
  by (auto simp: Record_def Append_def withTx_def insert_event_def split: option.splits sum.splits if_splits)

text \<open>What the two ceilings of a prune that went through bound.\<close>

lemma guards_bound:
  assumes "shipPruneCeiling (Some q) = Inr ship" "retentionPruneCeiling (Some q) now days evs db = Inr ret"
    and "\<And>c. 0 \<le> c \<Longrightarrow> c \<in> {ship, ret} \<Longrightarrow> p \<le> c" "\<forall>r\<in>set (events db). 0 < Seq r"
  shows "getHighWater q = Inr hwm \<Longrightarrow> 0 < hwm \<Longrightarrow> p \<le> hwm" "0 < days \<Longrightarrow> p \<le> SeqOlderThanDays now days db"
    "0 < evs \<Longrightarrow> p \<le> SeqRetainingNewest evs db"
proof -
  show "p \<le> hwm" if "getHighWater q = Inr hwm" "0 < hwm"
    using assms(1) assms(3) [of ship] that by (simp add: shipPruneCeiling_def)
  have ceil: "p \<le> c" if "0 \<le> c" "c \<in> {if days > 0 then SeqOlderThanDays now days db else pruneCeilingUnbounded,
       if evs > 0 then SeqRetainingNewest evs db else pruneCeilingUnbounded}" "0 < days \<or> 0 < evs" for c
  proof -
    have "0 \<le> ret" "ret \<le> c"
      using that combinePruneCeilings_bound [of c] assms(2) by (auto simp: retentionPruneCeiling_def bind_err_Inr split: if_splits option.splits)
    then show ?thesis using assms(3) [of ret] by simp
  qed
  show "p \<le> SeqOlderThanDays now days db" if "0 < days"
    using that ceil [of "SeqOlderThanDays now days db"] SeqOlderThanDays_nonneg [OF assms(4)] by simp
  show "p \<le> SeqRetainingNewest evs db" if "0 < evs"
    using that ceil [of "SeqRetainingNewest evs db"] SeqRetainingNewest_nonneg [of evs db] by simp
qed

lemma guards_fail_closed:
  assumes "(\<exists>e. getHighWater q = Inl e \<and> e \<noteq> ErrNotFound) \<or> (0 < days \<and> days_fails q \<noteq> None) \<or> (0 < evs \<and> events_fails q \<noteq> None)"
  shows "\<exists>e. handleAuditPrune wired (Some q) days evs commit now event db = (PruneInternal e, db)"
  using assms by (auto simp: handleAuditPrune_def shipPruneCeiling_def retentionPruneCeiling_def bind_err_def split: sum.split option.split)

text \<open>
  C30. The prune endpoint fails closed and respects its guards. Let the server have a store and a MAC key, and let the
  times of the rows not decrease with their numbers. When the ship mark cannot be read, or a configured
  retention query fails, the endpoint answers an internal error and deletes nothing; nor does any other answer than success
  change the log. On success, a deleted row is covered by the latest checkpoint, whose MAC is right, lies at or below the ship mark if
  one is set, and is older than the minimum number of days if one is configured; and at least the configured minimum number of
  events survives, all of them when there are fewer.
\<close>

theorem prune_endpoint_respects_guards:
  assumes "handleAuditPrune (Some (Inr key)) (Some q) days evs commit now event db = (out, db')"
    and "distinct (map Seq (events db))" "\<forall>r\<in>set (events db). 0 < Seq r"
    and "\<forall>r\<in>set (events db). \<forall>r'\<in>set (events db). Seq r \<le> Seq r' \<longrightarrow> OccurredAt r \<le> OccurredAt r'"
  shows "((\<exists>e. getHighWater q = Inl e \<and> e \<noteq> ErrNotFound) \<or> (0 < days \<and> days_fails q \<noteq> None) \<or> (0 < evs \<and> events_fails q \<noteq> None) \<longrightarrow>
      (\<exists>e. out = PruneInternal e)) \<and>
    (if \<exists>res. out = PruneDone res
     then (\<forall>r\<in>set (events db). r \<notin> set (events db') \<longrightarrow>
        (\<exists>cp. Latest db = Some cp \<and> verifyCheckpointMAC key cp \<and> Seq r \<le> ThroughSeq cp) \<and>
        (\<forall>hwm. getHighWater q = Inr hwm \<and> 0 < hwm \<longrightarrow> Seq r \<le> hwm) \<and>
        (0 < days \<longrightarrow> OccurredAt r < timestamptz now - days * 86400000000000)) \<and>
      (0 < evs \<longrightarrow> length (filter (\<lambda>r. r \<in> set (events db')) (events db)) \<ge> min (nat evs) (length (events db)))
     else db' = db)"
proof (cases "\<exists>res. out = PruneDone res")
  case False
  then have "db' = db"
    using assms(1) by (auto simp: handleAuditPrune_def split: sum.splits if_splits prod.splits elim: Prune_cases)
  then show ?thesis using False guards_fail_closed [of q days evs "Some (Inr key)" commit now event db] assms(1) by auto
next
  case True
  then obtain res where res: "out = PruneDone res" by blast
  then obtain ship ret db1 where ship: "shipPruneCeiling (Some q) = Inr ship" and ret: "retentionPruneCeiling (Some q) now days evs db = Inr ret"
    and prune: "Prune (Some (Inr key)) (combinePruneCeilings [ship, ret]) db = (Inr res, db1)"
    and db': "db' = snd (Record commit now (event res) db1)"
    using assms(1) by (auto simp: handleAuditPrune_def split: sum.splits if_splits prod.splits)
  from prune show ?thesis
  proof (cases rule: Prune_cases)
    case (ok cp p)
    have kept: "r \<in> set (events db')" if "r \<in> set (events db)" "p < Seq r" for r
      using Record_keeps [of r db1] ok(8) that by (simp add: db')
    have p: "p \<le> c" if "0 \<le> c" "c \<in> {ship, ret}" for c
      using combinePruneCeilings_bound [of c "[ship, ret]"] ok(6) that by fastforce
    note bound = guards_bound [OF ship ret p assms(3)]
    have gone: "Seq r \<le> p" if "r \<in> set (events db)" "r \<notin> set (events db')" for r
      using kept [OF that(1)] that(2) by force
    have "OccurredAt r < timestamptz now - days * 86400000000000"
      if r: "r \<in> set (events db)" "r \<notin> set (events db')" "0 < days" for r
      using SeqOlderThanDays_row [OF assms(2,4) r(1)] gone [OF r(1,2)] bound(2) r assms(3) by fastforce
    moreover have "length (filter (\<lambda>r. r \<in> set (events db')) (events db)) \<ge> min (nat evs) (length (events db))" if "0 < evs"
    proof -
      have "length (filter (\<lambda>r. SeqRetainingNewest evs db < Seq r) (events db)) \<le> length (filter (\<lambda>r. r \<in> set (events db')) (events db))"
        using bound(3) [OF _ _ that] kept by (intro length_filter_mono) force
      then show ?thesis using SeqRetainingNewest_rows [OF assms(2) that assms(3)] by linarith
    qed
    moreover have "Seq r \<le> hwm" if "r \<in> set (events db)" "r \<notin> set (events db')" "getHighWater q = Inr hwm" "0 < hwm" for r hwm
      using gone [OF that(1,2)] bound(1) [OF _ _ that(3,4)] by simp
    moreover have "Seq r \<le> ThroughSeq cp" if "r \<in> set (events db)" "r \<notin> set (events db')" for r
      using gone [OF that] ok(5) by simp
    moreover have "\<not> ((\<exists>e. getHighWater q = Inl e \<and> e \<noteq> ErrNotFound) \<or> (0 < days \<and> days_fails q \<noteq> None) \<or> (0 < evs \<and> events_fails q \<noteq> None))"
      using guards_fail_closed [of q days evs "Some (Inr key)" commit now event db] assms(1) res by force
    ultimately show ?thesis using True ok(1,2) by auto
  qed simp
qed

section \<open>Paging through the log\<close>

definition log_ok :: "audit_db \<Rightarrow> bool" where
  "log_ok db \<longleftrightarrow> distinct (map Seq (events db)) \<and> (\<forall>r\<in>set (events db). 0 < Seq r)"

definition before :: "int \<Rightarrow> AuditRow \<Rightarrow> bool" where
  "before c r \<longleftrightarrow> c = 0 \<or> Seq r < c"

definition newest_first :: "AuditFilter \<times> audit_db \<Rightarrow> AuditRow list" where
  "newest_first s = rev (List_audit (fst s) (snd s))"

lemma asc_filter: "asc (filter P rows) = filter P (asc rows)"
  by (simp add: asc_def filter_sort)

lemma asc_strict:
  assumes "distinct (map Seq rows)" "asc rows = xs @ r # ys"
  shows "\<forall>x\<in>set xs. Seq x < Seq r" "\<forall>y\<in>set ys. Seq r < Seq y"
proof -
  have "sorted (map Seq (xs @ r # ys))" using assms(2) by (metis asc_def sorted_sort_key)
  moreover have "distinct (map Seq (xs @ r # ys))"
    using assms by (metis asc_def distinct_map distinct_sort set_sort)
  ultimately show "\<forall>x\<in>set xs. Seq x < Seq r" "\<forall>y\<in>set ys. Seq r < Seq y"
    by (auto simp: sorted_append less_le image_iff)
qed

interpretation log_page: keyset_pages
  "\<lambda>s. log_ok (snd s)" newest_first before Seq "\<lambda>s n c. ListPage (fst s) c n (snd s)"
proof
  fix s :: "AuditFilter \<times> audit_db" and n c
  have "(\<lambda>r. auditWhere (fst s) r \<and> (c = 0 \<or> Seq r < c)) = (\<lambda>r. auditWhere (fst s) r \<and> before c r)"
    by (auto simp: before_def)
  then show "ListPage (fst s) c n (snd s) = take n (filter (before c) (newest_first s))"
    by (simp add: ListPage_def newest_first_def List_audit_def rev_filter asc_filter filter_filter)
next
  fix s :: "AuditFilter \<times> audit_db" and xs r ys assume ok: "log_ok (snd s)" and rows: "newest_first s = xs @ r # ys"
  let ?F = "filter (auditWhere (fst s)) (events (snd s))"
  have split: "asc ?F = rev ys @ r # rev xs"
    using arg_cong [OF rows, of rev] by (simp add: newest_first_def List_audit_def)
  have "r \<in> set (asc ?F)" using split by simp
  then have "0 < Seq r" using ok by (auto simp: log_ok_def asc_def)
  moreover have "distinct (map Seq ?F)" using ok by (simp add: log_ok_def distinct_map_filter)
  moreover from this have "\<forall>y\<in>set ys. Seq y < Seq r" "\<forall>x\<in>set xs. \<not> Seq x < Seq r"
    using asc_strict [OF _ split] by auto
  ultimately show "filter (before (Seq r)) (newest_first s) = ys"
    unfolding rows by (simp add: before_def filter_empty_conv)
qed

interpretation log_tail: keyset_pages
  log_ok Iterate "\<lambda>c r. c < Seq r" Seq "\<lambda>db n c. ListSince c n db"
proof
  fix db n c
  show "ListSince c n db = take n (filter (\<lambda>r. c < Seq r) (Iterate db))"
    by (simp add: ListSince_def Iterate_def asc_filter)
next
  fix db xs r ys assume ok: "log_ok db" and rows: "Iterate db = xs @ r # ys"
  then have "\<forall>y\<in>set ys. Seq r < Seq y" "\<forall>x\<in>set xs. \<not> Seq r < Seq x"
    using asc_strict [of "events db" xs r ys] by (auto simp: log_ok_def Iterate_def)
  then show "filter (\<lambda>r'. Seq r < Seq r') (Iterate db) = ys"
    unfolding rows by (simp add: filter_empty_conv)
qed

text \<open>
  A reader who follows the cursors of the events endpoint, with any page size, sees every event
  that matches the filter exactly once, newest first; one more page than there are events is enough.
\<close>

theorem pages_list_every_event:
  assumes "distinct (map Seq (events db))" "\<forall>r\<in>set (events db). 0 < Seq r" "0 < limit"
    "length (events db) < fuel"
  shows "follow (\<lambda>c. (ListPage f c limit db, next_cursor limit (ListPage f c limit db))) fuel 0 = rev (List_audit f db)"
proof -
  have "length (List_audit f db) \<le> length (events db)" by (simp add: List_audit_def asc_def)
  then show ?thesis
    using log_page.follow_all [of "(f, db)" limit 0 fuel] assms
    by (simp add: log_ok_def newest_first_def before_def next_cursor_def full_page_cursor_def)
qed

section \<open>Witnesses\<close>

definition example_event :: Event where
  "example_event = \<lparr>ev_ActorKind = ''user'', ev_ActorID = ''u1'', ev_ActorName = ''ann'', ev_Action = ''token.mint'',
     ev_Resource = ''t1'', ev_Detail = '''', ev_Result = ''success'', ev_ResultCode = '''', ev_IP = ''::1'',
     ev_ProjectID = None\<rparr>"

definition empty_log :: audit_db where
  "empty_log = \<lparr>events = [], checkpoints = []\<rparr>"

definition log1 :: audit_db where
  "log1 = snd (Record None 1234567 example_event empty_log)"

definition log1_signed :: audit_db where
  "log1_signed = snd (CreateCheckpoint (Some (Inr [1])) 2000 log1)"

lemma log1_eq: "log1 = \<lparr>events = [compute_row 1234567 example_event \<lparr>head_Seq = 0, head_Hash = None\<rparr>], checkpoints = []\<rparr>"
  by (simp add: log1_def empty_log_def Record_def Append_def withTx_def insert_event_def audit_head_def asc_def)

lemma log1_reach: "audit_reach [1] 1 False log1"
proof -
  have "Record None 1234567 example_event empty_log = (None, log1)"
    unfolding log1_eq
    by (simp add: empty_log_def Record_def Append_def withTx_def insert_event_def audit_head_def asc_def)
  from reach_record [OF reach_empty [of "[1]", folded empty_log_def] this] show ?thesis by simp
qed

lemma log1_rows: "distinct (map Seq (events log1))" "\<forall>r\<in>set (events log1). 0 < Seq r" "\<forall>r\<in>set (events log1). row_ok r"
  by (simp_all add: log1_eq compute_row_def Let_def example_event_def row_ok_def int64_ok_def str_ok_def nz_def)

lemma log1_verifies: "\<exists>res. Verify (Some (Inr [1])) log1 = Inr res \<and> Valid res"
  using reach_inv [OF log1_reach] verify_inv by blast

lemma log1_checkpoint:
  "\<exists>info cp. CreateCheckpoint (Some (Inr [1])) 2000 log1 = (Inr info, log1_signed) \<and>
     log1_signed = log1\<lparr>checkpoints := [cp]\<rparr> \<and> ThroughSeq cp = 1 \<and> verifyCheckpointMAC [1] cp \<and> ThroughHash cp = Hash (hd (events log1))"
proof -
  obtain L k where inv: "audit_inv [1] L k log1" "length L = 1" using reach_inv [OF log1_reach] by blast
  then have "L \<noteq> []" by auto
  from checkpoint_inv [OF inv(1) this, of 2000] obtain res db' info cp where
    c: "CreateCheckpoint (Some (Inr [1])) 2000 log1 = (res, db')" "res = Inr info"
      "db' = log1\<lparr>checkpoints := [cp]\<rparr>" "ThroughSeq cp = 1" "audit_inv [1] L k db'"
    using inv(2) by (auto simp: log1_eq)
  have "anchors [1] L cp" using audit_invD(4) [OF c(5), of cp] c(3) by simp
  then have mac: "verifyCheckpointMAC [1] cp" and h: "ThroughHash cp = Hash (L ! 0)" using c(4) by (auto simp: anchors_def)
  have "events log1 = [hd (events log1)]" by (simp add: log1_eq)
  then have "drop k L = [hd (events log1)]" using audit_invD(2) [OF inv(1)] by simp
  then have "k = 0" "L = [hd (events log1)]" using inv(2) by (cases k; cases L; auto)+
  then show ?thesis using c mac h by (auto simp: log1_signed_def)
qed

lemma log1_prune: "0 \<le> hwm \<longrightarrow> 1 \<le> hwm \<Longrightarrow> \<exists>pr db'. Prune (Some (Inr [1])) hwm log1_signed = (Inr pr, db') \<and> events db' = []"
proof -
  assume hwm: "0 \<le> hwm \<longrightarrow> 1 \<le> hwm"
  obtain cp where cp: "log1_signed = log1\<lparr>checkpoints := [cp]\<rparr>" "ThroughSeq cp = 1" "verifyCheckpointMAC [1] cp"
    using log1_checkpoint by blast
  then show ?thesis using hwm unfolding cp(1)
    by (auto simp: Prune_def latestVerifiedCheckpoint_def Latest_def checkAnchorBoundary_def IterateFrom_def
        asc_def PruneThrough_def log1_eq compute_row_simps Let_def)
qed

text \<open>Two events with a checkpoint between them, and the log after the first one has been pruned.\<close>

definition log2 :: audit_db where
  "log2 = snd (Record None 2000000 example_event log1_signed)"

lemma log2_eq:
  "\<exists>cp r1 r2. log2 = \<lparr>events = [r1, r2], checkpoints = [cp]\<rparr> \<and> Record None 2000000 example_event log1_signed = (None, log2) \<and>
    Seq r1 = 1 \<and> Seq r2 = 2 \<and> OccurredAt r1 = 1234000 \<and> OccurredAt r2 = 2000000 \<and> PrevHash r2 = ThroughHash cp \<and>
    ThroughSeq cp = 1 \<and> verifyCheckpointMAC [1] cp"
proof -
  let ?r1 = "compute_row 1234567 example_event \<lparr>head_Seq = 0, head_Hash = None\<rparr>"
  let ?r2 = "compute_row 2000000 example_event \<lparr>head_Seq = 1, head_Hash = Some (Hash ?r1)\<rparr>"
  obtain cp where cp: "log1_signed = log1\<lparr>checkpoints := [cp]\<rparr>" "ThroughSeq cp = 1" "verifyCheckpointMAC [1] cp" "ThroughHash cp = Hash (hd (events log1))"
    using log1_checkpoint by blast
  have rec: "Record None 2000000 example_event log1_signed = (None, \<lparr>events = [?r1, ?r2], checkpoints = [cp]\<rparr>)"
    unfolding cp(1) log1_eq by (simp add: Record_def Append_def withTx_def insert_event_def audit_head_def asc_def compute_row_simps(1))
  then have l: "log2 = \<lparr>events = [?r1, ?r2], checkpoints = [cp]\<rparr>" by (simp add: log2_def)
  have "PrevHash ?r2 = ThroughHash cp" unfolding cp(4) log1_eq by (simp add: compute_row_simps(3))
  then show ?thesis using l rec [folded l] cp(2,3) by (intro exI [of _ cp] exI [of _ ?r1] exI [of _ ?r2]) (simp add: compute_row_simps(1,2))
qed

lemma log2_prune:
  "\<exists>pr cp r1 r2. log2 = \<lparr>events = [r1, r2], checkpoints = [cp]\<rparr> \<and> Prune (Some (Inr [1])) 1 log2 = (Inr pr, log2\<lparr>events := [r2]\<rparr>) \<and>
    Seq r1 = 1 \<and> Seq r2 = 2 \<and> OccurredAt r1 = 1234000 \<and> OccurredAt r2 = 2000000"
proof -
  obtain cp r1 r2 where l: "log2 = \<lparr>events = [r1, r2], checkpoints = [cp]\<rparr>" and r: "Seq r1 = 1" "Seq r2 = 2" "OccurredAt r1 = 1234000" "OccurredAt r2 = 2000000"
    "PrevHash r2 = ThroughHash cp" "ThroughSeq cp = 1" "verifyCheckpointMAC [1] cp" using log2_eq by blast
  have "Prune (Some (Inr [1])) 1 log2 = (Inr \<lparr>PrunedThrough = 1, Deleted = 1\<rparr>, log2\<lparr>events := [r2]\<rparr>)"
    unfolding l using r by (simp add: Prune_def latestVerifiedCheckpoint_def Latest_def checkAnchorBoundary_def IterateFrom_def
        asc_def PruneThrough_def Let_def)
  then show ?thesis using l r(1-4) by blast
qed

theorem log_always_verifies_witness:
  "\<exists>pr db res. Record None 2000000 example_event log1_signed = (None, log2) \<and> Prune (Some (Inr [1])) 1 log2 = (Inr pr, db) \<and>
    length (events log2) = 2 \<and> length (events db) = 1 \<and> Verify (Some (Inr [1])) db = Inr res \<and> Valid res \<and> Count res = 2 \<and> HeadSeq res = 2"
proof -
  obtain info where "CreateCheckpoint (Some (Inr [1])) 2000 log1 = (Inr info, log1_signed)" using log1_checkpoint by blast
  note r1 = reach_checkpoint [OF log1_reach this]
  have rec: "Record None 2000000 example_event log1_signed = (None, log2)" using log2_eq by blast
  have r2: "audit_reach [1] 2 False log2" using reach_record [OF r1 rec] by (simp add: numeral_2_eq_2)
  obtain pr cp r1 r2 where l: "log2 = \<lparr>events = [r1, r2], checkpoints = [cp]\<rparr>" and pr: "Prune (Some (Inr [1])) 1 log2 = (Inr pr, log2\<lparr>events := [r2]\<rparr>)"
    using log2_prune by blast
  have "length (events log2) = 2" "length (events (log2\<lparr>events := [r2]\<rparr>)) = 1" by (simp_all add: l)
  moreover have "audit_reach [1] 2 False (log2\<lparr>events := [r2]\<rparr>)" using reach_prune [OF r2 pr] by simp
  note log_always_verifies [OF this]
  ultimately show ?thesis using rec pr by simp
qed

theorem verify_exact_witness:
  "\<exists>res. Verify (Some (Inr [1])) log1 = Inr res \<and> Valid res \<and> chained genesisPrevHash 1 (Iterate log1)"
proof -
  obtain res where res: "Verify (Some (Inr [1])) log1 = Inr res" "Valid res" using log1_verifies by blast
  have "Latest log1 = None" by (simp add: log1_eq Latest_def)
  then show ?thesis using verify_exact [OF res(1)] res
    by (simp add: walk_start_def iterate_rows_def)
qed

text \<open>The same event filed under a project: the project is not part of the evidence.\<close>

definition log1_moved :: audit_db where
  "log1_moved = snd (Record None 1234567 (example_event\<lparr>ev_ProjectID := Some ''p''\<rparr>) empty_log)"

lemma log1_moved_eq: "log1_moved = \<lparr>events = [compute_row 1234567 (example_event\<lparr>ev_ProjectID := Some ''p''\<rparr>)
    \<lparr>head_Seq = 0, head_Hash = None\<rparr>], checkpoints = []\<rparr>"
  by (simp add: log1_moved_def empty_log_def Record_def Append_def withTx_def insert_event_def audit_head_def asc_def)

lemma verify_single:
  assumes "db = \<lparr>events = [compute_row now e \<lparr>head_Seq = 0, head_Hash = None\<rparr>], checkpoints = []\<rparr>"
  shows "\<exists>res. Verify None db = Inr res \<and> Valid res \<and> HeadSeq res = 1 \<and>
    HeadHash res = hexstr (Hash (compute_row now e \<lparr>head_Seq = 0, head_Hash = None\<rparr>))"
proof -
  let ?r = "compute_row now e \<lparr>head_Seq = 0, head_Hash = None\<rparr>"
  have "chained genesisPrevHash 1 [?r]" by (simp add: compute_row_simps)
  then have "walkChain 0 db walk_start = walk_end [?r] walk_start"
    using assms by (simp add: walkChain_def iterate_rows_def Iterate_def walk_start_def walk_end_def)
  then show ?thesis
    by (simp add: Verify_def walk_result_def walk_end_def walk_start_def compute_row_simps hexstr_def)
qed

lemma same_hash: "Hash (compute_row now (e\<lparr>ev_ProjectID := p\<rparr>) h) = Hash (compute_row now e h)"
  by (simp add: compute_row_def Let_def computeHash_def hash_input_def)

theorem tampering_is_evident_witness:
  "log1 \<noteq> log1_moved \<and>
   (map evidence (iterate_rows 1 log1) = map evidence (iterate_rows 1 log1_moved) \<or>
    (\<exists>i. collision_at (iterate_rows 1 log1) (iterate_rows 1 log1_moved) i))"
proof -
  obtain res where res: "Verify None log1 = Inr res" "Valid res" "HeadSeq res = 1"
    "HeadHash res = hexstr (Hash (compute_row 1234567 example_event \<lparr>head_Seq = 0, head_Hash = None\<rparr>))"
    using verify_single [OF log1_eq] by blast
  obtain res' where res': "Verify None log1_moved = Inr res'" "Valid res'" "HeadSeq res' = 1"
    "HeadHash res' = hexstr (Hash (compute_row 1234567 example_event \<lparr>head_Seq = 0, head_Hash = None\<rparr>))"
    using verify_single [OF log1_moved_eq] by (auto simp: same_hash)
  have "Latest log1 = Latest log1_moved" by (simp add: log1_eq log1_moved_eq Latest_def)
  moreover have "\<forall>r\<in>set (events log1_moved). row_ok r"
    by (simp add: log1_moved_eq compute_row_def Let_def example_event_def row_ok_def int64_ok_def str_ok_def nz_def)
  moreover have "log1 \<noteq> log1_moved"
    by (simp add: log1_eq log1_moved_eq compute_row_def Let_def example_event_def)
  ultimately show ?thesis
    using tampering_is_evident [OF res(1,2) res'(1,2) _ _ _ log1_rows(3)] res res' by simp
qed

theorem checkpoint_attests_witness:
  "\<exists>info res. CreateCheckpoint (Some (Inr [1])) 2000 log1 = (Inr info, log1_signed) \<and>
     Verify (Some (Inr [1])) log1 = Inr res \<and> Valid res \<and> Count res = ci_EventCount info"
  using checkpoint_attests [OF log1_rows(1,2), of "[1]" 2000] log1_checkpoint by auto

theorem prune_keeps_verification_witness:
  "\<exists>pr db'. Prune (Some (Inr [1])) (-1) log1_signed = (Inr pr, db') \<and> events db' = [] \<and>
     Verify (Some (Inr [1])) db' = Verify (Some (Inr [1])) log1_signed"
proof -
  obtain pr db' where pr: "Prune (Some (Inr [1])) (-1) log1_signed = (Inr pr, db')" "events db' = []"
    using log1_prune [of "-1"] by auto
  then show ?thesis using prune_keeps_verification [OF pr(1)] by blast
qed

theorem pruned_to_empty_restarts_witness:
  "\<exists>pr db1 db2. Prune (Some (Inr [1])) (-1) log1_signed = (Inr pr, db1) \<and> events db1 = [] \<and>
     Record None 5000 example_event db1 = (None, db2) \<and>
     Verify (Some (Inr [1])) db2 = Verify (Some (Inr [1])) log1_signed"
proof -
  obtain pr db1 where pr: "Prune (Some (Inr [1])) (-1) log1_signed = (Inr pr, db1)" "events db1 = []"
    using log1_prune [of "-1"] by auto
  obtain err db2 where rec: "Record None 5000 example_event db1 = (err, db2)" by (metis surj_pair)
  show ?thesis using pruned_to_empty_restarts [OF pr rec] pr rec by blast
qed

text \<open>Ship mark 1, a floor of one day and of one event: the older event goes, the newer one stays.\<close>

definition example_prune_store :: prune_store where
  "example_prune_store = \<lparr>getHighWater = Inr 1, days_fails = None, events_fails = None\<rparr>"

theorem prune_endpoint_respects_guards_witness:
  "\<exists>res db'. handleAuditPrune (Some (Inr [1])) (Some example_prune_store) 1 1 None 172800000000000 (\<lambda>_. example_event) log2 = (PruneDone res, db') \<and>
     events log2 \<noteq> [] \<and> hd (events log2) \<notin> set (events db') \<and> OccurredAt (hd (events log2)) < 86400000000000 \<and>
     length (filter (\<lambda>r. r \<in> set (events db')) (events log2)) \<ge> 1"
proof -
  obtain pr cp r1 r2 where l: "log2 = \<lparr>events = [r1, r2], checkpoints = [cp]\<rparr>" "Seq r1 = 1" "Seq r2 = 2" "OccurredAt r1 = 1234000" "OccurredAt r2 = 2000000"
    and pr: "Prune (Some (Inr [1])) 1 log2 = (Inr pr, log2\<lparr>events := [r2]\<rparr>)" using log2_prune by blast
  have ceil: "retentionPruneCeiling (Some example_prune_store) 172800000000000 1 1 log2 = Inr 1"
    by (simp add: retentionPruneCeiling_def example_prune_store_def SeqOlderThanDays_def SeqRetainingNewest_def combinePruneCeilings_def
        pruneCeilingUnbounded_def audit_head_def asc_def timestamptz_def l)
  let ?db' = "snd (Record None 172800000000000 example_event (log2\<lparr>events := [r2]\<rparr>))"
  have h: "handleAuditPrune (Some (Inr [1])) (Some example_prune_store) 1 1 None 172800000000000 (\<lambda>_. example_event) log2 = (PruneDone pr, ?db')"
    using pr ceil by (simp add: handleAuditPrune_def shipPruneCeiling_def example_prune_store_def combinePruneCeilings_def pruneCeilingUnbounded_def)
  have "Seq r \<ge> 2" if "r \<in> set (events ?db')" for r
    using that l by (auto simp: Record_def Append_def withTx_def insert_event_def audit_head_def asc_def compute_row_simps(1) split: if_splits)
  then have gone: "r1 \<notin> set (events ?db')" using l(2) by force
  have r1: "r1 \<in> set (events log2)" by (simp add: l)
  have "(0::int) < 1" "distinct (map Seq (events log2))" "\<forall>r\<in>set (events log2). 0 < Seq r"
    "\<forall>r\<in>set (events log2). \<forall>r'\<in>set (events log2). Seq r \<le> Seq r' \<longrightarrow> OccurredAt r \<le> OccurredAt r'" by (simp_all add: l)
  from prune_endpoint_respects_guards [OF h this(2-4)] r1 gone
  have "OccurredAt r1 < 86400000000000" "length (filter (\<lambda>r. r \<in> set (events ?db')) (events log2)) \<ge> 1"
    by (auto simp: timestamptz_def l(1))
  then show ?thesis using h gone by (simp add: l(1))
qed

definition every_event :: AuditFilter where
  "every_event = \<lparr>From = None, To = None, af_Actor = '''', af_Action = '''', af_Result = '''', af_Projects = None\<rparr>"

theorem pages_list_every_event_witness:
  "follow (\<lambda>c. (ListPage every_event c 1 log1,
      next_cursor 1 (ListPage every_event c 1 log1)))
    2 0 = rev (List_audit every_event log1)"
  by (rule pages_list_every_event [OF log1_rows(1,2)]) (simp_all add: log1_eq)

end
