(* ===== verification/Secret_Store.thy ===== *)
theory Secret_Store
  imports Store_Base "HOL-Library.List_Lexorder" "HOL-Library.Char_ord" "HOL-Library.Product_Lexorder"
    "HOL-Library.AList"
begin

section \<open>Tables of the secret store\<close>

text \<open>
  \<^verbatim>\<open>internal/store\<close>: projects, environments, configs, immutable config versions, the append-only secret
  values and the manifest entries that tie them together. A table is the list of its rows and the
  database a record of tables; a statement is a function on it, with the constraints of the schema
  (\<^verbatim>\<open>src/migrations\<close>) as its error branches. Ids are the canonical texts of uuids, whose order is the
  order of the texts; an id the database draws (\<^verbatim>\<open>gen_random_uuid()\<close>) and the clock (\<^verbatim>\<open>now()\<close>) are
  arguments. The database answers reliably except that a transaction may fail to commit.
\<close>

subsection \<open>Rows\<close>

record EncryptedValue =
  WrappedDEK :: bytes
  ev_Ciphertext :: bytes
  ev_Nonce :: bytes
  DEKKeyVersion :: int

record Project =
  p_ID :: string
  p_Slug :: string
  p_Name :: string
  p_WrappedKEK :: bytes
  p_KEKVersion :: int
  p_Owner :: "string option"
  p_CreatedAt :: int
  p_UpdatedAt :: int
  p_DeletedAt :: "int option"

record Environment =
  e_ID :: string
  e_ProjectID :: string
  e_Slug :: string
  e_Name :: string
  e_RequireApproval :: bool
  e_CreatedAt :: int
  e_UpdatedAt :: int
  e_DeletedAt :: "int option"

record Config =
  c_ID :: string
  c_EnvironmentID :: string
  c_Name :: string
  c_InheritsFrom :: "string option"
  c_RequireApproval :: bool
  c_CreatedAt :: int
  c_UpdatedAt :: int
  c_DeletedAt :: "int option"

record ConfigVersion =
  cv_ID :: string
  cv_ConfigID :: string
  cv_Version :: int
  cv_Message :: string
  cv_CreatedBy :: string
  cv_CreatedAt :: int
  cv_PromotedFromEnvID :: "string option"
  cv_PromotedFromVersion :: "int option"

record SecretValue =
  sv_ID :: string
  sv_ConfigID :: string
  sv_Key :: string
  sv_ValueVersion :: int
  sv_Type :: string
  sv_Enc :: EncryptedValue
  sv_CreatedAt :: int

text \<open>
  A manifest entry; the schema's check \<^verbatim>\<open>tombstone = (secret_value_id IS NULL)\<close> makes the tombstone
  column redundant. The selections of a promotion request are pairs of a key and an action; of a pipeline step
  and a locked key the tables keep who they belong to.
\<close>

record entry_row =
  en_VersionID :: string
  en_Key :: string
  en_ValueID :: "string option"

record kek_row =
  kv_ProjectID :: string
  kv_Version :: int
  kv_Wrapped :: bytes

record ConfigEditRequest =
  er_ID :: string
  er_ConfigID :: string
  er_RequestedBy :: string
  er_Reason :: string
  er_Status :: string
  er_ProposedCiphertext :: bytes
  er_WrappedDEK :: bytes
  er_Nonce :: bytes
  er_DEKKeyVersion :: int
  er_ChangedKeys :: "string list"
  er_Message :: string
  er_ResolvedBy :: "string option"
  er_ResolvedAt :: "int option"
  er_AppliedVersion :: "int option"
  er_CreatedAt :: int

record PromotionRequestRow =
  pr_ID :: string
  pr_ProjectID :: string
  pr_SourceConfigID :: string
  pr_SourceVersion :: int
  pr_TargetConfigID :: "string option"
  pr_TargetEnvID :: string
  pr_TargetName :: string
  pr_CreateTarget :: bool
  pr_Selections :: "(string \<times> string) list"
  pr_Note :: string
  pr_Status :: string
  pr_RequestedBy :: string
  pr_DecidedBy :: "string option"
  pr_DecisionNote :: string
  pr_AppliedTargetVersion :: "int option"
  pr_CreatedAt :: int
  pr_DecidedAt :: "int option"

record step_row =
  st_ProjectID :: string
  st_Position :: nat
  st_EnvironmentID :: string

record locked_row =
  lk_ConfigID :: string
  lk_Key :: string

record VersionRetention =
  MinVersions :: "int option"
  MinDays :: "int option"

record secret_db =
  projects :: "Project list"
  environments :: "Environment list"
  configs :: "Config list"
  config_versions :: "ConfigVersion list"
  secret_values :: "SecretValue list"
  config_version_entries :: "entry_row list"
  project_kek_versions :: "kek_row list"
  config_edit_requests :: "ConfigEditRequest list"
  promotion_requests :: "PromotionRequestRow list"
  promotion_pipeline_steps :: "step_row list"
  config_locked_keys :: "locked_row list"
  config_version_retention :: "(string \<times> VersionRetention) list"

subsection \<open>Statements\<close>

text \<open>A query for one row, an update of the rows that satisfy a predicate, and the keyset pages of \<^verbatim>\<open>pagination.go\<close>.\<close>

definition one_row :: "('r \<Rightarrow> bool) \<Rightarrow> 'r list \<Rightarrow> store_err + 'r" where
  "one_row P t = (case filter P t of [] \<Rightarrow> Inl ErrNotFound | r # _ \<Rightarrow> Inr r)"

definition update_rows :: "('r \<Rightarrow> bool) \<Rightarrow> ('r \<Rightarrow> 'r) \<Rightarrow> 'r list \<Rightarrow> nat \<times> 'r list" where
  "update_rows P f t = (length (filter P t), map (\<lambda>r. if P r then f r else r) t)"

definition unique_violation :: pg_err where
  "unique_violation = PgError ''23505''"

definition fk_violation :: pg_err where
  "fk_violation = PgError ''23503''"

record Cursor =
  cu_CreatedAt :: int
  cu_ID :: string

definition keyset :: "Cursor option \<Rightarrow> ('r \<Rightarrow> int) \<Rightarrow> ('r \<Rightarrow> string) \<Rightarrow> 'r \<Rightarrow> bool" where
  "keyset after ts rid r = (case after of None \<Rightarrow> True | Some c \<Rightarrow> (ts r, rid r) < (cu_CreatedAt c, cu_ID c))"

definition limitSQL :: "int \<Rightarrow> 'r list \<Rightarrow> 'r list" where
  "limitSQL limit rows = (if limit \<le> 0 then rows else take (nat limit) rows)"

definition newest_first :: "('r \<Rightarrow> int) \<Rightarrow> ('r \<Rightarrow> string) \<Rightarrow> 'r list \<Rightarrow> 'r list" where
  "newest_first ts rid rows = rev (sort_key (\<lambda>r. (ts r, rid r)) rows)"

definition list_page :: "('r \<Rightarrow> int) \<Rightarrow> ('r \<Rightarrow> string) \<Rightarrow> int \<Rightarrow> Cursor option \<Rightarrow> 'r list \<Rightarrow> 'r list" where
  "list_page ts rid limit after rows = limitSQL limit (filter (keyset after ts rid) (newest_first ts rid rows))"

subsection \<open>Projects\<close>

definition live_project :: "Project \<Rightarrow> bool" where
  "live_project p \<longleftrightarrow> p_DeletedAt p = None"

text \<open>The partial unique index on the slugs of live projects.\<close>

definition slug_taken :: "secret_db \<Rightarrow> string \<Rightarrow> bool" where
  "slug_taken db slug \<longleftrightarrow> (\<exists>p\<in>set (projects db). live_project p \<and> p_Slug p = slug)"

definition proj_Create :: "string \<Rightarrow> string \<Rightarrow> string \<Rightarrow> bytes \<Rightarrow> int \<Rightarrow> int \<Rightarrow> secret_db \<Rightarrow> store_err + (Project \<times> secret_db)" where
  "proj_Create i slug name wrappedKEK kekVersion now db =
    (if i \<in> p_ID ` set (projects db) \<or> slug_taken db slug then Inl (mapError unique_violation)
     else let p = \<lparr>p_ID = i, p_Slug = slug, p_Name = name, p_WrappedKEK = wrappedKEK, p_KEKVersion = kekVersion,
                   p_Owner = None, p_CreatedAt = now, p_UpdatedAt = now, p_DeletedAt = None\<rparr>
          in Inr (p, db\<lparr>projects := projects db @ [p]\<rparr>))"

definition proj_Get :: "secret_db \<Rightarrow> string \<Rightarrow> store_err + Project" where
  "proj_Get db i = one_row (\<lambda>p. p_ID p = i \<and> live_project p) (projects db)"

definition proj_GetIncludingDeleted :: "secret_db \<Rightarrow> string \<Rightarrow> store_err + Project" where
  "proj_GetIncludingDeleted db i = one_row (\<lambda>p. p_ID p = i) (projects db)"

definition proj_ListDeleted :: "secret_db \<Rightarrow> Project list" where
  "proj_ListDeleted db = rev (sort_key (\<lambda>p. the (p_DeletedAt p)) (filter (\<lambda>p. p_DeletedAt p \<noteq> None) (projects db)))"

definition proj_GetBySlug :: "secret_db \<Rightarrow> string \<Rightarrow> store_err + Project" where
  "proj_GetBySlug db slug = one_row (\<lambda>p. p_Slug p = slug \<and> live_project p) (projects db)"

definition proj_ListPage :: "secret_db \<Rightarrow> int \<Rightarrow> Cursor option \<Rightarrow> Project list" where
  "proj_ListPage db limit after = list_page p_CreatedAt p_ID limit after (filter live_project (projects db))"

definition proj_List :: "secret_db \<Rightarrow> Project list" where
  "proj_List db = proj_ListPage db 0 None"

definition update_project :: "(Project \<Rightarrow> bool) \<Rightarrow> (Project \<Rightarrow> Project) \<Rightarrow> secret_db \<Rightarrow> pg_err + (nat \<times> secret_db)" where
  "update_project P f db = (let (n, t) = update_rows P f (projects db) in Inr (n, db\<lparr>projects := t\<rparr>))"

definition proj_UpdateName :: "string \<Rightarrow> string \<Rightarrow> int \<Rightarrow> secret_db \<Rightarrow> store_err + secret_db" where
  "proj_UpdateName i name now db = execAffectingOne
    (update_project (\<lambda>p. p_ID p = i \<and> live_project p) (\<lambda>p. p\<lparr>p_Name := name, p_UpdatedAt := now\<rparr>) db)"

definition proj_SoftDelete :: "string \<Rightarrow> int \<Rightarrow> secret_db \<Rightarrow> store_err + secret_db" where
  "proj_SoftDelete i now db = execAffectingOne
    (update_project (\<lambda>p. p_ID p = i \<and> live_project p) (\<lambda>p. p\<lparr>p_DeletedAt := Some now, p_UpdatedAt := now\<rparr>) db)"

definition proj_Undelete :: "string \<Rightarrow> int \<Rightarrow> secret_db \<Rightarrow> store_err + secret_db" where
  "proj_Undelete i now db = execAffectingOne
    (if \<exists>p\<in>set (projects db). p_ID p = i \<and> \<not> live_project p \<and> slug_taken db (p_Slug p) then Inl unique_violation
     else update_project (\<lambda>p. p_ID p = i \<and> \<not> live_project p) (\<lambda>p. p\<lparr>p_DeletedAt := None, p_UpdatedAt := now\<rparr>) db)"

definition proj_UpdateOwner :: "string \<Rightarrow> string option \<Rightarrow> int \<Rightarrow> secret_db \<Rightarrow> store_err + secret_db" where
  "proj_UpdateOwner i owner now db = execAffectingOne
    (update_project (\<lambda>p. p_ID p = i \<and> live_project p) (\<lambda>p. p\<lparr>p_Owner := owner, p_UpdatedAt := now\<rparr>) db)"

text \<open>
  \<^verbatim>\<open>RotateKEK\<close>: the callback \<open>wrapNew\<close> wraps a new key; its errors pass through the transaction.
\<close>

datatype 'e tx_err = FromStore store_err | FromCaller 'e

definition kek_insert :: "string \<Rightarrow> int \<Rightarrow> bytes \<Rightarrow> secret_db \<Rightarrow> store_err + secret_db" where
  "kek_insert i v wrapped db =
    (if \<exists>k\<in>set (project_kek_versions db). kv_ProjectID k = i \<and> kv_Version k = v then Inl (mapError unique_violation)
     else if i \<notin> p_ID ` set (projects db) then Inl (mapError fk_violation)
     else Inr (db\<lparr>project_kek_versions := project_kek_versions db @ [\<lparr>kv_ProjectID = i, kv_Version = v, kv_Wrapped = wrapped\<rparr>]\<rparr>))"

definition rotate_tx :: "string \<Rightarrow> (int \<Rightarrow> rng \<Rightarrow> 'e + (bytes \<times> rng)) \<Rightarrow> rng \<Rightarrow> int \<Rightarrow> secret_db \<Rightarrow>
    'e tx_err + ((int \<times> rng) \<times> secret_db)" where
  "rotate_tx i wrapNew r now db =
    (case proj_Get db i of
       Inl e \<Rightarrow> Inl (FromStore e)
     | Inr p \<Rightarrow>
       (case kek_insert i (p_KEKVersion p) (p_WrappedKEK p) db of
          Inl e \<Rightarrow> Inl (FromStore e)
        | Inr db1 \<Rightarrow>
          (case wrapNew (p_KEKVersion p) r of
             Inl e \<Rightarrow> Inl (FromCaller e)
           | Inr (newWrapped, r') \<Rightarrow>
             let newVersion = p_KEKVersion p + 1;
                 (n, t) = update_rows (\<lambda>q. p_ID q = i)
                   (\<lambda>q. q\<lparr>p_WrappedKEK := newWrapped, p_KEKVersion := newVersion, p_UpdatedAt := now\<rparr>) (projects db1)
             in if n \<noteq> 1 then Inl (FromStore ErrNotFound)
                else Inr ((newVersion, r'), db1\<lparr>projects := t\<rparr>))))"

definition RotateKEK :: "'e tx_err option \<Rightarrow> string \<Rightarrow> (int \<Rightarrow> rng \<Rightarrow> 'e + (bytes \<times> rng)) \<Rightarrow> rng \<Rightarrow> int \<Rightarrow> secret_db \<Rightarrow>
    ('e tx_err + (int \<times> rng)) \<times> secret_db" where
  "RotateKEK commit i wrapNew r now db = withTx commit (rotate_tx i wrapNew r now) db"

subsection \<open>Environments\<close>

definition live_env :: "Environment \<Rightarrow> bool" where
  "live_env e \<longleftrightarrow> e_DeletedAt e = None"

definition env_slug_taken :: "secret_db \<Rightarrow> string \<Rightarrow> string \<Rightarrow> bool" where
  "env_slug_taken db projectID slug \<longleftrightarrow>
    (\<exists>e\<in>set (environments db). live_env e \<and> e_ProjectID e = projectID \<and> e_Slug e = slug)"

definition env_Create :: "string \<Rightarrow> string \<Rightarrow> string \<Rightarrow> string \<Rightarrow> int \<Rightarrow> secret_db \<Rightarrow> store_err + (Environment \<times> secret_db)" where
  "env_Create i projectID slug name now db =
    (if i \<in> e_ID ` set (environments db) \<or> env_slug_taken db projectID slug then Inl (mapError unique_violation)
     else if projectID \<notin> p_ID ` set (projects db) then Inl (mapError fk_violation)
     else let e = \<lparr>e_ID = i, e_ProjectID = projectID, e_Slug = slug, e_Name = name, e_RequireApproval = False,
                   e_CreatedAt = now, e_UpdatedAt = now, e_DeletedAt = None\<rparr>
          in Inr (e, db\<lparr>environments := environments db @ [e]\<rparr>))"

definition env_Get :: "secret_db \<Rightarrow> string \<Rightarrow> store_err + Environment" where
  "env_Get db i = one_row (\<lambda>e. e_ID e = i \<and> live_env e) (environments db)"

definition env_GetIncludingDeleted :: "secret_db \<Rightarrow> string \<Rightarrow> store_err + Environment" where
  "env_GetIncludingDeleted db i = one_row (\<lambda>e. e_ID e = i) (environments db)"

definition env_ListDeleted :: "secret_db \<Rightarrow> Environment list" where
  "env_ListDeleted db = rev (sort_key (\<lambda>e. the (e_DeletedAt e)) (filter (\<lambda>e. e_DeletedAt e \<noteq> None) (environments db)))"

definition env_GetBySlug :: "secret_db \<Rightarrow> string \<Rightarrow> string \<Rightarrow> store_err + Environment" where
  "env_GetBySlug db projectID slug =
    one_row (\<lambda>e. e_ProjectID e = projectID \<and> e_Slug e = slug \<and> live_env e) (environments db)"

definition env_ListByProjectPage :: "secret_db \<Rightarrow> string \<Rightarrow> int \<Rightarrow> Cursor option \<Rightarrow> Environment list" where
  "env_ListByProjectPage db projectID limit after = list_page e_CreatedAt e_ID limit after
    (filter (\<lambda>e. e_ProjectID e = projectID \<and> live_env e) (environments db))"

definition env_ListByProject :: "secret_db \<Rightarrow> string \<Rightarrow> Environment list" where
  "env_ListByProject db projectID = env_ListByProjectPage db projectID 0 None"

definition update_env :: "(Environment \<Rightarrow> bool) \<Rightarrow> (Environment \<Rightarrow> Environment) \<Rightarrow> secret_db \<Rightarrow> pg_err + (nat \<times> secret_db)" where
  "update_env P f db = (let (n, t) = update_rows P f (environments db) in Inr (n, db\<lparr>environments := t\<rparr>))"

definition env_UpdateName :: "string \<Rightarrow> string \<Rightarrow> int \<Rightarrow> secret_db \<Rightarrow> store_err + secret_db" where
  "env_UpdateName i name now db = execAffectingOne
    (update_env (\<lambda>e. e_ID e = i \<and> live_env e) (\<lambda>e. e\<lparr>e_Name := name, e_UpdatedAt := now\<rparr>) db)"

definition env_SoftDelete :: "string \<Rightarrow> int \<Rightarrow> secret_db \<Rightarrow> store_err + secret_db" where
  "env_SoftDelete i now db = execAffectingOne
    (update_env (\<lambda>e. e_ID e = i \<and> live_env e) (\<lambda>e. e\<lparr>e_DeletedAt := Some now, e_UpdatedAt := now\<rparr>) db)"

definition env_Undelete :: "string \<Rightarrow> int \<Rightarrow> secret_db \<Rightarrow> store_err + secret_db" where
  "env_Undelete i now db = execAffectingOne
    (if \<exists>e\<in>set (environments db). e_ID e = i \<and> \<not> live_env e \<and> env_slug_taken db (e_ProjectID e) (e_Slug e)
     then Inl unique_violation
     else update_env (\<lambda>e. e_ID e = i \<and> \<not> live_env e) (\<lambda>e. e\<lparr>e_DeletedAt := None, e_UpdatedAt := now\<rparr>) db)"

definition env_SetRequireApproval :: "string \<Rightarrow> bool \<Rightarrow> int \<Rightarrow> secret_db \<Rightarrow> store_err + secret_db" where
  "env_SetRequireApproval i enabled now db = execAffectingOne
    (update_env (\<lambda>e. e_ID e = i \<and> live_env e) (\<lambda>e. e\<lparr>e_RequireApproval := enabled, e_UpdatedAt := now\<rparr>) db)"

subsection \<open>Configs\<close>

definition live_config :: "Config \<Rightarrow> bool" where
  "live_config c \<longleftrightarrow> c_DeletedAt c = None"

definition config_name_taken :: "secret_db \<Rightarrow> string \<Rightarrow> string \<Rightarrow> bool" where
  "config_name_taken db envID name \<longleftrightarrow>
    (\<exists>c\<in>set (configs db). live_config c \<and> c_EnvironmentID c = envID \<and> c_Name c = name)"

definition cfg_Create :: "string \<Rightarrow> string \<Rightarrow> string \<Rightarrow> string option \<Rightarrow> int \<Rightarrow> secret_db \<Rightarrow> store_err + (Config \<times> secret_db)" where
  "cfg_Create i envID name inheritsFrom now db =
    (if i \<in> c_ID ` set (configs db) \<or> config_name_taken db envID name then Inl (mapError unique_violation)
     else if envID \<notin> e_ID ` set (environments db) \<or> \<not> set_option inheritsFrom \<subseteq> insert i (c_ID ` set (configs db))
       then Inl (mapError fk_violation)
     else let c = \<lparr>c_ID = i, c_EnvironmentID = envID, c_Name = name, c_InheritsFrom = inheritsFrom, c_RequireApproval = False,
                   c_CreatedAt = now, c_UpdatedAt = now, c_DeletedAt = None\<rparr>
          in Inr (c, db\<lparr>configs := configs db @ [c]\<rparr>))"

definition cfg_Get :: "secret_db \<Rightarrow> string \<Rightarrow> store_err + Config" where
  "cfg_Get db i = one_row (\<lambda>c. c_ID c = i \<and> live_config c) (configs db)"

definition cfg_GetIncludingDeleted :: "secret_db \<Rightarrow> string \<Rightarrow> store_err + Config" where
  "cfg_GetIncludingDeleted db i = one_row (\<lambda>c. c_ID c = i) (configs db)"

definition cfg_ListDeleted :: "secret_db \<Rightarrow> Config list" where
  "cfg_ListDeleted db = rev (sort_key (\<lambda>c. the (c_DeletedAt c)) (filter (\<lambda>c. c_DeletedAt c \<noteq> None) (configs db)))"

definition cfg_GetByName :: "secret_db \<Rightarrow> string \<Rightarrow> string \<Rightarrow> store_err + Config" where
  "cfg_GetByName db envID name =
    one_row (\<lambda>c. c_EnvironmentID c = envID \<and> c_Name c = name \<and> live_config c) (configs db)"

definition cfg_ListByEnvironmentPage :: "secret_db \<Rightarrow> string \<Rightarrow> int \<Rightarrow> Cursor option \<Rightarrow> Config list" where
  "cfg_ListByEnvironmentPage db envID limit after = list_page c_CreatedAt c_ID limit after
    (filter (\<lambda>c. c_EnvironmentID c = envID \<and> live_config c) (configs db))"

definition cfg_ListByEnvironment :: "secret_db \<Rightarrow> string \<Rightarrow> Config list" where
  "cfg_ListByEnvironment db envID = cfg_ListByEnvironmentPage db envID 0 None"

definition update_config :: "(Config \<Rightarrow> bool) \<Rightarrow> (Config \<Rightarrow> Config) \<Rightarrow> secret_db \<Rightarrow> pg_err + (nat \<times> secret_db)" where
  "update_config P f db = (let (n, t) = update_rows P f (configs db) in Inr (n, db\<lparr>configs := t\<rparr>))"

definition cfg_SetRequireApproval :: "string \<Rightarrow> bool \<Rightarrow> int \<Rightarrow> secret_db \<Rightarrow> store_err + secret_db" where
  "cfg_SetRequireApproval i enabled now db = execAffectingOne
    (update_config (\<lambda>c. c_ID c = i \<and> live_config c) (\<lambda>c. c\<lparr>c_RequireApproval := enabled, c_UpdatedAt := now\<rparr>) db)"

definition cfg_SoftDelete :: "string \<Rightarrow> int \<Rightarrow> secret_db \<Rightarrow> store_err + secret_db" where
  "cfg_SoftDelete i now db = execAffectingOne
    (update_config (\<lambda>c. c_ID c = i \<and> live_config c) (\<lambda>c. c\<lparr>c_DeletedAt := Some now, c_UpdatedAt := now\<rparr>) db)"

definition cfg_Undelete :: "string \<Rightarrow> int \<Rightarrow> secret_db \<Rightarrow> store_err + secret_db" where
  "cfg_Undelete i now db = execAffectingOne
    (if \<exists>c\<in>set (configs db). c_ID c = i \<and> \<not> live_config c \<and> config_name_taken db (c_EnvironmentID c) (c_Name c)
     then Inl unique_violation
     else update_config (\<lambda>c. c_ID c = i \<and> \<not> live_config c) (\<lambda>c. c\<lparr>c_DeletedAt := None, c_UpdatedAt := now\<rparr>) db)"

subsection \<open>Destroying\<close>

text \<open>
  \<^verbatim>\<open>DELETE\<close> with the cascades of migration 5: what hangs below a deleted row goes with it. The link
  \<^verbatim>\<open>inherits_from\<close>, the columns of promotion requests and the promotion source of a version are plain
  foreign keys: a row that is left and refers to a deleted one blocks the statement.
\<close>

definition without :: "string set \<Rightarrow> string set \<Rightarrow> string set \<Rightarrow> secret_db \<Rightarrow> secret_db" where
  "without P E C db =
    (let cvs = filter (\<lambda>v. cv_ConfigID v \<notin> C) (config_versions db);
         svs = filter (\<lambda>s. sv_ConfigID s \<notin> C) (secret_values db) in
     db\<lparr>projects := filter (\<lambda>p. p_ID p \<notin> P) (projects db),
        environments := filter (\<lambda>e. e_ID e \<notin> E) (environments db),
        configs := filter (\<lambda>c. c_ID c \<notin> C) (configs db),
        config_versions := cvs, secret_values := svs,
        config_version_entries := filter (\<lambda>n. en_VersionID n \<in> cv_ID ` set cvs \<and> set_option (en_ValueID n) \<subseteq> sv_ID ` set svs)
          (config_version_entries db),
        project_kek_versions := filter (\<lambda>k. kv_ProjectID k \<notin> P) (project_kek_versions db),
        config_edit_requests := filter (\<lambda>r. er_ConfigID r \<notin> C) (config_edit_requests db),
        promotion_pipeline_steps := filter (\<lambda>s. st_ProjectID s \<notin> P \<and> st_EnvironmentID s \<notin> E) (promotion_pipeline_steps db),
        config_locked_keys := filter (\<lambda>k. lk_ConfigID k \<notin> C) (config_locked_keys db),
        config_version_retention := filter (\<lambda>r. fst r \<notin> C) (config_version_retention db)\<rparr>)"

definition still_referenced :: "string set \<Rightarrow> string set \<Rightarrow> string set \<Rightarrow> secret_db \<Rightarrow> bool" where
  "still_referenced P E C db \<longleftrightarrow>
    (\<exists>c\<in>set (configs db). \<not> set_option (c_InheritsFrom c) \<subseteq> - C) \<or>
    (\<exists>r\<in>set (promotion_requests db). pr_ProjectID r \<in> P \<or> pr_SourceConfigID r \<in> C \<or>
       \<not> set_option (pr_TargetConfigID r) \<subseteq> - C \<or> pr_TargetEnvID r \<in> E) \<or>
    (\<exists>v\<in>set (config_versions db). \<not> set_option (cv_PromotedFromEnvID v) \<subseteq> - E)"

definition delete_rows :: "string set \<Rightarrow> string set \<Rightarrow> string set \<Rightarrow> nat \<Rightarrow> secret_db \<Rightarrow> pg_err + (nat \<times> secret_db)" where
  "delete_rows P E C n db =
    (if still_referenced P E C (without P E C db) then Inl fk_violation else Inr (n, without P E C db))"

definition envs_of :: "secret_db \<Rightarrow> string set \<Rightarrow> string set" where
  "envs_of db P = e_ID ` set (filter (\<lambda>e. e_ProjectID e \<in> P) (environments db))"

definition configs_of :: "secret_db \<Rightarrow> string set \<Rightarrow> string set" where
  "configs_of db E = c_ID ` set (filter (\<lambda>c. c_EnvironmentID c \<in> E) (configs db))"

definition proj_Destroy :: "string \<Rightarrow> secret_db \<Rightarrow> store_err + secret_db" where
  "proj_Destroy i db = (let E = envs_of db {i} in execAffectingOne
    (delete_rows {i} E (configs_of db E) (length (filter (\<lambda>p. p_ID p = i) (projects db))) db))"

definition env_Destroy :: "string \<Rightarrow> secret_db \<Rightarrow> store_err + secret_db" where
  "env_Destroy i db = execAffectingOne
    (delete_rows {} {i} (configs_of db {i}) (length (filter (\<lambda>e. e_ID e = i) (environments db))) db)"

definition cfg_Destroy :: "string \<Rightarrow> secret_db \<Rightarrow> store_err + secret_db" where
  "cfg_Destroy i db = execAffectingOne
    (delete_rows {} {} {i} (length (filter (\<lambda>c. c_ID c = i) (configs db))) db)"

section \<open>Config versions\<close>

text \<open>
  \<^verbatim>\<open>secrets.go\<close>. A change carries the caller's closure \<^verbatim>\<open>Encrypt\<close>; \<^const>\<open>None\<close> deletes the key. The
  closure gets the value version the store assigned and draws from the random source. A Go map from
  keys to value ids is an association list.
\<close>

record 'e Change =
  ch_Key :: string
  ch_Type :: string
  ch_Encrypt :: "(int \<Rightarrow> rng \<Rightarrow> 'e + (EncryptedValue \<times> rng)) option"

definition versions_of :: "secret_db \<Rightarrow> string \<Rightarrow> ConfigVersion list" where
  "versions_of db configID = filter (\<lambda>v. cv_ConfigID v = configID) (config_versions db)"

definition max_version :: "secret_db \<Rightarrow> string \<Rightarrow> int" where
  "max_version db configID = fold max (map cv_Version (versions_of db configID)) 0"

definition next_value_version :: "secret_db \<Rightarrow> string \<Rightarrow> string \<Rightarrow> int" where
  "next_value_version db configID key =
    fold max (map sv_ValueVersion (filter (\<lambda>s. sv_ConfigID s = configID \<and> sv_Key s = key) (secret_values db))) 0 + 1"

definition entries_at :: "secret_db \<Rightarrow> string \<Rightarrow> int \<Rightarrow> entry_row list" where
  "entries_at db configID version = [n \<leftarrow> config_version_entries db.
     \<exists>v\<in>set (config_versions db). cv_ID v = en_VersionID n \<and> cv_ConfigID v = configID \<and> cv_Version v = version]"

definition livePointers :: "secret_db \<Rightarrow> string \<Rightarrow> int \<Rightarrow> (string \<times> string) list" where
  "livePointers db configID version =
    [(en_Key n, the (en_ValueID n)). n \<leftarrow> entries_at db configID version, en_ValueID n \<noteq> None]"

text \<open>The batch with one effect per key, the last change of a key.\<close>

definition net_change :: "'e Change list \<Rightarrow> string \<Rightarrow> 'e Change option" where
  "net_change changes key = map_of (rev (map (\<lambda>ch. (ch_Key ch, ch)) changes)) key"

definition value_row :: "string \<Rightarrow> string \<Rightarrow> string \<Rightarrow> int \<Rightarrow> string \<Rightarrow> EncryptedValue \<Rightarrow> int \<Rightarrow> SecretValue" where
  "value_row i configID key vv type val now =
    \<lparr>sv_ID = i, sv_ConfigID = configID, sv_Key = key, sv_ValueVersion = vv,
     sv_Type = (if type = '''' then ''string'' else type), sv_Enc = val, sv_CreatedAt = now\<rparr>"

definition insert_value :: "SecretValue \<Rightarrow> secret_db \<Rightarrow> store_err + secret_db" where
  "insert_value sv db =
    (if sv_ID sv \<in> sv_ID ` set (secret_values db) then Inl (ErrDriver unique_violation)
     else Inr (db\<lparr>secret_values := secret_values db @ [sv]\<rparr>))"

text \<open>The loop over the net changes, in the order the map is visited; \<open>fresh\<close> is the id drawn for a key's new row.\<close>

fun apply_changes :: "string \<Rightarrow> (string \<Rightarrow> 'e Change option) \<Rightarrow> (string \<Rightarrow> string) \<Rightarrow> int \<Rightarrow> string list \<Rightarrow>
    (string \<times> string) list \<Rightarrow> string list \<Rightarrow> rng \<Rightarrow> secret_db \<Rightarrow>
    'e tx_err + ((string \<times> string) list \<times> string list \<times> rng \<times> secret_db)" where
  "apply_changes configID final fresh now [] ptrs tombs r db = Inr (ptrs, tombs, r, db)"
| "apply_changes configID final fresh now (key # keys) ptrs tombs r db =
    (case final key of
       None \<Rightarrow> apply_changes configID final fresh now keys ptrs tombs r db
     | Some ch \<Rightarrow> (case ch_Encrypt ch of
         Some encrypt \<Rightarrow>
           (let nextVV = next_value_version db configID key in
            case encrypt nextVV r of
              Inl e \<Rightarrow> Inl (FromCaller e)
            | Inr (val, r') \<Rightarrow>
              (case insert_value (value_row (fresh key) configID key nextVV (ch_Type ch) val now) db of
                 Inl e \<Rightarrow> Inl (FromStore e)
               | Inr db' \<Rightarrow> apply_changes configID final fresh now keys (AList.update key (fresh key) ptrs) tombs r' db'))
       | None \<Rightarrow>
           if map_of ptrs key \<noteq> None
           then apply_changes configID final fresh now keys (AList.delete key ptrs) (tombs @ [key]) r db
           else apply_changes configID final fresh now keys ptrs tombs r db))"

definition insert_version :: "ConfigVersion \<Rightarrow> secret_db \<Rightarrow> store_err + secret_db" where
  "insert_version cv db =
    (if cv_ID cv \<in> cv_ID ` set (config_versions db) then Inl (ErrDriver unique_violation)
     else Inr (db\<lparr>config_versions := config_versions db @ [cv]\<rparr>))"

definition live_entry :: "string \<Rightarrow> string \<times> string \<Rightarrow> entry_row" where
  "live_entry cvID p = \<lparr>en_VersionID = cvID, en_Key = fst p, en_ValueID = Some (snd p)\<rparr>"

definition tombstone :: "string \<Rightarrow> string \<Rightarrow> entry_row" where
  "tombstone cvID key = \<lparr>en_VersionID = cvID, en_Key = key, en_ValueID = None\<rparr>"

definition insert_entries :: "string \<Rightarrow> (string \<times> string) list \<Rightarrow> string list \<Rightarrow> secret_db \<Rightarrow> secret_db" where
  "insert_entries cvID ptrs tombs db = db\<lparr>config_version_entries :=
     config_version_entries db @ map (live_entry cvID) ptrs @ map (tombstone cvID) tombs\<rparr>"

definition version_row :: "string \<Rightarrow> string \<Rightarrow> int \<Rightarrow> string \<Rightarrow> string \<Rightarrow> int \<Rightarrow> ConfigVersion" where
  "version_row i configID version message createdBy now =
    \<lparr>cv_ID = i, cv_ConfigID = configID, cv_Version = version, cv_Message = message, cv_CreatedBy = createdBy,
     cv_CreatedAt = now, cv_PromotedFromEnvID = None, cv_PromotedFromVersion = None\<rparr>"

definition lock_live :: "secret_db \<Rightarrow> string \<Rightarrow> store_err option" where
  "lock_live db configID = (case cfg_Get db configID of
      Inl ErrNotFound \<Rightarrow> Some ErrConflict
    | Inl e \<Rightarrow> Some e
    | Inr _ \<Rightarrow> None)"

definition save_tx :: "string \<Rightarrow> 'e Change list \<Rightarrow> string \<Rightarrow> string \<Rightarrow> (string \<Rightarrow> string) \<Rightarrow> string \<Rightarrow> string list \<Rightarrow> rng \<Rightarrow> int \<Rightarrow>
    secret_db \<Rightarrow> 'e tx_err + ((ConfigVersion \<times> rng) \<times> secret_db)" where
  "save_tx configID changes message createdBy fresh cvID order r now db =
    (case lock_live db configID of
       Some e \<Rightarrow> Inl (FromStore e)
     | None \<Rightarrow>
       let prevVersion = max_version db configID;
           ptrs = (if prevVersion > 0 then livePointers db configID prevVersion else [])
       in (case apply_changes configID (net_change changes) fresh now order ptrs [] r db of
             Inl e \<Rightarrow> Inl e
           | Inr (ptrs', tombs, r', db1) \<Rightarrow>
             let cv = version_row cvID configID (prevVersion + 1) message createdBy now
             in (case insert_version cv db1 of
                   Inl e \<Rightarrow> Inl (FromStore e)
                 | Inr db2 \<Rightarrow> Inr ((cv, r'), insert_entries cvID ptrs' tombs db2))))"

definition SaveConfigVersion :: "'e tx_err option \<Rightarrow> string \<Rightarrow> 'e Change list \<Rightarrow> string \<Rightarrow> string \<Rightarrow> (string \<Rightarrow> string) \<Rightarrow> string \<Rightarrow>
    string list \<Rightarrow> rng \<Rightarrow> int \<Rightarrow> secret_db \<Rightarrow> ('e tx_err + (ConfigVersion \<times> rng)) \<times> secret_db" where
  "SaveConfigVersion commit configID changes message createdBy fresh cvID order r now db =
    withTx commit (save_tx configID changes message createdBy fresh cvID order r now) db"

definition joined :: "secret_db \<Rightarrow> string \<Rightarrow> SecretValue list" where
  "joined db cvID = [sv. n \<leftarrow> config_version_entries db, en_VersionID n = cvID, sv \<leftarrow> secret_values db, en_ValueID n = Some (sv_ID sv)]"

definition state_of :: "secret_db \<Rightarrow> string \<Rightarrow> string \<rightharpoonup> SecretValue" where
  "state_of db cvID = map_of (map (\<lambda>sv. (sv_Key sv, sv)) (rev (joined db cvID)))"

definition GetVersion :: "secret_db \<Rightarrow> string \<Rightarrow> int \<Rightarrow> store_err + (ConfigVersion \<times> (string \<rightharpoonup> SecretValue))" where
  "GetVersion db configID version =
    bind_err (one_row (\<lambda>v. cv_ConfigID v = configID \<and> cv_Version v = version) (config_versions db)) (\<lambda>cv.
      Inr (cv, state_of db (cv_ID cv)))"

definition GetLatest :: "secret_db \<Rightarrow> string \<Rightarrow> store_err + (ConfigVersion \<times> (string \<rightharpoonup> SecretValue))" where
  "GetLatest db configID =
    (let version = max_version db configID in
     if version = 0 then Inl ErrNotFound else GetVersion db configID version)"

definition GetValueByID :: "secret_db \<Rightarrow> string \<Rightarrow> store_err + SecretValue" where
  "GetValueByID db i = one_row (\<lambda>sv. sv_ID sv = i) (secret_values db)"

definition ListVersions :: "secret_db \<Rightarrow> string \<Rightarrow> ConfigVersion list" where
  "ListVersions db configID = sort_key cv_Version (versions_of db configID)"

definition GetKeyHistory :: "secret_db \<Rightarrow> string \<Rightarrow> string \<Rightarrow> SecretValue list" where
  "GetKeyHistory db configID key =
    sort_key sv_ValueVersion (filter (\<lambda>sv. sv_ConfigID sv = configID \<and> sv_Key sv = key) (secret_values db))"

definition MarkPromoted :: "string \<Rightarrow> string \<Rightarrow> int \<Rightarrow> secret_db \<Rightarrow> store_err + secret_db" where
  "MarkPromoted cvID envID version db = execAffectingOne
    (let (n, t) = update_rows (\<lambda>v. cv_ID v = cvID)
           (\<lambda>v. v\<lparr>cv_PromotedFromEnvID := Some envID, cv_PromotedFromVersion := Some version\<rparr>) (config_versions db)
     in if n > 0 \<and> envID \<notin> e_ID ` set (environments db) then Inl fk_violation
        else Inr (n, db\<lparr>config_versions := t\<rparr>))"

record diff =
  Added :: "string set"
  Changed :: "string set"
  Removed :: "string set"

text \<open>The lists of the code are filled in map order; they are sets here.\<close>

definition Diff :: "secret_db \<Rightarrow> string \<Rightarrow> int \<Rightarrow> int \<Rightarrow> diff" where
  "Diff db configID vA vB =
    (let pa = livePointers db configID vA; pb = livePointers db configID vB; a = map_of pa; b = map_of pb in
     \<lparr>Added = set [k \<leftarrow> map fst pb. a k = None], Changed = set [k \<leftarrow> map fst pb. a k \<noteq> None \<and> a k \<noteq> b k],
      Removed = set [k \<leftarrow> map fst pa. b k = None]\<rparr>)"

definition rollback_tx :: "string \<Rightarrow> int \<Rightarrow> string \<Rightarrow> string \<Rightarrow> string \<Rightarrow> int \<Rightarrow> secret_db \<Rightarrow> store_err + (ConfigVersion \<times> secret_db)" where
  "rollback_tx configID targetVersion message createdBy cvID now db =
    (case lock_live db configID of
       Some e \<Rightarrow> Inl e
     | None \<Rightarrow>
       let prevVersion = max_version db configID in
       if prevVersion = 0 then Inl ErrNotFound
       else
         let target = livePointers db configID targetVersion in
         bind_err (one_row (\<lambda>v. cv_ConfigID v = configID \<and> cv_Version v = targetVersion) (config_versions db)) (\<lambda>_.
         let current = livePointers db configID prevVersion;
             cv = version_row cvID configID (prevVersion + 1) message createdBy now in
         bind_err (insert_version cv db) (\<lambda>db1.
           Inr (cv, insert_entries cvID target [k \<leftarrow> map fst current. map_of target k = None] db1))))"

definition Rollback :: "store_err option \<Rightarrow> string \<Rightarrow> int \<Rightarrow> string \<Rightarrow> string \<Rightarrow> string \<Rightarrow> int \<Rightarrow> secret_db \<Rightarrow>
    (store_err + ConfigVersion) \<times> secret_db" where
  "Rollback commit configID targetVersion message createdBy cvID now db =
    withTx commit (rollback_tx configID targetVersion message createdBy cvID now) db"

section \<open>The integrity of the tables\<close>

text \<open>
  The constraints of the schema, and what the code adds to them: an entry of a manifest points at a
  value of its own config and key.
\<close>

definition hierarchy_ok :: "secret_db \<Rightarrow> bool" where
  "hierarchy_ok db \<longleftrightarrow> distinct (map p_ID (projects db)) \<and> distinct (map e_ID (environments db)) \<and>
     distinct (map c_ID (configs db)) \<and> e_ProjectID ` set (environments db) \<subseteq> p_ID ` set (projects db) \<and>
     c_EnvironmentID ` set (configs db) \<subseteq> e_ID ` set (environments db)"

definition versions_ok :: "secret_db \<Rightarrow> bool" where
  "versions_ok db \<longleftrightarrow> distinct (map cv_ID (config_versions db)) \<and>
     distinct (map (\<lambda>v. (cv_ConfigID v, cv_Version v)) (config_versions db)) \<and>
     (\<forall>v\<in>set (config_versions db). 1 \<le> cv_Version v \<and> cv_ConfigID v \<in> c_ID ` set (configs db))"

definition values_ok :: "secret_db \<Rightarrow> bool" where
  "values_ok db \<longleftrightarrow> distinct (map sv_ID (secret_values db)) \<and>
     distinct (map (\<lambda>s. (sv_ConfigID s, sv_Key s, sv_ValueVersion s)) (secret_values db)) \<and>
     (\<forall>s\<in>set (secret_values db). 1 \<le> sv_ValueVersion s \<and> sv_ConfigID s \<in> c_ID ` set (configs db))"

definition entry_ok :: "secret_db \<Rightarrow> entry_row \<Rightarrow> bool" where
  "entry_ok db n \<longleftrightarrow> (\<exists>v\<in>set (config_versions db). cv_ID v = en_VersionID n \<and>
     (\<forall>i. en_ValueID n = Some i \<longrightarrow>
       (\<exists>s\<in>set (secret_values db). sv_ID s = i \<and> sv_Key s = en_Key n \<and> sv_ConfigID s = cv_ConfigID v)))"

definition manifest_ok :: "secret_db \<Rightarrow> bool" where
  "manifest_ok db \<longleftrightarrow> distinct (map (\<lambda>n. (en_VersionID n, en_Key n)) (config_version_entries db)) \<and>
     (\<forall>n\<in>set (config_version_entries db). entry_ok db n)"

definition keks_ok :: "secret_db \<Rightarrow> bool" where
  "keks_ok db \<longleftrightarrow> distinct (map (\<lambda>k. (kv_ProjectID k, kv_Version k)) (project_kek_versions db)) \<and>
     (\<forall>k\<in>set (project_kek_versions db). \<exists>p\<in>set (projects db). p_ID p = kv_ProjectID k \<and> kv_Version k < p_KEKVersion p)"

definition store_wf :: "secret_db \<Rightarrow> bool" where
  "store_wf db \<longleftrightarrow> hierarchy_ok db \<and> versions_ok db \<and> values_ok db \<and> manifest_ok db \<and> keks_ok db"

subsection \<open>Rows by their key\<close>

lemma distinct_map_inj: "distinct (map f xs) \<Longrightarrow> x \<in> set xs \<Longrightarrow> y \<in> set xs \<Longrightarrow> f x = f y \<Longrightarrow> x = y"
  by (auto simp: distinct_map inj_on_def)

lemma map_of_functional:
  assumes "\<And>v v'. (k, v) \<in> set xs \<Longrightarrow> (k, v') \<in> set xs \<Longrightarrow> v = v'"
  shows "map_of xs k = Some v \<longleftrightarrow> (k, v) \<in> set xs"
  using assms by (metis map_of_SomeD weak_map_of_SomeI)

lemma one_row_Inr: "one_row P t = Inr r \<Longrightarrow> r \<in> set t \<and> P r"
  by (auto simp: one_row_def split: list.splits) (metis Cons_eq_filterD in_set_conv_decomp)+

lemma one_row_Inl: "one_row P t = Inl e \<longleftrightarrow> e = ErrNotFound \<and> (\<forall>r\<in>set t. \<not> P r)"
  by (auto simp: one_row_def filter_empty_conv split: list.splits) (metis Cons_eq_filterD in_set_conv_decomp)

lemma one_row_unique:
  assumes "r \<in> set t" "P r" "\<And>s. s \<in> set t \<Longrightarrow> P s \<Longrightarrow> s = r"
  shows "one_row P t = Inr r"
proof (cases "one_row P t")
  case (Inl e)
  then show ?thesis using assms(1,2) by (auto simp: one_row_Inl)
next
  case (Inr s)
  then show ?thesis using assms(3) one_row_Inr [OF Inr] by simp
qed

lemma fold_max_ge: "a \<le> fold max xs a \<and> (\<forall>x\<in>set xs. x \<le> fold max xs a)" for a :: "'a::linorder"
  by (induction xs arbitrary: a) (auto, metis max.bounded_iff, metis max.bounded_iff)

lemma fold_max_in: "fold max xs a = a \<or> fold max xs a \<in> set xs" for a :: "'a::linorder"
proof (induction xs arbitrary: a)
  case (Cons x xs)
  then show ?case using Cons [of "max x a"] by (auto simp: max_def split: if_splits)
qed simp

lemma versions_of_iff: "v \<in> set (versions_of db c) \<longleftrightarrow> v \<in> set (config_versions db) \<and> cv_ConfigID v = c"
  by (auto simp: versions_of_def)

lemma max_version_ge: "v \<in> set (config_versions db) \<Longrightarrow> cv_ConfigID v = c \<Longrightarrow> cv_Version v \<le> max_version db c"
  using fold_max_ge [of 0 "map cv_Version (versions_of db c)"] by (auto simp: max_version_def versions_of_iff)

lemma max_version_nonneg: "0 \<le> max_version db c"
  using fold_max_ge [of 0 "map cv_Version (versions_of db c)"] by (simp add: max_version_def)

lemma max_version_in:
  "max_version db c \<noteq> 0 \<Longrightarrow> \<exists>v\<in>set (config_versions db). cv_ConfigID v = c \<and> cv_Version v = max_version db c"
  using fold_max_in [of "map cv_Version (versions_of db c)" 0] by (auto simp: max_version_def versions_of_iff image_iff)

lemma next_value_version_gt:
  "s \<in> set (secret_values db) \<Longrightarrow> sv_ConfigID s = c \<Longrightarrow> sv_Key s = k \<Longrightarrow> sv_ValueVersion s < next_value_version db c k"
  using fold_max_ge [of 0 "map sv_ValueVersion (filter (\<lambda>s. sv_ConfigID s = c \<and> sv_Key s = k) (secret_values db))"]
  by (fastforce simp: next_value_version_def)

lemma next_value_version_pos: "1 \<le> next_value_version db c k"
  using fold_max_ge [of 0 "map sv_ValueVersion (filter (\<lambda>s. sv_ConfigID s = c \<and> sv_Key s = k) (secret_values db))"]
  by (simp add: next_value_version_def)

lemma version_unique:
  "versions_ok db \<Longrightarrow> v \<in> set (config_versions db) \<Longrightarrow> w \<in> set (config_versions db) \<Longrightarrow>
    cv_ConfigID v = cv_ConfigID w \<Longrightarrow> cv_Version v = cv_Version w \<Longrightarrow> v = w"
  unfolding versions_ok_def by (metis (mono_tags, lifting) distinct_map_inj)

lemma version_id_unique:
  "versions_ok db \<Longrightarrow> v \<in> set (config_versions db) \<Longrightarrow> w \<in> set (config_versions db) \<Longrightarrow> cv_ID v = cv_ID w \<Longrightarrow> v = w"
  by (auto simp: versions_ok_def dest: distinct_map_inj)

lemma value_unique:
  "values_ok db \<Longrightarrow> s \<in> set (secret_values db) \<Longrightarrow> t \<in> set (secret_values db) \<Longrightarrow> sv_ID s = sv_ID t \<Longrightarrow> s = t"
  by (auto simp: values_ok_def dest: distinct_map_inj)

lemma entry_unique:
  "manifest_ok db \<Longrightarrow> n \<in> set (config_version_entries db) \<Longrightarrow> m \<in> set (config_version_entries db) \<Longrightarrow>
    en_VersionID n = en_VersionID m \<Longrightarrow> en_Key n = en_Key m \<Longrightarrow> n = m"
  unfolding manifest_ok_def by (metis (mono_tags, lifting) distinct_map_inj)

subsection \<open>What a version holds\<close>

text \<open>The state of version \<open>v\<close> of config \<open>c\<close>: the value row of each live key.\<close>

definition view :: "secret_db \<Rightarrow> string \<Rightarrow> int \<Rightarrow> (string \<rightharpoonup> SecretValue) option" where
  "view db c v = (case GetVersion db c v of Inl _ \<Rightarrow> None | Inr (_, st) \<Rightarrow> Some st)"

lemma state_of_iff:
  assumes "values_ok db" "manifest_ok db"
  shows "state_of db cvID k = Some s \<longleftrightarrow> s \<in> set (secret_values db) \<and>
    (\<exists>n\<in>set (config_version_entries db). en_VersionID n = cvID \<and> en_Key n = k \<and> en_ValueID n = Some (sv_ID s))"
proof -
  have key: "sv_Key s = en_Key n" if "n \<in> set (config_version_entries db)" and "s \<in> set (secret_values db)"
    and "en_ValueID n = Some (sv_ID s)" for n s
  proof -
    note h = that
    have "entry_ok db n" using assms(2) h by (simp add: manifest_ok_def)
    then obtain t where "t \<in> set (secret_values db)" "sv_ID t = sv_ID s" "sv_Key t = en_Key n"
      using h(3) by (auto simp: entry_ok_def)
    then show ?thesis using value_unique [OF assms(1)] h(2) by metis
  qed
  have mem: "s \<in> set (joined db cvID) \<longleftrightarrow> s \<in> set (secret_values db) \<and>
      (\<exists>n\<in>set (config_version_entries db). en_VersionID n = cvID \<and> en_ValueID n = Some (sv_ID s))" for s
    by (auto simp: joined_def)
  have "s = t" if "s \<in> set (joined db cvID)" "t \<in> set (joined db cvID)" "sv_Key s = sv_Key t" for s t
    using that key entry_unique [OF assms(2)] value_unique [OF assms(1)] by (metis mem option.inject)
  then have "state_of db cvID k = Some s \<longleftrightarrow> (k, s) \<in> set (map (\<lambda>s. (sv_Key s, s)) (rev (joined db cvID)))"
    unfolding state_of_def by (intro map_of_functional) auto
  also have "\<dots> \<longleftrightarrow> s \<in> set (joined db cvID) \<and> sv_Key s = k" by auto
  also have "\<dots> \<longleftrightarrow> s \<in> set (secret_values db) \<and>
    (\<exists>n\<in>set (config_version_entries db). en_VersionID n = cvID \<and> en_Key n = k \<and> en_ValueID n = Some (sv_ID s))"
    unfolding mem using key by metis
  finally show ?thesis .
qed

lemma view_Some:
  assumes "versions_ok db"
  shows "view db c v = Some st \<longleftrightarrow>
    (\<exists>cv\<in>set (config_versions db). cv_ConfigID cv = c \<and> cv_Version cv = v \<and> st = state_of db (cv_ID cv))"
proof
  assume "view db c v = Some st"
  then show "\<exists>cv\<in>set (config_versions db). cv_ConfigID cv = c \<and> cv_Version cv = v \<and> st = state_of db (cv_ID cv)"
    by (auto simp: view_def GetVersion_def bind_err_Inr dest!: one_row_Inr split: sum.splits)
next
  assume "\<exists>cv\<in>set (config_versions db). cv_ConfigID cv = c \<and> cv_Version cv = v \<and> st = state_of db (cv_ID cv)"
  then obtain cv where cv: "cv \<in> set (config_versions db)" "cv_ConfigID cv = c" "cv_Version cv = v" "st = state_of db (cv_ID cv)"
    by blast
  then have "one_row (\<lambda>v'. cv_ConfigID v' = c \<and> cv_Version v' = v) (config_versions db) = Inr cv"
    using version_unique [OF assms] by (intro one_row_unique) auto
  then show "view db c v = Some st" using cv by (simp add: view_def GetVersion_def)
qed

lemma livePointers_map:
  assumes "versions_ok db" "manifest_ok db" "cv \<in> set (config_versions db)"
  shows "map_of (livePointers db (cv_ConfigID cv) (cv_Version cv)) k = Some i \<longleftrightarrow>
    (\<exists>n\<in>set (config_version_entries db). en_VersionID n = cv_ID cv \<and> en_Key n = k \<and> en_ValueID n = Some i)"
proof -
  have mem: "n \<in> set (entries_at db (cv_ConfigID cv) (cv_Version cv)) \<longleftrightarrow>
      n \<in> set (config_version_entries db) \<and> en_VersionID n = cv_ID cv" for n
    using version_unique [OF assms(1) assms(3)] assms(3) by (fastforce simp: entries_at_def)
  have "(k, i) \<in> set (livePointers db (cv_ConfigID cv) (cv_Version cv)) \<longleftrightarrow>
      (\<exists>n\<in>set (config_version_entries db). en_VersionID n = cv_ID cv \<and> en_Key n = k \<and> en_ValueID n = Some i)" for k i
    by (auto simp: livePointers_def mem)
  then show ?thesis
    by (subst map_of_functional) (auto dest: entry_unique [OF assms(2)])
qed

lemma pointers_of_view:
  assumes "store_wf db" "view db c v = Some st"
  shows "map_of (livePointers db c v) = (\<lambda>k. map_option sv_ID (st k))"
proof
  fix k
  have ok: "versions_ok db" "values_ok db" "manifest_ok db" using assms(1) by (auto simp: store_wf_def)
  obtain cv where cv: "cv \<in> set (config_versions db)" "cv_ConfigID cv = c" "cv_Version cv = v" "st = state_of db (cv_ID cv)"
    using assms(2) view_Some [OF ok(1)] by blast
  note lp = livePointers_map [OF ok(1,3) cv(1), unfolded cv(2,3)] and st = state_of_iff [OF ok(2,3)]
  have "map_of (livePointers db c v) k = Some i \<longleftrightarrow> map_option sv_ID (st k) = Some i" for i
  proof
    assume "map_of (livePointers db c v) k = Some i"
    then obtain n where n: "n \<in> set (config_version_entries db)" "en_VersionID n = cv_ID cv" "en_Key n = k" "en_ValueID n = Some i"
      using lp by blast
    then have "entry_ok db n" using ok(3) by (simp add: manifest_ok_def)
    then obtain s where "s \<in> set (secret_values db)" "sv_ID s = i" using n(4) by (auto simp: entry_ok_def)
    then have "st k = Some s" using n st cv(4) by blast
    then show "map_option sv_ID (st k) = Some i" using \<open>sv_ID s = i\<close> by simp
  next
    assume "map_option sv_ID (st k) = Some i"
    then obtain s where "st k = Some s" "sv_ID s = i" by auto
    then show "map_of (livePointers db c v) k = Some i" using st [of "cv_ID cv" k s] cv(4) lp by auto
  qed
  then show "map_of (livePointers db c v) k = map_option sv_ID (st k)"
    by (intro option_eqI)
qed

section \<open>Writing a version\<close>

subsection \<open>The batch\<close>

definition sets :: "(string \<Rightarrow> 'e Change option) \<Rightarrow> string \<Rightarrow> bool" where
  "sets final k \<longleftrightarrow> (\<exists>ch. final k = Some ch \<and> ch_Encrypt ch \<noteq> None)"

definition deletes :: "(string \<Rightarrow> 'e Change option) \<Rightarrow> string \<Rightarrow> bool" where
  "deletes final k \<longleftrightarrow> (\<exists>ch. final k = Some ch \<and> ch_Encrypt ch = None)"

definition written :: "(string \<Rightarrow> 'e Change option) \<Rightarrow> (string \<Rightarrow> string) \<Rightarrow> string \<Rightarrow> int \<Rightarrow> secret_db \<Rightarrow> SecretValue \<Rightarrow> bool" where
  "written final fresh c now db s \<longleftrightarrow> (\<exists>ch enc val r r'. final (sv_Key s) = Some ch \<and> ch_Encrypt ch = Some enc \<and>
     enc (next_value_version db c (sv_Key s)) r = Inr (val, r') \<and>
     s = value_row (fresh (sv_Key s)) c (sv_Key s) (next_value_version db c (sv_Key s)) (ch_Type ch) val now)"

lemma next_value_version_other:
  "sv_Key s \<noteq> k \<Longrightarrow> next_value_version (db\<lparr>secret_values := secret_values db @ [s]\<rparr>) c k = next_value_version db c k"
  by (simp add: next_value_version_def)

lemma value_row_simps [simp]:
  "sv_ID (value_row i c k vv ty val now) = i" "sv_ConfigID (value_row i c k vv ty val now) = c"
  "sv_Key (value_row i c k vv ty val now) = k" "sv_ValueVersion (value_row i c k vv ty val now) = vv"
  "sv_Enc (value_row i c k vv ty val now) = val"
  by (simp_all add: value_row_def)

text \<open>What the loop over the batch does to the pointers, the tombstones and the table of values.\<close>

definition batch_done :: "string \<Rightarrow> (string \<Rightarrow> 'e Change option) \<Rightarrow> (string \<Rightarrow> string) \<Rightarrow> int \<Rightarrow> string list \<Rightarrow> (string \<times> string) list \<Rightarrow>
    string list \<Rightarrow> secret_db \<Rightarrow> (string \<times> string) list \<Rightarrow> string list \<Rightarrow> secret_db \<Rightarrow> SecretValue list \<Rightarrow> bool" where
  "batch_done c final fresh now keys ptrs tombs db ptrs' tombs' db' new \<longleftrightarrow>
    db' = db\<lparr>secret_values := secret_values db @ new\<rparr> \<and> map sv_Key new = filter (sets final) keys \<and>
    (\<forall>s\<in>set new. written final fresh c now db s) \<and> distinct (map sv_ID new) \<and>
    sv_ID ` set new \<inter> sv_ID ` set (secret_values db) = {} \<and> distinct (map fst ptrs') \<and>
    map_of ptrs' = (\<lambda>k. if k \<in> set keys \<and> sets final k then Some (fresh k)
       else if k \<in> set keys \<and> deletes final k then None else map_of ptrs k) \<and>
    tombs' = tombs @ filter (\<lambda>k. deletes final k \<and> map_of ptrs k \<noteq> None) keys"

lemma batch_done_set:
  assumes key: "key \<notin> set keys" "sets final key" "\<not> deletes final key"
    and s: "written final fresh c now db s" "sv_Key s = key" "sv_ID s = fresh key" "fresh key \<notin> sv_ID ` set (secret_values db)"
    and rest: "batch_done c final fresh now keys (AList.update key (fresh key) ptrs) tombs (db\<lparr>secret_values := secret_values db @ [s]\<rparr>)
      ptrs' tombs' db' new"
  shows "batch_done c final fresh now (key # keys) ptrs tombs db ptrs' tombs' db' (s # new)"
proof -
  let ?db = "db\<lparr>secret_values := secret_values db @ [s]\<rparr>"
  have new: "map sv_Key new = filter (sets final) keys" "\<forall>s\<in>set new. written final fresh c now ?db s"
    and m: "map_of ptrs' = (\<lambda>k. if k \<in> set keys \<and> sets final k then Some (fresh k)
       else if k \<in> set keys \<and> deletes final k then None else map_of (AList.update key (fresh key) ptrs) k)"
    and t: "tombs' = tombs @ filter (\<lambda>k. deletes final k \<and> map_of (AList.update key (fresh key) ptrs) k \<noteq> None) keys"
    using rest by (auto simp: batch_done_def)
  have "written final fresh c now db s'" if "s' \<in> set new" for s'
  proof -
    have "sv_Key s' \<in> set (filter (sets final) keys)" using that new(1) by (metis image_eqI list.set_map)
    then have nv: "next_value_version ?db c (sv_Key s') = next_value_version db c (sv_Key s')"
      using key(1) s(2) by (intro next_value_version_other) auto
    have "written final fresh c now ?db s'" using new(2) that by blast
    then show ?thesis unfolding written_def nv .
  qed
  then have w: "\<forall>s'\<in>set (s # new). written final fresh c now db s'" using s(1) by simp
  have "map_of ptrs' = (\<lambda>k. if k \<in> set (key # keys) \<and> sets final k then Some (fresh k)
     else if k \<in> set (key # keys) \<and> deletes final k then None else map_of ptrs k)"
    using m key by (auto simp: fun_eq_iff update_conv)
  moreover have "filter (\<lambda>k. deletes final k \<and> map_of (AList.update key (fresh key) ptrs) k \<noteq> None) keys =
      filter (\<lambda>k. deletes final k \<and> map_of ptrs k \<noteq> None) keys"
    using key(1) by (intro filter_cong) (auto simp: update_conv)
  ultimately show ?thesis
    using rest w key(2,3) s(2,3,4) t unfolding batch_done_def by auto
qed

lemma batch_done_delete:
  assumes "key \<notin> set keys" "\<not> sets final key" "deletes final key" "map_of ptrs key \<noteq> None"
    "batch_done c final fresh now keys (AList.delete key ptrs) (tombs @ [key]) db ptrs' tombs' db' new"
  shows "batch_done c final fresh now (key # keys) ptrs tombs db ptrs' tombs' db' new"
  using assms by (auto simp: batch_done_def fun_eq_iff AList.delete_conv intro!: filter_cong)

lemma batch_done_skip:
  assumes "\<not> sets final key" "deletes final key \<longrightarrow> map_of ptrs key = None" "key \<notin> set keys"
    "batch_done c final fresh now keys ptrs tombs db ptrs' tombs' db' new"
  shows "batch_done c final fresh now (key # keys) ptrs tombs db ptrs' tombs' db' new"
  using assms by (auto simp: batch_done_def fun_eq_iff)

lemma apply_changes_Inr:
  assumes "distinct keys" "distinct (map fst ptrs)"
    "apply_changes c final fresh now keys ptrs tombs r db = Inr (ptrs', tombs', r', db')"
  shows "\<exists>new. batch_done c final fresh now keys ptrs tombs db ptrs' tombs' db' new"
  using assms
proof (induction keys arbitrary: ptrs tombs r db)
  case Nil
  then show ?case by (intro exI [of _ "[]"]) (auto simp: batch_done_def)
next
  case (Cons key keys)
  have keys: "distinct keys" "key \<notin> set keys" using Cons.prems(1) by auto
  consider (skip) "\<not> sets final key" "deletes final key \<longrightarrow> map_of ptrs key = None"
      "apply_changes c final fresh now keys ptrs tombs r db = Inr (ptrs', tombs', r', db')"
    | (set) ch enc where "final key = Some ch" "ch_Encrypt ch = Some enc"
    | (del) "\<not> sets final key" "deletes final key" "map_of ptrs key \<noteq> None"
      "apply_changes c final fresh now keys (AList.delete key ptrs) (tombs @ [key]) r db = Inr (ptrs', tombs', r', db')"
    using Cons.prems(3) by (auto simp: sets_def deletes_def split: option.splits if_splits)
  then show ?case
  proof cases
    case skip
    then show ?thesis using Cons.IH [OF keys(1) Cons.prems(2) skip(3)] batch_done_skip [OF skip(1,2) keys(2)] by blast
  next
    case del
    then show ?thesis
      using Cons.IH [OF keys(1) distinct_delete [OF Cons.prems(2)] del(4)] batch_done_delete [OF keys(2) del(1,2,3)] by blast
  next
    case set
    let ?vv = "next_value_version db c key"
    obtain val r1 where enc: "enc ?vv r = Inr (val, r1)"
      using Cons.prems(3) set by (auto simp: Let_def split: sum.splits)
    let ?s = "value_row (fresh key) c key ?vv (ch_Type ch) val now"
    have ins: "fresh key \<notin> sv_ID ` set (secret_values db)"
      and rec: "apply_changes c final fresh now keys (AList.update key (fresh key) ptrs) tombs r1
        (db\<lparr>secret_values := secret_values db @ [?s]\<rparr>) = Inr (ptrs', tombs', r', db')"
      using Cons.prems(3) set enc by (auto simp: insert_value_def split: if_splits)
    have w: "written final fresh c now db ?s" "sets final key" "\<not> deletes final key"
      using set enc by (auto simp: written_def sets_def deletes_def)
    show ?thesis
      using Cons.IH [OF keys(1) distinct_update [OF Cons.prems(2)] rec] batch_done_set [OF keys(2) w(2,3,1) value_row_simps(3) value_row_simps(1) ins] by blast
  qed
qed

subsection \<open>A new version with its manifest\<close>

text \<open>A manifest that points at values of its own config, with no key twice.\<close>

definition manifest_for :: "secret_db \<Rightarrow> string \<Rightarrow> (string \<times> string) list \<Rightarrow> string list \<Rightarrow> bool" where
  "manifest_for db c ptrs tombs \<longleftrightarrow> distinct (map fst ptrs @ tombs) \<and>
     (\<forall>(k, i)\<in>set ptrs. \<exists>s\<in>set (secret_values db). sv_ID s = i \<and> sv_Key s = k \<and> sv_ConfigID s = c)"

definition with_version :: "secret_db \<Rightarrow> ConfigVersion \<Rightarrow> (string \<times> string) list \<Rightarrow> string list \<Rightarrow> secret_db" where
  "with_version db cv ptrs tombs = insert_entries (cv_ID cv) ptrs tombs (db\<lparr>config_versions := config_versions db @ [cv]\<rparr>)"

lemma with_version_simps [simp]:
  "config_versions (with_version db cv ptrs tombs) = config_versions db @ [cv]"
  "secret_values (with_version db cv ptrs tombs) = secret_values db"
  "config_version_entries (with_version db cv ptrs tombs) =
     config_version_entries db @ map (live_entry (cv_ID cv)) ptrs @ map (tombstone (cv_ID cv)) tombs"
  "projects (with_version db cv ptrs tombs) = projects db"
  "environments (with_version db cv ptrs tombs) = environments db"
  "configs (with_version db cv ptrs tombs) = configs db"
  "project_kek_versions (with_version db cv ptrs tombs) = project_kek_versions db"
  by (simp_all add: with_version_def insert_entries_def)

lemma entry_simps [simp]:
  "en_VersionID (live_entry i p) = i" "en_Key (live_entry i p) = fst p" "en_ValueID (live_entry i p) = Some (snd p)"
  "en_VersionID (tombstone i k) = i" "en_Key (tombstone i k) = k" "en_ValueID (tombstone i k) = None"
  by (simp_all add: live_entry_def tombstone_def)

lemma entry_ok_mono:
  "entry_ok db n \<Longrightarrow> set (config_versions db) \<subseteq> set (config_versions db') \<Longrightarrow> set (secret_values db) \<subseteq> set (secret_values db') \<Longrightarrow>
    entry_ok db' n"
  unfolding entry_ok_def by (meson subsetD)

lemma entry_version:
  "manifest_ok db \<Longrightarrow> n \<in> set (config_version_entries db) \<Longrightarrow> en_VersionID n \<in> cv_ID ` set (config_versions db)"
  unfolding manifest_ok_def entry_ok_def by (metis image_eqI)

lemma with_version_wf:
  assumes wf: "store_wf db" and id: "cv_ID cv \<notin> cv_ID ` set (config_versions db)"
    and c: "cv_ConfigID cv \<in> c_ID ` set (configs db)" and v: "max_version db (cv_ConfigID cv) < cv_Version cv"
    and m: "manifest_for db (cv_ConfigID cv) ptrs tombs"
  shows "store_wf (with_version db cv ptrs tombs)"
proof -
  let ?db = "with_version db cv ptrs tombs"
  have old: "hierarchy_ok db" "versions_ok db" "values_ok db" "manifest_ok db" "keks_ok db"
    using wf by (auto simp: store_wf_def)
  have ne: "cv_Version w \<noteq> cv_Version cv" if "w \<in> set (config_versions db)" "cv_ConfigID w = cv_ConfigID cv" for w
    using max_version_ge [OF that] v by simp
  have "(cv_ConfigID cv, cv_Version cv) \<notin> (\<lambda>v. (cv_ConfigID v, cv_Version v)) ` set (config_versions db)"
  proof (rule notI, elim imageE)
    fix w
    assume "(cv_ConfigID cv, cv_Version cv) = (cv_ConfigID w, cv_Version w)" "w \<in> set (config_versions db)"
    then show False using ne [of w] by simp
  qed
  then have versions: "versions_ok ?db"
    using old(2) id c v max_version_nonneg [of db "cv_ConfigID cv"] by (simp add: versions_ok_def)
  have "en_VersionID n \<noteq> cv_ID cv" if "n \<in> set (config_version_entries db)" for n
    using entry_version [OF old(4) that] id by metis
  then have "(\<lambda>n. (en_VersionID n, en_Key n)) ` set (config_version_entries db) \<inter> set (map (Pair (cv_ID cv)) (map fst ptrs @ tombs)) = {}"
    by auto
  moreover have "distinct (map (Pair (cv_ID cv)) (map fst ptrs @ tombs))"
    unfolding distinct_map [of "Pair (cv_ID cv)"] using m by (simp only: manifest_for_def inj_on_def prod.inject) blast
  ultimately have "distinct (map (\<lambda>n. (en_VersionID n, en_Key n)) (config_version_entries db) @ map (Pair (cv_ID cv)) (map fst ptrs @ tombs))"
    using old(4) by (simp only: distinct_append manifest_ok_def list.set_map)
  then have d: "distinct (map (\<lambda>n. (en_VersionID n, en_Key n)) (config_version_entries ?db))"
    by (simp add: comp_def)
  have "entry_ok ?db n" if "n \<in> set (config_version_entries db)" for n
    by (rule entry_ok_mono [of db n]) (use old(4) that in \<open>auto simp: manifest_ok_def\<close>)
  moreover have "entry_ok ?db (live_entry (cv_ID cv) p)" if "p \<in> set ptrs" for p
  proof -
    have "\<exists>s\<in>set (secret_values db). sv_ID s = snd p \<and> sv_Key s = fst p \<and> sv_ConfigID s = cv_ConfigID cv"
      using m that by (cases p) (auto simp: manifest_for_def)
    then show ?thesis unfolding entry_ok_def by (intro bexI [of _ cv]) simp_all
  qed
  moreover have "entry_ok ?db (tombstone (cv_ID cv) k)" for k
    unfolding entry_ok_def by (intro bexI [of _ cv]) simp_all
  ultimately have "\<forall>n\<in>set (config_version_entries ?db). entry_ok ?db n" by auto
  then have "manifest_ok ?db" using d by (simp only: manifest_ok_def)
  then show ?thesis using versions old(1,3,5) by (simp add: store_wf_def hierarchy_ok_def values_ok_def keks_ok_def)
qed

lemma state_of_old:
  assumes wf: "store_wf db" "store_wf (with_version db cv ptrs tombs)" and "cvID \<noteq> cv_ID cv"
  shows "state_of (with_version db cv ptrs tombs) cvID = state_of db cvID"
proof -
  have ok: "values_ok db" "manifest_ok db" "values_ok (with_version db cv ptrs tombs)" "manifest_ok (with_version db cv ptrs tombs)"
    using wf by (auto simp: store_wf_def)
  have "state_of (with_version db cv ptrs tombs) cvID k = Some s \<longleftrightarrow> state_of db cvID k = Some s" for k s
    using assms(3) by (auto simp: state_of_iff [OF ok(1,2)] state_of_iff [OF ok(3,4)])
  then show ?thesis by (intro map_eqI)
qed

lemma view_old:
  assumes wf: "store_wf db" "store_wf (with_version db cv ptrs tombs)" and other: "\<not> (c = cv_ConfigID cv \<and> v = cv_Version cv)"
  shows "view (with_version db cv ptrs tombs) c v = view db c v"
proof -
  have ok: "versions_ok db" "versions_ok (with_version db cv ptrs tombs)" using wf by (auto simp: store_wf_def)
  have id: "cv_ID w \<noteq> cv_ID cv" if "w \<in> set (config_versions db)" for w
    using ok(2) that by (auto simp: versions_ok_def image_iff)
  have "view (with_version db cv ptrs tombs) c v = Some st \<longleftrightarrow> view db c v = Some st" for st
    using other id by (auto simp: view_Some [OF ok(1)] view_Some [OF ok(2)] state_of_old [OF wf])
  then show ?thesis by (intro option_eqI)
qed

lemma view_new:
  assumes wf: "store_wf db" "store_wf (with_version db cv ptrs tombs)"
    and ptrs: "\<And>k. map_of ptrs k = map_option sv_ID (st k)" and st: "\<And>k s. st k = Some s \<Longrightarrow> s \<in> set (secret_values db)"
    and d: "distinct (map fst ptrs)"
  shows "view (with_version db cv ptrs tombs) (cv_ConfigID cv) (cv_Version cv) = Some st"
proof -
  let ?db = "with_version db cv ptrs tombs"
  have ok: "versions_ok ?db" "values_ok ?db" "manifest_ok ?db" using wf(2) by (auto simp: store_wf_def)
  have "cv_ID cv \<notin> cv_ID ` set (config_versions db)" using ok(1) by (auto simp: versions_ok_def)
  then have old: "en_VersionID n \<noteq> cv_ID cv" if "n \<in> set (config_version_entries db)" for n
    using entry_version [OF _ that] wf(1) unfolding store_wf_def by metis
  have "state_of ?db (cv_ID cv) k = Some s \<longleftrightarrow> s \<in> set (secret_values db) \<and> map_of ptrs k = Some (sv_ID s)" for k s
    unfolding state_of_iff [OF ok(2,3)] using old d by (auto simp: map_of_eq_Some_iff image_iff) force
  moreover have "s \<in> set (secret_values db) \<and> map_of ptrs k = Some (sv_ID s) \<longleftrightarrow> st k = Some s" for k s
    using ptrs [of k] st [of k] value_unique [OF ok(2)] by (cases "st k") auto
  ultimately have "state_of ?db (cv_ID cv) = st" by (intro map_eqI) (simp only:)
  then show ?thesis by (auto simp: view_Some [OF ok(1)])
qed

subsection \<open>New values\<close>

lemma values_append:
  assumes wf: "store_wf db" and id: "distinct (map sv_ID new)" "sv_ID ` set new \<inter> sv_ID ` set (secret_values db) = {}"
    and key: "distinct (map sv_Key new)"
    and new: "\<And>s. s \<in> set new \<Longrightarrow> sv_ConfigID s = c \<and> sv_ValueVersion s = next_value_version db c (sv_Key s)"
    and c: "c \<in> c_ID ` set (configs db)"
  shows "store_wf (db\<lparr>secret_values := secret_values db @ new\<rparr>)"
proof -
  let ?db = "db\<lparr>secret_values := secret_values db @ new\<rparr>"
  have old: "hierarchy_ok db" "versions_ok db" "values_ok db" "manifest_ok db" "keks_ok db"
    using wf by (auto simp: store_wf_def)
  let ?k = "\<lambda>s. (sv_ConfigID s, sv_Key s, sv_ValueVersion s)"
  have "?k s \<noteq> ?k t" if "s \<in> set new" "t \<in> set (secret_values db)" for s t
    using next_value_version_gt [OF that(2), of c "sv_Key s"] new [OF that(1)] by auto
  then have "?k ` set (secret_values db) \<inter> ?k ` set new = {}" by fastforce
  moreover have "distinct (map ?k new)" using key by (auto simp: distinct_map inj_on_def)
  ultimately have "values_ok ?db"
    using old(3) id new c next_value_version_pos [of db c] by (auto simp: values_ok_def)
  moreover have "entry_ok ?db n" if "n \<in> set (config_version_entries db)" for n
    by (rule entry_ok_mono [of db n]) (use old(4) that in \<open>auto simp: manifest_ok_def\<close>)
  ultimately show ?thesis
    using old by (simp add: store_wf_def hierarchy_ok_def versions_ok_def manifest_ok_def keks_ok_def)
qed

text \<open>Two databases with the same versions and manifests, whose values agree where a manifest points, show the same states.\<close>

lemma view_cong:
  assumes wf: "store_wf db" "store_wf db'" and same: "config_versions db' = config_versions db"
      "config_version_entries db' = config_version_entries db"
    and vals: "\<And>n s. n \<in> set (config_version_entries db) \<Longrightarrow> en_ValueID n = Some (sv_ID s) \<Longrightarrow>
      s \<in> set (secret_values db') \<longleftrightarrow> s \<in> set (secret_values db)"
  shows "view db' c v = view db c v"
proof -
  have ok: "versions_ok db" "values_ok db" "manifest_ok db" "versions_ok db'" "values_ok db'" "manifest_ok db'"
    using wf by (auto simp: store_wf_def)
  have "state_of db' i k = Some s \<longleftrightarrow> state_of db i k = Some s" for i k s
    using vals by (auto simp: state_of_iff [OF ok(2,3)] state_of_iff [OF ok(5,6)] same)
  then have "state_of db' i = state_of db i" for i by (intro map_eqI)
  then have "view db' c v = Some st \<longleftrightarrow> view db c v = Some st" for st
    by (simp add: view_Some [OF ok(1)] view_Some [OF ok(4)] same)
  then show ?thesis by (intro option_eqI)
qed

lemma view_append:
  assumes wf: "store_wf db" "store_wf (db\<lparr>secret_values := secret_values db @ new\<rparr>)"
  shows "view (db\<lparr>secret_values := secret_values db @ new\<rparr>) c v = view db c v"
proof (rule view_cong [OF wf])
  fix n and s :: SecretValue
  assume n: "n \<in> set (config_version_entries db)" "en_ValueID n = Some (sv_ID s)"
  then have "entry_ok db n" using wf(1) by (auto simp: store_wf_def manifest_ok_def)
  then obtain t where t: "t \<in> set (secret_values db)" "sv_ID t = sv_ID s" using n(2) by (auto simp: entry_ok_def)
  have "values_ok (db\<lparr>secret_values := secret_values db @ new\<rparr>)" using wf(2) by (simp add: store_wf_def)
  from value_unique [OF this, of t s] t
  show "s \<in> set (secret_values (db\<lparr>secret_values := secret_values db @ new\<rparr>)) \<longleftrightarrow> s \<in> set (secret_values db)" by auto
qed simp_all

subsection \<open>The state a save starts from\<close>

definition latest_state :: "secret_db \<Rightarrow> string \<Rightarrow> string \<rightharpoonup> SecretValue" where
  "latest_state db c = (case view db c (max_version db c) of None \<Rightarrow> Map.empty | Some st \<Rightarrow> st)"

lemma view_latest:
  assumes "store_wf db" "max_version db c \<noteq> 0"
  shows "view db c (max_version db c) = Some (latest_state db c)"
proof -
  have ok: "versions_ok db" using assms by (simp add: store_wf_def)
  obtain cv where "cv \<in> set (config_versions db)" "cv_ConfigID cv = c" "cv_Version cv = max_version db c"
    using max_version_in [OF assms(2)] by blast
  then have "view db c (max_version db c) = Some (state_of db (cv_ID cv))" using view_Some [OF ok] by blast
  then show ?thesis by (simp add: latest_state_def)
qed

lemma no_version_zero:
  assumes "store_wf db"
  shows "view db c 0 = None"
proof (rule ccontr)
  assume "view db c 0 \<noteq> None"
  then obtain st where "view db c 0 = Some st" by auto
  moreover have ok: "versions_ok db" using assms by (simp add: store_wf_def)
  ultimately show False unfolding view_Some [OF ok] using ok by (auto simp: versions_ok_def)
qed

lemma view_values:
  "store_wf db \<Longrightarrow> view db c v = Some st \<Longrightarrow> st k = Some s \<Longrightarrow> s \<in> set (secret_values db) \<and> sv_Key s = k \<and> sv_ConfigID s = c"
proof -
  assume wf: "store_wf db" and v: "view db c v = Some st" and s: "st k = Some s"
  have ok: "versions_ok db" "values_ok db" "manifest_ok db" using wf by (auto simp: store_wf_def)
  obtain cv where cv: "cv \<in> set (config_versions db)" "cv_ConfigID cv = c" "st = state_of db (cv_ID cv)"
    using v by (auto simp: view_Some [OF ok(1)])
  obtain n where n: "n \<in> set (config_version_entries db)" "en_VersionID n = cv_ID cv" "en_Key n = k" "en_ValueID n = Some (sv_ID s)"
    and s': "s \<in> set (secret_values db)"
    using s cv(3) by (auto simp: state_of_iff [OF ok(2,3)])
  have "entry_ok db n" using ok(3) n(1) by (simp add: manifest_ok_def)
  then obtain w t where "w \<in> set (config_versions db)" "cv_ID w = cv_ID cv"
    "t \<in> set (secret_values db)" "sv_ID t = sv_ID s" "sv_Key t = k" "sv_ConfigID t = cv_ConfigID w"
    using n by (auto simp: entry_ok_def)
  moreover have "w = cv" using version_id_unique [OF ok(1)] calculation cv(1) by blast
  ultimately show ?thesis using value_unique [OF ok(2), of t s] s' cv(2) by auto
qed

lemma latest_state_values:
  "store_wf db \<Longrightarrow> latest_state db c k = Some s \<Longrightarrow> s \<in> set (secret_values db) \<and> sv_Key s = k \<and> sv_ConfigID s = c"
  using view_values [of db c "max_version db c"] by (auto simp: latest_state_def split: option.splits)

definition start_pointers :: "secret_db \<Rightarrow> string \<Rightarrow> (string \<times> string) list" where
  "start_pointers db c = (if max_version db c > 0 then livePointers db c (max_version db c) else [])"

lemma start_pointers_map:
  assumes "store_wf db"
  shows "map_of (start_pointers db c) k = map_option sv_ID (latest_state db c k)"
proof (cases "max_version db c = 0")
  case True
  then show ?thesis using no_version_zero [OF assms] by (simp add: start_pointers_def latest_state_def)
next
  case False
  then have "0 < max_version db c" using max_version_nonneg [of db c] by simp
  then show ?thesis using pointers_of_view [OF assms view_latest [OF assms False]] by (simp add: start_pointers_def)
qed

lemma livePointers_distinct:
  assumes "store_wf db"
  shows "distinct (map fst (livePointers db c v))"
proof -
  have ok: "versions_ok db" "manifest_ok db" using assms by (auto simp: store_wf_def)
  have "inj_on en_Key (set (entries_at db c v))"
    using entry_unique [OF ok(2)] version_unique [OF ok(1)] by (fastforce simp: inj_on_def entries_at_def)
  moreover have "distinct (entries_at db c v)"
    using ok(2) by (auto simp: entries_at_def manifest_ok_def distinct_map)
  ultimately have "distinct (map en_Key (filter (\<lambda>n. en_ValueID n \<noteq> None) (entries_at db c v)))"
    by (intro distinct_map_filter) (simp add: distinct_map)
  moreover have "map fst (concat (map (\<lambda>n. if en_ValueID n \<noteq> None then [(en_Key n, the (en_ValueID n))] else []) ns)) =
      map en_Key (filter (\<lambda>n. en_ValueID n \<noteq> None) ns)" for ns
    by (induction ns) auto
  ultimately show ?thesis unfolding livePointers_def by metis
qed

lemma start_pointers_distinct: "store_wf db \<Longrightarrow> distinct (map fst (start_pointers db c))"
  by (simp add: start_pointers_def livePointers_distinct)

subsection \<open>Saving\<close>

lemma net_change_dom: "net_change changes k \<noteq> None \<longleftrightarrow> k \<in> ch_Key ` set changes"
  unfolding net_change_def by (force simp: map_of_eq_None_iff)

lemma save_tx_Inr:
  assumes "save_tx c changes msg by fresh cvID order r now db = Inr ((cv, r'), db')"
  shows "\<exists>ptrs tombs db1. c \<in> c_ID ` set (configs db) \<and>
    apply_changes c (net_change changes) fresh now order (start_pointers db c) [] r db = Inr (ptrs, tombs, r', db1) \<and>
    cv = version_row cvID c (max_version db c + 1) msg by now \<and> cvID \<notin> cv_ID ` set (config_versions db1) \<and>
    db' = with_version db1 cv ptrs tombs"
proof -
  obtain ptrs tombs r1 db1 where a:
    "apply_changes c (net_change changes) fresh now order (start_pointers db c) [] r db = Inr (ptrs, tombs, r1, db1)"
    using assms by (auto simp: save_tx_def Let_def start_pointers_def split: option.splits sum.splits prod.splits if_splits)
  have "\<exists>x. cfg_Get db c = Inr x"
    using assms by (auto simp: save_tx_def lock_live_def split: option.splits sum.splits store_err.splits)
  then have "c \<in> c_ID ` set (configs db)" by (auto simp: cfg_Get_def dest!: one_row_Inr)
  with a show ?thesis using assms
    by (auto simp: save_tx_def Let_def start_pointers_def [symmetric] insert_version_def with_version_def version_row_def
        split: option.splits if_splits)
qed

text \<open>
  What a save leaves behind: the values it added, the state of the new version, and every other version
  as it was.
\<close>

definition saved :: "(string \<Rightarrow> 'e Change option) \<Rightarrow> (string \<Rightarrow> string) \<Rightarrow> string \<Rightarrow> int \<Rightarrow> secret_db \<Rightarrow> SecretValue list \<Rightarrow> (string \<rightharpoonup> SecretValue) \<Rightarrow> bool" where
  "saved final fresh c now db new st \<longleftrightarrow> (\<forall>s\<in>set new. written final fresh c now db s \<and> st (sv_Key s) = Some s) \<and>
     (\<forall>k. sets final k \<longrightarrow> (\<exists>s\<in>set new. sv_Key s = k)) \<and> (\<forall>k. deletes final k \<longrightarrow> st k = None) \<and>
     (\<forall>k. final k = None \<longrightarrow> st k = latest_state db c k)"

lemma written_simps:
  "written final fresh c now db s \<Longrightarrow> sv_ConfigID s = c \<and> sv_ID s = fresh (sv_Key s) \<and>
    sv_ValueVersion s = next_value_version db c (sv_Key s) \<and> sets final (sv_Key s)"
  unfolding written_def sets_def by (metis option.distinct(1) value_row_simps(1,2,4))

lemma sets_not_deletes: "sets final k \<Longrightarrow> \<not> deletes final k"
  by (auto simp: sets_def deletes_def)

lemma change_cases: "final k = None \<or> sets final k \<or> deletes final k"
  by (auto simp: sets_def deletes_def)

text \<open>The state the new manifest points at.\<close>

definition next_state :: "(string \<Rightarrow> 'e Change option) \<Rightarrow> SecretValue list \<Rightarrow> (string \<rightharpoonup> SecretValue) \<Rightarrow> string \<rightharpoonup> SecretValue" where
  "next_state final new old k = (if sets final k then map_of (map (\<lambda>s. (sv_Key s, s)) new) k
     else if deletes final k then None else old k)"

lemma batch_done_state:
  assumes wf: "store_wf db" and c: "c \<in> c_ID ` set (configs db)" and order: "distinct order" "dom final \<subseteq> set order"
    and b: "batch_done c final fresh now order (start_pointers db c) [] db ptrs tombs db1 new"
  shows "store_wf db1" "manifest_for db1 c ptrs tombs" "saved final fresh c now db new (next_state final new (latest_state db c))"
    "\<And>k. map_of ptrs k = map_option sv_ID (next_state final new (latest_state db c) k)"
    "\<And>k s. next_state final new (latest_state db c) k = Some s \<Longrightarrow> s \<in> set (secret_values db1)"
proof -
  let ?st = "next_state final new (latest_state db c)"
  have db1: "db1 = db\<lparr>secret_values := secret_values db @ new\<rparr>" and keys: "map sv_Key new = filter (sets final) order"
    and w: "\<And>s. s \<in> set new \<Longrightarrow> written final fresh c now db s"
    and dp: "distinct (map fst ptrs)" and tombs: "tombs = filter (\<lambda>k. deletes final k \<and> map_of (start_pointers db c) k \<noteq> None) order"
    and mp: "map_of ptrs = (\<lambda>k. if k \<in> set order \<and> sets final k then Some (fresh k)
       else if k \<in> set order \<and> deletes final k then None else map_of (start_pointers db c) k)"
    using b by (auto simp: batch_done_def)
  have dk: "distinct (map sv_Key new)" using keys order(1) by simp
  have in_order: "k \<in> set order" if "sets final k \<or> deletes final k" for k
    using that order(2) by (auto simp: sets_def deletes_def)
  have key_in: "sets final k \<longleftrightarrow> k \<in> sv_Key ` set new" for k
  proof -
    have "sv_Key ` set new = set (filter (sets final) order)" using keys by (metis list.set_map)
    then show ?thesis using in_order by auto
  qed
  have st_new: "?st (sv_Key s) = Some s" if "s \<in> set new" for s
  proof -
    have "map_of (map (\<lambda>s. (sv_Key s, s)) new) (sv_Key s) = Some s"
      by (rule map_of_is_SomeI) (use dk that in \<open>auto simp: comp_def\<close>)
    then show ?thesis using key_in [of "sv_Key s"] that by (auto simp: next_state_def)
  qed
  have ws: "sv_ConfigID s = c \<and> sv_ValueVersion s = next_value_version db c (sv_Key s)" if "s \<in> set new" for s
    using written_simps [OF w [OF that]] by simp
  have ids: "distinct (map sv_ID new)" "sv_ID ` set new \<inter> sv_ID ` set (secret_values db) = {}"
    using b by (simp_all only: batch_done_def)
  show "store_wf db1" unfolding db1 by (rule values_append [OF wf ids dk ws c])
  show sv: "saved final fresh c now db new ?st"
  proof -
    have "\<forall>k. sets final k \<longrightarrow> (\<exists>s\<in>set new. sv_Key s = k)" using key_in by auto
    moreover have "\<forall>k. deletes final k \<longrightarrow> ?st k = None" using sets_not_deletes by (auto simp: next_state_def)
    moreover have "\<forall>k. final k = None \<longrightarrow> ?st k = latest_state db c k" by (simp add: next_state_def sets_def deletes_def)
    ultimately show ?thesis using w st_new by (simp add: saved_def)
  qed
  show ptr: "map_of ptrs k = map_option sv_ID (?st k)" for k
  proof (cases "sets final k")
    case True
    then obtain s where s: "s \<in> set new" "sv_Key s = k" using key_in by auto
    then have "sv_ID s = fresh k" using written_simps [OF w [OF s(1)]] by simp
    then show ?thesis using st_new [OF s(1)] s(2) True in_order by (simp add: mp)
  next
    case False
    then show ?thesis using in_order start_pointers_map [OF wf, of c k] by (auto simp: mp next_state_def)
  qed
  show vals: "s \<in> set (secret_values db1)" if "?st k = Some s" for k s
    using that latest_state_values [OF wf, of c k s]
    by (auto simp: next_state_def db1 split: if_splits dest!: map_of_SomeD)
  have kc: "sv_Key s = k \<and> sv_ConfigID s = c" if "?st k = Some s" for k s
    using that latest_state_values [OF wf, of c k s] ws
    by (auto simp: next_state_def split: if_splits dest!: map_of_SomeD)
  have "\<exists>s\<in>set (secret_values db1). sv_ID s = i \<and> sv_Key s = k \<and> sv_ConfigID s = c" if "(k, i) \<in> set ptrs" for k i
  proof -
    have "map_option sv_ID (?st k) = Some i" using that dp ptr [of k] by (metis map_of_eq_Some_iff)
    then obtain s where "?st k = Some s" "sv_ID s = i" by auto
    then show ?thesis using vals kc by blast
  qed
  moreover have "k \<notin> fst ` set ptrs" if "k \<in> set tombs" for k
  proof -
    have "deletes final k" "k \<in> set order" using that by (auto simp: tombs)
    then have "map_of ptrs k = None" using sets_not_deletes [of final k] by (auto simp: mp)
    then show ?thesis by (simp only: map_of_eq_None_iff not_False_eq_True)
  qed
  moreover have "distinct tombs" using order(1) tombs by simp
  ultimately show "manifest_for db1 c ptrs tombs" using dp unfolding manifest_for_def by fastforce
qed

lemma version_row_simps [simp]:
  "cv_ID (version_row i c v m b n) = i" "cv_ConfigID (version_row i c v m b n) = c" "cv_Version (version_row i c v m b n) = v"
  by (simp_all add: version_row_def)

lemma fold_max_append: "fold max (xs @ [x]) a = max x (fold max xs a)" for a :: "'a::linorder"
  by simp

lemma max_version_with_version:
  "max_version (with_version db cv ptrs tombs) c = (if c = cv_ConfigID cv then max (cv_Version cv) (max_version db c) else max_version db c)"
  by (simp add: max_version_def versions_of_def)

lemma max_version_values [simp]: "max_version (db\<lparr>secret_values := svs\<rparr>) c = max_version db c"
  by (simp add: max_version_def versions_of_def)

lemma latest_state_view: "view db c (max_version db c) = Some st \<Longrightarrow> latest_state db c = st"
  by (simp add: latest_state_def)

lemma save_spec:
  assumes wf: "store_wf db" and order: "distinct order" "set order = ch_Key ` set changes"
    and save: "save_tx c changes msg by fresh cvID order r now db = Inr ((cv, r'), db')"
  shows "store_wf db'"
    "\<exists>new ptrs tombs. saved (net_change changes) fresh c now db new (latest_state db' c) \<and>
      db' = with_version (db\<lparr>secret_values := secret_values db @ new\<rparr>) cv ptrs tombs"
    "cv = version_row cvID c (max_version db c + 1) msg by now" "max_version db' c = max_version db c + 1"
    "view db' c (max_version db c + 1) = Some (latest_state db' c)"
    "\<And>c' v. \<not> (c' = c \<and> v = max_version db c + 1) \<Longrightarrow> view db' c' v = view db c' v"
proof -
  obtain ptrs tombs db1 where c: "c \<in> c_ID ` set (configs db)"
    and a: "apply_changes c (net_change changes) fresh now order (start_pointers db c) [] r db = Inr (ptrs, tombs, r', db1)"
    and cv: "cv = version_row cvID c (max_version db c + 1) msg by now" and id: "cvID \<notin> cv_ID ` set (config_versions db1)"
    and db': "db' = with_version db1 cv ptrs tombs"
    using save_tx_Inr [OF save] by blast
  obtain new where b: "batch_done c (net_change changes) fresh now order (start_pointers db c) [] db ptrs tombs db1 new"
    using apply_changes_Inr [OF order(1) start_pointers_distinct [OF wf] a] by blast
  have dom: "dom (net_change changes) \<subseteq> set order" using order(2) by (auto simp: net_change_dom [symmetric])
  note st = batch_done_state [OF wf c order(1) dom b]
  have db1: "db1 = db\<lparr>secret_values := secret_values db @ new\<rparr>" using b by (simp add: batch_done_def)
  have mv: "max_version db1 c' = max_version db c'" for c' by (simp add: db1)
  show wf': "store_wf db'" unfolding db'
    by (rule with_version_wf [OF st(1)]) (use id c st(2) in \<open>simp_all add: cv mv\<close>, simp add: db1)
  show "cv = version_row cvID c (max_version db c + 1) msg by now" by (rule cv)
  show m: "max_version db' c = max_version db c + 1"
    by (simp add: db' max_version_with_version mv cv)
  have "distinct (map fst ptrs)" using st(2) by (simp add: manifest_for_def)
  then have "view db' c (max_version db c + 1) = Some (next_state (net_change changes) new (latest_state db c))"
    using view_new [OF st(1) wf' [unfolded db'] st(4,5)] by (simp add: db' cv)
  then show v: "view db' c (max_version db c + 1) = Some (latest_state db' c)"
    "\<exists>new ptrs tombs. saved (net_change changes) fresh c now db new (latest_state db' c) \<and>
      db' = with_version (db\<lparr>secret_values := secret_values db @ new\<rparr>) cv ptrs tombs"
    using latest_state_view [of db' c] m st(3) db' db1 by auto
  fix c' v' assume "\<not> (c' = c \<and> v' = max_version db c + 1)"
  then have "\<not> (c' = cv_ConfigID cv \<and> v' = cv_Version cv)" by (auto simp: cv)
  then have "view db' c' v' = view db1 c' v'"
    unfolding db' by (rule view_old [OF st(1) wf' [unfolded db']])
  then show "view db' c' v' = view db c' v'" using view_append [OF wf st(1) [unfolded db1]] by (simp add: db1)
qed

subsection \<open>Rolling back\<close>

lemma rollback_tx_Inr:
  assumes "rollback_tx c v msg by cvID now db = Inr (cv, db')"
  shows "c \<in> c_ID ` set (configs db) \<and> cv = version_row cvID c (max_version db c + 1) msg by now \<and>
    cvID \<notin> cv_ID ` set (config_versions db) \<and> (\<exists>w\<in>set (config_versions db). cv_ConfigID w = c \<and> cv_Version w = v) \<and>
    db' = with_version db cv (livePointers db c v)
      [k \<leftarrow> map fst (livePointers db c (max_version db c)). map_of (livePointers db c v) k = None]"
proof -
  have "\<exists>x. cfg_Get db c = Inr x"
    using assms by (auto simp: rollback_tx_def lock_live_def split: option.splits sum.splits store_err.splits)
  then have "c \<in> c_ID ` set (configs db)" by (auto simp: cfg_Get_def dest!: one_row_Inr)
  moreover obtain w where "one_row (\<lambda>w. cv_ConfigID w = c \<and> cv_Version w = v) (config_versions db) = Inr w"
    using assms by (auto simp: rollback_tx_def Let_def bind_err_Inr split: option.splits if_splits)
  ultimately show ?thesis using assms
    by (auto simp: rollback_tx_def Let_def bind_err_Inr insert_version_def with_version_def dest: one_row_Inr
        split: option.splits if_splits)
qed

lemma rollback_spec:
  assumes wf: "store_wf db" and rb: "rollback_tx c v msg by cvID now db = Inr (cv, db')"
  shows "store_wf db'" "max_version db' c = max_version db c + 1" "view db c v \<noteq> None"
    "view db' c (max_version db c + 1) = view db c v" "secret_values db' = secret_values db"
    "\<And>c' v'. \<not> (c' = c \<and> v' = max_version db c + 1) \<Longrightarrow> view db' c' v' = view db c' v'"
proof -
  let ?ptrs = "livePointers db c v" and ?tombs = "[k \<leftarrow> map fst (livePointers db c (max_version db c)). map_of (livePointers db c v) k = None]"
  have c: "c \<in> c_ID ` set (configs db)" and cv: "cv = version_row cvID c (max_version db c + 1) msg by now"
    and id: "cvID \<notin> cv_ID ` set (config_versions db)" and w: "\<exists>w\<in>set (config_versions db). cv_ConfigID w = c \<and> cv_Version w = v"
    and db': "db' = with_version db cv ?ptrs ?tombs"
    using rollback_tx_Inr [OF rb] by blast+
  have "versions_ok db" using wf by (simp add: store_wf_def)
  then obtain st where st: "view db c v = Some st" using w view_Some [of db c v] by blast
  then show "view db c v \<noteq> None" by simp
  have ptr: "map_of ?ptrs k = map_option sv_ID (st k)" for k using pointers_of_view [OF wf st] by simp
  have vals: "st k = Some s \<Longrightarrow> s \<in> set (secret_values db) \<and> sv_Key s = k \<and> sv_ConfigID s = c" for k s
    using view_values [OF wf st] by blast
  have dp: "distinct (map fst ?ptrs)" "distinct ?tombs"
    using livePointers_distinct [OF wf] by (simp_all only: distinct_filter)
  have "\<exists>s\<in>set (secret_values db). sv_ID s = i \<and> sv_Key s = k \<and> sv_ConfigID s = c" if "(k, i) \<in> set ?ptrs" for k i
  proof -
    have "map_option sv_ID (st k) = Some i" using that dp(1) ptr [of k] by (metis map_of_eq_Some_iff)
    then show ?thesis using vals by auto
  qed
  moreover have "set (map fst ?ptrs) \<inter> set ?tombs = {}" by (auto simp: map_of_eq_None_iff)
  ultimately have m: "manifest_for db c ?ptrs ?tombs" using dp unfolding manifest_for_def distinct_append by blast
  show wf': "store_wf db'" unfolding db' by (rule with_version_wf [OF wf]) (use id c m in \<open>simp_all add: cv\<close>)
  show "max_version db' c = max_version db c + 1" "secret_values db' = secret_values db"
    by (simp_all add: db' max_version_with_version cv)
  show "view db' c (max_version db c + 1) = view db c v"
    using view_new [OF wf wf' [unfolded db'] ptr _ dp(1)] vals by (simp add: db' cv st)
  fix c' v' assume "\<not> (c' = c \<and> v' = max_version db c + 1)"
  then show "view db' c' v' = view db c' v'"
    unfolding db' by (intro view_old [OF wf wf' [unfolded db']]) (simp add: cv)
qed

section \<open>An example database\<close>

text \<open>One config with two versions: the first holds a value of a key, the second a newer one.\<close>

definition example_value :: "string \<Rightarrow> int \<Rightarrow> SecretValue" where
  "example_value i vv = value_row i ''c'' ''K'' vv ''''
     \<lparr>WrappedDEK = [], ev_Ciphertext = [], ev_Nonce = [], DEKKeyVersion = 1\<rparr> vv"

definition example_db :: secret_db where
  "example_db = \<lparr>
     projects = [\<lparr>p_ID = ''p'', p_Slug = ''shop'', p_Name = '''', p_WrappedKEK = [], p_KEKVersion = 1, p_Owner = None,
       p_CreatedAt = 0, p_UpdatedAt = 0, p_DeletedAt = None\<rparr>],
     environments = [\<lparr>e_ID = ''e'', e_ProjectID = ''p'', e_Slug = ''dev'', e_Name = '''', e_RequireApproval = False,
       e_CreatedAt = 0, e_UpdatedAt = 0, e_DeletedAt = None\<rparr>],
     configs = [\<lparr>c_ID = ''c'', c_EnvironmentID = ''e'', c_Name = ''api'', c_InheritsFrom = None, c_RequireApproval = False,
       c_CreatedAt = 0, c_UpdatedAt = 0, c_DeletedAt = None\<rparr>],
     config_versions = [version_row ''v1'' ''c'' 1 '''' '''' 1, version_row ''v2'' ''c'' 2 '''' '''' 2],
     secret_values = [example_value ''s1'' 1, example_value ''s2'' 2],
     config_version_entries = [live_entry ''v1'' (''K'', ''s1''), live_entry ''v2'' (''K'', ''s2'')],
     project_kek_versions = [], config_edit_requests = [], promotion_requests = [],
     promotion_pipeline_steps = [], config_locked_keys = [], config_version_retention = []\<rparr>"

lemma example_db_wf: "store_wf example_db"
  by (simp add: store_wf_def hierarchy_ok_def versions_ok_def values_ok_def manifest_ok_def entry_ok_def keks_ok_def
      example_db_def example_value_def)

end
