(* ===== verification/Kek_Versions.thy ===== *)
theory Kek_Versions
  imports Secret_Store
begin

section \<open>Superseded project keys\<close>

text \<open>\<^verbatim>\<open>project_kek_versions.go\<close> and \<^verbatim>\<open>secrets_rewrap.go\<close>.\<close>

definition GetWrapped :: "secret_db \<Rightarrow> string \<Rightarrow> int \<Rightarrow> store_err + bytes" where
  "GetWrapped db projectID version = bind_err
    (one_row (\<lambda>k. kv_ProjectID k = projectID \<and> kv_Version k = version) (project_kek_versions db)) (\<lambda>k. Inr (kv_Wrapped k))"

text \<open>The join of configs with environments, which decides the project a config belongs to.\<close>

definition in_project :: "secret_db \<Rightarrow> string \<Rightarrow> string \<Rightarrow> bool" where
  "in_project db projectID configID \<longleftrightarrow> (\<exists>c\<in>set (configs db). c_ID c = configID \<and>
     (\<exists>e\<in>set (environments db). e_ID e = c_EnvironmentID c \<and> e_ProjectID e = projectID))"

definition dek_refs :: "secret_db \<Rightarrow> string \<Rightarrow> int \<Rightarrow> SecretValue list" where
  "dek_refs db projectID version =
    filter (\<lambda>sv. in_project db projectID (sv_ConfigID sv) \<and> DEKKeyVersion (sv_Enc sv) = version) (secret_values db)"

record PendingVersion =
  pv_Version :: int
  pv_DEKCount :: nat

definition ListPending :: "secret_db \<Rightarrow> string \<Rightarrow> PendingVersion list" where
  "ListPending db projectID =
    map (\<lambda>k. \<lparr>pv_Version = kv_Version k, pv_DEKCount = length (dek_refs db projectID (kv_Version k))\<rparr>)
      (sort_key kv_Version (filter (\<lambda>k. kv_ProjectID k = projectID) (project_kek_versions db)))"

definition edit_refs :: "secret_db \<Rightarrow> string \<Rightarrow> int \<Rightarrow> ConfigEditRequest list" where
  "edit_refs db projectID version =
    filter (\<lambda>r. in_project db projectID (er_ConfigID r) \<and> er_Status r \<in> {''pending'', ''applying''} \<and>
      er_DEKKeyVersion r = version) (config_edit_requests db)"

definition retirable :: "secret_db \<Rightarrow> string \<Rightarrow> kek_row \<Rightarrow> bool" where
  "retirable db projectID k \<longleftrightarrow> kv_ProjectID k = projectID \<and>
     dek_refs db projectID (kv_Version k) = [] \<and> edit_refs db projectID (kv_Version k) = []"

definition DeleteEmpty :: "string \<Rightarrow> secret_db \<Rightarrow> int list \<times> secret_db" where
  "DeleteEmpty projectID db =
    (map kv_Version (filter (retirable db projectID) (project_kek_versions db)),
     db\<lparr>project_kek_versions := filter (\<lambda>k. \<not> retirable db projectID k) (project_kek_versions db)\<rparr>)"

record RewrapRow =
  rw_ID :: string
  rw_ConfigID :: string
  rw_Key :: string
  rw_ValueVersion :: int
  rw_WrappedDEK :: bytes
  rw_DEKKeyVersion :: int

definition rewrap_row :: "SecretValue \<Rightarrow> RewrapRow" where
  "rewrap_row sv = \<lparr>rw_ID = sv_ID sv, rw_ConfigID = sv_ConfigID sv, rw_Key = sv_Key sv, rw_ValueVersion = sv_ValueVersion sv,
     rw_WrappedDEK = WrappedDEK (sv_Enc sv), rw_DEKKeyVersion = DEKKeyVersion (sv_Enc sv)\<rparr>"

definition rewrap_select :: "secret_db \<Rightarrow> string \<Rightarrow> int \<Rightarrow> string \<Rightarrow> int \<Rightarrow> RewrapRow list" where
  "rewrap_select db projectID latest cursor limit = map rewrap_row (take (nat limit) (sort_key sv_ID
     (filter (\<lambda>sv. in_project db projectID (sv_ConfigID sv) \<and> DEKKeyVersion (sv_Enc sv) < latest \<and>
        (cursor = '''' \<or> cursor < sv_ID sv)) (secret_values db))))"

definition set_dek :: "int \<Rightarrow> bytes \<Rightarrow> SecretValue \<Rightarrow> SecretValue" where
  "set_dek latest w sv = sv\<lparr>sv_Enc := (sv_Enc sv)\<lparr>WrappedDEK := w, DEKKeyVersion := latest\<rparr>\<rparr>"

text \<open>The callback re-wraps one row; \<open>'c\<close> is what it keeps between rows (its key cache and the random source).\<close>

fun rewrap_rows :: "('c \<Rightarrow> RewrapRow \<Rightarrow> 'e + (bytes \<times> 'c)) \<Rightarrow> int \<Rightarrow> RewrapRow list \<Rightarrow> 'c \<Rightarrow> secret_db \<Rightarrow> 'e tx_err + ('c \<times> secret_db)" where
  "rewrap_rows rewrap latest [] c db = Inr (c, db)"
| "rewrap_rows rewrap latest (rr # rrs) c db =
    (case rewrap c rr of
       Inl e \<Rightarrow> Inl (FromCaller e)
     | Inr (newWrapped, c') \<Rightarrow>
       let (n, t) = update_rows (\<lambda>sv. sv_ID sv = rw_ID rr) (set_dek latest newWrapped) (secret_values db)
       in if n \<noteq> 1 then Inl (FromStore ErrNotFound)
          else rewrap_rows rewrap latest rrs c' (db\<lparr>secret_values := t\<rparr>))"

definition batch_limit :: "int \<Rightarrow> int" where
  "batch_limit limit = (if limit \<le> 0 \<or> limit > 500 then 200 else limit)"

definition RewrapBatch :: "'e tx_err option \<Rightarrow> string \<Rightarrow> int \<Rightarrow> string \<Rightarrow> int \<Rightarrow> ('c \<Rightarrow> RewrapRow \<Rightarrow> 'e + (bytes \<times> 'c)) \<Rightarrow> 'c \<Rightarrow> secret_db \<Rightarrow>
    ('e tx_err + (nat \<times> string \<times> 'c)) \<times> secret_db" where
  "RewrapBatch commit projectID latest cursor limit rewrap c db =
    (let lim = batch_limit limit; batch = rewrap_select db projectID latest cursor lim in
     withTx commit (\<lambda>db. bind_err (rewrap_rows rewrap latest batch c db) (\<lambda>(c', db').
       let processed = length batch;
           next = (if int processed < lim then '''' else rw_ID (last batch))
       in Inr ((processed, next, c'), db'))) db)"

end
