(* ===== verification/Version_Prune.thy ===== *)
theory Version_Prune
  imports Secret_Store
begin

section \<open>Pruning and retention\<close>

text \<open>
  \<^verbatim>\<open>version_retention.go\<close> and \<^verbatim>\<open>version_prune.go\<close>. A dry run stages the deletes in the transaction and
  rolls it back. \<^verbatim>\<open>make_interval(days => n)\<close> subtracts \<open>n\<close> days of 24 hours, as it does for a session in
  UTC. Deleting a value cascades to the entries that point at it.
\<close>

definition ret_Get :: "secret_db \<Rightarrow> string \<Rightarrow> VersionRetention" where
  "ret_Get db configID = (case map_of (config_version_retention db) configID of
      Some r \<Rightarrow> r | None \<Rightarrow> \<lparr>MinVersions = None, MinDays = None\<rparr>)"

definition ret_Set :: "string \<Rightarrow> VersionRetention \<Rightarrow> secret_db \<Rightarrow> store_err + secret_db" where
  "ret_Set configID ret db =
    (if configID \<notin> c_ID ` set (configs db) then Inl (mapError fk_violation)
     else if (MinVersions ret = None \<and> MinDays ret = None) \<or> (\<exists>n\<in>set_option (MinVersions ret) \<union> set_option (MinDays ret). n < 1)
       then Inl (mapError (PgError ''23514''))
     else Inr (db\<lparr>config_version_retention := AList.update configID ret (config_version_retention db)\<rparr>))"

definition ret_Clear :: "string \<Rightarrow> secret_db \<Rightarrow> secret_db" where
  "ret_Clear configID db = db\<lparr>config_version_retention := AList.delete configID (config_version_retention db)\<rparr>"

record PrunePlan =
  KeepVersions :: int
  KeepDays :: int
  DryRun :: bool

record PruneResult =
  prr_ConfigID :: string
  LatestVersion :: int
  prr_KeepVersions :: int
  prr_KeepDays :: int
  PrunedVersions :: "int list"
  PinnedVersions :: "int list"
  DeletedVersions :: nat
  DeletedValues :: nat
  RetainedVersions :: nat
  prr_DryRun :: bool

datatype prune_err = PruneStore store_err | ErrPruneBlocked | ErrPruneOrphans

definition day_ns :: int where
  "day_ns = 86400000000000"

definition kept_by_rule :: "int \<Rightarrow> int \<Rightarrow> int \<Rightarrow> nat \<times> ConfigVersion \<Rightarrow> bool" where
  "kept_by_rule keepVersions keepDays now iv \<longleftrightarrow> int (fst iv) < keepVersions \<or>
     (keepDays > 0 \<and> \<not> cv_CreatedAt (snd iv) < now - keepDays * day_ns)"

definition pinned_versions :: "secret_db \<Rightarrow> string \<Rightarrow> int set" where
  "pinned_versions db configID = pr_SourceVersion ` set (filter (\<lambda>r. pr_SourceConfigID r = configID \<and> pr_Status r = ''pending'')
     (promotion_requests db))"

definition delete_versions :: "string set \<Rightarrow> secret_db \<Rightarrow> secret_db" where
  "delete_versions ids db = db\<lparr>config_versions := filter (\<lambda>v. cv_ID v \<notin> ids) (config_versions db),
     config_version_entries := filter (\<lambda>n. en_VersionID n \<notin> ids) (config_version_entries db)\<rparr>"

definition unreferenced :: "secret_db \<Rightarrow> string \<Rightarrow> SecretValue \<Rightarrow> bool" where
  "unreferenced db configID sv \<longleftrightarrow> sv_ConfigID sv = configID \<and>
     (\<forall>n\<in>set (config_version_entries db). en_ValueID n \<noteq> Some (sv_ID sv))"

definition gc_values :: "string \<Rightarrow> secret_db \<Rightarrow> secret_db" where
  "gc_values configID db = (let gone = sv_ID ` set (filter (unreferenced db configID) (secret_values db)) in
     db\<lparr>secret_values := filter (\<lambda>sv. \<not> unreferenced db configID sv) (secret_values db),
        config_version_entries := filter (\<lambda>n. set_option (en_ValueID n) \<inter> gone = {}) (config_version_entries db)\<rparr>)"

definition live_entries :: "secret_db \<Rightarrow> string set \<Rightarrow> nat" where
  "live_entries db ids = length (filter (\<lambda>n. en_VersionID n \<in> ids \<and> en_ValueID n \<noteq> None) (config_version_entries db))"

text \<open>The versions of the config, newest first, and the loop that partitions them.\<close>

definition newest_versions :: "secret_db \<Rightarrow> string \<Rightarrow> ConfigVersion list" where
  "newest_versions db configID = rev (sort_key cv_Version (versions_of db configID))"

definition is_prunable :: "secret_db \<Rightarrow> string \<Rightarrow> int \<Rightarrow> int \<Rightarrow> int \<Rightarrow> nat \<times> ConfigVersion \<Rightarrow> bool" where
  "is_prunable db configID keepVersions keepDays now iv \<longleftrightarrow>
     \<not> kept_by_rule keepVersions keepDays now iv \<and> cv_Version (snd iv) \<notin> pinned_versions db configID"

definition prunable_versions :: "secret_db \<Rightarrow> string \<Rightarrow> int \<Rightarrow> int \<Rightarrow> int \<Rightarrow> ConfigVersion list" where
  "prunable_versions db configID keepVersions keepDays now =
    map snd (filter (is_prunable db configID keepVersions keepDays now) (enumerate 0 (newest_versions db configID)))"

definition surviving_versions :: "secret_db \<Rightarrow> string \<Rightarrow> int \<Rightarrow> int \<Rightarrow> int \<Rightarrow> ConfigVersion list" where
  "surviving_versions db configID keepVersions keepDays now =
    map snd (filter (\<lambda>iv. \<not> is_prunable db configID keepVersions keepDays now iv) (enumerate 0 (newest_versions db configID)))"

definition only_pinned :: "secret_db \<Rightarrow> string \<Rightarrow> int \<Rightarrow> int \<Rightarrow> int \<Rightarrow> ConfigVersion list" where
  "only_pinned db configID keepVersions keepDays now =
    map snd (filter (\<lambda>iv. \<not> kept_by_rule keepVersions keepDays now iv \<and> cv_Version (snd iv) \<in> pinned_versions db configID)
      (enumerate 0 (newest_versions db configID)))"

definition prune_tx :: "string \<Rightarrow> int \<Rightarrow> int \<Rightarrow> bool \<Rightarrow> int \<Rightarrow> secret_db \<Rightarrow> prune_err + (PruneResult \<times> secret_db)" where
  "prune_tx configID keepVersions keepDays dry now db =
    (case lock_live db configID of
       Some e \<Rightarrow> Inl (PruneStore e)
     | None \<Rightarrow>
       if \<exists>r\<in>set (config_edit_requests db). er_ConfigID r = configID \<and> er_Status r \<in> {''pending'', ''applying''}
       then Inl ErrPruneBlocked
       else
         let every = newest_versions db configID;
             prunable = prunable_versions db configID keepVersions keepDays now;
             surviving = surviving_versions db configID keepVersions keepDays now;
             res = \<lparr>prr_ConfigID = configID, LatestVersion = (case every of [] \<Rightarrow> 0 | v # _ \<Rightarrow> cv_Version v),
               prr_KeepVersions = keepVersions, prr_KeepDays = keepDays, PrunedVersions = rev (map cv_Version prunable),
               PinnedVersions = rev (map cv_Version (only_pinned db configID keepVersions keepDays now)), DeletedVersions = 0, DeletedValues = 0,
               RetainedVersions = length surviving, prr_DryRun = dry\<rparr>
         in if every = [] then Inl (PruneStore ErrNotFound)
            else if prunable = [] then Inr (res, db)
            else
              let before = live_entries db (cv_ID ` set surviving);
                  db1 = delete_versions (cv_ID ` set prunable) db;
                  db2 = gc_values configID db1;
                  after = live_entries db2 (cv_ID ` set surviving)
              in if after \<noteq> before then Inl ErrPruneOrphans
                 else Inr (res\<lparr>DeletedVersions := length (config_versions db) - length (config_versions db1),
                               DeletedValues := length (secret_values db1) - length (secret_values db2)\<rparr>, db2))"

definition PruneConfigVersions :: "store_err option \<Rightarrow> string \<Rightarrow> PrunePlan \<Rightarrow> int \<Rightarrow> secret_db \<Rightarrow> (prune_err + PruneResult) \<times> secret_db" where
  "PruneConfigVersions commit configID plan now db =
    (let keepVersions = (if KeepVersions plan < 1 then 1 else KeepVersions plan);
         keepDays = (if KeepDays plan < 0 then 0 else KeepDays plan);
         body = prune_tx configID keepVersions keepDays (DryRun plan) now in
     if DryRun plan then (case body db of Inl e \<Rightarrow> (Inl e, db) | Inr (res, _) \<Rightarrow> (Inr res, db))
     else withTx (map_option PruneStore commit) body db)"

subsection \<open>Which versions a prune removes\<close>

text \<open>A version is removed when enough newer ones exist, it is old enough and no pending promotion reads it.\<close>

definition newer :: "secret_db \<Rightarrow> string \<Rightarrow> int \<Rightarrow> nat" where
  "newer db c v = length (filter (\<lambda>w. v < cv_Version w) (versions_of db c))"

definition expendable :: "secret_db \<Rightarrow> string \<Rightarrow> int \<Rightarrow> int \<Rightarrow> int \<Rightarrow> ConfigVersion \<Rightarrow> bool" where
  "expendable db c keepVersions keepDays now w \<longleftrightarrow> cv_ConfigID w = c \<and> keepVersions \<le> int (newer db c (cv_Version w)) \<and>
     (keepDays > 0 \<longrightarrow> cv_CreatedAt w < now - keepDays * day_ns) \<and> cv_Version w \<notin> pinned_versions db c"

lemma enumerate_descending:
  fixes f :: "'a \<Rightarrow> int"
  assumes "sorted_wrt (\<lambda>x y. f y < f x) xs"
  shows "(i, x) \<in> set (enumerate 0 xs) \<longleftrightarrow> x \<in> set xs \<and> i = length (filter (\<lambda>y. f x < f y) xs)"
  using assms
proof (induction xs rule: rev_induct)
  case (snoc z xs)
  have xs: "sorted_wrt (\<lambda>x y. f y < f x) xs" and z: "\<forall>y\<in>set xs. f z < f y"
    using snoc.prems by (auto simp: sorted_wrt_append)
  have "filter (\<lambda>y. f z < f y) xs = xs" using z by (auto simp: filter_id_conv)
  then show ?case using snoc.IH [OF xs] z by (auto simp: enumerate_append_eq)
qed simp


lemma descending_sorted:
  assumes "versions_ok db"
  shows "sorted_wrt (\<lambda>v w. cv_Version w < cv_Version v) (newest_versions db c)"
proof -
  have "distinct (map (\<lambda>v. (cv_ConfigID v, cv_Version v)) (versions_of db c))"
    using assms unfolding versions_of_def versions_ok_def by (simp add: distinct_map_filter)
  then have "distinct (map cv_Version (versions_of db c))"
    by (auto simp: distinct_map inj_on_def versions_of_def)
  then have "distinct (map cv_Version (sort_key cv_Version (versions_of db c)))"
    by (simp add: distinct_map)
  then have "sorted_wrt (<) (map cv_Version (sort_key cv_Version (versions_of db c)))"
    using sorted_sort_key [of cv_Version "versions_of db c"] by (simp only: strict_sorted_iff)
  then have "sorted_wrt (\<lambda>v w. cv_Version v < cv_Version w) (sort_key cv_Version (versions_of db c))"
    by (simp only: sorted_wrt_map)
  then show ?thesis by (simp add: newest_versions_def sorted_wrt_rev)
qed

lemma length_filter_descending: "length (filter P (newest_versions db c)) = length (filter P (versions_of db c))"
  unfolding newest_versions_def by (simp add: rev_filter [symmetric] filter_sort)

lemma indexed_iff:
  assumes "versions_ok db"
  shows "(i, w) \<in> set (enumerate 0 (newest_versions db c)) \<longleftrightarrow> w \<in> set (versions_of db c) \<and> i = newer db c (cv_Version w)"
  using enumerate_descending [OF descending_sorted [OF assms], of i w c]
  by (simp add: newer_def length_filter_descending) (simp add: newest_versions_def)

subsection \<open>What a prune keeps\<close>

text \<open>The database after the deletes of a prune that removes the versions \<open>ids\<close> of config \<open>c\<close>.\<close>

definition pruned :: "string \<Rightarrow> string set \<Rightarrow> secret_db \<Rightarrow> secret_db" where
  "pruned c ids db = gc_values c (delete_versions ids db)"

lemma gc_entries: "config_version_entries (gc_values c db) = config_version_entries db"
  by (auto simp: gc_values_def Let_def filter_id_conv unreferenced_def)

lemma pruned_entries:
  "config_version_entries (pruned c ids db) = filter (\<lambda>n. en_VersionID n \<notin> ids) (config_version_entries db)"
  unfolding pruned_def gc_entries by (simp add: delete_versions_def)

lemma pruned_simps:
  "config_versions (pruned c ids db) = filter (\<lambda>v. cv_ID v \<notin> ids) (config_versions db)"
  "secret_values (pruned c ids db) = filter (\<lambda>s. \<not> unreferenced (delete_versions ids db) c s) (secret_values db)"
  "projects (pruned c ids db) = projects db" "environments (pruned c ids db) = environments db"
  "configs (pruned c ids db) = configs db" "project_kek_versions (pruned c ids db) = project_kek_versions db"
  by (simp_all add: pruned_def gc_values_def delete_versions_def Let_def)

lemma pruned_keeps_values:
  "n \<in> set (config_version_entries (pruned c ids db)) \<Longrightarrow> en_ValueID n = Some (sv_ID s) \<Longrightarrow>
    s \<in> set (secret_values (pruned c ids db)) \<longleftrightarrow> s \<in> set (secret_values db)"
  by (auto simp: pruned_entries pruned_simps unreferenced_def delete_versions_def)

lemma pruned_wf:
  assumes wf: "store_wf db"
  shows "store_wf (pruned c ids db)"
proof -
  let ?db = "pruned c ids db"
  have old: "hierarchy_ok db" "versions_ok db" "values_ok db" "manifest_ok db" "keks_ok db"
    using wf by (auto simp: store_wf_def)
  have "entry_ok ?db n" if n: "n \<in> set (config_version_entries ?db)" for n
  proof -
    have "n \<in> set (config_version_entries db)" and out: "en_VersionID n \<notin> ids" using n by (auto simp: pruned_entries)
    then have "entry_ok db n" using old(4) by (simp add: manifest_ok_def)
    then obtain v where v: "v \<in> set (config_versions db)" "cv_ID v = en_VersionID n"
      and s: "\<And>i. en_ValueID n = Some i \<Longrightarrow> \<exists>s\<in>set (secret_values db). sv_ID s = i \<and> sv_Key s = en_Key n \<and> sv_ConfigID s = cv_ConfigID v"
      unfolding entry_ok_def by blast
    have "v \<in> set (config_versions ?db)" using v out by (simp add: pruned_simps)
    moreover have "\<exists>s\<in>set (secret_values ?db). sv_ID s = i \<and> sv_Key s = en_Key n \<and> sv_ConfigID s = cv_ConfigID v"
      if i: "en_ValueID n = Some i" for i
      using s [OF i] pruned_keeps_values [OF n] i by blast
    ultimately show ?thesis unfolding entry_ok_def using v(2) by blast
  qed
  moreover have "distinct (map (\<lambda>n. (en_VersionID n, en_Key n)) (config_version_entries ?db))"
    using old(4) by (simp add: manifest_ok_def pruned_entries distinct_map_filter)
  moreover have "versions_ok ?db" "values_ok ?db"
    using old(2,3) by (auto simp: versions_ok_def values_ok_def pruned_simps distinct_map_filter)
  ultimately show ?thesis
    using old(1,5) by (simp add: store_wf_def manifest_ok_def hierarchy_ok_def keks_ok_def pruned_simps)
qed

lemma pruned_view:
  assumes wf: "store_wf db"
  shows "view (pruned c ids db) c' v =
    (if \<exists>w\<in>set (config_versions db). cv_ConfigID w = c' \<and> cv_Version w = v \<and> cv_ID w \<in> ids then None else view db c' v)"
proof -
  let ?db = "pruned c ids db"
  have ok: "versions_ok db" "values_ok db" "manifest_ok db" "versions_ok ?db" "values_ok ?db" "manifest_ok ?db"
    using wf pruned_wf [OF wf] by (auto simp: store_wf_def)
  have "state_of ?db i k = Some s \<longleftrightarrow> state_of db i k = Some s" if "i \<notin> ids" for i k s
    using that pruned_keeps_values [of _ c ids db s]
    by (fastforce simp: state_of_iff [OF ok(2,3)] state_of_iff [OF ok(5,6)] pruned_entries)
  then have st: "state_of ?db i = state_of db i" if "i \<notin> ids" for i using that by (intro map_eqI) simp
  have "view ?db c' v = Some st \<longleftrightarrow> (\<exists>w\<in>set (config_versions db). cv_ID w \<notin> ids \<and> cv_ConfigID w = c' \<and> cv_Version w = v \<and>
      st = state_of db (cv_ID w))" for st
    using st by (auto simp: view_Some [OF ok(4)] pruned_simps)
  also have "\<dots> st \<longleftrightarrow> view db c' v = Some st \<and>
      \<not> (\<exists>w\<in>set (config_versions db). cv_ConfigID w = c' \<and> cv_Version w = v \<and> cv_ID w \<in> ids)" for st
    unfolding view_Some [OF ok(1)] using version_unique [OF ok(1)] by metis
  finally show ?thesis by (auto intro: option.expand) (metis not_Some_eq)+
qed

subsection \<open>The transaction\<close>

lemma live_entries_pruned:
  assumes "\<And>i. i \<in> S \<Longrightarrow> i \<notin> ids"
  shows "live_entries (pruned c ids db) S = live_entries db S"
proof -
  have "filter (\<lambda>n. en_VersionID n \<in> S \<and> en_ValueID n \<noteq> None) (filter (\<lambda>n. en_VersionID n \<notin> ids) es) =
      filter (\<lambda>n. en_VersionID n \<in> S \<and> en_ValueID n \<noteq> None) es" for es :: "entry_row list"
    using assms by (induction es) auto
  then show ?thesis by (simp only: live_entries_def pruned_entries)
qed

definition doomed :: "secret_db \<Rightarrow> string \<Rightarrow> int \<Rightarrow> int \<Rightarrow> int \<Rightarrow> ConfigVersion set" where
  "doomed db c keepVersions keepDays now = {w \<in> set (config_versions db). expendable db c keepVersions keepDays now w}"

text \<open>The outcome of the transaction: its errors, no change when there is nothing to remove, or the pruned database.\<close>

lemma prune_tx_cases:
  assumes wf: "store_wf db"
  shows "(\<exists>e. prune_tx c kv kd dry now db = Inl e \<and> e \<noteq> ErrPruneOrphans) \<or>
    (\<exists>res. prune_tx c kv kd dry now db = Inr (res, if doomed db c kv kd now = {} then db
       else pruned c (cv_ID ` doomed db c kv kd now) db) \<and> set (PrunedVersions res) = cv_Version ` doomed db c kv kd now)"
proof -
  have ok: "versions_ok db" using wf by (simp add: store_wf_def)
  let ?prunable = "prunable_versions db c kv kd now" and ?surviving = "surviving_versions db c kv kd now"
  have prunable: "set ?prunable = doomed db c kv kd now"
    by (auto simp: prunable_versions_def is_prunable_def indexed_iff [OF ok] doomed_def expendable_def kept_by_rule_def versions_of_iff image_iff)
  have "w \<notin> set ?prunable \<and> w \<in> set (config_versions db)" if "w \<in> set ?surviving" for w
    using that by (auto simp: prunable_versions_def surviving_versions_def indexed_iff [OF ok] versions_of_iff)
  then have disj: "i \<notin> cv_ID ` set ?prunable" if "i \<in> cv_ID ` set ?surviving" for i
    using that version_id_unique [OF ok] unfolding prunable doomed_def by blast
  have entries: "live_entries (gc_values c (delete_versions (cv_ID ` set ?prunable) db)) (cv_ID ` set ?surviving) =
      live_entries db (cv_ID ` set ?surviving)"
    using live_entries_pruned [OF disj, of "cv_ID ` set ?surviving"] by (simp only: pruned_def)
  have empty: "?prunable = [] \<longleftrightarrow> doomed db c kv kd now = {}" by (metis prunable set_empty)
  show ?thesis
    using entries empty by (simp add: prune_tx_def Let_def prunable pruned_def split: option.splits)
qed

lemma newer_max: "newer db c (max_version db c) = 0"
  using max_version_ge [of _ db c] by (fastforce simp: newer_def versions_of_iff filter_empty_conv)

lemma pruned_max_version:
  assumes wf: "store_wf db" and ids: "ids = cv_ID ` doomed db c kv kd now" and "1 \<le> kv"
  shows "max_version (pruned c ids db) c' = max_version db c'"
proof (cases "max_version db c' = 0")
  case True
  then have none: "versions_of db c' = []"
    using wf max_version_ge [of _ db c'] by (fastforce simp: store_wf_def versions_ok_def versions_of_def filter_empty_conv)
  then have "versions_of (pruned c ids db) c' = []" by (auto simp: versions_of_def pruned_simps filter_empty_conv)
  with none show ?thesis by (simp add: max_version_def)
next
  case False
  have ok: "versions_ok db" using wf by (simp add: store_wf_def)
  obtain w where w: "w \<in> set (config_versions db)" "cv_ConfigID w = c'" "cv_Version w = max_version db c'"
    using max_version_in [OF False] by blast
  have "\<not> expendable db c kv kd now w" using w newer_max [of db c'] assms(3) by (auto simp: expendable_def)
  then have "cv_ID w \<notin> ids" using version_id_unique [OF ok _ w(1)] ids by (fastforce simp: doomed_def)
  then have "max_version db c' \<le> max_version (pruned c ids db) c'"
    using max_version_ge [of w "pruned c ids db" c'] w by (simp add: pruned_simps)
  moreover have "max_version (pruned c ids db) c' \<le> max_version db c'"
  proof (cases "max_version (pruned c ids db) c' = 0")
    case True
    then show ?thesis using max_version_nonneg [of db c'] by simp
  next
    case False
    then obtain u where "u \<in> set (config_versions db)" "cv_ConfigID u = c'" "cv_Version u = max_version (pruned c ids db) c'"
      using max_version_in [OF False] by (auto simp: pruned_simps)
    then show ?thesis using max_version_ge by metis
  qed
  ultimately show ?thesis by simp
qed

lemma doomed_view:
  assumes wf: "store_wf db"
  shows "view (pruned c (cv_ID ` doomed db c kv kd now) db) c' v =
    (if \<exists>w\<in>doomed db c kv kd now. cv_ConfigID w = c' \<and> cv_Version w = v then None else view db c' v)"
proof -
  have ok: "versions_ok db" using wf by (simp add: store_wf_def)
  have "(\<exists>w\<in>set (config_versions db). cv_ConfigID w = c' \<and> cv_Version w = v \<and> cv_ID w \<in> cv_ID ` doomed db c kv kd now) \<longleftrightarrow>
      (\<exists>w\<in>doomed db c kv kd now. cv_ConfigID w = c' \<and> cv_Version w = v)"
    using version_id_unique [OF ok] unfolding doomed_def by blast
  then show ?thesis by (simp add: pruned_view [OF wf])
qed

lemma prune_spec:
  assumes wf: "store_wf db" and run: "PruneConfigVersions commit c plan now db = (out, db')"
    and kv: "kv = max 1 (KeepVersions plan)" and kd: "kd = max 0 (KeepDays plan)"
  shows "out \<noteq> Inl ErrPruneOrphans \<and> store_wf db' \<and> max_version db' c = max_version db c \<and>
    (if DryRun plan \<or> (\<exists>e. out = Inl e) then db' = db
     else \<forall>c' v. view db' c' v = (if \<exists>w\<in>set (config_versions db). expendable db c kv kd now w \<and> cv_ConfigID w = c' \<and> cv_Version w = v
       then None else view db c' v)) \<and>
    (\<forall>res. out = Inr res \<longrightarrow> set (PrunedVersions res) = {cv_Version w |w. w \<in> set (config_versions db) \<and> expendable db c kv kd now w})"
proof -
  let ?D = "doomed db c kv kd now"
  let ?after = "if ?D = {} then db else pruned c (cv_ID ` ?D) db"
  have D: "{cv_Version w |w. w \<in> set (config_versions db) \<and> expendable db c kv kd now w} = cv_Version ` ?D"
    by (auto simp: doomed_def)
  have args: "(if KeepVersions plan < 1 then 1 else KeepVersions plan) = kv" "(if KeepDays plan < 0 then 0 else KeepDays plan) = kd"
    by (simp_all add: kv kd max_def)
  have view: "view ?after c' v = (if \<exists>w\<in>set (config_versions db). expendable db c kv kd now w \<and> cv_ConfigID w = c' \<and> cv_Version w = v
      then None else view db c' v)" for c' v
    using doomed_view [OF wf, of c kv kd now c' v] by (auto simp: doomed_def)
  have after: "store_wf ?after" "max_version ?after c = max_version db c"
    using wf pruned_wf [OF wf] pruned_max_version [OF wf refl] kv by auto
  consider (err) e where "prune_tx c kv kd (DryRun plan) now db = Inl e" "e \<noteq> ErrPruneOrphans"
    | (ok) res where "prune_tx c kv kd (DryRun plan) now db = Inr (res, ?after)" "set (PrunedVersions res) = cv_Version ` ?D"
    using prune_tx_cases [OF wf, of c kv kd "DryRun plan" now] by blast
  then show ?thesis
  proof cases
    case err
    then have "out = Inl e" "db' = db"
      using run by (auto simp: PruneConfigVersions_def args withTx_def Let_def split: if_splits)
    then show ?thesis using wf err(2) by simp
  next
    case ok
    then have "(DryRun plan \<and> out = Inr res \<and> db' = db) \<or> (\<not> DryRun plan \<and> (\<exists>e. commit = Some e \<and> out = Inl (PruneStore e)) \<and> db' = db) \<or>
        (\<not> DryRun plan \<and> out = Inr res \<and> db' = ?after)"
      using run by (auto simp: PruneConfigVersions_def args withTx_def Let_def split: if_splits option.splits)
    then show ?thesis using wf ok(2) view after by (auto simp: D simp del: if_split_asm)
  qed
qed

lemma prune_tx_frame:
  assumes "prune_tx c kv kd dry now db = Inr (res, db')"
  shows "db' = db \<or> (\<exists>ids. db' = gc_values c (delete_versions ids db))"
proof (cases "lock_live db c")
  case None
  with assms show ?thesis
    unfolding prune_tx_def None option.case Let_def by (auto split: if_split_asm simp del: split_paired_Ex)
qed (use assms in \<open>simp add: prune_tx_def\<close>)

lemma prune_frame:
  assumes "PruneConfigVersions commit c plan now db = (out, db')"
  shows "projects db' = projects db" "environments db' = environments db" "configs db' = configs db"
    "project_kek_versions db' = project_kek_versions db" "set (secret_values db') \<subseteq> set (secret_values db)"
proof -
  have "db' = db \<or> (\<exists>ids. db' = gc_values c (delete_versions ids db))"
    using assms by (auto simp: PruneConfigVersions_def withTx_def Let_def dest!: prune_tx_frame split: if_split_asm sum.splits option.splits)
  then show "projects db' = projects db" "environments db' = environments db" "configs db' = configs db"
    "project_kek_versions db' = project_kek_versions db" "set (secret_values db') \<subseteq> set (secret_values db)"
    by (auto simp: gc_values_def delete_versions_def Let_def)
qed

section \<open>Properties\<close>

text \<open>
  C14. A prune keeps every retained version fully restorable. It removes exactly the versions of its
  config that are not among the newest \<open>KeepVersions\<close> (at least one), are older than \<open>KeepDays\<close> and are
  not the source of a pending promotion; every other version of every config shows the very state it
  showed before, and the latest version of the config stays the latest. The check for orphaned manifest
  entries inside the transaction never fires on a database that satisfies the constraints, a dry run and
  a failure change nothing, and the constraints still hold afterwards.
\<close>

theorem prune_keeps_restorable:
  assumes wf: "store_wf db" and run: "PruneConfigVersions commit c plan now db = (out, db')"
    and kv: "kv = max 1 (KeepVersions plan)" and kd: "kd = max 0 (KeepDays plan)"
  shows "out \<noteq> Inl ErrPruneOrphans \<and> store_wf db' \<and> max_version db' c = max_version db c \<and>
    (if DryRun plan \<or> (\<exists>e. out = Inl e) then db' = db
     else \<forall>c' v. view db' c' v = (if \<exists>w\<in>set (config_versions db). expendable db c kv kd now w \<and> cv_ConfigID w = c' \<and> cv_Version w = v
       then None else view db c' v)) \<and>
    (\<forall>res. out = Inr res \<longrightarrow> set (PrunedVersions res) = {cv_Version w |w. w \<in> set (config_versions db) \<and> expendable db c kv kd now w})"
  by (rule prune_spec [OF assms])

section \<open>Witnesses\<close>

definition example_plan :: PrunePlan where
  "example_plan = \<lparr>KeepVersions = 0, KeepDays = 0, DryRun = False\<rparr>"

theorem prune_keeps_restorable_witness:
  "let (out, db') = PruneConfigVersions None ''c'' example_plan 3 example_db in
     (\<exists>res. out = Inr res \<and> PrunedVersions res = [1]) \<and> view db' ''c'' 1 = None \<and>
     view db' ''c'' 2 = Some [''K'' \<mapsto> example_value ''s2'' 2] \<and> store_wf db'"
proof -
  obtain out db' where run: "PruneConfigVersions None ''c'' example_plan 3 example_db = (out, db')" by fastforce
  have "fst (PruneConfigVersions None ''c'' example_plan 3 example_db) = Inr
      \<lparr>prr_ConfigID = ''c'', LatestVersion = 2, prr_KeepVersions = 1, prr_KeepDays = 0, PrunedVersions = [1],
       PinnedVersions = [], DeletedVersions = 1, DeletedValues = 1, RetainedVersions = 1, prr_DryRun = False\<rparr>"
    by code_simp
  then have out: "out = Inr \<lparr>prr_ConfigID = ''c'', LatestVersion = 2, prr_KeepVersions = 1, prr_KeepDays = 0, PrunedVersions = [1],
       PinnedVersions = [], DeletedVersions = 1, DeletedValues = 1, RetainedVersions = 1, prr_DryRun = False\<rparr>"
    using run by simp
  have ex: "(\<exists>w\<in>set (config_versions example_db). expendable example_db ''c'' 1 0 3 w \<and> cv_ConfigID w = ''c'' \<and> cv_Version w = v) \<longleftrightarrow> v = 1" for v
    by (auto simp: example_db_def expendable_def newer_def versions_of_def pinned_versions_def)
  have st: "view example_db ''c'' 2 = Some [''K'' \<mapsto> example_value ''s2'' 2]"
    by (simp add: view_def GetVersion_def one_row_def state_of_def joined_def example_db_def example_value_def)
  show ?thesis
    using prune_keeps_restorable [OF example_db_wf run refl refl] ex st out run
    by (simp add: example_plan_def)
qed

end
