(* ===== verification/Resolve.thy ===== *)
theory Resolve
  imports Prelude
begin

section \<open>Inheritance and references between secrets\<close>

text \<open>
  \<^verbatim>\<open>internal/resolve\<close>: the reference syntax (\<^verbatim>\<open>parse.go\<close>), the inheritance chain (\<^verbatim>\<open>inherit.go\<close>) and the
  expansion of references (\<^verbatim>\<open>resolve.go\<close>). The package reads configs through a port; a reader is here
  the finite table of what the port answers, an id or coordinate that is not in it being the error
  \<open>missing\<close> of the port. The authorizer port is \<^const>\<open>None\<close> for a trusted caller, otherwise a function
  that returns an error or none. Go visits the keys of a map in an arbitrary order, an argument of
  \<^verbatim>\<open>Resolve\<close> here. Zeroising of buffers is not observable and left out; the messages of errors are not
  kept.
\<close>

record Coord =
  co_Project :: string
  co_Env :: string
  co_Config :: string

record RawConfig =
  rc_ProjectID :: string
  rc_EnvID :: string
  rc_ConfigID :: string
  rc_Project :: string
  rc_Env :: string
  rc_Config :: string
  InheritsFrom :: "string option"
  Values :: "string \<rightharpoonup> bytes"

definition Path :: "RawConfig \<Rightarrow> string" where
  "Path rc = rc_Project rc @ ''/'' @ rc_Env rc @ ''/'' @ rc_Config rc"

record 'e RawReader =
  by_coord :: "(Coord \<times> ('e + RawConfig)) list"
  by_id :: "(string \<times> ('e + RawConfig)) list"
  missing :: 'e

definition ReadRaw :: "'e RawReader \<Rightarrow> Coord \<Rightarrow> 'e + RawConfig" where
  "ReadRaw rd co = (case map_of (by_coord rd) co of Some r \<Rightarrow> r | None \<Rightarrow> Inl (missing rd))"

definition ReadRawByID :: "'e RawReader \<Rightarrow> string \<Rightarrow> 'e + RawConfig" where
  "ReadRawByID rd i = (case map_of (by_id rd) i of Some r \<Rightarrow> r | None \<Rightarrow> Inl (missing rd))"

type_synonym 'e Authorizer = "(RawConfig \<Rightarrow> 'e option) option"

record Provenance =
  pv_ProjectID :: string
  pv_EnvID :: string
  pv_ConfigID :: string
  pv_Path :: string

datatype 'e resolve_err =
    ErrInheritanceCycle | ErrBrokenInheritance | ErrReferenceCycle | ErrUnresolvedReference
  | ErrForbiddenReference | ErrReferenceDepth | ErrBadReferenceSyntax
  | ErrReader 'e | IndexPanic

subsection \<open>The reference syntax\<close>

datatype ref = LocalRef string | AbsRef Coord string

datatype segment = Literal string | Reference ref

definition token_char :: "char \<Rightarrow> bool" where
  "token_char c \<longleftrightarrow> c = CHR ''_'' \<or> c = CHR ''-'' \<or>
     c \<in> set ''abcdefghijklmnopqrstuvwxyz'' \<or> c \<in> set ''ABCDEFGHIJKLMNOPQRSTUVWXYZ'' \<or>
     c \<in> set ''0123456789''"

definition validSegmentToken :: "string \<Rightarrow> bool" where
  "validSegmentToken s \<longleftrightarrow> s \<noteq> '''' \<and> list_all token_char s"

fun split_dots :: "string \<Rightarrow> string \<Rightarrow> string list" where
  "split_dots [] cur = [cur]"
| "split_dots (c # cs) cur = (if c = CHR ''.'' then cur # split_dots cs [] else split_dots cs (cur @ [c]))"

text \<open>The only error of the parser is \<^verbatim>\<open>ErrBadReferenceSyntax\<close>, \<^const>\<open>None\<close> here.\<close>

definition parseRefBody :: "string \<Rightarrow> ref option" where
  "parseRefBody body = (let parts = split_dots body '''' in
     if length parts = 1 then
       if \<not> validSegmentToken (parts ! 0) then None else Some (LocalRef (parts ! 0))
     else if length parts = 5 \<and> parts ! 0 = ''projects'' then
       if \<exists>p\<in>set (tl parts). \<not> validSegmentToken p then None
       else Some (AbsRef \<lparr>co_Project = parts ! 1, co_Env = parts ! 2, co_Config = parts ! 3\<rparr> (parts ! 4))
     else None)"

definition is_dollar :: "char \<Rightarrow> bool" where
  "is_dollar c \<longleftrightarrow> c = CHR ''$''"

definition is_close :: "char \<Rightarrow> bool" where
  "is_close c \<longleftrightarrow> c = CHR 0x7D"

definition literal_before :: "string \<Rightarrow> segment list" where
  "literal_before s = (if s = '''' then [] else [Literal s])"

lemma dropWhile_Cons_length: "dropWhile P v = x # xs \<Longrightarrow> length xs < length v"
  by (metis length_Cons length_dropWhile_le less_eq_Suc_le)

text \<open>The loop of \<^verbatim>\<open>parseSegments\<close> on the text that is left.\<close>

function parseSegments :: "string \<Rightarrow> segment list option" where
  "parseSegments v =
    (if v = [] then Some []
     else
       let before = takeWhile (\<lambda>c. \<not> is_dollar c) v; rest = dropWhile (\<lambda>c. \<not> is_dollar c) v in
       case rest of
         [] \<Rightarrow> Some [Literal v]
       | dollar # after \<Rightarrow>
         (case after of
            [] \<Rightarrow> Some (literal_before before @ [Literal ''$''])
          | c # cs \<Rightarrow>
            if is_dollar c then
              Option.bind (parseSegments cs) (\<lambda>segs. Some (literal_before before @ Literal ''$'' # segs))
            else if c = CHR 0x7B then
              (case dropWhile (\<lambda>c. \<not> is_close c) cs of
                 [] \<Rightarrow> None
               | close # left \<Rightarrow>
                 Option.bind (parseRefBody (takeWhile (\<lambda>c. \<not> is_close c) cs)) (\<lambda>rf.
                 Option.bind (parseSegments left) (\<lambda>segs. Some (literal_before before @ Reference rf # segs))))
            else
              Option.bind (parseSegments after) (\<lambda>segs. Some (literal_before before @ Literal ''$'' # segs))))"
  by pat_completeness auto
termination
  by (relation "measure length") (auto dest!: dropWhile_Cons_length dropWhile_Cons_length [OF sym])

subsection \<open>Inheritance\<close>

function chain_loop :: "'e RawReader \<Rightarrow> string set \<Rightarrow> RawConfig list \<Rightarrow> string \<Rightarrow> 'e resolve_err + RawConfig list" where
  "chain_loop rd seen chain i =
    (if i = '''' then Inr chain
     else if i \<in> seen then Inl ErrInheritanceCycle
     else case ReadRawByID rd i of
         Inl e \<Rightarrow> if chain = [] then Inl (ErrReader e) else Inl ErrBrokenInheritance
       | Inr rc \<Rightarrow> chain_loop rd (insert i seen) (chain @ [rc])
           (case InheritsFrom rc of Some base \<Rightarrow> base | None \<Rightarrow> ''''))"
  by pat_completeness auto
termination
proof (relation "measure (\<lambda>(rd, seen, chain, i). card (fst ` set (by_id rd) - seen))")
  fix rd :: "'e RawReader" and seen chain i rc
  assume a: "i \<noteq> ''''" "i \<notin> seen" "ReadRawByID rd i = Inr rc"
  then have "i \<in> fst ` set (by_id rd)"
    by (force simp: ReadRawByID_def dest: map_of_SomeD split: option.splits)
  then have "card (fst ` set (by_id rd) - insert i seen) < card (fst ` set (by_id rd) - seen)"
    using a by (intro psubset_card_mono) auto
  then show "((rd, insert i seen, chain @ [rc], case InheritsFrom rc of None \<Rightarrow> '''' | Some base \<Rightarrow> base),
      rd, seen, chain, i) \<in> measure (\<lambda>(rd, seen, chain, i). card (fst ` set (by_id rd) - seen))"
    by simp
qed simp

definition merge_chain :: "RawConfig list \<Rightarrow> string \<rightharpoonup> bytes" where
  "merge_chain chain = fold (\<lambda>rc m. m ++ Values rc) (rev chain) Map.empty"

definition resolveMerged :: "'e RawReader \<Rightarrow> string \<Rightarrow> 'e resolve_err + ((string \<rightharpoonup> bytes) \<times> RawConfig)" where
  "resolveMerged rd configID =
    bind_err (chain_loop rd {} [] configID) (\<lambda>chain.
      case chain of [] \<Rightarrow> Inl IndexPanic | self # _ \<Rightarrow> Inr (merge_chain chain, self))"

subsection \<open>Expansion\<close>

definition maxDepth :: nat where
  "maxDepth = 32"

type_synonym frame = "string \<times> string"
type_synonym prov = "string \<rightharpoonup> Provenance"

definition string_of :: "bytes \<Rightarrow> string" where
  "string_of b = map (\<lambda>x. char_of (unat x)) b"

definition provenance_of :: "RawConfig \<Rightarrow> Provenance" where
  "provenance_of rc = \<lparr>pv_ProjectID = rc_ProjectID rc, pv_EnvID = rc_EnvID rc,
     pv_ConfigID = rc_ConfigID rc, pv_Path = Path rc\<rparr>"

definition forbidden :: "'e Authorizer \<Rightarrow> RawConfig \<Rightarrow> bool" where
  "forbidden az target \<longleftrightarrow> (case az of None \<Rightarrow> False | Some can \<Rightarrow> can target \<noteq> None)"

text \<open>A value that is exactly one reference returns the bytes of its target.\<close>

definition single_ref :: "segment list \<Rightarrow> ref option" where
  "single_ref segs = (case segs of [Reference rf] \<Rightarrow> Some rf | _ \<Rightarrow> None)"

function (sequential)
      resolveKey :: "'e RawReader \<Rightarrow> 'e Authorizer \<Rightarrow> RawConfig \<Rightarrow> (string \<rightharpoonup> bytes) \<Rightarrow> string \<Rightarrow> frame list \<Rightarrow> prov \<Rightarrow>
        'e resolve_err + (bytes \<times> prov)"
  and resolveRef :: "'e RawReader \<Rightarrow> 'e Authorizer \<Rightarrow> RawConfig \<Rightarrow> (string \<rightharpoonup> bytes) \<Rightarrow> ref \<Rightarrow> frame list \<Rightarrow> prov \<Rightarrow>
        'e resolve_err + (bytes \<times> prov)"
  and resolveSegs :: "'e RawReader \<Rightarrow> 'e Authorizer \<Rightarrow> RawConfig \<Rightarrow> (string \<rightharpoonup> bytes) \<Rightarrow> segment list \<Rightarrow> frame list \<Rightarrow> prov \<Rightarrow>
        bytes \<Rightarrow> 'e resolve_err + (bytes \<times> prov)" where
  "resolveKey rd az cfg merged key stack prov =
    (if length stack \<ge> maxDepth then Inl ErrReferenceDepth
     else let fr = (rc_ConfigID cfg, key) in
       if fr \<in> set stack then Inl ErrReferenceCycle
       else case merged key of
           None \<Rightarrow> Inl ErrUnresolvedReference
         | Some raw \<Rightarrow> (case parseSegments (string_of raw) of
             None \<Rightarrow> Inl ErrBadReferenceSyntax
           | Some segs \<Rightarrow> (let next = stack @ [fr] in
               case single_ref segs of
                 Some rf \<Rightarrow> resolveRef rd az cfg merged rf next prov
               | None \<Rightarrow> resolveSegs rd az cfg merged segs next prov [])))"
| "resolveRef rd az cfg merged (LocalRef key) stack prov = resolveKey rd az cfg merged key stack prov"
| "resolveRef rd az cfg merged (AbsRef co key) stack prov =
    (case ReadRaw rd co of
       Inl _ \<Rightarrow> Inl ErrUnresolvedReference
     | Inr target \<Rightarrow>
         if forbidden az target then Inl ErrForbiddenReference
         else case resolveMerged rd (rc_ConfigID target) of
             Inl e \<Rightarrow> Inl e
           | Inr (tMerged, tSelf) \<Rightarrow>
               if tMerged key = None then Inl ErrUnresolvedReference
               else resolveKey rd az tSelf tMerged key stack (prov(rc_ConfigID tSelf \<mapsto> provenance_of tSelf)))"
| "resolveSegs rd az cfg merged [] stack prov buf = Inr (buf, prov)"
| "resolveSegs rd az cfg merged (Literal s # segs) stack prov buf =
    resolveSegs rd az cfg merged segs stack prov (buf @ bytes_of s)"
| "resolveSegs rd az cfg merged (Reference rf # segs) stack prov buf =
    (case resolveRef rd az cfg merged rf stack prov of
       Inl e \<Rightarrow> Inl e
     | Inr (v, prov') \<Rightarrow> resolveSegs rd az cfg merged segs stack prov' (buf @ v))"
  by pat_completeness auto
termination
  by (relation "measures
       [\<lambda>x. case x of Inl (_, _, _, _, _, stack, _) \<Rightarrow> Suc maxDepth - length stack
          | Inr (Inl (_, _, _, _, _, stack, _)) \<Rightarrow> Suc maxDepth - length stack
          | Inr (Inr (_, _, _, _, _, stack, _, _)) \<Rightarrow> Suc maxDepth - length stack,
        \<lambda>x. case x of Inl _ \<Rightarrow> 0 | Inr (Inl _) \<Rightarrow> 1
          | Inr (Inr (_, _, _, _, segs, _, _, _)) \<Rightarrow> 2 + length segs]") auto



definition ResolveKey_one :: "'e RawReader \<Rightarrow> 'e Authorizer \<Rightarrow> string \<Rightarrow> string \<Rightarrow>
    'e resolve_err + (bytes \<times> Provenance set)" where
  "ResolveKey_one rd az rootConfigID key =
    bind_err (resolveMerged rd rootConfigID) (\<lambda>(merged, self).
      if merged key = None then Inl ErrUnresolvedReference
      else bind_err (resolveKey rd az self merged key [] Map.empty) (\<lambda>(v, prov). Inr (v, ran prov)))"

declare parseSegments.simps [simp del] chain_loop.simps [simp del] resolveKey.simps [simp del]

section \<open>Parsing undoes printing\<close>

text \<open>
  A segment list as the sequence of its characters and references, and the text that denotes it: a
  dollar sign is doubled.
\<close>

definition atoms :: "segment list \<Rightarrow> (char + ref) list" where
  "atoms segs = concat (map (\<lambda>seg. case seg of Literal s \<Rightarrow> map Inl s | Reference r \<Rightarrow> [Inr r]) segs)"

definition print_ref :: "ref \<Rightarrow> string" where
  "print_ref r = CHR ''$'' # CHR 0x7B # (case r of
      LocalRef k \<Rightarrow> k
    | AbsRef co k \<Rightarrow> ''projects.'' @ co_Project co @ ''.'' @ co_Env co @ ''.'' @ co_Config co @ ''.'' @ k) @ [CHR 0x7D]"

definition print_atom :: "char + ref \<Rightarrow> string" where
  "print_atom a = (case a of Inl c \<Rightarrow> if is_dollar c then ''$$'' else [c] | Inr r \<Rightarrow> print_ref r)"

definition ref_ok :: "ref \<Rightarrow> bool" where
  "ref_ok r = (case r of
      LocalRef k \<Rightarrow> validSegmentToken k
    | AbsRef co k \<Rightarrow> validSegmentToken (co_Project co) \<and> validSegmentToken (co_Env co) \<and>
        validSegmentToken (co_Config co) \<and> validSegmentToken k)"

lemma atoms_simps [simp]:
  "atoms [] = []"
  "atoms (Literal s # segs) = map Inl s @ atoms segs"
  "atoms (Reference r # segs) = Inr r # atoms segs"
  "atoms (literal_before s @ segs) = map Inl s @ atoms segs"
  by (simp_all add: atoms_def literal_before_def)

lemma print_atom_simps:
  "print_atom (Inl c) = (if is_dollar c then ''$$'' else [c])"
  "print_atom (Inr r) = print_ref r"
  by (simp_all add: print_atom_def)

lemma token_no_dot: "validSegmentToken s \<Longrightarrow> CHR ''.'' \<notin> set s"
  by (force simp: validSegmentToken_def token_char_def list_all_iff)

lemma token_no_close: "validSegmentToken s \<Longrightarrow> \<forall>c\<in>set s. \<not> is_close c"
  by (force simp: validSegmentToken_def token_char_def list_all_iff is_close_def)

lemma split_dots_token:
  "CHR ''.'' \<notin> set s \<Longrightarrow> split_dots (s @ CHR ''.'' # rest) cur = (cur @ s) # split_dots rest []"
  "CHR ''.'' \<notin> set s \<Longrightarrow> split_dots s cur = [cur @ s]"
  by (induction s arbitrary: cur) auto

lemma parseRefBody_print:
  assumes "ref_ok r"
  shows "parseRefBody (case r of LocalRef k \<Rightarrow> k
    | AbsRef co k \<Rightarrow> ''projects.'' @ co_Project co @ ''.'' @ co_Env co @ ''.'' @ co_Config co @ ''.'' @ k) = Some r"
proof (cases r)
  case (LocalRef k)
  then show ?thesis using assms
    by (simp add: parseRefBody_def ref_ok_def split_dots_token token_no_dot Let_def)
next
  case (AbsRef co k)
  have "split_dots (''projects.'' @ co_Project co @ ''.'' @ co_Env co @ ''.'' @ co_Config co @ ''.'' @ k) [] =
    [''projects'', co_Project co, co_Env co, co_Config co, k]"
    using assms AbsRef split_dots_token(1) [of "''projects''"]
    by (simp add: ref_ok_def split_dots_token token_no_dot)
  then show ?thesis using assms AbsRef by (simp add: parseRefBody_def ref_ok_def Let_def)
qed

definition parsed :: "string \<Rightarrow> (char + ref) list \<Rightarrow> bool" where
  "parsed v as \<longleftrightarrow> (\<exists>segs. parseSegments v = Some segs \<and> atoms segs = as)"

lemma parsed_dollar: "parsed v as \<Longrightarrow> parsed (CHR ''$'' # CHR ''$'' # v) (Inl (CHR ''$'') # as)"
  by (auto simp: parsed_def parseSegments.simps [of "CHR ''$'' # CHR ''$'' # v"] is_dollar_def literal_before_def)

lemma parsed_char:
  assumes "\<not> is_dollar c" "parsed v as"
  shows "parsed (c # v) (Inl c # as)"
proof (cases "v = []")
  case True
  then show ?thesis using assms by (auto simp: parsed_def parseSegments.simps)
next
  case False
  obtain segs where segs: "parseSegments v = Some segs" "atoms segs = as" using assms(2) by (auto simp: parsed_def)
  show ?thesis
  proof (cases "dropWhile (\<lambda>c. \<not> is_dollar c) v")
    case Nil
    then have "takeWhile (\<lambda>c. \<not> is_dollar c) v = v" "segs = [Literal v]"
      using segs False Nil parseSegments.simps [of v] by (simp_all add: Let_def takeWhile_eq_all_conv)
    moreover have "parseSegments (c # v) = Some [Literal (c # v)]"
      by (simp add: parseSegments.simps [of "c # v"] Nil assms(1))
    ultimately show ?thesis using segs by (simp add: parsed_def)
  next
    case (Cons d after)
    then show ?thesis using assms(1) segs False parseSegments.simps [of "c # v"] parseSegments.simps [of v]
      by (auto simp: parsed_def Let_def bind_eq_Some_conv simp del: dropWhile_eq_Nil_conv split: list.splits if_splits)
  qed
qed

lemma parsed_ref:
  assumes "ref_ok r" "parsed v as"
  shows "parsed (print_ref r @ v) (Inr r # as)"
proof -
  let ?body = "case r of LocalRef k \<Rightarrow> k
    | AbsRef co k \<Rightarrow> ''projects.'' @ co_Project co @ ''.'' @ co_Env co @ ''.'' @ co_Config co @ ''.'' @ k"
  have "\<forall>c\<in>set ?body. \<not> is_close c"
    using assms(1) token_no_close by (auto simp: ref_ok_def is_close_def split: ref.splits)
  then have "takeWhile (\<lambda>c. \<not> is_close c) (?body @ CHR 0x7D # v) = ?body"
    "dropWhile (\<lambda>c. \<not> is_close c) (?body @ CHR 0x7D # v) = CHR 0x7D # v"
    by (auto simp: is_close_def takeWhile_append dropWhile_append)
  then show ?thesis using assms(2) parseRefBody_print [OF assms(1)]
    parseSegments.simps [of "CHR ''$'' # CHR 0x7B # ?body @ CHR 0x7D # v"]
    by (auto simp: parsed_def print_ref_def is_dollar_def literal_before_def)
qed

text \<open>
  C34. Any sequence of characters and well-formed references can be written as a secret value, with
  every dollar sign of the text doubled, and the parser reads it back as exactly that sequence.
\<close>

theorem parse_print:
  assumes "\<forall>r. Inr r \<in> set as \<longrightarrow> ref_ok r"
  shows "\<exists>segs. parseSegments (concat (map print_atom as)) = Some segs \<and> atoms segs = as"
proof -
  have "parsed (concat (map print_atom as)) as"
    using assms
  proof (induction as)
    case Nil
    then show ?case by (simp add: parsed_def parseSegments.simps)
  next
    case (Cons a as)
    then have IH: "parsed (concat (map print_atom as)) as" by simp
    show ?case
    proof (cases a)
      case (Inl c)
      then show ?thesis
        using parsed_dollar [OF IH] parsed_char [OF _ IH, of c]
        by (cases "is_dollar c") (auto simp: print_atom_simps is_dollar_def)
    next
      case (Inr r)
      then show ?thesis using parsed_ref [OF _ IH] Cons.prems by (simp add: print_atom_simps)
    qed
  qed
  then show ?thesis by (simp add: parsed_def)
qed


section \<open>Expansion level by level\<close>

text \<open>
  The reference definition: the value of a key expanded through at most \<open>n\<close> levels of references, with
  no stack, no cycle check and no record of what was read.
\<close>

fun eval_segs :: "(ref \<Rightarrow> bytes option) \<Rightarrow> segment list \<Rightarrow> bytes option" where
  "eval_segs ev [] = Some []"
| "eval_segs ev (Literal s # segs) = map_option ((@) (bytes_of s)) (eval_segs ev segs)"
| "eval_segs ev (Reference rf # segs) = Option.bind (ev rf) (\<lambda>v. map_option ((@) v) (eval_segs ev segs))"

definition eval_ref :: "(RawConfig \<Rightarrow> (string \<rightharpoonup> bytes) \<Rightarrow> string \<Rightarrow> bytes option) \<Rightarrow> 'e RawReader \<Rightarrow> 'e Authorizer \<Rightarrow>
    RawConfig \<Rightarrow> (string \<rightharpoonup> bytes) \<Rightarrow> ref \<Rightarrow> bytes option" where
  "eval_ref ev rd az cfg merged rf = (case rf of
      LocalRef key \<Rightarrow> ev cfg merged key
    | AbsRef co key \<Rightarrow> (case ReadRaw rd co of
        Inl _ \<Rightarrow> None
      | Inr target \<Rightarrow>
          if forbidden az target then None
          else (case resolveMerged rd (rc_ConfigID target) of
              Inl _ \<Rightarrow> None
            | Inr (tMerged, tSelf) \<Rightarrow> ev tSelf tMerged key)))"

fun eval_key :: "'e RawReader \<Rightarrow> 'e Authorizer \<Rightarrow> nat \<Rightarrow> RawConfig \<Rightarrow> (string \<rightharpoonup> bytes) \<Rightarrow> string \<Rightarrow> bytes option" where
  "eval_key rd az 0 cfg merged key = None"
| "eval_key rd az (Suc n) cfg merged key =
    Option.bind (merged key) (\<lambda>raw. Option.bind (parseSegments (string_of raw)) (\<lambda>segs.
      eval_segs (eval_ref (eval_key rd az n) rd az cfg merged) segs))"

text \<open>What the port promises: the config read under an id carries that id.\<close>

definition reader_ok :: "'e RawReader \<Rightarrow> bool" where
  "reader_ok rd \<longleftrightarrow> (\<forall>i rc. ReadRawByID rd i = Inr rc \<longrightarrow> rc_ConfigID rc = i)"

definition settled :: "'e RawReader \<Rightarrow> RawConfig \<Rightarrow> (string \<rightharpoonup> bytes) \<Rightarrow> bool" where
  "settled rd cfg merged \<longleftrightarrow> resolveMerged rd (rc_ConfigID cfg) = Inr (merged, cfg)"

lemma single_ref_Some: "single_ref segs = Some rf \<longleftrightarrow> segs = [Reference rf]"
  by (auto simp: single_ref_def split: list.splits segment.splits)

lemma chain_loop_step:
  assumes "chain_loop rd seen chain i = Inr cs"
  obtains "i = ''''" "cs = chain"
  | rc where "i \<noteq> ''''" "i \<notin> seen" "ReadRawByID rd i = Inr rc"
      "chain_loop rd (insert i seen) (chain @ [rc]) (case InheritsFrom rc of Some base \<Rightarrow> base | None \<Rightarrow> '''') = Inr cs"
  using assms by (subst (asm) chain_loop.simps) (auto split: if_splits sum.splits)

lemma chain_loop_hd:
  "chain_loop rd seen chain i = Inr cs \<Longrightarrow> reader_ok rd \<Longrightarrow>
     if chain = [] then cs \<noteq> [] \<longrightarrow> rc_ConfigID (hd cs) = i else hd cs = hd chain \<and> cs \<noteq> []"
proof (induction rd seen chain i rule: chain_loop.induct)
  case (1 rd seen chain i)
  from "1.prems"(1) show ?case
  proof (cases rule: chain_loop_step)
    case (2 rc)
    from "1.IH" [OF 2(1-4) "1.prems"(2)] 2 "1.prems"(2) show ?thesis
      by (auto simp: reader_ok_def split: if_splits)
  qed simp
qed

lemma resolveMerged_settled:
  assumes "reader_ok rd" "resolveMerged rd i = Inr (merged, self)"
  shows "rc_ConfigID self = i" "settled rd self merged"
proof -
  obtain cs where cs: "chain_loop rd {} [] i = Inr cs" "cs \<noteq> []" "self = hd cs"
    using assms(2) by (cases "chain_loop rd {} [] i") (auto simp: resolveMerged_def split: list.splits)
  with chain_loop_hd [OF cs(1) assms(1)] show "rc_ConfigID self = i" by simp
  then show "settled rd self merged" using assms(2) by (simp add: settled_def)
qed

lemma resolve_sound:
  "resolveKey rd az cfg merged key stack prov = Inr (v, prov') \<Longrightarrow>
     eval_key rd az (maxDepth - length stack) cfg merged key = Some v"
  "resolveRef rd az cfg merged rf stack prov = Inr (v, prov') \<Longrightarrow>
     eval_ref (eval_key rd az (maxDepth - length stack)) rd az cfg merged rf = Some v"
  "resolveSegs rd az cfg merged segs stack prov buf = Inr (v, prov') \<Longrightarrow>
     \<exists>w. v = buf @ w \<and> eval_segs (eval_ref (eval_key rd az (maxDepth - length stack)) rd az cfg merged) segs = Some w"
proof (induction rd az cfg merged key stack prov and rd az cfg merged rf stack prov
    and rd az cfg merged segs stack prov buf
    arbitrary: v prov' and v prov' and v prov' rule: resolveKey_resolveRef_resolveSegs.induct)
  case (1 rd az cfg merged key stack prov)
  let ?fr = "(rc_ConfigID cfg, key)"
  obtain raw segs where len: "\<not> maxDepth \<le> length stack" and fr: "?fr \<notin> set stack"
    and raw: "merged key = Some raw" "parseSegments (string_of raw) = Some segs"
    using "1.prems" by (auto simp: resolveKey.simps Let_def split: if_splits option.splits)
  define n where "n = maxDepth - length (stack @ [?fr])"
  have n: "maxDepth - length stack = Suc n" using len by (simp add: n_def)
  show ?case
  proof (cases "single_ref segs")
    case (Some rf)
    then have "resolveRef rd az cfg merged rf (stack @ [?fr]) prov = Inr (v, prov')"
      using "1.prems" len fr raw by (simp add: resolveKey.simps Let_def)
    from "1.IH"(2) [OF len refl fr raw refl Some this] show ?thesis
      using Some raw n by (simp add: n_def single_ref_Some)
  next
    case None
    then have "resolveSegs rd az cfg merged segs (stack @ [?fr]) prov [] = Inr (v, prov')"
      using "1.prems" len fr raw by (simp add: resolveKey.simps Let_def)
    from "1.IH"(1) [OF len refl fr raw refl None this] show ?thesis
      using raw n by (simp add: n_def)
  qed
next
  case (3 rd az cfg merged co key stack prov)
  obtain target tm ts where t: "ReadRaw rd co = Inr target" "\<not> forbidden az target"
      "resolveMerged rd (rc_ConfigID target) = Inr (tm, ts)" "tm key \<noteq> None"
    and key: "resolveKey rd az ts tm key stack (prov(rc_ConfigID ts \<mapsto> provenance_of ts)) = Inr (v, prov')"
    using "3.prems" by (auto split: sum.splits if_splits)
  from "3.IH" [OF t(1-3) refl t(4) key] t show ?case by (simp add: eval_ref_def)
next
  case (6 rd az cfg merged rf segs stack prov buf)
  then show ?case by (fastforce split: sum.splits)
qed (auto simp: eval_ref_def)

subsection \<open>Frames on the stack\<close>

text \<open>
  The value of a frame, and the invariant of the stack: a frame on the stack has a value only when the
  key being resolved has one with fewer levels.
\<close>

definition eval_frame :: "'e RawReader \<Rightarrow> 'e Authorizer \<Rightarrow> nat \<Rightarrow> frame \<Rightarrow> bytes option" where
  "eval_frame rd az n f = (case resolveMerged rd (fst f) of
      Inl _ \<Rightarrow> None | Inr (merged, self) \<Rightarrow> eval_key rd az n self merged (snd f))"

definition needs :: "'e RawReader \<Rightarrow> 'e Authorizer \<Rightarrow> frame list \<Rightarrow> (nat \<Rightarrow> bytes option) \<Rightarrow> bool" where
  "needs rd az stack ev \<longleftrightarrow> (\<forall>f\<in>set stack. \<forall>n. eval_frame rd az n f \<noteq> None \<longrightarrow> (\<exists>m<n. ev m \<noteq> None))"

lemma needs_mono: "needs rd az stack ev \<Longrightarrow> (\<And>n. ev n \<noteq> None \<Longrightarrow> ev' n \<noteq> None) \<Longrightarrow> needs rd az stack ev'"
  by (metis needs_def)

lemma eval_frame_settled: "settled rd cfg merged \<Longrightarrow> eval_frame rd az n (rc_ConfigID cfg, key) = eval_key rd az n cfg merged key"
  by (simp add: eval_frame_def settled_def)

lemma needs_cycle:
  assumes "needs rd az stack (\<lambda>n. eval_frame rd az n f)" "f \<in> set stack"
  shows "eval_frame rd az n f = None"
proof (induction n rule: less_induct)
  case (less n)
  then show ?case using assms unfolding needs_def by (metis option.distinct(1))
qed

lemma needs_push:
  assumes "settled rd cfg merged" "merged key = Some raw" "parseSegments (string_of raw) = Some segs"
    and "needs rd az stack (\<lambda>n. eval_key rd az n cfg merged key)"
  shows "needs rd az (stack @ [(rc_ConfigID cfg, key)]) (\<lambda>n. eval_segs (eval_ref (eval_key rd az n) rd az cfg merged) segs)"
proof -
  let ?ev = "\<lambda>n. eval_segs (eval_ref (eval_key rd az n) rd az cfg merged) segs"
  have key: "\<exists>m<n. ?ev m \<noteq> None" if "eval_key rd az n cfg merged key \<noteq> None" for n
    using that assms(2,3) by (cases n) auto
  have "\<exists>m<n. ?ev m \<noteq> None" if f: "f \<in> set (stack @ [(rc_ConfigID cfg, key)])" "eval_frame rd az n f \<noteq> None" for f n
  proof (cases "f \<in> set stack")
    case True
    then obtain m where "m < n" "eval_key rd az m cfg merged key \<noteq> None"
      using assms(4) f(2) unfolding needs_def by blast
    with key [of m] show ?thesis by (meson less_trans)
  next
    case False
    then show ?thesis using f key [of n] eval_frame_settled [OF assms(1)] by simp
  qed
  then show ?thesis unfolding needs_def by blast
qed


lemma resolve_complete:
  "reader_ok rd \<Longrightarrow> settled rd cfg merged \<Longrightarrow> needs rd az stack (\<lambda>n. eval_key rd az n cfg merged key) \<Longrightarrow>
     (\<forall>v. eval_key rd az (maxDepth - length stack) cfg merged key = Some v \<longrightarrow>
       (\<exists>p. resolveKey rd az cfg merged key stack prov = Inr (v, p))) \<and>
     (resolveKey rd az cfg merged key stack prov = Inl ErrReferenceCycle \<longrightarrow> (\<forall>n. eval_key rd az n cfg merged key = None))"
  "reader_ok rd \<Longrightarrow> settled rd cfg merged \<Longrightarrow> needs rd az stack (\<lambda>n. eval_ref (eval_key rd az n) rd az cfg merged rf) \<Longrightarrow>
     (\<forall>v. eval_ref (eval_key rd az (maxDepth - length stack)) rd az cfg merged rf = Some v \<longrightarrow>
       (\<exists>p. resolveRef rd az cfg merged rf stack prov = Inr (v, p))) \<and>
     (resolveRef rd az cfg merged rf stack prov = Inl ErrReferenceCycle \<longrightarrow>
       (\<forall>n. eval_ref (eval_key rd az n) rd az cfg merged rf = None))"
  "reader_ok rd \<Longrightarrow> settled rd cfg merged \<Longrightarrow>
     needs rd az stack (\<lambda>n. eval_segs (eval_ref (eval_key rd az n) rd az cfg merged) segs) \<Longrightarrow>
     (\<forall>v. eval_segs (eval_ref (eval_key rd az (maxDepth - length stack)) rd az cfg merged) segs = Some v \<longrightarrow>
       (\<exists>p. resolveSegs rd az cfg merged segs stack prov buf = Inr (buf @ v, p))) \<and>
     (resolveSegs rd az cfg merged segs stack prov buf = Inl ErrReferenceCycle \<longrightarrow>
       (\<forall>n. eval_segs (eval_ref (eval_key rd az n) rd az cfg merged) segs = None))"
proof (induction rd az cfg merged key stack prov and rd az cfg merged rf stack prov
    and rd az cfg merged segs stack prov buf rule: resolveKey_resolveRef_resolveSegs.induct)
  case (1 rd az cfg merged key stack prov)
  let ?fr = "(rc_ConfigID cfg, key)"
  note frame = eval_frame_settled [OF "1.prems"(2), of az _ key]
  consider (deep) "maxDepth \<le> length stack" | (cycle) "\<not> maxDepth \<le> length stack" "?fr \<in> set stack"
    | (bad) "\<not> maxDepth \<le> length stack" "?fr \<notin> set stack" "\<forall>raw. merged key = Some raw \<longrightarrow> parseSegments (string_of raw) = None"
    | (ok) raw segs where "\<not> maxDepth \<le> length stack" "?fr \<notin> set stack" "merged key = Some raw" "parseSegments (string_of raw) = Some segs"
    by (metis option.exhaust)
  then show ?case
  proof cases
    case deep
    then show ?thesis by (simp add: resolveKey.simps)
  next
    case cycle
    have "eval_key rd az n cfg merged key = None" for n
      using needs_cycle [of rd az stack ?fr n] "1.prems"(3) cycle(2) frame by simp
    then show ?thesis by simp
  next
    case bad
    then have "eval_key rd az n cfg merged key = None" for n
      by (cases n; cases "merged key") auto
    then show ?thesis by simp
  next
    case ok
    let ?ev = "\<lambda>n. eval_segs (eval_ref (eval_key rd az n) rd az cfg merged) segs"
    have ev: "eval_key rd az (Suc n) cfg merged key = ?ev n" for n using ok by simp
    have none: "\<forall>n. ?ev n = None \<Longrightarrow> eval_key rd az m cfg merged key = None" for m using ev by (cases m) auto
    have n: "maxDepth - length stack = Suc (maxDepth - length (stack @ [?fr]))" using ok(1) by simp
    have needs: "needs rd az (stack @ [?fr]) ?ev"
      by (rule needs_push [OF "1.prems"(2) ok(3,4) "1.prems"(3)])
    show ?thesis
    proof (cases "single_ref segs")
      case (Some rf)
      then have "?ev n = eval_ref (eval_key rd az n) rd az cfg merged rf" for n
        by (cases "eval_ref (eval_key rd az n) rd az cfg merged rf") (simp_all add: single_ref_Some)
      then show ?thesis using "1.IH"(2) [OF ok(1) refl ok(2-4) refl Some "1.prems"(1,2)] needs none n ev Some ok
        by (simp add: resolveKey.simps Let_def)
    next
      case None
      then show ?thesis using "1.IH"(1) [OF ok(1) refl ok(2-4) refl None "1.prems"(1,2)] needs none n ev ok
        by (simp add: resolveKey.simps Let_def)
    qed
  qed
next
  case (2 rd az cfg merged key stack prov)
  then show ?case by (simp add: eval_ref_def)
next
  case (3 rd az cfg merged co key stack prov)
  show ?case
  proof (cases "\<exists>target tm ts. ReadRaw rd co = Inr target \<and> \<not> forbidden az target \<and>
      resolveMerged rd (rc_ConfigID target) = Inr (tm, ts)")
    case True
    then obtain target tm ts where t: "ReadRaw rd co = Inr target" "\<not> forbidden az target"
      "resolveMerged rd (rc_ConfigID target) = Inr (tm, ts)" by blast
    have ev: "eval_ref (eval_key rd az n) rd az cfg merged (AbsRef co key) = eval_key rd az n ts tm key" for n
      using t by (simp add: eval_ref_def)
    show ?thesis
    proof (cases "tm key = None")
      case True
      then have "eval_key rd az n ts tm key = None" for n by (cases n) auto
      then show ?thesis using ev by simp
    next
      case False
      then show ?thesis
        using "3.IH" [OF t refl False "3.prems"(1)] resolveMerged_settled(2) [OF "3.prems"(1) t(3)] "3.prems"(3) ev t
        by (auto simp: fun_upd_def)
    qed
  next
    case False
    then have "eval_ref (eval_key rd az n) rd az cfg merged (AbsRef co key) = None" for n
      by (auto simp: eval_ref_def split: sum.splits)
    then show ?thesis by simp
  qed
next
  case (5 rd az cfg merged s segs stack prov buf)
  then show ?case by (auto simp: needs_def)
next
  case (6 rd az cfg merged rf segs stack prov buf)
  let ?er = "\<lambda>n. eval_ref (eval_key rd az n) rd az cfg merged rf"
  let ?es = "\<lambda>n. eval_segs (eval_ref (eval_key rd az n) rd az cfg merged) segs"
  have "needs rd az stack ?er" "needs rd az stack ?es"
    by (rule needs_mono [OF "6.prems"(3)]; auto simp: bind_eq_Some_conv)+
  note IH = "6.IH"(1) [OF "6.prems"(1,2) this(1)] and IHs = "6.IH"(2) [OF _ _ "6.prems"(1,2) this(2)]
  show ?case
  proof (cases "resolveRef rd az cfg merged rf stack prov")
    case (Inl e)
    then show ?thesis using IH by (auto simp: bind_eq_Some_conv)
  next
    case (Inr vp)
    obtain v p where vp: "vp = (v, p)" by (cases vp)
    then show ?thesis using Inr IH IHs [OF Inr [unfolded vp] refl] resolve_sound(2) [OF Inr [unfolded vp]]
      by (fastforce simp: bind_eq_Some_conv)
  qed
qed auto

subsection \<open>Inheritance chains\<close>

definition base_of :: "RawConfig \<Rightarrow> string" where
  "base_of rc = (case InheritsFrom rc of Some base \<Rightarrow> base | None \<Rightarrow> '''')"

fun is_chain :: "'e RawReader \<Rightarrow> string \<Rightarrow> RawConfig list \<Rightarrow> bool" where
  "is_chain rd i [] \<longleftrightarrow> i = ''''"
| "is_chain rd i (rc # cs) \<longleftrightarrow> i \<noteq> '''' \<and> ReadRawByID rd i = Inr rc \<and> is_chain rd (base_of rc) cs"

lemma is_chain_unique: "is_chain rd i cs \<Longrightarrow> is_chain rd i cs' \<Longrightarrow> cs = cs'"
proof (induction cs arbitrary: i cs')
  case Nil
  then show ?case by (cases cs') auto
next
  case (Cons rc cs)
  then show ?case by (cases cs') auto
qed

text \<open>The ids a chain visits.\<close>

fun chain_ids :: "string \<Rightarrow> RawConfig list \<Rightarrow> string list" where
  "chain_ids i [] = []"
| "chain_ids i (rc # cs) = i # chain_ids (base_of rc) cs"

lemma is_chain_suffix: "is_chain rd i cs \<Longrightarrow> j \<in> set (chain_ids i cs) \<Longrightarrow> \<exists>ds. is_chain rd j ds \<and> length ds \<le> length cs \<and> ds \<noteq> []"
proof (induction cs arbitrary: i)
  case (Cons rc cs)
  show ?case
  proof (cases "j = i")
    case True
    then show ?thesis using Cons.prems by (intro exI [of _ "rc # cs"]) simp
  next
    case False
    then show ?thesis using Cons.IH [of "base_of rc"] Cons.prems by fastforce
  qed
qed simp

lemma is_chain_fresh: "is_chain rd i (rc # cs) \<Longrightarrow> i \<notin> set (chain_ids (base_of rc) cs)"
proof
  assume c: "is_chain rd i (rc # cs)" "i \<in> set (chain_ids (base_of rc) cs)"
  then obtain ds where "is_chain rd i ds" "length ds \<le> length cs" using is_chain_suffix [of rd "base_of rc" cs i] by auto
  then show False using is_chain_unique [OF c(1)] by fastforce
qed

lemma chain_loop_sound:
  "chain_loop rd seen chain i = Inr cs \<Longrightarrow> \<exists>ds. cs = chain @ ds \<and> is_chain rd i ds"
proof (induction rd seen chain i rule: chain_loop.induct)
  case (1 rd seen chain i)
  from "1.prems" show ?case
  proof (cases rule: chain_loop_step)
    case 1
    then show ?thesis by simp
  next
    case (2 rc)
    from "1.IH" [OF 2] 2 show ?thesis by (force simp: base_of_def)
  qed
qed

lemma chain_loop_complete:
  "is_chain rd i ds \<Longrightarrow> set (chain_ids i ds) \<inter> seen = {} \<Longrightarrow> chain_loop rd seen chain i = Inr (chain @ ds)"
proof (induction ds arbitrary: i seen chain)
  case Nil
  then show ?case by (simp add: chain_loop.simps)
next
  case (Cons rc ds)
  have "chain_loop rd (insert i seen) (chain @ [rc]) (base_of rc) = Inr ((chain @ [rc]) @ ds)"
    using Cons.prems is_chain_fresh [OF Cons.prems(1)] by (intro Cons.IH) auto
  then show ?case using Cons.prems by (subst chain_loop.simps) (simp add: base_of_def)
qed

definition nearest :: "RawConfig list \<Rightarrow> string \<Rightarrow> bytes option" where
  "nearest chain k = (case find (\<lambda>rc. Values rc k \<noteq> None) chain of None \<Rightarrow> None | Some rc \<Rightarrow> Values rc k)"

lemma fold_override: "fold (\<lambda>rc m. m ++ Values rc) (rev chain) m0 k = (case nearest chain k of None \<Rightarrow> m0 k | Some v \<Rightarrow> Some v)"
  by (induction chain arbitrary: m0) (auto simp: nearest_def map_add_def split: option.splits)

lemma merge_chain_nearest: "merge_chain chain = nearest chain"
  by (rule ext) (simp add: merge_chain_def fold_override split: option.splits)

lemma resolveMerged_chain:
  "resolveMerged rd i = Inr (merged, self) \<longleftrightarrow>
     (\<exists>chain. is_chain rd i chain \<and> chain \<noteq> [] \<and> self = hd chain \<and> merged = nearest chain)"
proof
  assume "resolveMerged rd i = Inr (merged, self)"
  then obtain cs where cs: "chain_loop rd {} [] i = Inr cs" "cs \<noteq> []" "self = hd cs" "merged = merge_chain cs"
    by (cases "chain_loop rd {} [] i") (auto simp: resolveMerged_def split: list.splits)
  then show "\<exists>chain. is_chain rd i chain \<and> chain \<noteq> [] \<and> self = hd chain \<and> merged = nearest chain"
    using chain_loop_sound [OF cs(1)] by (auto simp: merge_chain_nearest)
next
  assume "\<exists>chain. is_chain rd i chain \<and> chain \<noteq> [] \<and> self = hd chain \<and> merged = nearest chain"
  then obtain chain where c: "is_chain rd i chain" "chain \<noteq> []" "self = hd chain" "merged = nearest chain" by blast
  have "chain_loop rd {} [] i = Inr chain" using chain_loop_complete [OF c(1), of "{}" "[]"] by simp
  then show "resolveMerged rd i = Inr (merged, self)"
    using c by (cases chain) (auto simp: resolveMerged_def merge_chain_nearest)
qed




text \<open>
  C33. Reading the inheritance chain always ends. It succeeds exactly when the links of the config lead,
  through configs that can all be read, to one without a base; then a key has the value of the nearest
  config of the chain that sets it.
\<close>

theorem inheritance_exact:
  "resolveMerged rd i = Inr (merged, self) \<longleftrightarrow>
     (\<exists>chain. is_chain rd i chain \<and> chain \<noteq> [] \<and> self = hd chain \<and> merged = nearest chain)"
  by (rule resolveMerged_chain)

subsection \<open>References\<close>

text \<open>What the resolver relies on: a config read by its id carries that id.\<close>

locale raw_source =
  fixes rd :: "'e RawReader"
  assumes own_id: "ReadRawByID rd i = Inr rc \<Longrightarrow> rc_ConfigID rc = i"
begin

lemma reader: "reader_ok rd"
  using own_id by (auto simp: reader_ok_def)

lemma expansion:
  assumes "resolveMerged rd rootID = Inr (merged, self)"
  shows "((\<exists>prov'. resolveKey rd az self merged key [] prov = Inr (v, prov')) \<longleftrightarrow>
      eval_key rd az 32 self merged key = Some v) \<and>
    (resolveKey rd az self merged key [] prov = Inl ErrReferenceCycle \<longrightarrow>
      (\<forall>n. eval_key rd az n self merged key = None))"
proof -
  have "settled rd self merged" using resolveMerged_settled(2) [OF reader assms] .
  moreover have "needs rd az [] (\<lambda>n. eval_key rd az n self merged key)" by (simp add: needs_def)
  ultimately show ?thesis
    using resolve_complete(1) [OF reader, of self merged az "[]" key prov] resolve_sound(1) [of rd az self merged key "[]" prov]
    by (auto simp: maxDepth_def)
qed

end

text \<open>
  C7. Resolving a key always returns. It returns a value exactly when expanding the references level by
  level, 32 levels deep, gives that value: the stack, the cycle check and the recording of provenance
  change no result. A key refused for a cycle has no value at any depth.
\<close>

theorem resolve_is_expansion:
  assumes "reader_ok rd" "resolveMerged rd rootID = Inr (merged, self)"
  shows "((\<exists>prov'. resolveKey rd az self merged key [] prov = Inr (v, prov')) \<longleftrightarrow>
      eval_key rd az 32 self merged key = Some v) \<and>
    (resolveKey rd az self merged key [] prov = Inl ErrReferenceCycle \<longrightarrow>
      (\<forall>n. eval_key rd az n self merged key = None))"
proof -
  have "raw_source rd" using assms(1) by unfold_locales (simp add: reader_ok_def)
  then show ?thesis using raw_source.expansion assms(2) by metis
qed


subsection \<open>What a resolution reads\<close>











section \<open>Witnesses\<close>

definition example_config :: "string \<Rightarrow> string \<Rightarrow> string \<Rightarrow> RawConfig" where
  "example_config i k v = \<lparr>rc_ProjectID = ''p'', rc_EnvID = ''e'', rc_ConfigID = i, rc_Project = ''p'', rc_Env = ''e'',
     rc_Config = i, InheritsFrom = None, Values = [k \<mapsto> bytes_of v]\<rparr>"

definition example_reader :: "string \<Rightarrow> unit RawReader" where
  "example_reader other = \<lparr>by_coord = [(\<lparr>co_Project = ''p'', co_Env = ''e'', co_Config = ''b''\<rparr>, Inr (example_config ''b'' ''S'' ''v1''))],
     by_id = [(''a'', Inr (example_config ''a'' ''K'' ''x-${projects.p.e.b.S}'')), (''b'', Inr (example_config ''b'' ''S'' ''v1'')),
       (''c'', Inr (example_config ''c'' ''T'' other))], missing = ()\<rparr>"

lemma example_reader_ok: "reader_ok (example_reader s)"
  by (auto simp: reader_ok_def ReadRawByID_def example_reader_def example_config_def split: if_splits option.splits)

lemma example_merged:
  "resolveMerged (example_reader s) ''a'' = Inr (Values (example_config ''a'' ''K'' ''x-${projects.p.e.b.S}''), example_config ''a'' ''K'' ''x-${projects.p.e.b.S}'')"
  "resolveMerged (example_reader s) ''b'' = Inr (Values (example_config ''b'' ''S'' ''v1''), example_config ''b'' ''S'' ''v1'')"
  by (simp_all add: resolveMerged_def chain_loop.simps ReadRawByID_def example_reader_def example_config_def
      merge_chain_def)

lemma unat_of_char: "unat (of_char c :: byte) = of_char c"
proof -
  have "of_char c < (256 :: nat)" by (metis mod_less_divisor of_char_mod_256 zero_less_numeral)
  then have "unat (word_of_nat (of_char c) :: byte) = of_char c"
    by (simp add: unsigned_of_nat take_bit_nat_eq_self)
  then show ?thesis by (simp only: of_nat_of_char)
qed

lemma string_of_bytes_of [simp]: "string_of (bytes_of s) = s"
  by (induction s) (simp_all add: string_of_def bytes_of_def unat_of_char)

theorem parse_print_witness:
  "\<exists>segs. parseSegments (''$$${A}'') = Some segs \<and> atoms segs = [Inl (CHR ''$''), Inr (LocalRef ''A'')]"
  using parse_print [of "[Inl (CHR ''$''), Inr (LocalRef ''A'')]"]
  by (simp add: print_atom_def print_ref_def is_dollar_def ref_ok_def validSegmentToken_def token_char_def)

lemma example_parse:
  "parseSegments ''x-${projects.p.e.b.S}'' =
     Some [Literal ''x-'', Reference (AbsRef \<lparr>co_Project = ''p'', co_Env = ''e'', co_Config = ''b''\<rparr> ''S'')]"
  "parseSegments ''v1'' = Some [Literal ''v1'']"
  by (simp_all add: parseSegments.simps is_dollar_def is_close_def literal_before_def parseRefBody_def
      validSegmentToken_def token_char_def Let_def)

lemma example_value:
  "resolveKey (example_reader s) None (example_config ''a'' ''K'' ''x-${projects.p.e.b.S}'')
     (Values (example_config ''a'' ''K'' ''x-${projects.p.e.b.S}'')) ''K'' [] Map.empty =
   Inr (bytes_of ''x-v1'', [''b'' \<mapsto> provenance_of (example_config ''b'' ''S'' ''v1'')])"
  using example_merged(2) [of s]
  by (simp add: resolveKey.simps example_config_def example_parse single_ref_def maxDepth_def Let_def
      ReadRaw_def example_reader_def forbidden_def bytes_of_append [symmetric])

theorem resolve_is_expansion_witness:
  "eval_key (example_reader ''t'') None 32 (example_config ''a'' ''K'' ''x-${projects.p.e.b.S}'')
     (Values (example_config ''a'' ''K'' ''x-${projects.p.e.b.S}'')) ''K'' = Some (bytes_of ''x-v1'')"
  using resolve_is_expansion [OF example_reader_ok example_merged(1), where az = None and key = "''K''"
      and prov = Map.empty and v = "bytes_of ''x-v1''"] example_value by blast


end
