(* ===== verification/Go_Text.thy ===== *)
theory Go_Text
  imports Prelude
begin

section \<open>Go's text functions\<close>

text \<open>What the components use of \<^verbatim>\<open>strings\<close> and of the decimal formats of \<^verbatim>\<open>strconv\<close> and \<^verbatim>\<open>fmt\<close>.\<close>

subsection \<open>White space\<close>

text \<open>\<^verbatim>\<open>strings.TrimSpace(s) == ""\<close>: the text consists of the UTF-8 encodings of Unicode's white space.\<close>

definition ascii_space :: "char \<Rightarrow> bool" where
  "ascii_space c \<longleftrightarrow> c \<in> {CHR 0x09, CHR 0x0A, CHR 0x0B, CHR 0x0C, CHR 0x0D, CHR 0x20}"

definition space3 :: "char \<Rightarrow> char \<Rightarrow> char \<Rightarrow> bool" where
  "space3 a b c \<longleftrightarrow> (a = CHR 0xE1 \<and> b = CHR 0x9A \<and> c = CHR 0x80) \<or>
     (a = CHR 0xE2 \<and> b = CHR 0x80 \<and> c \<in> {CHR 0x80, CHR 0x81, CHR 0x82, CHR 0x83, CHR 0x84, CHR 0x85, CHR 0x86, CHR 0x87,
        CHR 0x88, CHR 0x89, CHR 0x8A, CHR 0xA8, CHR 0xA9, CHR 0xAF}) \<or>
     (a = CHR 0xE2 \<and> b = CHR 0x81 \<and> c = CHR 0x9F) \<or> (a = CHR 0xE3 \<and> b = CHR 0x80 \<and> c = CHR 0x80)"

fun blank :: "string \<Rightarrow> bool" where
  "blank [] = True"
| "blank [a] = ascii_space a"
| "blank [a, b] = ((ascii_space a \<and> ascii_space b) \<or> (a = CHR 0xC2 \<and> b \<in> {CHR 0x85, CHR 0xA0}))"
| "blank (a # b # c # s) =
    (if ascii_space a then blank (b # c # s)
     else if a = CHR 0xC2 \<and> b \<in> {CHR 0x85, CHR 0xA0} then blank (c # s)
     else space3 a b c \<and> blank s)"

text \<open>\<^verbatim>\<open>strings.TrimSpace\<close>: white space is dropped rune by rune at both ends.\<close>

fun trim_left :: "string \<Rightarrow> string" where
  "trim_left (a # b # c # s) =
    (if ascii_space a then trim_left (b # c # s)
     else if a = CHR 0xC2 \<and> b \<in> {CHR 0x85, CHR 0xA0} then trim_left (c # s)
     else if space3 a b c then trim_left s else a # b # c # s)"
| "trim_left [a, b] = (if ascii_space a then trim_left [b] else if a = CHR 0xC2 \<and> b \<in> {CHR 0x85, CHR 0xA0} then [] else [a, b])"
| "trim_left [a] = (if ascii_space a then [] else [a])"
| "trim_left [] = []"

fun trim_rev :: "string \<Rightarrow> string" where
  "trim_rev (c # b # a # s) =
    (if ascii_space c then trim_rev (b # a # s)
     else if b = CHR 0xC2 \<and> c \<in> {CHR 0x85, CHR 0xA0} then trim_rev (a # s)
     else if space3 a b c then trim_rev s else c # b # a # s)"
| "trim_rev [c, b] = (if ascii_space c then trim_rev [b] else if b = CHR 0xC2 \<and> c \<in> {CHR 0x85, CHR 0xA0} then [] else [c, b])"
| "trim_rev [c] = (if ascii_space c then [] else [c])"
| "trim_rev [] = []"

definition TrimSpace :: "string \<Rightarrow> string" where
  "TrimSpace s = rev (trim_rev (rev (trim_left s)))"

subsection \<open>Decimal numbers\<close>

fun decimal_nat :: "nat \<Rightarrow> string" where
  "decimal_nat n = (if n < 10 then [char_of (48 + n)] else decimal_nat (n div 10) @ [char_of (48 + n mod 10)])"

declare decimal_nat.simps [simp del]

definition decimal :: "int \<Rightarrow> string" where
  "decimal i = (if i < 0 then CHR ''-'' # decimal_nat (nat (- i)) else decimal_nat (nat i))"

end
