(* ===== verification/Secrets.thy ===== *)
theory Secrets
  imports Kek_Versions Version_Prune Keyring Resolve Go_Text
begin

section \<open>The secrets service\<close>

text \<open>
  \<^verbatim>\<open>internal/secrets\<close>: the only component that sees plaintext. It resolves a config to its project,
  unwraps the project key through the keyring, and seals every value under a data key of its own that
  is bound to the value's slot. The order in which Go visits the keys of a map is an argument
  (\<open>order\<close>). A method that makes several queries takes the database of each of them where the code
  cares about what happens in between, and one database where it does not.
\<close>

datatype svc_err =
    SvcErrSealed | SvcErrNotFound | SvcErrConflict | SvcErrValidation | SvcErrDecrypt
  | ErrKEKVersionRetired | SvcStore store_err | SvcCrypto crypto_err | SvcPruneBlocked | SvcPruneOrphans

definition mapCryptoErr :: "crypto_err \<Rightarrow> svc_err" where
  "mapCryptoErr e = (if e = ErrSealed then SvcErrSealed else if e = ErrDecryptFailed then SvcErrDecrypt else SvcCrypto e)"

definition mapStoreErr :: "store_err \<Rightarrow> svc_err" where
  "mapStoreErr e = (if e = ErrNotFound then SvcErrNotFound else if e = ErrConflict then SvcErrConflict else SvcStore e)"

subsection \<open>Validation\<close>

definition key_char :: "char \<Rightarrow> bool" where
  "key_char c \<longleftrightarrow> c \<in> set ''abcdefghijklmnopqrstuvwxyz'' \<or> c \<in> set ''ABCDEFGHIJKLMNOPQRSTUVWXYZ'' \<or>
     c \<in> set ''0123456789'' \<or> c \<in> set ''._-''"

definition validateKey :: "string \<Rightarrow> svc_err option" where
  "validateKey k = (if k = '''' \<or> length k > 255 \<or> k = ''.'' \<or> k = ''..'' \<or>
       CHR ''/'' \<in> set k \<or> CHR 0x5C \<in> set k \<or> \<not> list_all key_char k
     then Some SvcErrValidation else None)"

definition validateSlug :: "string \<Rightarrow> svc_err option" where
  "validateSlug s = (if blank s then Some SvcErrValidation else None)"

definition allowedTypes :: "string list" where
  "allowedTypes = [''string'', ''password'', ''json'', ''ssh_key'', ''certificate'', ''note'']"

definition normalizeType :: "string \<Rightarrow> string" where
  "normalizeType t = (if t = '''' then ''string'' else t)"

definition validateType :: "string \<Rightarrow> svc_err option" where
  "validateType t = (if t = '''' \<or> t \<in> set allowedTypes then None else Some SvcErrValidation)"

subsection \<open>The hierarchy\<close>

definition CreateProject :: "Keyring \<Rightarrow> string \<Rightarrow> string \<Rightarrow> string \<Rightarrow> rng \<Rightarrow> int \<Rightarrow> secret_db \<Rightarrow> svc_err + (Project \<times> rng \<times> secret_db)" where
  "CreateProject kr slug name i r now db = (case validateSlug slug of
      Some e \<Rightarrow> Inl e
    | None \<Rightarrow>
      bind_err (map_err SvcCrypto (GenerateKey r)) (\<lambda>(kek, r1).
      bind_err (map_err mapCryptoErr (WrapProjectKEK kr kek i r1)) (\<lambda>(wrapped, r2).
      bind_err (map_err mapStoreErr (proj_Create i slug name (Marshal wrapped) 1 now db)) (\<lambda>(p, db').
        Inr (p, r2, db')))))"

definition CreateEnvironment :: "string \<Rightarrow> string \<Rightarrow> string \<Rightarrow> string \<Rightarrow> int \<Rightarrow> secret_db \<Rightarrow> svc_err + (Environment \<times> secret_db)" where
  "CreateEnvironment i projectID slug name now db = (case validateSlug slug of
      Some e \<Rightarrow> Inl e
    | None \<Rightarrow> map_err mapStoreErr (env_Create i projectID slug name now db))"

definition CreateConfig :: "string \<Rightarrow> string \<Rightarrow> string \<Rightarrow> string option \<Rightarrow> int \<Rightarrow> secret_db \<Rightarrow> svc_err + (Config \<times> secret_db)" where
  "CreateConfig i environmentID name inheritsFrom now db =
    (case (case inheritsFrom of
        None \<Rightarrow> None
      | Some b \<Rightarrow> (case cfg_Get db b of
           Inl e \<Rightarrow> if e = ErrNotFound then Some SvcErrValidation else Some (mapStoreErr e)
         | Inr base \<Rightarrow> if c_EnvironmentID base \<noteq> environmentID then Some SvcErrValidation else None)) of
       Some e \<Rightarrow> Inl e
     | None \<Rightarrow> map_err mapStoreErr (cfg_Create i environmentID name inheritsFrom now db))"

definition resolveProject :: "secret_db \<Rightarrow> string \<Rightarrow> svc_err + (Config \<times> Project)" where
  "resolveProject db configID =
    bind_err (map_err mapStoreErr (cfg_Get db configID)) (\<lambda>cfg.
    bind_err (map_err mapStoreErr (env_Get db (c_EnvironmentID cfg))) (\<lambda>env.
    bind_err (map_err mapStoreErr (proj_Get db (e_ProjectID env))) (\<lambda>proj.
      Inr (cfg, proj))))"

subsection \<open>Keys of a project\<close>

definition unwrapProjectKEK :: "Keyring \<Rightarrow> Project \<Rightarrow> svc_err + bytes" where
  "unwrapProjectKEK kr proj = (case ParseCiphertext (p_WrappedKEK proj) of
      Inl _ \<Rightarrow> Inl SvcErrDecrypt
    | Inr ct \<Rightarrow> map_err mapCryptoErr (UnwrapProjectKEK kr ct (p_ID proj)))"

record kekResolver =
  kres_proj :: Project
  kres_cache :: "int \<rightharpoonup> bytes"

definition newKEKResolver :: "Project \<Rightarrow> kekResolver" where
  "newKEKResolver proj = \<lparr>kres_proj = proj, kres_cache = Map.empty\<rparr>"

definition forVersion :: "Keyring \<Rightarrow> secret_db \<Rightarrow> int \<Rightarrow> kekResolver \<Rightarrow> svc_err + (bytes \<times> kekResolver)" where
  "forVersion kr db version res = (case kres_cache res version of
      Some k \<Rightarrow> Inr (k, res)
    | None \<Rightarrow>
      bind_err
        (if version = p_KEKVersion (kres_proj res) then Inr (p_WrappedKEK (kres_proj res))
         else map_err (\<lambda>e. if e = ErrNotFound then ErrKEKVersionRetired else mapStoreErr e)
           (GetWrapped db (p_ID (kres_proj res)) version)) (\<lambda>wrapped.
      (case ParseCiphertext wrapped of
         Inl _ \<Rightarrow> Inl SvcErrDecrypt
       | Inr ct \<Rightarrow>
         bind_err (map_err mapCryptoErr (UnwrapProjectKEK kr ct (p_ID (kres_proj res)))) (\<lambda>kek.
           Inr (kek, res\<lparr>kres_cache := (kres_cache res)(version \<mapsto> kek)\<rparr>)))))"

text \<open>\<^verbatim>\<open>dekAAD\<close> binds a data key to project, config and key, and value version.\<close>

definition dekAAD :: "string \<Rightarrow> string \<Rightarrow> int \<Rightarrow> svc_err + bytes" where
  "dekAAD projectID secretPath valueVersion =
    (if valueVersion < 0 then Inl SvcErrDecrypt else Inr (DEKAAD projectID secretPath (word_of_int valueVersion)))"

definition secret_path :: "string \<Rightarrow> string \<Rightarrow> string" where
  "secret_path configID key = configID @ ''/'' @ key"

subsection \<open>Writing\<close>

record SecretChange =
  sc_Key :: string
  sc_Value :: bytes
  sc_Delete :: bool
  sc_Type :: string

definition encrypt_value :: "Keyring \<Rightarrow> bytes \<Rightarrow> Project \<Rightarrow> Config \<Rightarrow> SecretChange \<Rightarrow> int \<Rightarrow> rng \<Rightarrow> svc_err + (EncryptedValue \<times> rng)" where
  "encrypt_value kr kek proj cfg ch valueVersion r =
    bind_err (dekAAD (p_ID proj) (secret_path (c_ID cfg) (sc_Key ch)) valueVersion) (\<lambda>aad.
    bind_err (map_err SvcCrypto (NewDEK kr kek aad r)) (\<lambda>(dek, wrappedDEK, r1).
    bind_err (map_err SvcCrypto (Encrypt dek (sc_Value ch) aad r1)) (\<lambda>(valCT, r2).
      Inr (\<lparr>WrappedDEK = Marshal wrappedDEK, ev_Ciphertext = Data valCT, ev_Nonce = Nonce valCT,
            DEKKeyVersion = p_KEKVersion proj\<rparr>, r2))))"

definition store_change :: "Keyring \<Rightarrow> bytes \<Rightarrow> Project \<Rightarrow> Config \<Rightarrow> SecretChange \<Rightarrow> svc_err Change" where
  "store_change kr kek proj cfg ch =
    (if sc_Delete ch then \<lparr>ch_Key = sc_Key ch, ch_Type = '''', ch_Encrypt = None\<rparr>
     else \<lparr>ch_Key = sc_Key ch, ch_Type = normalizeType (sc_Type ch), ch_Encrypt = Some (encrypt_value kr kek proj cfg ch)\<rparr>)"

definition validate_change :: "SecretChange \<Rightarrow> svc_err option" where
  "validate_change ch = (case validateKey (sc_Key ch) of
      Some e \<Rightarrow> Some e
    | None \<Rightarrow> if sc_Delete ch then None else validateType (sc_Type ch))"

fun first_error :: "('a \<Rightarrow> 'e option) \<Rightarrow> 'a list \<Rightarrow> 'e option" where
  "first_error f [] = None"
| "first_error f (x # xs) = (case f x of Some e \<Rightarrow> Some e | None \<Rightarrow> first_error f xs)"

text \<open>
  \<^verbatim>\<open>mapCryptoErr(mapStoreErr(err))\<close> on the errors of the transaction: those of the store, and those a
  closure \<^verbatim>\<open>Encrypt\<close> returned.
\<close>

definition map_tx_err :: "svc_err tx_err \<Rightarrow> svc_err" where
  "map_tx_err e = (case e of
      FromStore s \<Rightarrow> mapStoreErr s
    | FromCaller (SvcCrypto c) \<Rightarrow> mapCryptoErr c
    | FromCaller s \<Rightarrow> s)"

text \<open>\<open>rdb\<close> is the database the hierarchy and the key are read from, \<open>db\<close> the one the transaction runs on.\<close>

definition SetSecrets :: "Keyring \<Rightarrow> secret_db \<Rightarrow> svc_err tx_err option \<Rightarrow> string \<Rightarrow> SecretChange list \<Rightarrow> string \<Rightarrow> string \<Rightarrow>
    (string \<Rightarrow> string) \<Rightarrow> string \<Rightarrow> string list \<Rightarrow> rng \<Rightarrow> int \<Rightarrow> secret_db \<Rightarrow> (svc_err + (ConfigVersion \<times> rng)) \<times> secret_db" where
  "SetSecrets kr rdb commit configID changes message actor fresh cvID order r now db =
    (case first_error validate_change changes of
       Some e \<Rightarrow> (Inl e, db)
     | None \<Rightarrow>
       (case resolveProject rdb configID of
          Inl e \<Rightarrow> (Inl e, db)
        | Inr (cfg, proj) \<Rightarrow>
          (case unwrapProjectKEK kr proj of
             Inl e \<Rightarrow> (Inl e, db)
           | Inr kek \<Rightarrow>
             (let (out, db') = SaveConfigVersion commit (c_ID cfg) (map (store_change kr kek proj cfg) changes)
                    message actor fresh cvID order r now db
              in (map_err map_tx_err out, db')))))"

subsection \<open>Reading\<close>

record Secret =
  se_Key :: string
  se_Value :: bytes
  se_ValueVersion :: int
  se_Type :: string

definition value_ciphertext :: "SecretValue \<Rightarrow> Ciphertext" where
  "value_ciphertext sv = \<lparr>KeyVersion = 0, Nonce = ev_Nonce (sv_Enc sv), Data = ev_Ciphertext (sv_Enc sv)\<rparr>"

definition open_value :: "bytes \<Rightarrow> SecretValue \<Rightarrow> bytes \<Rightarrow> svc_err + bytes" where
  "open_value kek sv aad = (case ParseCiphertext (WrappedDEK (sv_Enc sv)) of
      Inl _ \<Rightarrow> Inl SvcErrDecrypt
    | Inr dekCT \<Rightarrow>
      bind_err (map_err mapCryptoErr (UnwrapKey kek dekCT aad)) (\<lambda>dek.
        map_err mapCryptoErr (Decrypt dek (value_ciphertext sv) aad)))"

definition decryptValueOnce :: "Keyring \<Rightarrow> secret_db \<Rightarrow> Project \<Rightarrow> string \<Rightarrow> SecretValue \<Rightarrow> kekResolver \<Rightarrow> svc_err + (bytes \<times> kekResolver)" where
  "decryptValueOnce kr db proj configID sv res =
    bind_err (dekAAD (p_ID proj) (secret_path configID (sv_Key sv)) (sv_ValueVersion sv)) (\<lambda>aad.
    bind_err (forVersion kr db (DEKKeyVersion (sv_Enc sv)) res) (\<lambda>(kek, res').
    bind_err (open_value kek sv aad) (\<lambda>pt. Inr (pt, res'))))"

text \<open>The queries of the retry see the databases \<open>d2\<close> (the row), \<open>d3\<close> (the project) and \<open>d4\<close> (the key).\<close>

definition decryptValue :: "Keyring \<Rightarrow> secret_db \<Rightarrow> secret_db \<Rightarrow> secret_db \<Rightarrow> secret_db \<Rightarrow> Project \<Rightarrow> string \<Rightarrow> SecretValue \<Rightarrow> kekResolver \<Rightarrow>
    svc_err + (bytes \<times> kekResolver)" where
  "decryptValue kr d1 d2 d3 d4 proj configID sv res =
    (case decryptValueOnce kr d1 proj configID sv res of
       Inl ErrKEKVersionRetired \<Rightarrow>
         (case GetValueByID d2 (sv_ID sv) of
            Inl _ \<Rightarrow> Inl SvcErrDecrypt
          | Inr fresh \<Rightarrow>
            (case resolveProject d3 configID of
               Inl _ \<Rightarrow> Inl SvcErrDecrypt
             | Inr (_, freshProj) \<Rightarrow>
               (case decryptValueOnce kr d4 freshProj configID fresh (newKEKResolver freshProj) of
                  Inl ErrKEKVersionRetired \<Rightarrow> Inl SvcErrDecrypt
                | Inl e \<Rightarrow> Inl e
                | Inr (pt, _) \<Rightarrow> Inr (pt, res))))
     | out \<Rightarrow> out)"

text \<open>The loop over the keys of a state, which shares one resolver.\<close>

fun decrypt_keys :: "Keyring \<Rightarrow> secret_db \<Rightarrow> Project \<Rightarrow> string \<Rightarrow> (string \<rightharpoonup> SecretValue) \<Rightarrow> string list \<Rightarrow> kekResolver \<Rightarrow>
    (string \<rightharpoonup> bytes) \<Rightarrow> svc_err + (string \<rightharpoonup> bytes)" where
  "decrypt_keys kr db proj configID st [] res out = Inr out"
| "decrypt_keys kr db proj configID st (k # ks) res out = (case st k of
      None \<Rightarrow> decrypt_keys kr db proj configID st ks res out
    | Some sv \<Rightarrow>
      bind_err (decryptValue kr db db db db proj configID sv res) (\<lambda>(pt, res').
        decrypt_keys kr db proj configID st ks res' (out(k \<mapsto> pt))))"

definition secrets_of :: "(string \<rightharpoonup> SecretValue) \<Rightarrow> (string \<rightharpoonup> bytes) \<Rightarrow> string \<rightharpoonup> Secret" where
  "secrets_of st out k = (case (st k, out k) of
      (Some sv, Some pt) \<Rightarrow> Some \<lparr>se_Key = k, se_Value = pt, se_ValueVersion = sv_ValueVersion sv, se_Type = sv_Type sv\<rparr>
    | _ \<Rightarrow> None)"

definition GetSecret :: "Keyring \<Rightarrow> secret_db \<Rightarrow> string \<Rightarrow> string \<Rightarrow> svc_err + Secret" where
  "GetSecret kr db configID key = (case validateKey key of
      Some e \<Rightarrow> Inl e
    | None \<Rightarrow>
      bind_err (resolveProject db configID) (\<lambda>(cfg, proj).
      bind_err (map_err mapStoreErr (GetLatest db (c_ID cfg))) (\<lambda>(_, st).
      (case st key of
         None \<Rightarrow> Inl SvcErrNotFound
       | Some sv \<Rightarrow>
         bind_err (decryptValue kr db db db db proj (c_ID cfg) sv (newKEKResolver proj)) (\<lambda>(pt, _).
           Inr \<lparr>se_Key = key, se_Value = pt, se_ValueVersion = sv_ValueVersion sv, se_Type = sv_Type sv\<rparr>)))))"

definition RevealConfig :: "Keyring \<Rightarrow> secret_db \<Rightarrow> string list \<Rightarrow> string \<Rightarrow> svc_err + (ConfigVersion \<times> (string \<rightharpoonup> Secret))" where
  "RevealConfig kr db order configID =
    bind_err (resolveProject db configID) (\<lambda>(cfg, proj).
    bind_err (map_err mapStoreErr (GetLatest db (c_ID cfg))) (\<lambda>(cv, st).
    bind_err (decrypt_keys kr db proj (c_ID cfg) st order (newKEKResolver proj) Map.empty) (\<lambda>out.
      Inr (cv, secrets_of st out))))"

definition RevealConfigVersion :: "Keyring \<Rightarrow> secret_db \<Rightarrow> string list \<Rightarrow> string \<Rightarrow> int \<Rightarrow> svc_err + (string \<rightharpoonup> Secret)" where
  "RevealConfigVersion kr db order configID version =
    bind_err (resolveProject db configID) (\<lambda>(cfg, proj).
    bind_err (map_err mapStoreErr (GetVersion db (c_ID cfg) version)) (\<lambda>(_, st).
    bind_err (decrypt_keys kr db proj (c_ID cfg) st order (newKEKResolver proj) Map.empty) (\<lambda>out.
      Inr (secrets_of st out))))"

definition GetSecretVersion :: "Keyring \<Rightarrow> secret_db \<Rightarrow> string \<Rightarrow> string \<Rightarrow> int \<Rightarrow> svc_err + Secret" where
  "GetSecretVersion kr db configID key valueVersion = (case validateKey key of
      Some e \<Rightarrow> Inl e
    | None \<Rightarrow>
      bind_err (resolveProject db configID) (\<lambda>(cfg, proj).
      (case filter (\<lambda>sv. sv_ValueVersion sv = valueVersion) (GetKeyHistory db (c_ID cfg) key) of
         [] \<Rightarrow> Inl SvcErrNotFound
       | found # _ \<Rightarrow>
         bind_err (decryptValue kr db db db db proj (c_ID cfg) found (newKEKResolver proj)) (\<lambda>(pt, _).
           Inr \<lparr>se_Key = key, se_Value = pt, se_ValueVersion = valueVersion, se_Type = sv_Type found\<rparr>))))"

section \<open>What a stored value decrypts to\<close>

subsection \<open>The project of a config and its keys\<close>

definition project_of :: "secret_db \<Rightarrow> string \<Rightarrow> Project option" where
  "project_of db c = (case cfg_GetIncludingDeleted db c of Inl _ \<Rightarrow> None | Inr cfg \<Rightarrow>
     (case env_GetIncludingDeleted db (c_EnvironmentID cfg) of Inl _ \<Rightarrow> None | Inr env \<Rightarrow>
     (case proj_GetIncludingDeleted db (e_ProjectID env) of Inl _ \<Rightarrow> None | Inr p \<Rightarrow> Some p)))"

definition wrapped_at :: "secret_db \<Rightarrow> Project \<Rightarrow> int \<Rightarrow> bytes option" where
  "wrapped_at db p v = (if v = p_KEKVersion p then Some (p_WrappedKEK p)
     else case GetWrapped db (p_ID p) v of Inl _ \<Rightarrow> None | Inr w \<Rightarrow> Some w)"

definition unwrap_blob :: "Keyring \<Rightarrow> string \<Rightarrow> bytes \<Rightarrow> bytes option" where
  "unwrap_blob kr i w = (case ParseCiphertext w of Inl _ \<Rightarrow> None
     | Inr ct \<Rightarrow> (case UnwrapProjectKEK kr ct i of Inl _ \<Rightarrow> None | Inr kek \<Rightarrow> Some kek))"

definition kek_at :: "Keyring \<Rightarrow> secret_db \<Rightarrow> Project \<Rightarrow> int \<Rightarrow> bytes option" where
  "kek_at kr db p v = Option.bind (wrapped_at db p v) (unwrap_blob kr (p_ID p))"

definition value_aad :: "Project \<Rightarrow> SecretValue \<Rightarrow> bytes" where
  "value_aad p s = DEKAAD (p_ID p) (secret_path (sv_ConfigID s) (sv_Key s)) (word_of_int (sv_ValueVersion s))"

definition opened :: "bytes \<Rightarrow> SecretValue \<Rightarrow> bytes \<Rightarrow> bytes option" where
  "opened kek s aad = (case open_value kek s aad of Inl _ \<Rightarrow> None | Inr pt \<Rightarrow> Some pt)"

definition plain :: "Keyring \<Rightarrow> secret_db \<Rightarrow> SecretValue \<Rightarrow> bytes option" where
  "plain kr db s = Option.bind (project_of db (sv_ConfigID s)) (\<lambda>p.
     Option.bind (kek_at kr db p (DEKKeyVersion (sv_Enc s))) (\<lambda>kek. opened kek s (value_aad p s)))"

text \<open>Every stored value can be decrypted: the invariant that no operation may lose.\<close>

definition readable :: "Keyring \<Rightarrow> secret_db \<Rightarrow> bool" where
  "readable kr db \<longleftrightarrow> (\<forall>s\<in>set (secret_values db). plain kr db s \<noteq> None)"

lemma one_row_by_id:
  assumes "distinct (map f t)"
  shows "one_row (\<lambda>r. f r = i) t = Inr r \<longleftrightarrow> r \<in> set t \<and> f r = i"
  using one_row_Inr [of "\<lambda>r. f r = i" t r] one_row_unique [of r t "\<lambda>r. f r = i"] distinct_map_inj [OF assms] by blast

lemma one_row_live:
  assumes "distinct (map f t)" "one_row (\<lambda>r. f r = i \<and> L r) t = Inr r"
  shows "one_row (\<lambda>r. f r = i) t = Inr r"
  using one_row_Inr [OF assms(2)] one_row_by_id [OF assms(1)] by blast

lemma resolveProject_Inr:
  assumes "hierarchy_ok db" "resolveProject db c = Inr (cfg, p)"
  shows "c_ID cfg = c" "project_of db c = Some p" "p \<in> set (projects db)" "live_project p" "cfg \<in> set (configs db)"
proof -
  obtain env where q: "cfg_Get db c = Inr cfg" "env_Get db (c_EnvironmentID cfg) = Inr env" "proj_Get db (e_ProjectID env) = Inr p"
    using assms(2) by (auto simp: resolveProject_def go_result)
  then show "c_ID cfg = c" "p \<in> set (projects db)" "live_project p" "cfg \<in> set (configs db)"
    by (auto simp: cfg_Get_def proj_Get_def dest: one_row_Inr)
  have d: "distinct (map p_ID (projects db))" "distinct (map e_ID (environments db))" "distinct (map c_ID (configs db))"
    using assms(1) by (simp_all add: hierarchy_ok_def)
  have "cfg_GetIncludingDeleted db c = Inr cfg" "env_GetIncludingDeleted db (c_EnvironmentID cfg) = Inr env"
    "proj_GetIncludingDeleted db (e_ProjectID env) = Inr p"
    using q one_row_live [OF d(3)] one_row_live [OF d(2)] one_row_live [OF d(1)]
    by (auto simp: cfg_Get_def env_Get_def proj_Get_def cfg_GetIncludingDeleted_def env_GetIncludingDeleted_def proj_GetIncludingDeleted_def)
  then show "project_of db c = Some p" by (simp add: project_of_def)
qed

subsection \<open>The key cache is transparent\<close>

text \<open>A resolver serves a project when its cache holds only keys of that project.\<close>

definition serves :: "Keyring \<Rightarrow> secret_db \<Rightarrow> Project \<Rightarrow> kekResolver \<Rightarrow> bool" where
  "serves kr db p res \<longleftrightarrow> kres_proj res = p \<and> (\<forall>v k. kres_cache res v = Some k \<longrightarrow> kek_at kr db p v = Some k)"

lemma serves_new: "serves kr db p (newKEKResolver p)"
  by (simp add: serves_def newKEKResolver_def)

lemma forVersion_kek:
  assumes "serves kr db p res"
  shows "(case kek_at kr db p v of
      Some kek \<Rightarrow> (\<exists>res'. forVersion kr db v res = Inr (kek, res') \<and> serves kr db p res')
    | None \<Rightarrow> (\<exists>e. forVersion kr db v res = Inl e))"
proof (cases "kres_cache res v")
  case (Some k)
  then show ?thesis using assms by (auto simp: serves_def forVersion_def)
next
  case None
  have p: "kres_proj res = p" using assms by (simp add: serves_def)
  show ?thesis
  proof (cases "wrapped_at db p v")
    case w: None
    then have "GetWrapped db (p_ID p) v \<noteq> Inr x" "v \<noteq> p_KEKVersion p" for x
      by (auto simp: wrapped_at_def split: if_splits sum.splits)
    then show ?thesis using None w p by (cases "GetWrapped db (p_ID p) v") (auto simp: forVersion_def kek_at_def)
  next
    case (Some w)
    then have "(if v = p_KEKVersion p then Inr (p_WrappedKEK p)
        else map_err (\<lambda>e. if e = ErrNotFound then ErrKEKVersionRetired else mapStoreErr e) (GetWrapped db (p_ID p) v)) = Inr w"
      by (auto simp: wrapped_at_def split: if_splits sum.splits)
    then show ?thesis using None Some p assms
      by (auto simp: forVersion_def kek_at_def unwrap_blob_def serves_def split: sum.splits)
  qed
qed

lemma decryptValueOnce_plain:
  assumes p: "project_of db (sv_ConfigID s) = Some p" and res: "serves kr db p res" and vv: "0 \<le> sv_ValueVersion s"
    and c: "c = sv_ConfigID s"
  shows "(case plain kr db s of
      Some pt \<Rightarrow> (\<exists>res'. decryptValueOnce kr db p c s res = Inr (pt, res') \<and> serves kr db p res')
    | None \<Rightarrow> (\<exists>e. decryptValueOnce kr db p c s res = Inl e))"
proof -
  have aad: "dekAAD (p_ID p) (secret_path c (sv_Key s)) (sv_ValueVersion s) = Inr (value_aad p s)"
    using vv by (simp add: dekAAD_def value_aad_def c)
  show ?thesis
  proof (cases "kek_at kr db p (DEKKeyVersion (sv_Enc s))")
    case None
    then show ?thesis using forVersion_kek [OF res, of "DEKKeyVersion (sv_Enc s)"] p
      by (auto simp: plain_def decryptValueOnce_def aad)
  next
    case (Some kek)
    then obtain res' where f: "forVersion kr db (DEKKeyVersion (sv_Enc s)) res = Inr (kek, res')" "serves kr db p res'"
      using forVersion_kek [OF res, of "DEKKeyVersion (sv_Enc s)"] by auto
    then show ?thesis using p Some
      by (cases "open_value kek s (value_aad p s)") (auto simp: plain_def decryptValueOnce_def aad opened_def)
  qed
qed

lemma decryptValue_plain:
  assumes "project_of db (sv_ConfigID s) = Some p" "serves kr db p res" "0 \<le> sv_ValueVersion s" "c = sv_ConfigID s"
    "plain kr db s = Some pt"
  shows "\<exists>res'. decryptValue kr db d2 d3 d4 p c s res = Inr (pt, res') \<and> serves kr db p res'"
  using decryptValueOnce_plain [OF assms(1-4)] assms(5) by (auto simp: decryptValue_def)

subsection \<open>Reads\<close>

definition secret_of :: "Keyring \<Rightarrow> secret_db \<Rightarrow> SecretValue \<Rightarrow> Secret" where
  "secret_of kr db s = \<lparr>se_Key = sv_Key s, se_Value = the (plain kr db s), se_ValueVersion = sv_ValueVersion s, se_Type = sv_Type s\<rparr>"

text \<open>The secrets a version shows.\<close>

definition shown :: "Keyring \<Rightarrow> secret_db \<Rightarrow> string \<Rightarrow> int \<Rightarrow> (string \<rightharpoonup> Secret) option" where
  "shown kr db c v = map_option (\<lambda>st k. map_option (secret_of kr db) (st k)) (view db c v)"

lemma decrypt_keys_plain:
  assumes st: "\<And>k s. st k = Some s \<Longrightarrow> sv_ConfigID s = c \<and> 0 \<le> sv_ValueVersion s \<and> plain kr db s \<noteq> None"
    and p: "project_of db c = Some p"
  shows "serves kr db p res \<Longrightarrow> decrypt_keys kr db p c st ks res out =
    Inr (\<lambda>k. if k \<in> set ks \<and> st k \<noteq> None then Option.bind (st k) (plain kr db) else out k)"
proof (induction ks arbitrary: res out)
  case (Cons k ks)
  show ?case
  proof (cases "st k")
    case None
    then show ?thesis using Cons by (auto simp: fun_eq_iff)
  next
    case (Some s)
    then obtain pt where pt: "plain kr db s = Some pt" using st by blast
    have "\<exists>res'. decryptValue kr db db db db p c s res = Inr (pt, res') \<and> serves kr db p res'"
      by (rule decryptValue_plain [OF _ Cons.prems _ _ pt]) (use st [OF Some] p in auto)
    then obtain res' where "decryptValue kr db db db db p c s res = Inr (pt, res')" "serves kr db p res'" by blast
    then show ?thesis using Cons.IH Some pt by (auto simp: fun_eq_iff)
  qed
qed simp

lemma view_ok:
  assumes "store_wf db" "readable kr db" "view db c v = Some st" "st k = Some s"
  shows "sv_Key s = k \<and> sv_ConfigID s = c \<and> 0 \<le> sv_ValueVersion s \<and> plain kr db s \<noteq> None"
  using view_values [OF assms(1,3,4)] assms(1,2) by (auto simp: readable_def store_wf_def values_ok_def)

lemma decrypt_view:
  assumes "store_wf db" "readable kr db" "view db c v = Some st" "project_of db c = Some p" "dom st \<subseteq> set order"
  shows "\<exists>out. decrypt_keys kr db p c st order (newKEKResolver p) Map.empty = Inr out \<and>
    secrets_of st out = (\<lambda>k. map_option (secret_of kr db) (st k))"
proof (intro exI conjI)
  show "decrypt_keys kr db p c st order (newKEKResolver p) Map.empty =
      Inr (\<lambda>k. if k \<in> set order \<and> st k \<noteq> None then Option.bind (st k) (plain kr db) else None)"
    using decrypt_keys_plain [OF _ assms(4) serves_new] view_ok [OF assms(1-3)] by auto
  show "secrets_of st (\<lambda>k. if k \<in> set order \<and> st k \<noteq> None then Option.bind (st k) (plain kr db) else None) =
      (\<lambda>k. map_option (secret_of kr db) (st k))"
  proof
    fix k
    show "secrets_of st (\<lambda>k. if k \<in> set order \<and> st k \<noteq> None then Option.bind (st k) (plain kr db) else None) k =
        map_option (secret_of kr db) (st k)"
      using view_ok [OF assms(1-3), of k] assms(5) by (cases "st k") (auto simp: secrets_of_def secret_of_def dom_def)
  qed
qed

lemma GetVersion_view: "GetVersion db c v = Inr (cv, st) \<Longrightarrow> view db c v = Some st"
  by (simp add: view_def)

lemma GetLatest_view: "GetLatest db c = Inr (cv, st) \<Longrightarrow> view db c (max_version db c) = Some st"
  by (auto simp: GetLatest_def Let_def GetVersion_view split: if_splits)

lemma GetLatest_Inr:
  assumes "store_wf db" "max_version db c \<noteq> 0"
  shows "\<exists>cv. GetLatest db c = Inr (cv, latest_state db c) \<and> cv_Version cv = max_version db c"
proof -
  obtain cv st where g: "GetVersion db c (max_version db c) = Inr (cv, st)"
    using view_latest [OF assms] by (auto simp: view_def split: sum.splits)
  then have "cv_Version cv = max_version db c" by (auto simp: GetVersion_def bind_err_Inr dest: one_row_Inr)
  then show ?thesis using g assms(2) GetVersion_view [OF g] by (auto simp: GetLatest_def latest_state_def)
qed

text \<open>What the three reveals return on a database in which every value is readable.\<close>

lemma GetSecret_shown:
  assumes "store_wf db" "readable kr db" "resolveProject db c = Inr (cfg, p)" "validateKey k = None" "max_version db c \<noteq> 0"
  shows "GetSecret kr db c k = (case the (shown kr db c (max_version db c)) k of None \<Rightarrow> Inl SvcErrNotFound | Some se \<Rightarrow> Inr se)"
proof -
  have h: "hierarchy_ok db" using assms(1) by (simp add: store_wf_def)
  note r = resolveProject_Inr [OF h assms(3)]
  obtain cv where g: "GetLatest db c = Inr (cv, latest_state db c)" using GetLatest_Inr [OF assms(1,5)] by blast
  note v = GetLatest_view [OF g]
  show ?thesis
  proof (cases "latest_state db c k")
    case None
    then show ?thesis by (simp add: GetSecret_def shown_def assms(3,4) r(1) g v)
  next
    case (Some s)
    note ok = view_ok [OF assms(1,2) v Some]
    then obtain pt where pt: "plain kr db s = Some pt" by auto
    have "\<exists>res'. decryptValue kr db db db db p c s (newKEKResolver p) = Inr (pt, res') \<and> serves kr db p res'"
      by (rule decryptValue_plain [OF _ serves_new _ _ pt]) (use ok r(2) in auto)
    then obtain res' where d: "decryptValue kr db db db db p c s (newKEKResolver p) = Inr (pt, res')" by blast
    have "secret_of kr db s = \<lparr>se_Key = k, se_Value = pt, se_ValueVersion = sv_ValueVersion s, se_Type = sv_Type s\<rparr>"
      using ok pt by (simp add: secret_of_def)
    then show ?thesis by (simp add: GetSecret_def shown_def assms(3,4) r(1) g v Some d)
  qed
qed

lemma RevealConfigVersion_shown:
  assumes "store_wf db" "readable kr db" "resolveProject db c = Inr (cfg, p)" "shown kr db c v = Some m" "dom m \<subseteq> set order"
  shows "RevealConfigVersion kr db order c v = Inr m"
proof -
  have h: "hierarchy_ok db" using assms(1) by (simp add: store_wf_def)
  note r = resolveProject_Inr [OF h assms(3)]
  obtain st where st: "view db c v = Some st" "m = (\<lambda>k. map_option (secret_of kr db) (st k))"
    using assms(4) by (auto simp: shown_def)
  then obtain cv where g: "GetVersion db c v = Inr (cv, st)" by (auto simp: view_def split: sum.splits)
  have "dom st \<subseteq> set order" using assms(5) st(2) by (auto simp: dom_def)
  from decrypt_view [OF assms(1,2) st(1) r(2) this] show ?thesis
    using assms(3) r(1) g st(2) by (auto simp: RevealConfigVersion_def)
qed

lemma RevealConfig_shown:
  assumes "store_wf db" "readable kr db" "resolveProject db c = Inr (cfg, p)" "shown kr db c (max_version db c) = Some m" "dom m \<subseteq> set order"
  shows "\<exists>cv. RevealConfig kr db order c = Inr (cv, m) \<and> cv_Version cv = max_version db c"
proof -
  have h: "hierarchy_ok db" using assms(1) by (simp add: store_wf_def)
  note r = resolveProject_Inr [OF h assms(3)]
  obtain st where st: "view db c (max_version db c) = Some st" "m = (\<lambda>k. map_option (secret_of kr db) (st k))"
    using assms(4) by (auto simp: shown_def)
  then have nz: "max_version db c \<noteq> 0" using no_version_zero [OF assms(1), of c] by auto
  obtain cv where g: "GetLatest db c = Inr (cv, st)" "cv_Version cv = max_version db c"
    using GetLatest_Inr [OF assms(1) nz] latest_state_view [OF st(1)] by auto
  have "dom st \<subseteq> set order" using assms(5) st(2) by (auto simp: dom_def)
  from decrypt_view [OF assms(1,2) st(1) r(2) this] show ?thesis
    using assms(3) r(1) g st(2) by (auto simp: RevealConfig_def)
qed

subsection \<open>Sealing a value and opening it\<close>

lemma project_of_cong:
  assumes "projects db' = projects db" "environments db' = environments db" "configs db' = configs db"
  shows "project_of db' = project_of db"
proof -
  have eqs: "cfg_GetIncludingDeleted db' = cfg_GetIncludingDeleted db" "env_GetIncludingDeleted db' = env_GetIncludingDeleted db"
    "proj_GetIncludingDeleted db' = proj_GetIncludingDeleted db"
    using assms by (simp_all add: fun_eq_iff cfg_GetIncludingDeleted_def env_GetIncludingDeleted_def proj_GetIncludingDeleted_def)
  show ?thesis unfolding project_of_def eqs ..
qed

lemma kek_at_cong: "project_kek_versions db' = project_kek_versions db \<Longrightarrow> kek_at kr db' = kek_at kr db"
  by (simp add: fun_eq_iff kek_at_def wrapped_at_def GetWrapped_def)

lemma plain_cong:
  "projects db' = projects db \<Longrightarrow> environments db' = environments db \<Longrightarrow> configs db' = configs db \<Longrightarrow>
    project_kek_versions db' = project_kek_versions db \<Longrightarrow> plain kr db' = plain kr db"
  using project_of_cong [of db' db] kek_at_cong [of db' db kr] unfolding plain_def by simp

lemma unwrapProjectKEK_kek: "unwrapProjectKEK kr p = Inr kek \<longleftrightarrow> kek_at kr db p (p_KEKVersion p) = Some kek"
  by (auto simp: unwrapProjectKEK_def kek_at_def wrapped_at_def unwrap_blob_def go_result split: sum.splits)

text \<open>A fresh data key opens again with the key that wrapped it, and a value sealed under it is stored without its header.\<close>

lemma NewDEK_opens:
  assumes "NewDEK kr kek aad r = Inr (dek, w, r1)"
  shows "ParseCiphertext (Marshal w) = Inr w" "UnwrapKey kek w aad = Inr dek"
proof -
  obtain r0 where w: "WrapKey kek dek aad r0 = Inr (w, r1)"
    using assms by (auto simp: NewDEK_def with_master_def bind_err_Inr split: option.splits)
  then show "ParseCiphertext (Marshal w) = Inr w" "UnwrapKey kek w aad = Inr dek"
    using UnwrapKey_WrapKey [OF w] ParseCiphertext_Encrypt [of kek dek aad r0 w r1] by (auto simp: WrapKey_def split: if_splits)
qed

lemma Decrypt_headless:
  assumes "Encrypt dek pt aad r = Inr (ct, r')"
  shows "Decrypt dek \<lparr>KeyVersion = 0, Nonce = Nonce ct, Data = Data ct\<rparr> aad = Inr pt"
proof -
  have "Decrypt dek (ct\<lparr>KeyVersion := 0\<rparr>) aad = Inr pt" using Decrypt_Encrypt [OF assms] by simp
  moreover have "ct\<lparr>KeyVersion := 0\<rparr> = \<lparr>KeyVersion = 0, Nonce = Nonce ct, Data = Data ct\<rparr>" by (cases ct) simp
  ultimately show ?thesis by simp
qed

lemma seal_ok:
  assumes "\<not> Sealed kr" "length kek = KeySize" "length pt \<le> gcm_limit" "56 \<le> length r"
  shows "\<exists>dek w r1 ct. NewDEK kr kek aad r = Inr (dek, w, r1) \<and> Encrypt dek pt aad r1 = Inr (ct, drop 56 r)"
proof -
  obtain m where m: "master kr = Some m" using assms(1) by (auto simp: Sealed_def)
  have g: "GenerateKey r = Inr (take KeySize r, drop KeySize r)" using assms(4) by (simp add: GenerateKey_Inr sizes)
  obtain w where w: "WrapKey kek (take KeySize r) aad (drop KeySize r) = Inr (w, drop 44 r)"
    using WrapKey_ok [of kek "take KeySize r" "drop KeySize r" aad] assms(2,4)
    by (auto simp: sizes nat_le_iff_add)
  obtain ct where "Encrypt (take KeySize r) pt aad (drop 44 r) = Inr (ct, drop 56 r)"
    using Encrypt_ok [of "take KeySize r" "drop 44 r" pt aad] assms(3,4)
    by (auto simp: sizes nat_le_iff_add)
  then show ?thesis using m g w by (simp add: NewDEK_def with_master_def)
qed

lemma encrypt_value_Inr:
  assumes "encrypt_value kr kek p cfg ch vv r = Inr (val, r')"
  shows "0 \<le> vv" "DEKKeyVersion val = p_KEKVersion p"
    "sv_Enc s = val \<Longrightarrow> open_value kek s (DEKAAD (p_ID p) (secret_path (c_ID cfg) (sc_Key ch)) (word_of_int vv)) = Inr (sc_Value ch)"
proof -
  let ?aad = "DEKAAD (p_ID p) (secret_path (c_ID cfg) (sc_Key ch)) (word_of_int vv)"
  obtain dek w r1 ct where n: "NewDEK kr kek ?aad r = Inr (dek, w, r1)" and e: "Encrypt dek (sc_Value ch) ?aad r1 = Inr (ct, r')"
    and vv: "0 \<le> vv" and val: "val = \<lparr>WrappedDEK = Marshal w, ev_Ciphertext = Data ct, ev_Nonce = Nonce ct, DEKKeyVersion = p_KEKVersion p\<rparr>"
    using assms by (auto simp: encrypt_value_def dekAAD_def go_result bind_err_Inr split: if_splits)
  show "0 \<le> vv" "DEKKeyVersion val = p_KEKVersion p" using vv val by simp_all
  assume "sv_Enc s = val"
  then show "open_value kek s ?aad = Inr (sc_Value ch)"
    using NewDEK_opens [OF n] Decrypt_headless [OF e] by (simp add: open_value_def value_ciphertext_def val)
qed

lemma encrypt_value_ok:
  assumes "\<not> Sealed kr" "length kek = KeySize" "0 \<le> vv" "length (sc_Value ch) \<le> gcm_limit" "56 \<le> length r"
  shows "\<exists>val. encrypt_value kr kek p cfg ch vv r = Inr (val, drop 56 r)"
  using seal_ok [OF assms(1,2,4,5), of "DEKAAD (p_ID p) (secret_path (c_ID cfg) (sc_Key ch)) (word_of_int vv)"] assms(3)
  by (auto simp: encrypt_value_def dekAAD_def)

subsection \<open>A batch of changes\<close>

definition last_change :: "SecretChange list \<Rightarrow> string \<Rightarrow> SecretChange option" where
  "last_change changes k = map_of (rev (map (\<lambda>ch. (sc_Key ch, ch)) changes)) k"

text \<open>Values and types of a state, and the effect of a batch on them.\<close>

definition content :: "(string \<rightharpoonup> Secret) \<Rightarrow> string \<rightharpoonup> bytes \<times> string" where
  "content m k = map_option (\<lambda>se. (se_Value se, se_Type se)) (m k)"

definition apply_batch :: "SecretChange list \<Rightarrow> (string \<rightharpoonup> bytes \<times> string) \<Rightarrow> string \<rightharpoonup> bytes \<times> string" where
  "apply_batch changes m k = (case last_change changes k of
      None \<Rightarrow> m k
    | Some ch \<Rightarrow> if sc_Delete ch then None else Some (sc_Value ch, normalizeType (sc_Type ch)))"

lemma store_change_key [simp]: "ch_Key (store_change kr kek p cfg ch) = sc_Key ch"
  by (simp add: store_change_def)

lemma map_of_map_snd: "map_of (map (\<lambda>x. (f x, g x)) xs) k = map_option g (map_of (map (\<lambda>x. (f x, x)) xs) k)"
  by (induction xs) auto

lemma net_change_store: "net_change (map (store_change kr kek p cfg) changes) k = map_option (store_change kr kek p cfg) (last_change changes k)"
  by (simp add: net_change_def last_change_def rev_map comp_def map_of_map_snd [where g = "store_change kr kek p cfg"])

lemma last_change_key: "last_change changes k = Some ch \<Longrightarrow> sc_Key ch = k \<and> ch \<in> set changes"
  by (auto simp: last_change_def dest!: map_of_SomeD)

lemma normalizeType_nonempty: "normalizeType t \<noteq> ''''"
  by (simp add: normalizeType_def)

text \<open>The secrets of the latest version; a config without a version shows none.\<close>

definition latest_shown :: "Keyring \<Rightarrow> secret_db \<Rightarrow> string \<Rightarrow> string \<rightharpoonup> Secret" where
  "latest_shown kr db c k = map_option (secret_of kr db) (latest_state db c k)"

lemma written_secret:
  assumes p': "project_of db' c = Some p'" "p_ID p' = p_ID p" and kek: "kek_at kr db' p' (p_KEKVersion p) = Some kek" and c: "c_ID cfg = c"
    and w: "written (net_change (map (store_change kr kek p cfg) changes)) fresh c now db s"
  shows "\<exists>ch. last_change changes (sv_Key s) = Some ch \<and> \<not> sc_Delete ch \<and> plain kr db' s = Some (sc_Value ch) \<and>
    sv_Type s = normalizeType (sc_Type ch)"
proof -
  obtain ch val r r' where ch: "last_change changes (sv_Key s) = Some ch" "\<not> sc_Delete ch"
    and e: "encrypt_value kr kek p cfg ch (next_value_version db c (sv_Key s)) r = Inr (val, r')"
    and s: "s = value_row (fresh (sv_Key s)) c (sv_Key s) (next_value_version db c (sv_Key s)) (normalizeType (sc_Type ch)) val now"
    using w by (auto simp: written_def net_change_store store_change_def split: if_splits)
  have s': "sv_ConfigID s = c" "sv_Enc s = val" "sv_ValueVersion s = next_value_version db c (sv_Key s)"
    by (subst s, simp)+
  have "open_value kek s (value_aad p' s) = Inr (sc_Value ch)"
    using encrypt_value_Inr(3) [OF e s'(2)] last_change_key [OF ch(1)] by (simp add: value_aad_def s' c p'(2))
  then have "plain kr db' s = Some (sc_Value ch)"
    using p' kek encrypt_value_Inr(2) [OF e] by (simp add: plain_def s' opened_def)
  moreover have "sv_Type s = normalizeType (sc_Type ch)"
    by (subst s) (simp add: value_row_def normalizeType_nonempty)
  ultimately show ?thesis using ch by blast
qed

subsection \<open>What a batch leaves behind\<close>

lemma SetSecrets_Inr:
  assumes "SetSecrets kr rdb commit c changes msg actor fresh cvID order r now db = (Inr (cv, r'), db')"
  shows "\<exists>cfg p kek. resolveProject rdb c = Inr (cfg, p) \<and> unwrapProjectKEK kr p = Inr kek \<and>
    save_tx (c_ID cfg) (map (store_change kr kek p cfg) changes) msg actor fresh cvID order r now db = Inr ((cv, r'), db')"
  using assms by (auto simp: SetSecrets_def SaveConfigVersion_def withTx_def map_err_Inr
      split: option.splits sum.splits prod.splits)

lemma SetSecrets_Inl:
  "SetSecrets kr rdb commit c changes msg actor fresh cvID order r now db = (Inl e, db') \<Longrightarrow> db' = db"
  by (auto simp: SetSecrets_def SaveConfigVersion_def map_err_Inl dest: withTx_error
      split: option.splits sum.splits prod.splits)

lemma shown_cong:
  assumes "view db' c v = view db c v" "plain kr db' = plain kr db"
  shows "shown kr db' c v = shown kr db c v"
proof -
  have "secret_of kr db' = secret_of kr db" using assms(2) by (simp add: fun_eq_iff secret_of_def)
  then show ?thesis using assms(1) by (simp add: shown_def)
qed

text \<open>
  A save reads the project and its key first and writes in a transaction later: \<open>rdb\<close> is the database that was read, \<open>db\<close> the
  one the transaction runs on. The key that was read is still on file when the config's project still has it, as its current key
  or as a superseded one that has not been retired.
\<close>

definition key_on_file :: "secret_db \<Rightarrow> secret_db \<Rightarrow> string \<Rightarrow> bool" where
  "key_on_file rdb db c \<longleftrightarrow> (\<forall>cfg p p'. resolveProject rdb c = Inr (cfg, p) \<longrightarrow> project_of db c = Some p' \<longrightarrow>
     p_ID p' = p_ID p \<and> wrapped_at db p' (p_KEKVersion p) = Some (p_WrappedKEK p))"

lemma key_on_file_refl: "hierarchy_ok db \<Longrightarrow> key_on_file db db c"
  using resolveProject_Inr(2) [of db c] by (auto simp: key_on_file_def wrapped_at_def)

lemma resolveProject_id: "resolveProject db c = Inr (cfg, p) \<Longrightarrow> c_ID cfg = c"
  by (auto simp: resolveProject_def cfg_Get_def bind_err_Inr map_err_Inr dest: one_row_Inr)

lemma config_has_project:
  assumes h: "hierarchy_ok db" and c: "c \<in> c_ID ` set (configs db)"
  shows "\<exists>p. project_of db c = Some p"
proof -
  obtain cfg where cfg: "cfg \<in> set (configs db)" "c_ID cfg = c" using c by blast
  obtain env where env: "env \<in> set (environments db)" "e_ID env = c_EnvironmentID cfg" using h cfg(1) by (force simp: hierarchy_ok_def)
  obtain p where p: "p \<in> set (projects db)" "p_ID p = e_ProjectID env" using h env(1) by (force simp: hierarchy_ok_def)
  have d: "distinct (map c_ID (configs db))" "distinct (map e_ID (environments db))" "distinct (map p_ID (projects db))"
    using h by (simp_all add: hierarchy_ok_def)
  have "cfg_GetIncludingDeleted db c = Inr cfg" "env_GetIncludingDeleted db (c_EnvironmentID cfg) = Inr env"
    "proj_GetIncludingDeleted db (e_ProjectID env) = Inr p"
    using cfg env p d by (simp_all add: cfg_GetIncludingDeleted_def env_GetIncludingDeleted_def proj_GetIncludingDeleted_def one_row_by_id)
  then show ?thesis by (simp add: project_of_def)
qed

lemma SetSecrets_spec:
  assumes wf: "store_wf db" and rd: "readable kr db" and key: "key_on_file rdb db c" and order: "distinct order" "set order = sc_Key ` set changes"
    and run: "SetSecrets kr rdb commit c changes msg actor fresh cvID order r now db = (Inr (cv, r'), db')"
  shows "store_wf db'" "readable kr db'" "cv_Version cv = max_version db c + 1" "max_version db' c = max_version db c + 1"
    "\<exists>m. shown kr db' c (max_version db c + 1) = Some m \<and> content m = apply_batch changes (content (latest_shown kr db c))"
    "\<And>c' v. \<not> (c' = c \<and> v = max_version db c + 1) \<Longrightarrow> shown kr db' c' v = shown kr db c' v"
    "plain kr db' = plain kr db"
proof -
  have h: "hierarchy_ok db" using wf by (simp add: store_wf_def)
  obtain cfg p kek where rp: "resolveProject rdb c = Inr (cfg, p)" and kek: "unwrapProjectKEK kr p = Inr kek"
    and save: "save_tx (c_ID cfg) (map (store_change kr kek p cfg) changes) msg actor fresh cvID order r now db = Inr ((cv, r'), db')"
    using SetSecrets_Inr [OF run] by blast
  note id = resolveProject_id [OF rp]
  let ?changes = "map (store_change kr kek p cfg) changes"
  have o: "set order = ch_Key ` set ?changes" using order(2) by (simp add: image_image)
  note sp = save_spec [OF wf order(1) o save [unfolded id]]
  obtain new ptrs tombs where sv: "saved (net_change ?changes) fresh c now db new (latest_state db' c)"
    and db': "db' = with_version (db\<lparr>secret_values := secret_values db @ new\<rparr>) cv ptrs tombs" using sp(2) by blast
  show "store_wf db'" by (rule sp(1))
  show "cv_Version cv = max_version db c + 1" using sp(3) by simp
  show "max_version db' c = max_version db c + 1" by (rule sp(4))
  show pl: "plain kr db' = plain kr db" by (rule plain_cong) (simp_all add: db')
  show "\<And>c' v. \<not> (c' = c \<and> v = max_version db c + 1) \<Longrightarrow> shown kr db' c' v = shown kr db c' v"
    using sp(6) shown_cong [OF _ pl] by blast
  have "c \<in> c_ID ` set (configs db)" using save_tx_Inr [OF save] id by blast
  then obtain p' where p': "project_of db c = Some p'" using config_has_project [OF h] by blast
  then have kept: "p_ID p' = p_ID p" "wrapped_at db p' (p_KEKVersion p) = Some (p_WrappedKEK p)" using key rp by (auto simp: key_on_file_def)
  have "wrapped_at db' = wrapped_at db" by (simp add: fun_eq_iff wrapped_at_def GetWrapped_def db')
  then have "kek_at kr db' p' (p_KEKVersion p) = kek_at kr db p (p_KEKVersion p)" using kept by (simp add: kek_at_def, simp add: wrapped_at_def)
  then have pk: "project_of db' c = Some p'" "kek_at kr db' p' (p_KEKVersion p) = Some kek"
    using p' unwrapProjectKEK_kek [of kr p kek db] kek project_of_cong [of db' db] by (simp_all add: db')
  have w: "\<exists>ch. last_change changes (sv_Key s) = Some ch \<and> \<not> sc_Delete ch \<and> plain kr db' s = Some (sc_Value ch) \<and>
      sv_Type s = normalizeType (sc_Type ch) \<and> latest_state db' c (sv_Key s) = Some s" if "s \<in> set new" for s
    using written_secret [OF pk(1) kept(1) pk(2) id] sv that unfolding saved_def by blast
  show "readable kr db'"
    using rd w pl by (force simp: readable_def db')
  have "content (latest_shown kr db' c) k = apply_batch changes (content (latest_shown kr db c)) k" for k
  proof (cases "last_change changes k")
    case None
    then have "latest_state db' c k = latest_state db c k" using sv by (simp add: saved_def net_change_store)
    then show ?thesis using None pl by (simp add: apply_batch_def content_def latest_shown_def secret_of_def option.map_comp comp_def)
  next
    case (Some ch)
    show ?thesis
    proof (cases "sc_Delete ch")
      case True
      then have "deletes (net_change ?changes) k" using Some by (auto simp: deletes_def net_change_store store_change_def)
      then show ?thesis using sv Some True by (simp add: saved_def apply_batch_def content_def latest_shown_def)
    next
      case False
      then have "sets (net_change ?changes) k" using Some by (auto simp: sets_def net_change_store store_change_def)
      then obtain s where s: "s \<in> set new" "sv_Key s = k" using sv by (auto simp: saved_def)
      from w [OF s(1)] show ?thesis using s(2) Some False
        by (auto simp: apply_batch_def content_def latest_shown_def secret_of_def)
    qed
  qed
  moreover have "shown kr db' c (max_version db c + 1) = Some (latest_shown kr db' c)"
    using sp(5) by (simp add: shown_def latest_shown_def fun_eq_iff)
  ultimately show "\<exists>m. shown kr db' c (max_version db c + 1) = Some m \<and> content m = apply_batch changes (content (latest_shown kr db c))"
    by blast
qed

subsection \<open>When a batch succeeds\<close>

text \<open>Every closure of the batch succeeds when it finds \<open>need\<close> random bytes, which it uses up.\<close>

definition enc_total :: "(string \<Rightarrow> 'e Change option) \<Rightarrow> nat \<Rightarrow> bool" where
  "enc_total final need \<longleftrightarrow> (\<forall>k ch enc vv r. final k = Some ch \<longrightarrow> ch_Encrypt ch = Some enc \<longrightarrow> 1 \<le> vv \<longrightarrow> need \<le> length r \<longrightarrow>
     (\<exists>val. enc vv r = Inr (val, drop need r)))"

lemma apply_changes_ok:
  assumes total: "enc_total final need"
  shows "distinct keys \<Longrightarrow> inj_on fresh (set keys) \<Longrightarrow> fresh ` set keys \<inter> sv_ID ` set (secret_values db) = {} \<Longrightarrow>
    need * length keys \<le> length r \<Longrightarrow>
    \<exists>ptrs' tombs' r' db'. apply_changes c final fresh now keys ptrs tombs r db = Inr (ptrs', tombs', r', db') \<and>
      config_versions db' = config_versions db"
proof (induction keys arbitrary: ptrs tombs r db)
  case (Cons key keys)
  have hyps: "distinct keys" "inj_on fresh (set keys)" "need * length keys \<le> length r" "need \<le> length r"
    using Cons.prems(1,2,4) by auto
  consider (set) ch enc where "final key = Some ch" "ch_Encrypt ch = Some enc"
    | (other) "\<forall>ch. final key = Some ch \<longrightarrow> ch_Encrypt ch = None"
    by (metis option.exhaust)
  then show ?case
  proof cases
    case set
    let ?vv = "next_value_version db c key"
    obtain val where e: "enc ?vv r = Inr (val, drop need r)"
      using total set hyps(4) next_value_version_pos [of db c key] unfolding enc_total_def by blast
    let ?db = "db\<lparr>secret_values := secret_values db @ [value_row (fresh key) c key ?vv (ch_Type ch) val now]\<rparr>"
    have i: "insert_value (value_row (fresh key) c key ?vv (ch_Type ch) val now) db = Inr ?db"
      using Cons.prems(3) by (auto simp: insert_value_def)
    have "fresh ` set keys \<inter> sv_ID ` set (secret_values ?db) = {}"
      using Cons.prems(1,2,3) by (auto simp: inj_on_def)
    moreover have "need * length keys \<le> length (drop need r)" using Cons.prems(4) by simp
    ultimately have "\<exists>ptrs' tombs' r' db'. apply_changes c final fresh now keys (AList.update key (fresh key) ptrs) tombs (drop need r) ?db =
        Inr (ptrs', tombs', r', db') \<and> config_versions db' = config_versions ?db"
      by (rule Cons.IH [OF hyps(1,2)])
    then show ?thesis using set e i by (simp add: Let_def)
  next
    case other
    have "fresh ` set keys \<inter> sv_ID ` set (secret_values db) = {}" using Cons.prems(3) by auto
    then have "\<exists>ptrs' tombs' r' db'. apply_changes c final fresh now keys ptrs1 tombs1 r db = Inr (ptrs', tombs', r', db') \<and>
        config_versions db' = config_versions db" for ptrs1 tombs1
      by (rule Cons.IH [OF hyps(1,2) _ hyps(3)])
    then show ?thesis using other by (auto split: option.splits)
  qed
qed simp

lemma SetSecrets_ok:
  assumes un: "\<not> Sealed kr" and valid: "first_error validate_change changes = None" and rp: "resolveProject rdb c = Inr (cfg, p)"
    and kek: "unwrapProjectKEK kr p = Inr kek" and live: "cfg_Get db (c_ID cfg) = Inr cfg'"
    and size: "\<And>ch. ch \<in> set changes \<Longrightarrow> length (sc_Value ch) \<le> gcm_limit" and order: "distinct order"
    and fresh: "inj_on fresh (set order)" "fresh ` set order \<inter> sv_ID ` set (secret_values db) = {}" "cvID \<notin> cv_ID ` set (config_versions db)"
    and rnd: "56 * length order \<le> length r"
  shows "\<exists>cv r' db'. SetSecrets kr rdb None c changes msg actor fresh cvID order r now db = (Inr (cv, r'), db')"
proof -
  let ?final = "net_change (map (store_change kr kek p cfg) changes)"
  have kl: "length kek = KeySize"
    using kek by (auto simp: unwrapProjectKEK_def UnwrapProjectKEK_def with_master_def go_result split: sum.splits option.splits)
  have "\<exists>val. enc vv r = Inr (val, drop 56 r)"
    if ch: "?final k = Some ch" "ch_Encrypt ch = Some enc" and vv: "1 \<le> vv" "56 \<le> length r" for k ch enc vv r
  proof -
    obtain sc where sc: "last_change changes k = Some sc" "enc = encrypt_value kr kek p cfg sc"
      using ch by (auto simp: net_change_store store_change_def split: if_splits)
    show ?thesis unfolding sc(2)
      by (rule encrypt_value_ok [OF un kl _ _ vv(2)]) (use vv(1) size last_change_key [OF sc(1)] in auto)
  qed
  then have enc: "enc_total ?final 56" unfolding enc_total_def by blast
  have live': "lock_live db (c_ID cfg) = None" using live by (simp add: lock_live_def)
  let ?ptrs = "if max_version db (c_ID cfg) > 0 then livePointers db (c_ID cfg) (max_version db (c_ID cfg)) else []"
  obtain ptrs tombs r' db1 where a: "apply_changes (c_ID cfg) ?final fresh now order ?ptrs [] r db = Inr (ptrs, tombs, r', db1)"
    and cvs: "config_versions db1 = config_versions db"
    using apply_changes_ok [OF enc order fresh(1,2) rnd] by blast
  have "\<exists>x. save_tx (c_ID cfg) (map (store_change kr kek p cfg) changes) msg actor fresh cvID order r now db = Inr x"
    using a cvs fresh(3) by (simp add: save_tx_def live' Let_def insert_version_def version_row_def)
  then show ?thesis using valid rp kek by (auto simp: SetSecrets_def SaveConfigVersion_def withTx_def)
qed

end
