(* ===== verification/Project_Keys.thy ===== *)
theory Project_Keys
  imports Secrets
begin

section \<open>Rotation of project keys\<close>

text \<open>
  \<^verbatim>\<open>internal/projectkeys\<close>: \<^verbatim>\<open>Rotate\<close> installs a fresh project key, \<^verbatim>\<open>Rewrap\<close> moves every data key under it,
  batch by batch, and retires the versions nothing refers to any more. The sweep keeps a cache of
  unwrapped keys and draws from the random source; each batch is a transaction of its own, whose commit
  may fail (\<open>commits\<close> gives the outcome of the n-th). The messages around errors are left out.
\<close>

datatype pk_err = PkStore store_err | PkCrypto crypto_err | PkNegativeVersion

definition wrap_new_kek :: "Keyring \<Rightarrow> string \<Rightarrow> int \<Rightarrow> rng \<Rightarrow> pk_err + (bytes \<times> rng)" where
  "wrap_new_kek kr projectID oldVersion r =
    bind_err (map_err PkCrypto (GenerateKey r)) (\<lambda>(kek, r1).
    bind_err (map_err PkCrypto (WrapProjectKEK kr kek projectID r1)) (\<lambda>(ct, r2).
      Inr (Marshal ct, r2)))"

definition Rotate :: "Keyring \<Rightarrow> pk_err tx_err option \<Rightarrow> string \<Rightarrow> rng \<Rightarrow> int \<Rightarrow> secret_db \<Rightarrow> (pk_err tx_err + (int \<times> rng)) \<times> secret_db" where
  "Rotate kr commit projectID r now db = RotateKEK commit projectID (wrap_new_kek kr projectID) r now db"

definition rewrapBatchSize :: int where
  "rewrapBatchSize = 200"

type_synonym kek_cache = "int \<rightharpoonup> bytes"

definition loadKEK :: "Keyring \<Rightarrow> secret_db \<Rightarrow> Project \<Rightarrow> int \<Rightarrow> kek_cache \<Rightarrow> pk_err + (bytes \<times> kek_cache)" where
  "loadKEK kr db p version cache = (case cache version of
      Some k \<Rightarrow> Inr (k, cache)
    | None \<Rightarrow>
      bind_err
        (if version = p_KEKVersion p then Inr (p_WrappedKEK p)
         else map_err PkStore (GetWrapped db (p_ID p) version)) (\<lambda>wrapped.
      bind_err (map_err PkCrypto (ParseCiphertext wrapped)) (\<lambda>ct.
      bind_err (map_err PkCrypto (UnwrapProjectKEK kr ct (p_ID p))) (\<lambda>kek.
        Inr (kek, cache(version \<mapsto> kek))))))"

definition dekAAD_pk :: "string \<Rightarrow> string \<Rightarrow> int \<Rightarrow> pk_err + bytes" where
  "dekAAD_pk projectID secretPath valueVersion =
    (if valueVersion < 0 then Inl PkNegativeVersion else Inr (DEKAAD projectID secretPath (word_of_int valueVersion)))"

definition rewrapFn :: "Keyring \<Rightarrow> secret_db \<Rightarrow> Project \<Rightarrow> bytes \<Rightarrow> kek_cache \<times> rng \<Rightarrow> RewrapRow \<Rightarrow> pk_err + (bytes \<times> kek_cache \<times> rng)" where
  "rewrapFn kr db p latestKEK c row =
    bind_err (dekAAD_pk (p_ID p) (secret_path (rw_ConfigID row) (rw_Key row)) (rw_ValueVersion row)) (\<lambda>aad.
    bind_err (loadKEK kr db p (rw_DEKKeyVersion row) (fst c)) (\<lambda>(oldKEK, cache').
    bind_err (map_err PkCrypto (ParseCiphertext (rw_WrappedDEK row))) (\<lambda>dekCT.
    bind_err (map_err PkCrypto (UnwrapKey oldKEK dekCT aad)) (\<lambda>dek.
    bind_err (map_err PkCrypto (WrapKey latestKEK dek aad (snd c))) (\<lambda>(newCT, r').
      Inr (Marshal newCT, cache', r'))))))"

subsection \<open>The sweep terminates\<close>

definition pending_rows :: "secret_db \<Rightarrow> string \<Rightarrow> int \<Rightarrow> SecretValue list" where
  "pending_rows db projectID latest =
    filter (\<lambda>sv. in_project db projectID (sv_ConfigID sv) \<and> DEKKeyVersion (sv_Enc sv) < latest) (secret_values db)"


lemma in_project_values [simp]: "in_project (db\<lparr>secret_values := t\<rparr>) p c = in_project db p c"
  by (simp add: in_project_def)

lemma pending_update:
  "length (filter (\<lambda>sv. Q (sv_ConfigID sv) \<and> DEKKeyVersion (sv_Enc sv) < latest)
       (map (\<lambda>sv. if P sv then set_dek latest w sv else sv) svs)) +
     length (filter (\<lambda>sv. P sv \<and> Q (sv_ConfigID sv) \<and> DEKKeyVersion (sv_Enc sv) < latest) svs) =
   length (filter (\<lambda>sv. Q (sv_ConfigID sv) \<and> DEKKeyVersion (sv_Enc sv) < latest) svs)"
  by (induction svs) (auto simp: set_dek_def)

lemma rewrap_rows_Cons:
  "rewrap_rows rewrap latest (rr # rrs) c db = Inr (c', db') \<longleftrightarrow>
    (\<exists>w c1. rewrap c rr = Inr (w, c1) \<and> length (filter (\<lambda>sv. sv_ID sv = rw_ID rr) (secret_values db)) = 1 \<and>
      rewrap_rows rewrap latest rrs c1
        (db\<lparr>secret_values := map (\<lambda>sv. if sv_ID sv = rw_ID rr then set_dek latest w sv else sv) (secret_values db)\<rparr>) = Inr (c', db'))"
  by (auto simp: update_rows_def split: sum.splits)

declare rewrap_rows.simps(2) [simp del]

lemma rewrap_rows_pending:
  "rewrap_rows rewrap latest rrs c db = Inr (c', db') \<Longrightarrow>
    length (pending_rows db' projectID latest) \<le> length (pending_rows db projectID latest)"
proof (induction rrs arbitrary: c db)
  case (Cons rr rrs)
  then obtain w c1 where "rewrap_rows rewrap latest rrs c1
      (db\<lparr>secret_values := map (\<lambda>sv. if sv_ID sv = rw_ID rr then set_dek latest w sv else sv) (secret_values db)\<rparr>) = Inr (c', db')"
    by (auto simp: rewrap_rows_Cons)
  from Cons.IH [OF this] pending_update [of "in_project db projectID" latest "\<lambda>sv. sv_ID sv = rw_ID rr" w "secret_values db"]
  show ?case by (simp add: pending_rows_def)
qed simp

lemma rewrap_batch_pending:
  assumes "RewrapBatch commit projectID latest cursor limit rewrap c db = (Inr (n, next, c'), db')" "next \<noteq> ''''"
  shows "length (pending_rows db' projectID latest) < length (pending_rows db projectID latest)"
proof -
  let ?batch = "rewrap_select db projectID latest cursor (batch_limit limit)"
  have run: "rewrap_rows rewrap latest ?batch c db = Inr (c', db')" and full: "batch_limit limit \<le> int (length ?batch)"
    using assms by (auto simp: RewrapBatch_def Let_def withTx_def bind_err_Inr split: sum.splits option.splits if_splits)
  have "0 < batch_limit limit" by (simp add: batch_limit_def)
  then obtain rr rrs where b: "?batch = rr # rrs" using full by (cases ?batch) auto
  then obtain s where s: "s \<in> set (secret_values db)" "in_project db projectID (sv_ConfigID s)" "DEKKeyVersion (sv_Enc s) < latest" "rw_ID rr = sv_ID s"
  proof -
    have "rr \<in> set ?batch" using b by simp
    then show thesis using that by (auto simp: rewrap_select_def rewrap_row_def dest!: in_set_takeD)
  qed
  obtain w c1 where "rewrap_rows rewrap latest rrs c1
      (db\<lparr>secret_values := map (\<lambda>sv. if sv_ID sv = rw_ID rr then set_dek latest w sv else sv) (secret_values db)\<rparr>) = Inr (c', db')"
    using run by (auto simp: b rewrap_rows_Cons)
  note le = rewrap_rows_pending [OF this, of projectID]
  have "0 < length (filter (\<lambda>sv. sv_ID sv = rw_ID rr \<and> in_project db projectID (sv_ConfigID sv) \<and> DEKKeyVersion (sv_Enc sv) < latest) (secret_values db))"
    using s by (auto simp: filter_empty_conv)
  moreover have "length (pending_rows db' projectID latest) \<le>
      length (filter (\<lambda>sv. in_project db projectID (sv_ConfigID sv) \<and> DEKKeyVersion (sv_Enc sv) < latest)
        (map (\<lambda>sv. if sv_ID sv = rw_ID rr then set_dek latest w sv else sv) (secret_values db)))"
    using le by (simp add: pending_rows_def [of "secret_values_update _ _"])
  moreover note pending_update [of "in_project db projectID" latest "\<lambda>sv. sv_ID sv = rw_ID rr" w "secret_values db"]
  ultimately show ?thesis unfolding pending_rows_def [of db] by linarith
qed

text \<open>The loop of \<^verbatim>\<open>Rewrap\<close>; \<open>n\<close> counts the batches, \<open>done_n\<close> the rows.\<close>

function rewrap_loop :: "Keyring \<Rightarrow> Project \<Rightarrow> bytes \<Rightarrow> (nat \<Rightarrow> pk_err tx_err option) \<Rightarrow> nat \<Rightarrow> string \<Rightarrow> nat \<Rightarrow> kek_cache \<times> rng \<Rightarrow> secret_db \<Rightarrow>
    nat \<times> pk_err tx_err option \<times> secret_db" where
  "rewrap_loop kr p latestKEK commits n cursor done_n c db =
    (case RewrapBatch (commits n) (p_ID p) (p_KEKVersion p) cursor rewrapBatchSize (rewrapFn kr db p latestKEK) c db of
       (Inl e, db') \<Rightarrow> (done_n, Some e, db')
     | (Inr (processed, next, c'), db') \<Rightarrow>
         if next = '''' then (done_n + processed, None, db')
         else rewrap_loop kr p latestKEK commits (Suc n) next (done_n + processed) c' db')"
  by pat_completeness auto
termination
  by (relation "measure (\<lambda>(kr, p, k, commits, n, cursor, done_n, c, db). length (pending_rows db (p_ID p) (p_KEKVersion p)))")
    (auto dest: rewrap_batch_pending [OF sym])

declare rewrap_loop.simps [simp del]

record RewrapResult =
  Rewrapped :: nat
  Retired :: "int list"

definition Rewrap :: "Keyring \<Rightarrow> (nat \<Rightarrow> pk_err tx_err option) \<Rightarrow> string \<Rightarrow> rng \<Rightarrow> secret_db \<Rightarrow> (pk_err tx_err option \<times> RewrapResult) \<times> secret_db" where
  "Rewrap kr commits projectID r db = (case proj_Get db projectID of
      Inl e \<Rightarrow> ((Some (FromStore e), \<lparr>Rewrapped = 0, Retired = []\<rparr>), db)
    | Inr p \<Rightarrow>
      (case loadKEK kr db p (p_KEKVersion p) Map.empty of
         Inl e \<Rightarrow> ((Some (FromCaller e), \<lparr>Rewrapped = 0, Retired = []\<rparr>), db)
       | Inr (latestKEK, cache) \<Rightarrow>
         (case rewrap_loop kr p latestKEK commits 0 '''' 0 (cache, r) db of
            (n, Some e, db') \<Rightarrow> ((Some e, \<lparr>Rewrapped = n, Retired = []\<rparr>), db')
          | (n, None, db') \<Rightarrow>
            (let (retired, db'') = DeleteEmpty projectID db' in ((None, \<lparr>Rewrapped = n, Retired = retired\<rparr>), db'')))))"

record Status =
  CurrentVersion :: int
  Pending :: "PendingVersion list"

definition StatusFor :: "secret_db \<Rightarrow> string \<Rightarrow> store_err + Status" where
  "StatusFor db projectID = bind_err (proj_Get db projectID) (\<lambda>p.
     Inr \<lparr>CurrentVersion = p_KEKVersion p, Pending = ListPending db projectID\<rparr>)"

subsection \<open>Inversion\<close>

lemma unwrap_blob_Some: "unwrap_blob kr i w = Some kek \<longleftrightarrow> (\<exists>ct. ParseCiphertext w = Inr ct \<and> UnwrapProjectKEK kr ct i = Inr kek)"
  by (auto simp: unwrap_blob_def split: sum.splits)

lemma wrapped_at_Some:
  "wrapped_at db p v = Some w \<longleftrightarrow> (if v = p_KEKVersion p then w = p_WrappedKEK p else GetWrapped db (p_ID p) v = Inr w)"
  by (auto simp: wrapped_at_def split: sum.splits)

lemma kek_at_Some: "kek_at kr db p v = Some kek \<longleftrightarrow> (\<exists>w. wrapped_at db p v = Some w \<and> unwrap_blob kr (p_ID p) w = Some kek)"
  by (simp add: kek_at_def bind_eq_Some_conv)

lemma plain_Some:
  "plain kr db s = Some pt \<longleftrightarrow> (\<exists>p kek. project_of db (sv_ConfigID s) = Some p \<and>
    kek_at kr db p (DEKKeyVersion (sv_Enc s)) = Some kek \<and> open_value kek s (value_aad p s) = Inr pt)"
proof -
  have "opened kek s aad = Some pt \<longleftrightarrow> open_value kek s aad = Inr pt" for kek aad
    by (simp add: opened_def split: sum.splits)
  then show ?thesis by (simp add: plain_def bind_eq_Some_conv)
qed

lemma kek_length: "kek_at kr db p v = Some kek \<Longrightarrow> length kek = KeySize"
  by (auto simp: kek_at_Some unwrap_blob_Some UnwrapProjectKEK_def with_master_def go_result split: option.splits)

section \<open>Keys change, secrets do not\<close>

subsection \<open>Replacing data keys\<close>

text \<open>A change of the value rows that touches nothing but the wrapped data key and its version.\<close>

definition rekeys :: "(SecretValue \<Rightarrow> SecretValue) \<Rightarrow> bool" where
  "rekeys f \<longleftrightarrow> (\<forall>s. \<exists>w v. f s = s \<or> f s = set_dek v w s)"

lemma set_dek_simps [simp]:
  "sv_ID (set_dek v w s) = sv_ID s" "sv_ConfigID (set_dek v w s) = sv_ConfigID s" "sv_Key (set_dek v w s) = sv_Key s"
  "sv_ValueVersion (set_dek v w s) = sv_ValueVersion s" "sv_Type (set_dek v w s) = sv_Type s"
  "DEKKeyVersion (sv_Enc (set_dek v w s)) = v" "WrappedDEK (sv_Enc (set_dek v w s)) = w"
  "value_ciphertext (set_dek v w s) = value_ciphertext s" "value_aad p (set_dek v w s) = value_aad p s"
  by (simp_all add: set_dek_def value_ciphertext_def value_aad_def)

lemma rekeys_simps:
  assumes "rekeys f"
  shows "sv_ID (f s) = sv_ID s" "sv_ConfigID (f s) = sv_ConfigID s" "sv_Key (f s) = sv_Key s"
    "sv_ValueVersion (f s) = sv_ValueVersion s" "sv_Type (f s) = sv_Type s"
  using assms by (metis rekeys_def set_dek_simps(1-5))+

lemma rekeys_wf:
  assumes f: "rekeys f" and wf: "store_wf db"
  shows "store_wf (db\<lparr>secret_values := map f (secret_values db)\<rparr>)"
proof -
  let ?db = "db\<lparr>secret_values := map f (secret_values db)\<rparr>"
  have old: "hierarchy_ok db" "versions_ok db" "values_ok db" "manifest_ok db" "keks_ok db"
    using wf by (auto simp: store_wf_def)
  have "values_ok ?db" using old(3) by (simp add: values_ok_def comp_def rekeys_simps [OF f])
  moreover have "entry_ok ?db n" if "n \<in> set (config_version_entries db)" for n
  proof -
    have "entry_ok db n" using old(4) that by (simp add: manifest_ok_def)
    then show ?thesis unfolding entry_ok_def by (fastforce simp: rekeys_simps [OF f])
  qed
  ultimately show ?thesis using old by (simp add: store_wf_def hierarchy_ok_def versions_ok_def manifest_ok_def keks_ok_def)
qed

lemma rekeys_view:
  assumes f: "rekeys f" and wf: "store_wf db"
  shows "view (db\<lparr>secret_values := map f (secret_values db)\<rparr>) c v = map_option (\<lambda>st k. map_option f (st k)) (view db c v)"
proof -
  let ?db = "db\<lparr>secret_values := map f (secret_values db)\<rparr>"
  have ok: "versions_ok db" "values_ok db" "manifest_ok db" "versions_ok ?db" "values_ok ?db" "manifest_ok ?db"
    using wf rekeys_wf [OF f wf] by (auto simp: store_wf_def)
  have "state_of ?db i k = Some t \<longleftrightarrow> map_option f (state_of db i k) = Some t" for i k t
    by (auto simp: state_of_iff [OF ok(2,3)] state_of_iff [OF ok(5,6)] rekeys_simps [OF f]) blast
  then have st: "state_of ?db i = (\<lambda>k. map_option f (state_of db i k))" for i by (intro map_eqI)
  have "view ?db c v = Some t \<longleftrightarrow> map_option (\<lambda>st k. map_option f (st k)) (view db c v) = Some t" for t
    by (auto simp: map_option_eq_Some view_Some [OF ok(1)] view_Some [OF ok(4)] st)
  then show ?thesis by (intro option_eqI)
qed

lemma rekeys_shown:
  assumes f: "rekeys f" and wf: "store_wf db" and pl: "\<And>s. s \<in> set (secret_values db) \<Longrightarrow> plain kr db (f s) = plain kr db s"
  shows "shown kr (db\<lparr>secret_values := map f (secret_values db)\<rparr>) c v = shown kr db c v"
proof (cases "view db c v")
  case (Some st)
  have "plain kr (db\<lparr>secret_values := map f (secret_values db)\<rparr>) = plain kr db" by (rule plain_cong) simp_all
  then have "secret_of kr (db\<lparr>secret_values := map f (secret_values db)\<rparr>) (f s) = secret_of kr db s" if "s \<in> set (secret_values db)" for s
    using pl [OF that] by (simp add: secret_of_def rekeys_simps [OF f])
  then have "map_option (secret_of kr (db\<lparr>secret_values := map f (secret_values db)\<rparr>)) (map_option f (st k)) = map_option (secret_of kr db) (st k)" for k
    using view_values [OF wf Some, of k] by (cases "st k") auto
  then show ?thesis using Some by (simp add: shown_def rekeys_view [OF f wf])
qed (simp add: shown_def rekeys_view [OF f wf])

subsection \<open>Re-wrapping one row\<close>

definition cache_ok :: "Keyring \<Rightarrow> secret_db \<Rightarrow> Project \<Rightarrow> kek_cache \<Rightarrow> bool" where
  "cache_ok kr db p cache \<longleftrightarrow> (\<forall>v k. cache v = Some k \<longrightarrow> kek_at kr db p v = Some k)"

lemma loadKEK_Inr:
  assumes "cache_ok kr db p cache" "loadKEK kr db p v cache = Inr (kek, cache')"
  shows "kek_at kr db p v = Some kek" "cache_ok kr db p cache'"
proof -
  show k: "kek_at kr db p v = Some kek"
    using assms by (auto simp: loadKEK_def cache_ok_def kek_at_def wrapped_at_def unwrap_blob_def go_result bind_err_Inr
        split: option.splits if_splits)
  show "cache_ok kr db p cache'"
    using assms k by (auto simp: loadKEK_def cache_ok_def bind_err_Inr split: option.splits if_splits)
qed

lemma loadKEK_ok:
  assumes "cache_ok kr db p cache" "kek_at kr db p v = Some kek"
  shows "\<exists>cache'. loadKEK kr db p v cache = Inr (kek, cache')"
proof (cases "cache v")
  case (Some k)
  then show ?thesis using assms by (auto simp: loadKEK_def cache_ok_def)
next
  case None
  then show ?thesis using assms(2)
    by (auto simp: loadKEK_def kek_at_Some wrapped_at_Some unwrap_blob_Some split: if_splits)
qed

lemma rewrapFn_plain:
  assumes p: "project_of db (sv_ConfigID s) = Some p" and latest: "kek_at kr db p (p_KEKVersion p) = Some latestKEK"
    and cache: "cache_ok kr db p (fst c)" and run: "rewrapFn kr db p latestKEK c (rewrap_row s) = Inr (w, c')"
  shows "plain kr db (set_dek (p_KEKVersion p) w s) = plain kr db s" "cache_ok kr db p (fst c')"
proof -
  obtain oldKEK cache' dekCT dek newCT r' where
    vv: "0 \<le> sv_ValueVersion s" and l: "loadKEK kr db p (DEKKeyVersion (sv_Enc s)) (fst c) = Inr (oldKEK, cache')"
    and d: "ParseCiphertext (WrappedDEK (sv_Enc s)) = Inr dekCT" "UnwrapKey oldKEK dekCT (value_aad p s) = Inr dek"
    and n: "WrapKey latestKEK dek (value_aad p s) (snd c) = Inr (newCT, r')" "w = Marshal newCT" "c' = (cache', r')"
    using run by (auto simp: rewrapFn_def rewrap_row_def dekAAD_pk_def go_result bind_err_Inr value_aad_def split: if_splits)
  show "cache_ok kr db p (fst c')" using loadKEK_Inr [OF cache l] n(3) by simp
  have "ParseCiphertext w = Inr newCT" "UnwrapKey latestKEK newCT (value_aad p s) = Inr dek"
    using UnwrapKey_WrapKey [OF n(1)] n(1,2) ParseCiphertext_Encrypt [of latestKEK dek "value_aad p s" "snd c" newCT r']
    by (auto simp: WrapKey_def split: if_splits)
  then show "plain kr db (set_dek (p_KEKVersion p) w s) = plain kr db s"
    using p latest loadKEK_Inr(1) [OF cache l] d by (simp add: plain_def opened_def open_value_def)
qed

lemma rewrapFn_ok:
  assumes p: "project_of db (sv_ConfigID s) = Some p" and latest: "kek_at kr db p (p_KEKVersion p) = Some latestKEK"
    and cache: "cache_ok kr db p (fst c)" and pl: "plain kr db s \<noteq> None" and vv: "0 \<le> sv_ValueVersion s" and r: "12 \<le> length (snd c)"
  shows "\<exists>w c'. rewrapFn kr db p latestKEK c (rewrap_row s) = Inr (w, c') \<and> snd c' = drop 12 (snd c)"
proof -
  obtain kek pt where kek: "kek_at kr db p (DEKKeyVersion (sv_Enc s)) = Some kek" and o: "open_value kek s (value_aad p s) = Inr pt"
    using pl p by (auto simp: plain_Some)
  obtain dekCT dek where d: "ParseCiphertext (WrappedDEK (sv_Enc s)) = Inr dekCT" "UnwrapKey kek dekCT (value_aad p s) = Inr dek"
    using o by (auto simp: open_value_def go_result bind_err_Inr split: sum.splits)
  obtain cache' where l: "loadKEK kr db p (DEKKeyVersion (sv_Enc s)) (fst c) = Inr (kek, cache')"
    using loadKEK_ok [OF cache kek] by blast
  have "length dek = KeySize" using d(2) by (simp add: UnwrapKey_Inr)
  then obtain newCT where "WrapKey latestKEK dek (value_aad p s) (snd c) = Inr (newCT, drop 12 (snd c))"
    using WrapKey_ok [OF kek_length [OF latest], of dek "snd c" "value_aad p s"] r by (auto simp: NonceSize_def)
  then show ?thesis using vv l d by (simp add: rewrapFn_def rewrap_row_def dekAAD_pk_def value_aad_def)
qed

lemma length_filter_unique:
  "distinct (map f xs) \<Longrightarrow> x \<in> set xs \<Longrightarrow> length (filter (\<lambda>y. f y = f x) xs) = 1"
proof (induction xs)
  case (Cons z xs)
  then show ?case
    by (cases "f z = f x") (auto simp: filter_empty_conv image_iff)
qed simp

subsection \<open>A batch of rows\<close>

lemma rewrapFn_cong: "project_kek_versions db' = project_kek_versions db \<Longrightarrow> rewrapFn kr db' = rewrapFn kr db"
  by (simp add: fun_eq_iff rewrapFn_def loadKEK_def GetWrapped_def cong: option.case_cong)

lemma rekeys_comp: "rekeys f \<Longrightarrow> rekeys g \<Longrightarrow> rekeys (g \<circ> f)"
  unfolding rekeys_def comp_def
proof (intro allI)
  fix s assume f: "\<forall>s. \<exists>w v. f s = s \<or> f s = set_dek v w s" and g: "\<forall>s. \<exists>w v. g s = s \<or> g s = set_dek v w s"
  have "set_dek v w (set_dek v' w' s) = set_dek v w s" for v w v' w' by (simp add: set_dek_def)
  then show "\<exists>w v. g (f s) = s \<or> g (f s) = set_dek v w s" using f g by metis
qed

lemma in_project_of:
  assumes "hierarchy_ok db" "p \<in> set (projects db)" "in_project db (p_ID p) c"
  shows "project_of db c = Some p"
proof -
  have d: "distinct (map p_ID (projects db))" "distinct (map e_ID (environments db))" "distinct (map c_ID (configs db))"
    using assms(1) by (simp_all add: hierarchy_ok_def)
  obtain cfg env where "cfg \<in> set (configs db)" "c_ID cfg = c" "env \<in> set (environments db)" "e_ID env = c_EnvironmentID cfg" "e_ProjectID env = p_ID p"
    using assms(3) by (auto simp: in_project_def)
  then have "cfg_GetIncludingDeleted db c = Inr cfg" "env_GetIncludingDeleted db (c_EnvironmentID cfg) = Inr env"
    "proj_GetIncludingDeleted db (e_ProjectID env) = Inr p"
    using one_row_by_id [OF d(3)] one_row_by_id [OF d(2)] one_row_by_id [OF d(1)] assms(2)
    by (auto simp: cfg_GetIncludingDeleted_def env_GetIncludingDeleted_def proj_GetIncludingDeleted_def)
  then show ?thesis by (simp add: project_of_def)
qed

text \<open>What a sweep does to the values: each keeps its plaintext, and those in \<open>ids\<close> move to the latest key.\<close>

definition swept :: "Keyring \<Rightarrow> Project \<Rightarrow> secret_db \<Rightarrow> string set \<Rightarrow> (SecretValue \<Rightarrow> SecretValue) \<Rightarrow> bool" where
  "swept kr p db ids f \<longleftrightarrow> rekeys f \<and> (\<forall>s\<in>set (secret_values db). plain kr db (f s) = plain kr db s \<and>
     (if sv_ID s \<in> ids then DEKKeyVersion (sv_Enc (f s)) = p_KEKVersion p else f s = s))"

definition sweep_ready :: "Keyring \<Rightarrow> Project \<Rightarrow> bytes \<Rightarrow> secret_db \<Rightarrow> bool" where
  "sweep_ready kr p latestKEK db \<longleftrightarrow> store_wf db \<and> p \<in> set (projects db) \<and> kek_at kr db p (p_KEKVersion p) = Some latestKEK"

definition rows_of :: "secret_db \<Rightarrow> Project \<Rightarrow> RewrapRow list \<Rightarrow> bool" where
  "rows_of db p rrs \<longleftrightarrow> distinct (map rw_ID rrs) \<and>
     (\<forall>rr\<in>set rrs. \<exists>s\<in>set (secret_values db). rr = rewrap_row s \<and> in_project db (p_ID p) (sv_ConfigID s))"

lemma sweptI:
  assumes "rekeys f" "\<And>s. s \<in> set (secret_values db) \<Longrightarrow> plain kr db (f s) = plain kr db s"
    "\<And>s. s \<in> set (secret_values db) \<Longrightarrow> sv_ID s \<in> ids \<Longrightarrow> DEKKeyVersion (sv_Enc (f s)) = p_KEKVersion p"
    "\<And>s. s \<in> set (secret_values db) \<Longrightarrow> sv_ID s \<notin> ids \<Longrightarrow> f s = s"
  shows "swept kr p db ids f"
  unfolding swept_def using assms by simp

lemma sweptD:
  assumes "swept kr p db ids f"
  shows "rekeys f" "s \<in> set (secret_values db) \<Longrightarrow> plain kr db (f s) = plain kr db s"
    "s \<in> set (secret_values db) \<Longrightarrow> sv_ID s \<in> ids \<Longrightarrow> DEKKeyVersion (sv_Enc (f s)) = p_KEKVersion p"
    "s \<in> set (secret_values db) \<Longrightarrow> sv_ID s \<notin> ids \<Longrightarrow> f s = s"
  using assms unfolding swept_def by simp_all

lemma swept_id: "swept kr p db {} (\<lambda>s. s)"
  by (simp add: swept_def rekeys_def)

lemma swept_comp:
  assumes f: "swept kr p db I f" and g: "swept kr p (db\<lparr>secret_values := map f (secret_values db)\<rparr>) J g"
  shows "swept kr p db (I \<union> J) (g \<circ> f)"
proof -
  let ?db = "db\<lparr>secret_values := map f (secret_values db)\<rparr>"
  have rk: "rekeys f" "rekeys g" using sweptD(1) [OF f] sweptD(1) [OF g] by simp_all
  have pl: "plain kr ?db = plain kr db" by (rule plain_cong) simp_all
  note id = rekeys_simps(1) [OF rk(1)]
  have 1: "f s \<in> set (secret_values ?db)" if "s \<in> set (secret_values db)" for s using that by simp
  show ?thesis
  proof (rule sweptI)
    show "rekeys (g \<circ> f)" by (rule rekeys_comp [OF rk])
  next
    fix s assume s: "s \<in> set (secret_values db)"
    show "plain kr db ((g \<circ> f) s) = plain kr db s" using sweptD(2) [OF g 1 [OF s]] sweptD(2) [OF f s] by (simp add: pl)
    show "DEKKeyVersion (sv_Enc ((g \<circ> f) s)) = p_KEKVersion p" if "sv_ID s \<in> I \<union> J"
    proof (cases "sv_ID s \<in> J")
      case True
      then show ?thesis using sweptD(3) [OF g 1 [OF s]] by (simp add: id)
    next
      case False
      then show ?thesis using sweptD(4) [OF g 1 [OF s]] sweptD(3) [OF f s] that by (simp add: id)
    qed
    show "(g \<circ> f) s = s" if "sv_ID s \<notin> I \<union> J"
      using sweptD(4) [OF g 1 [OF s]] sweptD(4) [OF f s] that by (simp add: id)
  qed
qed

lemma sweep_ready_rekeys: "rekeys f \<Longrightarrow> sweep_ready kr p k db \<Longrightarrow> sweep_ready kr p k (db\<lparr>secret_values := map f (secret_values db)\<rparr>)"
  using rekeys_wf [of f db] kek_at_cong [of "db\<lparr>secret_values := map f (secret_values db)\<rparr>" db kr] by (simp add: sweep_ready_def)

lemma rewrap_one:
  assumes rdy: "sweep_ready kr p k db" and s: "s \<in> set (secret_values db)" "in_project db (p_ID p) (sv_ConfigID s)"
    and cache: "cache_ok kr db p (fst c)" and run: "rewrapFn kr db p k c (rewrap_row s) = Inr (w, c')"
  shows "swept kr p db {sv_ID s} (\<lambda>t. if sv_ID t = sv_ID s then set_dek (p_KEKVersion p) w t else t)" "cache_ok kr db p (fst c')"
proof -
  have wf: "hierarchy_ok db" "values_ok db" using rdy by (auto simp: sweep_ready_def store_wf_def)
  have p: "project_of db (sv_ConfigID s) = Some p" using in_project_of [OF wf(1) _ s(2)] rdy by (simp add: sweep_ready_def)
  note pl = rewrapFn_plain [OF p _ cache run]
  show "cache_ok kr db p (fst c')" using pl(2) rdy by (simp add: sweep_ready_def)
  have "t = s" if "t \<in> set (secret_values db)" "sv_ID t = sv_ID s" for t using value_unique [OF wf(2)] that s(1) by blast
  then show "swept kr p db {sv_ID s} (\<lambda>t. if sv_ID t = sv_ID s then set_dek (p_KEKVersion p) w t else t)"
    using pl(1) rdy by (auto simp: swept_def rekeys_def sweep_ready_def)
qed

lemma rows_of_update:
  assumes "rows_of db p (rr # rrs)"
  shows "rows_of (db\<lparr>secret_values := map (\<lambda>t. if sv_ID t = rw_ID rr then h t else t) (secret_values db)\<rparr>) p rrs"
proof -
  have "\<exists>s\<in>set (map (\<lambda>t. if sv_ID t = rw_ID rr then h t else t) (secret_values db)). r = rewrap_row s \<and> in_project db (p_ID p) (sv_ConfigID s)"
    if r: "r \<in> set rrs" for r
  proof -
    obtain s where s: "s \<in> set (secret_values db)" "r = rewrap_row s" "in_project db (p_ID p) (sv_ConfigID s)"
      using assms r by (auto simp: rows_of_def)
    have "rw_ID rr \<notin> rw_ID ` set rrs" using assms by (simp add: rows_of_def)
    then have "rw_ID r \<noteq> rw_ID rr" using imageI [OF r, of rw_ID] by metis
    then have "sv_ID s \<noteq> rw_ID rr" using s(2) by (simp add: rewrap_row_def)
    then show ?thesis using s by (intro bexI [of _ s]) (auto intro!: image_eqI [of _ _ s])
  qed
  then show ?thesis using assms by (simp add: rows_of_def)
qed

lemma rewrap_rows_swept:
  assumes "rewrap_rows (rewrapFn kr db0 p k) (p_KEKVersion p) rrs c db = Inr (c', db')"
    "project_kek_versions db0 = project_kek_versions db" "sweep_ready kr p k db" "rows_of db p rrs" "cache_ok kr db p (fst c)"
  shows "\<exists>f. swept kr p db (rw_ID ` set rrs) f \<and> db' = db\<lparr>secret_values := map f (secret_values db)\<rparr> \<and> cache_ok kr db p (fst c')"
  using assms
proof (induction rrs arbitrary: c db)
  case Nil
  then show ?case using swept_id by (intro exI [of _ "\<lambda>s. s"]) auto
next
  case (Cons rr rrs)
  obtain w c1 where w: "rewrapFn kr db0 p k c rr = Inr (w, c1)"
    and rec: "rewrap_rows (rewrapFn kr db0 p k) (p_KEKVersion p) rrs c1
      (db\<lparr>secret_values := map (\<lambda>sv. if sv_ID sv = rw_ID rr then set_dek (p_KEKVersion p) w sv else sv) (secret_values db)\<rparr>) = Inr (c', db')"
    using Cons.prems(1) by (auto simp: rewrap_rows_Cons)
  obtain s where s: "s \<in> set (secret_values db)" "rr = rewrap_row s" "in_project db (p_ID p) (sv_ConfigID s)"
    using Cons.prems(4) by (auto simp: rows_of_def)
  have id: "rw_ID rr = sv_ID s" using s(2) by (simp add: rewrap_row_def)
  let ?f = "\<lambda>t. if sv_ID t = sv_ID s then set_dek (p_KEKVersion p) w t else t"
  let ?db = "db\<lparr>secret_values := map ?f (secret_values db)\<rparr>"
  note one = rewrap_one [OF Cons.prems(3) s(1,3) Cons.prems(5) w [unfolded rewrapFn_cong [OF Cons.prems(2)] s(2)]]
  have rk: "rekeys ?f" using one(1) by (simp add: swept_def)
  have ck: "cache_ok kr ?db p (fst c1)" using one(2) kek_at_cong [of ?db db kr] by (simp add: cache_ok_def)
  obtain g where g: "swept kr p ?db (rw_ID ` set rrs) g" "db' = ?db\<lparr>secret_values := map g (secret_values ?db)\<rparr>" "cache_ok kr ?db p (fst c')"
    using Cons.IH [OF rec [unfolded id] _ sweep_ready_rekeys [OF rk Cons.prems(3)] rows_of_update [OF Cons.prems(4), unfolded id] ck]
      Cons.prems(2) by auto
  have "cache_ok kr db p (fst c')" using g(3) kek_at_cong [of ?db db kr] by (simp add: cache_ok_def)
  moreover have "swept kr p db (rw_ID ` set (rr # rrs)) (g \<circ> ?f)" using swept_comp [OF one(1) g(1)] by (simp add: id del: comp_apply)
  moreover have "db' = db\<lparr>secret_values := map (g \<circ> ?f) (secret_values db)\<rparr>" using g(2) by simp
  ultimately show ?case by blast
qed

lemma rewrap_rows_ok:
  assumes "project_kek_versions db0 = project_kek_versions db" "sweep_ready kr p k db" "rows_of db p rrs" "cache_ok kr db p (fst c)"
    "readable kr db" "12 * length rrs \<le> length (snd c)"
  shows "\<exists>c' db'. rewrap_rows (rewrapFn kr db0 p k) (p_KEKVersion p) rrs c db = Inr (c', db') \<and> snd c' = drop (12 * length rrs) (snd c)"
  using assms
proof (induction rrs arbitrary: c db)
  case (Cons rr rrs)
  obtain s where s: "s \<in> set (secret_values db)" "rr = rewrap_row s" "in_project db (p_ID p) (sv_ConfigID s)"
    using Cons.prems(3) by (auto simp: rows_of_def)
  have id: "rw_ID rr = sv_ID s" using s(2) by (simp add: rewrap_row_def)
  have wf: "hierarchy_ok db" "values_ok db" and latest: "kek_at kr db p (p_KEKVersion p) = Some k"
    using Cons.prems(2) by (auto simp: sweep_ready_def store_wf_def)
  have p: "project_of db (sv_ConfigID s) = Some p" using in_project_of [OF wf(1) _ s(3)] Cons.prems(2) by (simp add: sweep_ready_def)
  have "plain kr db s \<noteq> None" "0 \<le> sv_ValueVersion s" using Cons.prems(5) s(1) wf(2) by (auto simp: readable_def values_ok_def)
  then obtain w c1 where w: "rewrapFn kr db p k c (rewrap_row s) = Inr (w, c1)" and r: "snd c1 = drop 12 (snd c)"
    using rewrapFn_ok [OF p latest Cons.prems(4)] Cons.prems(6) by auto
  let ?f = "\<lambda>t. if sv_ID t = sv_ID s then set_dek (p_KEKVersion p) w t else t"
  let ?db = "db\<lparr>secret_values := map ?f (secret_values db)\<rparr>"
  note one = rewrap_one [OF Cons.prems(2) s(1,3) Cons.prems(4) w]
  have rk: "rekeys ?f" using one(1) by (simp add: swept_def)
  have pl: "plain kr ?db = plain kr db" by (rule plain_cong) simp_all
  have "plain kr ?db t \<noteq> None" if "t \<in> ?f ` set (secret_values db)" for t
    using that Cons.prems(5) sweptD(2) [OF one(1)] unfolding readable_def pl by force
  then have rd: "readable kr ?db" by (simp add: readable_def)
  have ck: "cache_ok kr ?db p (fst c1)" using one(2) kek_at_cong [of ?db db kr] by (simp add: cache_ok_def)
  have uniq: "length (filter (\<lambda>sv. sv_ID sv = sv_ID s) (secret_values db)) = 1"
    using wf(2) s(1) by (auto simp: values_ok_def filter_eq_Cons_iff length_filter_unique)
  have "\<exists>c' db'. rewrap_rows (rewrapFn kr db0 p k) (p_KEKVersion p) rrs c1 ?db = Inr (c', db') \<and> snd c' = drop (12 * length rrs) (snd c1)"
    using Cons.IH [OF _ sweep_ready_rekeys [OF rk Cons.prems(2)] rows_of_update [OF Cons.prems(3), unfolded id] ck rd] Cons.prems(1,6) r by simp
  then show ?case using w uniq r by (auto simp: rewrap_rows_Cons rewrapFn_cong [OF Cons.prems(1)] s(2) id [unfolded s(2)] add.commute)
qed simp

end
