(* ===== verification/Key_Sweep.thy ===== *)
theory Key_Sweep
  imports Project_Keys
begin

section \<open>The sweep of a project's data keys\<close>

text \<open>
  What \<^verbatim>\<open>projectkeys.Rewrap\<close> as a whole does: batch after batch it moves the data keys under the latest project key
  and never changes what a secret decrypts to; with a working database and random source it leaves nothing behind.
\<close>

subsection \<open>Batches\<close>

lemma rewrap_select_rows:
  assumes "store_wf db"
  shows "rows_of db p (rewrap_select db (p_ID p) v cursor lm)"
proof -
  have "distinct (map sv_ID (sort_key sv_ID (filter P (secret_values db))))" for P
    using assms by (auto simp: store_wf_def values_ok_def distinct_map intro: inj_on_subset)
  then have "distinct (map sv_ID (take n (sort_key sv_ID (filter P (secret_values db)))))" for n P
    by (simp add: take_map [symmetric])
  moreover have "map rw_ID (map rewrap_row xs) = map sv_ID xs" for xs by (simp add: rewrap_row_def)
  ultimately show ?thesis
    by (auto simp: rows_of_def rewrap_select_def simp del: map_map dest!: in_set_takeD)
qed

lemma RewrapBatch_swept:
  assumes run: "RewrapBatch commit (p_ID p) (p_KEKVersion p) cursor lm (rewrapFn kr db p k) c db = (Inr (n, next, c'), db')"
    and rdy: "sweep_ready kr p k db" and ck: "cache_ok kr db p (fst c)"
  defines "batch \<equiv> rewrap_select db (p_ID p) (p_KEKVersion p) cursor (batch_limit lm)"
  shows "\<exists>f. swept kr p db (rw_ID ` set batch) f \<and> db' = db\<lparr>secret_values := map f (secret_values db)\<rparr> \<and> cache_ok kr db p (fst c')"
proof -
  have "rewrap_rows (rewrapFn kr db p k) (p_KEKVersion p) batch c db = Inr (c', db')"
    using run by (auto simp: RewrapBatch_def Let_def batch_def withTx_ok bind_err_Inr)
  from rewrap_rows_swept [OF this refl rdy _ ck] show ?thesis
    using rewrap_select_rows rdy by (auto simp: batch_def sweep_ready_def)
qed

lemma rewrap_loop_swept:
  assumes "rewrap_loop kr p k commits n cursor done_n c db = (m, e, db')" "sweep_ready kr p k db" "cache_ok kr db p (fst c)"
  shows "\<exists>ids f. swept kr p db ids f \<and> db' = db\<lparr>secret_values := map f (secret_values db)\<rparr>"
  using assms
proof (induction kr p k commits n cursor done_n c db rule: rewrap_loop.induct)
  case (1 kr p k commits n cursor done_n c db)
  obtain res db1 where b: "RewrapBatch (commits n) (p_ID p) (p_KEKVersion p) cursor rewrapBatchSize (rewrapFn kr db p k) c db = (res, db1)"
    by fastforce
  show ?case
  proof (cases res)
    case (Inl err)
    then have "db1 = db" using b by (auto simp: RewrapBatch_def Let_def dest: withTx_error)
    then have "db' = db\<lparr>secret_values := map (\<lambda>s. s) (secret_values db)\<rparr>" using 1(2) b Inl by (auto simp: rewrap_loop.simps)
    then show ?thesis using swept_id by blast
  next
    case (Inr r)
    obtain processed nxt c1 where r: "r = (processed, nxt, c1)" by (cases r)
    note b = b [unfolded Inr r]
    obtain ids f where f: "swept kr p db ids f" "db1 = db\<lparr>secret_values := map f (secret_values db)\<rparr>" "cache_ok kr db p (fst c1)"
      using RewrapBatch_swept [OF b 1(3,4)] by blast
    show ?thesis
    proof (cases "nxt = ''''")
      case True
      then show ?thesis using 1(2) b f by (auto simp: rewrap_loop.simps)
    next
      case False
      have l: "rewrap_loop kr p k commits (Suc n) nxt (done_n + processed) c1 db1 = (m, e, db')"
        using 1(2) b False by (simp add: rewrap_loop.simps [of kr p k commits n])
      have ck: "cache_ok kr db1 p (fst c1)" using f(2,3) kek_at_cong [of db1 db kr] by (simp add: cache_ok_def)
      have rdy: "sweep_ready kr p k db1" using sweep_ready_rekeys [OF sweptD(1) [OF f(1)] 1(3)] f(2) by simp
      obtain J g where g: "swept kr p db1 J g" "db' = db1\<lparr>secret_values := map g (secret_values db1)\<rparr>"
        using 1(1) [OF b [symmetric] refl refl refl False l rdy ck] by blast
      have "db' = db\<lparr>secret_values := map (g \<circ> f) (secret_values db)\<rparr>" using g(2) f(2) by simp
      then show ?thesis using swept_comp [OF f(1) g(1) [unfolded f(2)]] by blast
    qed
  qed
qed

subsection \<open>Nothing is left behind\<close>

lemma swept_pending:
  assumes "swept kr p db ids f"
  shows "pending_rows (db\<lparr>secret_values := map f (secret_values db)\<rparr>) (p_ID p) (p_KEKVersion p) =
    filter (\<lambda>s. sv_ID s \<notin> ids) (pending_rows db (p_ID p) (p_KEKVersion p))"
proof -
  let ?Q = "\<lambda>s. in_project db (p_ID p) (sv_ConfigID s) \<and> DEKKeyVersion (sv_Enc s) < p_KEKVersion p"
  have "filter ?Q (map f xs) = filter (\<lambda>s. ?Q s \<and> sv_ID s \<notin> ids) xs" if "set xs \<subseteq> set (secret_values db)" for xs
    using that
  proof (induction xs)
    case (Cons s xs)
    then show ?case using sweptD(3,4) [OF assms, of s] by (cases "sv_ID s \<in> ids") auto
  qed simp
  then show ?thesis by (simp add: pending_rows_def conj_commute)
qed

lemma sorted_last_greater:
  fixes ys :: "'a::linorder list"
  assumes "sorted ys" "distinct ys" "x \<in> set (drop n ys)" "0 < n" "n \<le> length ys"
  shows "last (take n ys) < x"
proof -
  obtain i where i: "n + i < length ys" "x = ys ! (n + i)"
  proof -
    obtain i where "i < length (drop n ys)" "x = drop n ys ! i" using assms(3) by (auto simp: in_set_conv_nth)
    then have "n + i < length ys" "x = ys ! (n + i)" using assms(5) by auto
    then show thesis by (rule that)
  qed
  have "last (take n ys) = ys ! (n - 1)" using assms(4,5) i(1) by (subst last_conv_nth) auto
  moreover have "ys ! (n - 1) \<le> ys ! (n + i)" using assms(1) i(1) by (intro sorted_nth_mono) auto
  moreover have "ys ! (n - 1) \<noteq> ys ! (n + i)" using assms(2,4) i(1) by (auto simp: nth_eq_iff_index_eq)
  ultimately show ?thesis using i(2) by simp
qed

definition cursor_ok :: "string \<Rightarrow> SecretValue list \<Rightarrow> bool" where
  "cursor_ok cursor svs \<longleftrightarrow> (\<forall>s\<in>set svs. cursor = '''' \<or> cursor < sv_ID s)"

lemma select_pending:
  assumes "cursor_ok cursor (pending_rows db p v)"
  shows "rewrap_select db p v cursor lm = map rewrap_row (take (nat lm) (sort_key sv_ID (pending_rows db p v)))"
proof -
  have "filter (\<lambda>sv. in_project db p (sv_ConfigID sv) \<and> DEKKeyVersion (sv_Enc sv) < v \<and> (cursor = '''' \<or> cursor < sv_ID sv)) (secret_values db) =
      pending_rows db p v"
    unfolding pending_rows_def by (rule filter_cong) (use assms in \<open>auto simp: cursor_ok_def pending_rows_def\<close>)
  then show ?thesis by (simp add: rewrap_select_def)
qed

lemma pending_distinct: "store_wf db \<Longrightarrow> distinct (map sv_ID (pending_rows db p v))"
  by (auto simp: store_wf_def values_ok_def pending_rows_def distinct_map intro: inj_on_subset)

lemma sort_key_Nil [simp]: "sort_key f xs = [] \<longleftrightarrow> xs = []"
  by (metis length_0_conv length_sort)

lemma batch_rest:
  fixes svs :: "SecretValue list"
  assumes d: "distinct (map sv_ID svs)" and n: "n \<le> length svs"
  defines "batch \<equiv> take n (sort_key sv_ID svs)" and "rest \<equiv> filter (\<lambda>s. sv_ID s \<notin> sv_ID ` set (take n (sort_key sv_ID svs))) svs"
  shows "length rest + n = length svs" "0 < n \<Longrightarrow> s \<in> set rest \<Longrightarrow> sv_ID (last batch) < sv_ID s"
proof -
  let ?xs = "sort_key sv_ID svs"
  have ds: "distinct (map sv_ID ?xs)" using d by (simp add: distinct_map)
  have "set ?xs = set (take n ?xs) \<union> set (drop n ?xs)" by (metis append_take_drop_id set_append)
  then have sub: "set rest \<subseteq> set (drop n ?xs)" by (auto simp: rest_def)
  let ?done = "filter (\<lambda>s. sv_ID s \<in> sv_ID ` set (take n ?xs)) svs"
  have "set ?done = set (take n ?xs)"
  proof (intro equalityI subsetI)
    fix x assume x: "x \<in> set ?done"
    then obtain y where y: "y \<in> set (take n ?xs)" "sv_ID x = sv_ID y" by auto
    then have "y \<in> set svs" by (auto dest: in_set_takeD)
    then show "x \<in> set (take n ?xs)" using distinct_map_inj [OF d, of x y] x y by auto
  qed (auto dest: in_set_takeD)
  moreover have "distinct ?done" "distinct (take n ?xs)" using d by (auto simp: distinct_map)
  ultimately have "length ?done = length (take n ?xs)" by (metis distinct_card)
  then show "length rest + n = length svs"
    using sum_length_filter_compl [of "\<lambda>s. sv_ID s \<in> sv_ID ` set (take n ?xs)" svs] n by (simp add: rest_def)
  assume s: "0 < n" "s \<in> set rest"
  then have "sv_ID s \<in> set (drop n (map sv_ID ?xs))" using sub by (auto simp: drop_map)
  then have "last (take n (map sv_ID ?xs)) < sv_ID s" using sorted_last_greater [OF _ ds] s(1) n by auto
  moreover have "take n ?xs \<noteq> []" using s(1) n by auto
  ultimately show "sv_ID (last batch) < sv_ID s" by (simp add: batch_def take_map last_map)
qed

lemma last_id_nonempty:
  assumes "distinct (map sv_ID svs)" "2 \<le> n" "n \<le> length svs"
  shows "sv_ID (last (take n (sort_key sv_ID svs))) \<noteq> ''''"
proof -
  let ?ys = "map sv_ID (sort_key sv_ID svs)"
  have ds: "distinct ?ys" using assms(1) by (simp add: distinct_map)
  have ne: "take n (sort_key sv_ID svs) \<noteq> []" using assms by auto
  have "last (take n ?ys) = ?ys ! (n - 1)" using assms by (subst last_conv_nth) auto
  moreover have "?ys ! 0 \<le> ?ys ! (n - 1)" using assms by (intro sorted_nth_mono) auto
  moreover have "?ys ! 0 \<noteq> ?ys ! (n - 1)" using ds assms(2,3) by (subst nth_eq_iff_index_eq) auto
  ultimately have "?ys ! 0 < sv_ID (last (take n (sort_key sv_ID svs)))" using ne by (simp add: take_map last_map)
  then show ?thesis by auto
qed


lemma RewrapBatch_ok:
  assumes rdy: "sweep_ready kr p k db" and ck: "cache_ok kr db p (fst c)" and rd: "readable kr db"
    and rnd: "12 * length (rewrap_select db (p_ID p) (p_KEKVersion p) cursor (batch_limit lm)) \<le> length (snd c)"
  defines "batch \<equiv> rewrap_select db (p_ID p) (p_KEKVersion p) cursor (batch_limit lm)"
  shows "\<exists>c' db'. RewrapBatch None (p_ID p) (p_KEKVersion p) cursor lm (rewrapFn kr db p k) c db =
      (Inr (length batch, if int (length batch) < batch_limit lm then '''' else rw_ID (last batch), c'), db') \<and>
      snd c' = drop (12 * length batch) (snd c)"
proof -
  have "rows_of db p batch" using rewrap_select_rows rdy by (simp add: batch_def sweep_ready_def)
  from rewrap_rows_ok [OF refl rdy this ck rd] obtain c' db'
    where "rewrap_rows (rewrapFn kr db p k) (p_KEKVersion p) batch c db = Inr (c', db')" "snd c' = drop (12 * length batch) (snd c)"
    using rnd by (auto simp: batch_def)
  then show ?thesis by (auto simp: RewrapBatch_def Let_def withTx_ok batch_def)
qed

lemma readable_rekeys:
  assumes "swept kr p db ids f" "readable kr db"
  shows "readable kr (db\<lparr>secret_values := map f (secret_values db)\<rparr>)"
proof -
  have "plain kr (db\<lparr>secret_values := map f (secret_values db)\<rparr>) = plain kr db" by (rule plain_cong) simp_all
  then show ?thesis using assms(2) sweptD(2) [OF assms(1)] by (auto simp: readable_def)
qed

text \<open>One turn of the loop, from a cursor below every pending row: it ends with no row left, or goes on from a cursor
  below what is left.\<close>

lemma rewrap_turn:
  assumes rdy: "sweep_ready kr p k db" and ck: "cache_ok kr db p (fst c)" and rd: "readable kr db"
    and cur: "cursor_ok cursor (pending_rows db (p_ID p) (p_KEKVersion p))"
    and rnd: "12 * length (pending_rows db (p_ID p) (p_KEKVersion p)) \<le> length (snd c)"
  shows "\<exists>m nxt c' db'. RewrapBatch None (p_ID p) (p_KEKVersion p) cursor rewrapBatchSize (rewrapFn kr db p k) c db = (Inr (m, nxt, c'), db') \<and>
    length (pending_rows db' (p_ID p) (p_KEKVersion p)) + m = length (pending_rows db (p_ID p) (p_KEKVersion p)) \<and>
    (nxt = '''' \<longrightarrow> pending_rows db' (p_ID p) (p_KEKVersion p) = []) \<and>
    cursor_ok nxt (pending_rows db' (p_ID p) (p_KEKVersion p)) \<and>
    sweep_ready kr p k db' \<and> cache_ok kr db' p (fst c') \<and> readable kr db' \<and>
    12 * length (pending_rows db' (p_ID p) (p_KEKVersion p)) \<le> length (snd c')"
proof -
  define svs where "svs = pending_rows db (p_ID p) (p_KEKVersion p)"
  define n where "n = min 200 (length svs)"
  let ?batch = "map rewrap_row (take 200 (sort_key sv_ID svs))"
  have sel: "rewrap_select db (p_ID p) (p_KEKVersion p) cursor (batch_limit rewrapBatchSize) = ?batch"
    using select_pending [OF cur] by (simp add: batch_limit_def rewrapBatchSize_def svs_def)
  have take: "take 200 (sort_key sv_ID svs) = take n (sort_key sv_ID svs)"
    unfolding n_def by (cases "200 \<le> length svs") simp_all
  have len: "length ?batch = n" unfolding n_def by simp
  have lm: "batch_limit rewrapBatchSize = 200" by (simp add: batch_limit_def rewrapBatchSize_def)
  have d: "distinct (map sv_ID svs)" using pending_distinct rdy by (simp add: svs_def sweep_ready_def)
  define nxt where "nxt = (if n < 200 then '''' else sv_ID (last (take n (sort_key sv_ID svs))))"
  have nxt_eq: "(if int n < 200 then '''' else rw_ID (last ?batch)) = nxt"
  proof (cases "n < 200")
    case False
    then have "svs \<noteq> []" by (auto simp: n_def)
    then have "last ?batch = rewrap_row (last (take n (sort_key sv_ID svs)))" unfolding take using False by (intro last_map) simp
    then show ?thesis using False by (simp add: nxt_def rewrap_row_def)
  qed (simp add: nxt_def)
  have "12 * length ?batch \<le> length (snd c)" using rnd unfolding len by (simp add: svs_def n_def)
  note ok = RewrapBatch_ok [OF rdy ck rd this [folded sel], unfolded lm sel [unfolded lm] len nxt_eq]
  obtain c' db'
    where b: "RewrapBatch None (p_ID p) (p_KEKVersion p) cursor rewrapBatchSize (rewrapFn kr db p k) c db = (Inr (n, nxt, c'), db')"
      and r': "snd c' = drop (12 * n) (snd c)"
    using ok by (elim exE conjE)
  have ids: "rw_ID ` set ?batch = sv_ID ` set (take n (sort_key sv_ID svs))"
    unfolding take by (simp add: image_image rewrap_row_def)
  note sw = RewrapBatch_swept [OF b rdy ck, unfolded sel ids]
  obtain f where f: "swept kr p db (sv_ID ` set (take n (sort_key sv_ID svs))) f"
      "db' = db\<lparr>secret_values := map f (secret_values db)\<rparr>" "cache_ok kr db p (fst c')"
    using sw by (elim exE conjE)
  have rest: "pending_rows db' (p_ID p) (p_KEKVersion p) = filter (\<lambda>s. sv_ID s \<notin> sv_ID ` set (take n (sort_key sv_ID svs))) svs"
    using swept_pending [OF f(1)] f(2) by (simp add: svs_def)
  note br = batch_rest [OF d, of n, folded rest]
  have n: "n \<le> length svs" by (simp add: n_def)
  have rdy': "sweep_ready kr p k db'" using sweep_ready_rekeys [OF sweptD(1) [OF f(1)] rdy] f(2) by simp
  have ck': "cache_ok kr db' p (fst c')" using f(2,3) kek_at_cong [of db' db kr] by (simp add: cache_ok_def)
  have rd': "readable kr db'" using readable_rekeys [OF f(1) rd] f(2) by simp
  have len': "length (pending_rows db' (p_ID p) (p_KEKVersion p)) + n = length svs" using br(1) n by simp
  have cur': "cursor_ok nxt (pending_rows db' (p_ID p) (p_KEKVersion p))"
    using br(2) n by (auto simp: cursor_ok_def nxt_def)
  have "n < 200" if "nxt = ''''" using that last_id_nonempty [OF d _ n] by (auto simp: nxt_def split: if_splits)
  then have stop: "nxt = '''' \<longrightarrow> pending_rows db' (p_ID p) (p_KEKVersion p) = []" using len' by (auto simp: n_def)
  have "12 * length (pending_rows db' (p_ID p) (p_KEKVersion p)) \<le> length (snd c')" using rnd len' r' by (simp add: svs_def)
  then show ?thesis using b len' cur' stop rdy' ck' rd' unfolding svs_def by blast
qed


lemma rewrap_loop_complete:
  assumes "sweep_ready kr p k db" "cache_ok kr db p (fst c)" "readable kr db"
    "cursor_ok cursor (pending_rows db (p_ID p) (p_KEKVersion p))"
    "12 * length (pending_rows db (p_ID p) (p_KEKVersion p)) \<le> length (snd c)"
  shows "\<exists>db'. rewrap_loop kr p k (\<lambda>_. None) n cursor done_n c db = (done_n + length (pending_rows db (p_ID p) (p_KEKVersion p)), None, db') \<and>
    pending_rows db' (p_ID p) (p_KEKVersion p) = []"
  using assms
proof (induction "length (pending_rows db (p_ID p) (p_KEKVersion p))" arbitrary: n cursor done_n c db rule: less_induct)
  case less
  let ?pend = "\<lambda>db. pending_rows db (p_ID p) (p_KEKVersion p)"
  obtain m nxt c' db' where b: "RewrapBatch None (p_ID p) (p_KEKVersion p) cursor rewrapBatchSize (rewrapFn kr db p k) c db = (Inr (m, nxt, c'), db')"
    and len: "length (?pend db') + m = length (?pend db)" and stop: "nxt = '''' \<longrightarrow> ?pend db' = []"
    and inv: "sweep_ready kr p k db'" "cache_ok kr db' p (fst c')" "readable kr db'" "cursor_ok nxt (?pend db')" "12 * length (?pend db') \<le> length (snd c')"
    using rewrap_turn [OF less.prems] by blast
  show ?case
  proof (cases "nxt = ''''")
    case True
    then show ?thesis using b stop len by (simp add: rewrap_loop.simps)
  next
    case False
    have "length (?pend db') < length (?pend db)" using rewrap_batch_pending [OF b False] .
    from less.hyps [OF this inv] obtain db2
      where "rewrap_loop kr p k (\<lambda>_. None) (Suc n) nxt (done_n + m) c' db' = (done_n + m + length (?pend db'), None, db2)" "?pend db2 = []" by blast
    then show ?thesis using b False len by (subst rewrap_loop.simps) (auto simp: algebra_simps)
  qed
qed

subsection \<open>Retiring keys\<close>

lemma one_row_filter: "(\<And>r. r \<in> set t \<Longrightarrow> P r \<Longrightarrow> Q r) \<Longrightarrow> one_row P (filter Q t) = one_row P t"
proof -
  assume "\<And>r. r \<in> set t \<Longrightarrow> P r \<Longrightarrow> Q r"
  then have "filter P (filter Q t) = filter P t" by (induction t) auto
  then show ?thesis by (simp add: one_row_def)
qed

lemma project_of_in_project: "project_of db c = Some p \<Longrightarrow> in_project db (p_ID p) c"
  unfolding project_of_def in_project_def cfg_GetIncludingDeleted_def env_GetIncludingDeleted_def proj_GetIncludingDeleted_def
  by (auto split: sum.splits dest!: one_row_Inr) blast

lemma DeleteEmpty_plain:
  assumes s: "s \<in> set (secret_values db)"
  shows "plain kr (snd (DeleteEmpty projectID db)) s = plain kr db s"
proof (cases "project_of db (sv_ConfigID s)")
  case None
  have "project_of (snd (DeleteEmpty projectID db)) = project_of db" by (rule project_of_cong) (simp_all add: DeleteEmpty_def)
  then show ?thesis using None by (simp add: plain_def)
next
  case (Some p)
  let ?db = "snd (DeleteEmpty projectID db)"
  have po: "project_of ?db = project_of db" by (rule project_of_cong) (simp_all add: DeleteEmpty_def)
  have "\<not> retirable db projectID k" if "kv_ProjectID k = p_ID p \<and> kv_Version k = DEKKeyVersion (sv_Enc s)" for k
    using that s project_of_in_project [OF Some] by (auto simp: retirable_def dek_refs_def filter_empty_conv)
  then have "GetWrapped ?db (p_ID p) (DEKKeyVersion (sv_Enc s)) = GetWrapped db (p_ID p) (DEKKeyVersion (sv_Enc s))"
    by (simp add: GetWrapped_def DeleteEmpty_def one_row_filter)
  then have "kek_at kr ?db p (DEKKeyVersion (sv_Enc s)) = kek_at kr db p (DEKKeyVersion (sv_Enc s))"
    by (simp add: kek_at_def wrapped_at_def)
  then show ?thesis using Some by (simp add: plain_def po)
qed

lemma DeleteEmpty_wf: "store_wf db \<Longrightarrow> store_wf (snd (DeleteEmpty projectID db))"
  by (auto simp: store_wf_def hierarchy_ok_def versions_ok_def values_ok_def manifest_ok_def entry_ok_def keks_ok_def DeleteEmpty_def
      distinct_map intro: inj_on_subset)

lemma shown_same_values:
  assumes "store_wf db" "store_wf db'" "config_versions db' = config_versions db" "config_version_entries db' = config_version_entries db"
    "secret_values db' = secret_values db" "\<And>s. s \<in> set (secret_values db) \<Longrightarrow> plain kr db' s = plain kr db s"
  shows "shown kr db' c v = shown kr db c v"
proof -
  have v: "view db' c v = view db c v" by (rule view_cong) (use assms in auto)
  show ?thesis
  proof (cases "view db c v")
    case (Some st)
    have "map_option (secret_of kr db') (st k) = map_option (secret_of kr db) (st k)" for k
      using view_values [OF assms(1) Some, of k] assms(6) by (cases "st k") (auto simp: secret_of_def)
    then show ?thesis using Some v by (simp add: shown_def)
  qed (simp add: shown_def v)
qed

text \<open>What every key operation promises: the store stays well formed, every value stays readable, and every version
  of every config shows the same secrets.\<close>

definition keeps_secrets :: "Keyring \<Rightarrow> secret_db \<Rightarrow> secret_db \<Rightarrow> bool" where
  "keeps_secrets kr db db' \<longleftrightarrow> store_wf db' \<and> readable kr db' \<and> (\<forall>c v. shown kr db' c v = shown kr db c v)"

lemma keeps_secrets_refl: "store_wf db \<Longrightarrow> readable kr db \<Longrightarrow> keeps_secrets kr db db"
  by (simp add: keeps_secrets_def)

lemma keeps_secrets_trans: "keeps_secrets kr db db1 \<Longrightarrow> keeps_secrets kr db1 db2 \<Longrightarrow> keeps_secrets kr db db2"
  by (simp add: keeps_secrets_def)

lemma swept_keeps:
  assumes "swept kr p db ids f" "store_wf db" "readable kr db"
  shows "keeps_secrets kr db (db\<lparr>secret_values := map f (secret_values db)\<rparr>)"
  using rekeys_wf [OF sweptD(1) [OF assms(1)] assms(2)] readable_rekeys [OF assms(1,3)]
    rekeys_shown [OF sweptD(1) [OF assms(1)] assms(2)] sweptD(2) [OF assms(1)] by (auto simp: keeps_secrets_def)

lemma DeleteEmpty_keeps:
  assumes "store_wf db" "readable kr db"
  shows "keeps_secrets kr db (snd (DeleteEmpty projectID db))"
proof -
  have "shown kr (snd (DeleteEmpty projectID db)) c v = shown kr db c v" for c v
    using shown_same_values [OF assms(1) DeleteEmpty_wf [OF assms(1)]] DeleteEmpty_plain by (simp add: DeleteEmpty_def)
  moreover have "readable kr (snd (DeleteEmpty projectID db))"
    using assms(2) DeleteEmpty_plain [of _ db kr projectID] by (simp add: readable_def DeleteEmpty_def)
  ultimately show ?thesis using DeleteEmpty_wf [OF assms(1)] by (simp add: keeps_secrets_def)
qed

lemma sweep_start:
  assumes "store_wf db" "proj_Get db i = Inr p" "loadKEK kr db p (p_KEKVersion p) Map.empty = Inr (k, cache)"
  shows "sweep_ready kr p k db" "cache_ok kr db p cache" "p_ID p = i"
proof -
  have "cache_ok kr db p Map.empty" by (simp add: cache_ok_def)
  note l = loadKEK_Inr [OF this assms(3)]
  show "cache_ok kr db p cache" by (rule l(2))
  show "sweep_ready kr p k db" "p_ID p = i"
    using l(1) assms(1,2) by (auto simp: sweep_ready_def proj_Get_def dest: one_row_Inr)
qed

lemma Rewrap_keeps:
  assumes wf: "store_wf db" and rd: "readable kr db" and run: "Rewrap kr commits projectID r db = (res, db')"
  shows "keeps_secrets kr db db'"
proof (cases "\<exists>p k cache. proj_Get db projectID = Inr p \<and> loadKEK kr db p (p_KEKVersion p) Map.empty = Inr (k, cache)")
  case False
  then have "db' = db" using run by (auto simp: Rewrap_def split: sum.splits)
  then show ?thesis using keeps_secrets_refl [OF wf rd] by simp
next
  case True
  then obtain p k cache where p: "proj_Get db projectID = Inr p" "loadKEK kr db p (p_KEKVersion p) Map.empty = Inr (k, cache)" by blast
  obtain n e db1 where l: "rewrap_loop kr p k commits 0 '''' 0 (cache, r) db = (n, e, db1)" by (metis prod_cases3)
  obtain ids f where "swept kr p db ids f" "db1 = db\<lparr>secret_values := map f (secret_values db)\<rparr>"
    using rewrap_loop_swept [OF l sweep_start(1) [OF wf p]] sweep_start(2) [OF wf p] by auto
  then have k1: "keeps_secrets kr db db1" using swept_keeps wf rd by blast
  show ?thesis
  proof (cases e)
    case None
    then have "db' = snd (DeleteEmpty projectID db1)" using run p l by (auto simp: Rewrap_def split: prod.splits)
    then show ?thesis using DeleteEmpty_keeps [of db1 kr projectID] k1 keeps_secrets_trans by (auto simp: keeps_secrets_def)
  next
    case (Some x)
    then show ?thesis using run p l k1 by (auto simp: Rewrap_def)
  qed
qed


lemma Rewrap_complete:
  assumes wf: "store_wf db" and rd: "readable kr db" and p: "proj_Get db projectID = Inr p"
    and k: "kek_at kr db p (p_KEKVersion p) = Some k" and rnd: "12 * length (pending_rows db projectID (p_KEKVersion p)) \<le> length r"
  shows "\<exists>retired db'. Rewrap kr (\<lambda>_. None) projectID r db =
      ((None, \<lparr>Rewrapped = length (pending_rows db projectID (p_KEKVersion p)), Retired = retired\<rparr>), db') \<and>
      pending_rows db' projectID (p_KEKVersion p) = [] \<and>
      (\<forall>q\<in>set (project_kek_versions db'). kv_ProjectID q = projectID \<longrightarrow>
        (dek_refs db' projectID (kv_Version q) = [] \<longrightarrow> edit_refs db' projectID (kv_Version q) \<noteq> []))"
proof -
  obtain cache where l: "loadKEK kr db p (p_KEKVersion p) Map.empty = Inr (k, cache)"
    using loadKEK_ok [OF _ k, of Map.empty] by (auto simp: cache_ok_def)
  note start = sweep_start [OF wf p l]
  obtain db1 where loop: "rewrap_loop kr p k (\<lambda>_. None) 0 '''' 0 (cache, r) db = (length (pending_rows db projectID (p_KEKVersion p)), None, db1)"
    "pending_rows db1 projectID (p_KEKVersion p) = []"
    using rewrap_loop_complete [OF start(1) _ rd, of "(cache, r)" "''''" 0 0] start rnd by (auto simp: cursor_ok_def)
  let ?db = "snd (DeleteEmpty projectID db1)"
  have "pending_rows ?db projectID v = pending_rows db1 projectID v" "dek_refs ?db projectID v = dek_refs db1 projectID v"
    "edit_refs ?db projectID v = edit_refs db1 projectID v" for v
    by (simp_all add: pending_rows_def dek_refs_def edit_refs_def in_project_def DeleteEmpty_def)
  moreover have "\<not> retirable db1 projectID q" if "q \<in> set (project_kek_versions ?db)" for q
    using that by (simp add: DeleteEmpty_def)
  ultimately show ?thesis using p l loop
    by (auto simp: Rewrap_def retirable_def split: prod.splits)
qed

subsection \<open>Rotation\<close>

definition rotated :: "string \<Rightarrow> bytes \<Rightarrow> int \<Rightarrow> int \<Rightarrow> Project \<Rightarrow> Project" where
  "rotated i w v now q = (if p_ID q = i then q\<lparr>p_WrappedKEK := w, p_KEKVersion := v, p_UpdatedAt := now\<rparr> else q)"

lemma rotated_simps [simp]:
  "p_ID (rotated i w v now q) = p_ID q" "p_Slug (rotated i w v now q) = p_Slug q" "p_DeletedAt (rotated i w v now q) = p_DeletedAt q"
  "live_project (rotated i w v now q) = live_project q"
  by (simp_all add: rotated_def live_project_def)

lemma Rotate_Inr:
  assumes "Rotate kr commit i r now db = (Inr (v, r'), db')"
  obtains p w where "proj_Get db i = Inr p" "v = p_KEKVersion p + 1"
    "\<forall>k\<in>set (project_kek_versions db). kv_ProjectID k = i \<longrightarrow> kv_Version k \<noteq> p_KEKVersion p"
    "wrap_new_kek kr i (p_KEKVersion p) r = Inr (w, r')"
    "db' = db\<lparr>projects := map (rotated i w v now) (projects db),
      project_kek_versions := project_kek_versions db @ [\<lparr>kv_ProjectID = i, kv_Version = p_KEKVersion p, kv_Wrapped = p_WrappedKEK p\<rparr>]\<rparr>"
  using assms
  by (auto simp: Rotate_def RotateKEK_def withTx_ok rotate_tx_def kek_insert_def Let_def update_rows_def rotated_def [abs_def]
      split: sum.splits if_splits)

lemma Rotate_Inl: "Rotate kr commit i r now db = (Inl e, db') \<Longrightarrow> db' = db"
  by (auto simp: Rotate_def RotateKEK_def dest: withTx_error)

lemma one_row_map:
  assumes "\<And>q. P (f q) = P q"
  shows "one_row P (map f t) = (case one_row P t of Inl e \<Rightarrow> Inl e | Inr q \<Rightarrow> Inr (f q))"
  using assms by (induction t) (auto simp: one_row_def)

lemma one_row_snoc:
  "one_row P (t @ [x]) = (case one_row P t of Inr q \<Rightarrow> Inr q | Inl e \<Rightarrow> if P x then Inr x else Inl e)"
  by (induction t) (auto simp: one_row_def)

lemma Rotate_wf:
  assumes wf: "store_wf db" and run: "Rotate kr commit i r now db = (Inr (v, r'), db')"
  shows "store_wf db'"
proof -
  from Rotate_Inr [OF run] obtain p w where p: "proj_Get db i = Inr p" "v = p_KEKVersion p + 1"
    and new: "\<forall>k\<in>set (project_kek_versions db). kv_ProjectID k = i \<longrightarrow> kv_Version k \<noteq> p_KEKVersion p"
    and db': "db' = db\<lparr>projects := map (rotated i w v now) (projects db),
      project_kek_versions := project_kek_versions db @ [\<lparr>kv_ProjectID = i, kv_Version = p_KEKVersion p, kv_Wrapped = p_WrappedKEK p\<rparr>]\<rparr>"
    by blast
  have old: "hierarchy_ok db" "versions_ok db" "values_ok db" "manifest_ok db" "keks_ok db"
    using wf by (auto simp: store_wf_def)
  have pin: "p \<in> set (projects db)" "p_ID p = i" using one_row_Inr [OF p(1) [unfolded proj_Get_def]] by auto
  have up: "p_KEKVersion q \<le> p_KEKVersion (rotated i w v now q)" if "q \<in> set (projects db)" for q
    using distinct_map_inj [of p_ID "projects db" q p] that pin p(2) old(1) by (auto simp: rotated_def hierarchy_ok_def)
  have "\<exists>q\<in>set (projects db'). p_ID q = kv_ProjectID k \<and> kv_Version k < p_KEKVersion q" if k: "k \<in> set (project_kek_versions db')" for k
  proof (cases "k \<in> set (project_kek_versions db)")
    case True
    then obtain q where q: "q \<in> set (projects db)" "p_ID q = kv_ProjectID k" "kv_Version k < p_KEKVersion q" using old(5) by (auto simp: keks_ok_def)
    then show ?thesis using up [OF q(1)] by (intro bexI [of _ "rotated i w v now q"]) (auto simp: db')
  next
    case False
    then show ?thesis using k pin p(2) by (intro bexI [of _ "rotated i w v now p"]) (auto simp: db' rotated_def)
  qed
  moreover have "distinct (map (\<lambda>k. (kv_ProjectID k, kv_Version k)) (project_kek_versions db'))"
    using old(5) new by (auto simp: db' keks_ok_def)
  ultimately have "keks_ok db'" by (simp add: keks_ok_def)
  moreover have "hierarchy_ok db'" using old(1) by (auto simp: hierarchy_ok_def db' comp_def image_image)
  ultimately show ?thesis using old by (simp add: store_wf_def versions_ok_def values_ok_def manifest_ok_def entry_ok_def db')
qed


text \<open>A successful rotation, written out.\<close>

definition rotation :: "string \<Rightarrow> bytes \<Rightarrow> int \<Rightarrow> Project \<Rightarrow> secret_db \<Rightarrow> secret_db \<Rightarrow> bool" where
  "rotation i w now p db db' \<longleftrightarrow> proj_Get db i = Inr p \<and>
    (\<forall>k\<in>set (project_kek_versions db). kv_ProjectID k = i \<longrightarrow> kv_Version k \<noteq> p_KEKVersion p) \<and>
    db' = db\<lparr>projects := map (rotated i w (p_KEKVersion p + 1) now) (projects db),
      project_kek_versions := project_kek_versions db @ [\<lparr>kv_ProjectID = i, kv_Version = p_KEKVersion p, kv_Wrapped = p_WrappedKEK p\<rparr>]\<rparr>"

lemma Rotate_rotation:
  assumes "Rotate kr commit i r now db = (Inr (v, r'), db')"
  shows "\<exists>p w. rotation i w now p db db' \<and> v = p_KEKVersion p + 1 \<and> wrap_new_kek kr i (p_KEKVersion p) r = Inr (w, r')"
  using Rotate_Inr [OF assms] unfolding rotation_def by metis

lemma rotation_same:
  "rotation i w now p db db' \<Longrightarrow> config_versions db' = config_versions db \<and> config_version_entries db' = config_version_entries db \<and>
    secret_values db' = secret_values db \<and> configs db' = configs db \<and> environments db' = environments db \<and>
    config_edit_requests db' = config_edit_requests db"
  by (simp add: rotation_def)

lemma rotation_project:
  assumes "hierarchy_ok db" "rotation i w now p db db'"
  shows "p \<in> set (projects db)" "p_ID p = i" "q \<in> set (projects db) \<Longrightarrow> p_ID q = i \<Longrightarrow> q = p"
proof -
  show p: "p \<in> set (projects db)" "p_ID p = i"
    using one_row_Inr [of _ "projects db" p] assms(2) by (auto simp: rotation_def proj_Get_def)
  show "q = p" if "q \<in> set (projects db)" "p_ID q = i"
    using distinct_map_inj [of p_ID "projects db" q p] that p assms(1) by (auto simp: hierarchy_ok_def)
qed

lemma rotation_wrapped:
  assumes wf: "store_wf db" and rot: "rotation i w now p db db'" and q: "q \<in> set (projects db)" and b: "wrapped_at db q v = Some b"
  shows "wrapped_at db' (rotated i w (p_KEKVersion p + 1) now q) v = Some b"
proof -
  have old: "hierarchy_ok db" "keks_ok db" using wf by (auto simp: store_wf_def)
  note pin = rotation_project [OF old(1) rot]
  have db': "project_kek_versions db' = project_kek_versions db @ [\<lparr>kv_ProjectID = i, kv_Version = p_KEKVersion p, kv_Wrapped = p_WrappedKEK p\<rparr>]"
    using rot by (simp add: rotation_def)
  show ?thesis
  proof (cases "p_ID q = i")
    case False
    then show ?thesis using b by (auto simp: wrapped_at_Some GetWrapped_def db' one_row_snoc go_result rotated_def split: if_splits sum.splits)
  next
    case True
    then have qp: "q = p" using pin(3) q by blast
    have "\<not> (kv_ProjectID k = i \<and> kv_Version k = p_KEKVersion p + 1)" if "k \<in> set (project_kek_versions db)" for k
      using old(2) that pin(3) by (fastforce simp: keks_ok_def)
    then have n1: "one_row (\<lambda>k. kv_ProjectID k = i \<and> kv_Version k = p_KEKVersion p + 1) (project_kek_versions db) = Inl ErrNotFound"
      by (auto simp: one_row_Inl)
    have n0: "one_row (\<lambda>k. kv_ProjectID k = i \<and> kv_Version k = p_KEKVersion p) (project_kek_versions db) = Inl ErrNotFound"
      using rot by (auto simp: one_row_Inl rotation_def)
    show ?thesis
    proof (cases "v = p_KEKVersion p")
      case True
      then show ?thesis using b pin(2) n0 by (simp add: qp wrapped_at_Some GetWrapped_def db' one_row_snoc rotated_def)
    next
      case False
      then have g: "GetWrapped db i v = Inr b" using b pin(2) by (simp add: qp wrapped_at_Some)
      then have "v \<noteq> p_KEKVersion p + 1" using n1 by (auto simp: GetWrapped_def)
      then show ?thesis using g pin(2) False
        by (auto simp: qp wrapped_at_Some GetWrapped_def db' one_row_snoc rotated_def go_result split: sum.splits)
    qed
  qed
qed

lemma rotation_kek:
  "store_wf db \<Longrightarrow> rotation i w now p db db' \<Longrightarrow> q \<in> set (projects db) \<Longrightarrow> kek_at kr db q v = Some kek \<Longrightarrow>
    kek_at kr db' (rotated i w (p_KEKVersion p + 1) now q) v = Some kek"
  using rotation_wrapped by (auto simp: kek_at_Some)

lemma rotation_plain:
  assumes wf: "store_wf db" and rot: "rotation i w now p db db'" and pl: "plain kr db s = Some x"
  shows "plain kr db' s = Some x"
proof -
  obtain q kek where q: "project_of db (sv_ConfigID s) = Some q" and kek: "kek_at kr db q (DEKKeyVersion (sv_Enc s)) = Some kek"
    and o: "open_value kek s (value_aad q s) = Inr x"
    using pl by (auto simp: plain_Some)
  have qin: "q \<in> set (projects db)"
    using q by (auto simp: project_of_def proj_GetIncludingDeleted_def split: sum.splits dest: one_row_Inr)
  have "project_of db' (sv_ConfigID s) = Some (rotated i w (p_KEKVersion p + 1) now q)"
    using q rot by (auto simp: project_of_def cfg_GetIncludingDeleted_def env_GetIncludingDeleted_def proj_GetIncludingDeleted_def rotation_def
        one_row_map split: sum.splits)
  moreover have "value_aad (rotated i w (p_KEKVersion p + 1) now q) s = value_aad q s" by (simp add: value_aad_def)
  ultimately show ?thesis using o rotation_kek [OF wf rot qin kek] by (auto simp: plain_Some)
qed

lemma Rotate_keeps:
  assumes wf: "store_wf db" and rd: "readable kr db" and run: "Rotate kr commit i r now db = (res, db')"
  shows "keeps_secrets kr db db'"
proof (cases res)
  case (Inl e)
  then show ?thesis using Rotate_Inl run keeps_secrets_refl [OF wf rd] by blast
next
  case (Inr a)
  obtain v r' where run: "Rotate kr commit i r now db = (Inr (v, r'), db')" using run Inr by (cases a) auto
  obtain p w where rot: "rotation i w now p db db'" using Rotate_rotation [OF run] by blast
  have pl: "plain kr db' s = plain kr db s" if "s \<in> set (secret_values db)" for s
    using rotation_plain [OF wf rot] that rd by (cases "plain kr db s") (auto simp: readable_def)
  have same: "config_versions db' = config_versions db" "config_version_entries db' = config_version_entries db" "secret_values db' = secret_values db"
    using rotation_same [OF rot] by simp_all
  have "shown kr db' c v = shown kr db c v" for c v
    by (rule shown_same_values [OF wf Rotate_wf [OF wf run] same]) (use pl in auto)
  then show ?thesis using Rotate_wf [OF wf run] rd pl by (simp add: keeps_secrets_def readable_def same(3))
qed

end
