(* ===== verification/Secret_Versions.thy ===== *)
theory Secret_Versions
  imports Key_Sweep
begin

section \<open>Versions, retention and raw reads\<close>

text \<open>
  The rest of the secrets service that reads or moves whole versions: \<^verbatim>\<open>versions.go\<close>, \<^verbatim>\<open>rawread.go\<close>,
  \<^verbatim>\<open>latest_version.go\<close>, \<^verbatim>\<open>retention.go\<close> and \<^verbatim>\<open>editreq_blob.go\<close>. A list that Go fills while it ranges over a map
  takes the order of the visit as an argument.
\<close>

subsection \<open>Versions\<close>

record SecretMeta =
  sm_Key :: string
  sm_ValueVersion :: int
  sm_CreatedAt :: int

definition meta_of :: "SecretValue \<Rightarrow> SecretMeta" where
  "meta_of sv = \<lparr>sm_Key = sv_Key sv, sm_ValueVersion = sv_ValueVersion sv, sm_CreatedAt = sv_CreatedAt sv\<rparr>"

definition ListSecrets :: "secret_db \<Rightarrow> string list \<Rightarrow> string \<Rightarrow> svc_err + (ConfigVersion \<times> SecretMeta list)" where
  "ListSecrets db order configID =
    bind_err (map_err mapStoreErr (GetLatest db configID)) (\<lambda>(cv, st).
      Inr (cv, List.map_filter (\<lambda>k. map_option (\<lambda>sv. \<lparr>sm_Key = k, sm_ValueVersion = sv_ValueVersion sv, sm_CreatedAt = sv_CreatedAt sv\<rparr>) (st k)) order))"

definition KeyHistory :: "secret_db \<Rightarrow> string \<Rightarrow> string \<Rightarrow> svc_err + SecretMeta list" where
  "KeyHistory db configID key = (case validateKey key of
      Some e \<Rightarrow> Inl e
    | None \<Rightarrow> Inr (map meta_of (GetKeyHistory db configID key)))"

definition svc_ListVersions :: "secret_db \<Rightarrow> string \<Rightarrow> svc_err + ConfigVersion list" where
  "svc_ListVersions db configID = Inr (ListVersions db configID)"

definition DiffVersions :: "secret_db \<Rightarrow> string \<Rightarrow> int \<Rightarrow> int \<Rightarrow> svc_err + diff" where
  "DiffVersions db configID vA vB = Inr (Diff db configID vA vB)"

definition svc_Rollback :: "store_err option \<Rightarrow> string \<Rightarrow> int \<Rightarrow> string \<Rightarrow> string \<Rightarrow> string \<Rightarrow> int \<Rightarrow> secret_db \<Rightarrow>
    (svc_err + ConfigVersion) \<times> secret_db" where
  "svc_Rollback commit configID targetVersion message actor cvID now db =
    (let (out, db') = Rollback commit configID targetVersion message actor cvID now db in (map_err mapStoreErr out, db'))"

definition RollbackChanges :: "Keyring \<Rightarrow> secret_db \<Rightarrow> string list \<Rightarrow> string list \<Rightarrow> string \<Rightarrow> int \<Rightarrow> svc_err + SecretChange list" where
  "RollbackChanges kr db order1 order2 configID targetVersion =
    bind_err (RevealConfigVersion kr db order1 configID targetVersion) (\<lambda>targetVals.
    bind_err (ListSecrets db order2 configID) (\<lambda>(_, metas).
      Inr (List.map_filter (\<lambda>k. map_option (\<lambda>sec. \<lparr>sc_Key = k, sc_Value = se_Value sec, sc_Delete = False, sc_Type = se_Type sec\<rparr>)
             (targetVals k)) order1 @
           map (\<lambda>m. \<lparr>sc_Key = sm_Key m, sc_Value = [], sc_Delete = True, sc_Type = ''''\<rparr>)
             (filter (\<lambda>m. targetVals (sm_Key m) = None) metas))))"

subsection \<open>Raw reads\<close>

definition rawFor :: "Keyring \<Rightarrow> secret_db \<Rightarrow> string list \<Rightarrow> Project \<Rightarrow> Environment \<Rightarrow> Config \<Rightarrow> svc_err + RawConfig" where
  "rawFor kr db order proj env cfg =
    bind_err (case GetLatest db (c_ID cfg) of
        Inl e \<Rightarrow> if e = ErrNotFound then Inr Map.empty else Inl (mapStoreErr e)
      | Inr (_, st) \<Rightarrow> decrypt_keys kr db proj (c_ID cfg) st order (newKEKResolver proj) Map.empty) (\<lambda>vals.
      Inr \<lparr>rc_ProjectID = p_ID proj, rc_EnvID = e_ID env, rc_ConfigID = c_ID cfg,
         rc_Project = p_Slug proj, rc_Env = e_Slug env, rc_Config = c_Name cfg,
         InheritsFrom = c_InheritsFrom cfg, Values = vals\<rparr>)"

definition svc_ReadRaw :: "Keyring \<Rightarrow> secret_db \<Rightarrow> string list \<Rightarrow> Coord \<Rightarrow> svc_err + RawConfig" where
  "svc_ReadRaw kr db order coord =
    bind_err (map_err mapStoreErr (proj_GetBySlug db (co_Project coord))) (\<lambda>proj.
    bind_err (map_err mapStoreErr (env_GetBySlug db (p_ID proj) (co_Env coord))) (\<lambda>env.
    bind_err (map_err mapStoreErr (cfg_GetByName db (e_ID env) (co_Config coord))) (\<lambda>cfg.
      rawFor kr db order proj env cfg)))"

definition svc_ReadRawByID :: "Keyring \<Rightarrow> secret_db \<Rightarrow> string list \<Rightarrow> string \<Rightarrow> svc_err + RawConfig" where
  "svc_ReadRawByID kr db order configID =
    bind_err (map_err mapStoreErr (cfg_Get db configID)) (\<lambda>cfg.
    bind_err (map_err mapStoreErr (env_Get db (c_EnvironmentID cfg))) (\<lambda>env.
    bind_err (map_err mapStoreErr (proj_Get db (e_ProjectID env))) (\<lambda>proj.
      rawFor kr db order proj env cfg)))"

definition svc_LatestVersion :: "secret_db \<Rightarrow> string \<Rightarrow> svc_err + int" where
  "svc_LatestVersion db configID = (case GetLatest db configID of
      Inl e \<Rightarrow> if e = ErrNotFound then Inr 0 else Inl (mapStoreErr e)
    | Inr (cv, _) \<Rightarrow> Inr (cv_Version cv))"

subsection \<open>Retention\<close>

record RetentionFloor =
  fl_MinVersions :: int
  fl_MinDays :: int

record RetentionPolicy =
  Floor :: RetentionFloor
  OverrideVersions :: "int option"
  OverrideDays :: "int option"
  EffectiveVersions :: int
  EffectiveDays :: int

record PruneRequest =
  rq_KeepVersions :: int
  rq_KeepDays :: int
  rq_DryRun :: bool

definition SetRetentionFloor :: "RetentionFloor \<Rightarrow> RetentionFloor" where
  "SetRetentionFloor f =
    (let f1 = (if fl_MinVersions f < 0 then f\<lparr>fl_MinVersions := 0\<rparr> else f)
     in if fl_MinDays f1 < 0 then f1\<lparr>fl_MinDays := 0\<rparr> else f1)"

definition raise :: "int option \<Rightarrow> int \<Rightarrow> int" where
  "raise ov eff = (case ov of Some n \<Rightarrow> if n > eff then n else eff | None \<Rightarrow> eff)"

definition resolvePolicy :: "RetentionFloor \<Rightarrow> VersionRetention \<Rightarrow> RetentionPolicy" where
  "resolvePolicy fl ov = \<lparr>Floor = fl, OverrideVersions = MinVersions ov, OverrideDays = MinDays ov,
     EffectiveVersions = raise (MinVersions ov) (fl_MinVersions fl),
     EffectiveDays = raise (MinDays ov) (fl_MinDays fl)\<rparr>"

definition GetVersionRetention :: "RetentionFloor \<Rightarrow> secret_db \<Rightarrow> string \<Rightarrow> svc_err + RetentionPolicy" where
  "GetVersionRetention fl db configID =
    bind_err (map_err mapStoreErr (cfg_Get db configID)) (\<lambda>_. Inr (resolvePolicy fl (ret_Get db configID)))"

definition SetVersionRetention :: "string \<Rightarrow> int option \<Rightarrow> int option \<Rightarrow> secret_db \<Rightarrow> svc_err + secret_db" where
  "SetVersionRetention configID minVersions minDays db =
    (if minVersions = None \<and> minDays = None then Inl SvcErrValidation
     else if (case minVersions of Some n \<Rightarrow> n < 1 | None \<Rightarrow> False) then Inl SvcErrValidation
     else if (case minDays of Some n \<Rightarrow> n < 1 | None \<Rightarrow> False) then Inl SvcErrValidation
     else bind_err (map_err mapStoreErr (cfg_Get db configID)) (\<lambda>_.
       map_err mapStoreErr (ret_Set configID \<lparr>MinVersions = minVersions, MinDays = minDays\<rparr> db)))"

definition ClearVersionRetention :: "string \<Rightarrow> secret_db \<Rightarrow> svc_err + secret_db" where
  "ClearVersionRetention configID db =
    bind_err (map_err mapStoreErr (cfg_Get db configID)) (\<lambda>_. Inr (ret_Clear configID db))"

definition maxInt :: "int list \<Rightarrow> int" where
  "maxInt vs = foldl (\<lambda>out v. if v > out then v else out) 0 vs"

definition map_prune_err :: "prune_err \<Rightarrow> svc_err" where
  "map_prune_err e = (case e of ErrPruneBlocked \<Rightarrow> SvcPruneBlocked | ErrPruneOrphans \<Rightarrow> SvcPruneOrphans | PruneStore s \<Rightarrow> mapStoreErr s)"

text \<open>\<open>rdb\<close> is the database the policy is read from, \<open>db\<close> the one the transaction runs on.\<close>

definition PruneVersions :: "RetentionFloor \<Rightarrow> secret_db \<Rightarrow> store_err option \<Rightarrow> string \<Rightarrow> PruneRequest \<Rightarrow> int \<Rightarrow> secret_db \<Rightarrow>
    (svc_err + PruneResult) \<times> secret_db" where
  "PruneVersions fl rdb commit configID req now db =
    (if rq_KeepVersions req < 0 \<or> rq_KeepDays req < 0 then (Inl SvcErrValidation, db)
     else if rq_KeepVersions req = 0 \<and> rq_KeepDays req = 0 then (Inl SvcErrValidation, db)
     else (case cfg_Get rdb configID of
         Inl e \<Rightarrow> (Inl (mapStoreErr e), db)
       | Inr _ \<Rightarrow>
         let pol = resolvePolicy fl (ret_Get rdb configID);
             plan = \<lparr>KeepVersions = maxInt [rq_KeepVersions req, EffectiveVersions pol, 1],
                     KeepDays = maxInt [rq_KeepDays req, EffectiveDays pol], DryRun = rq_DryRun req\<rparr>;
             (out, db') = PruneConfigVersions commit configID plan now db
         in (map_err map_prune_err out, db')))"

subsection \<open>Blobs of edit requests\<close>

record EditRequestBlob =
  bl_Ciphertext :: bytes
  bl_WrappedDEK :: bytes
  bl_Nonce :: bytes
  bl_DEKKeyVersion :: int

definition EncryptConfigBlob :: "Keyring \<Rightarrow> secret_db \<Rightarrow> string \<Rightarrow> bytes \<Rightarrow> rng \<Rightarrow> svc_err + (EditRequestBlob \<times> rng)" where
  "EncryptConfigBlob kr db configID plaintext r =
    bind_err (resolveProject db configID) (\<lambda>(cfg, proj).
    bind_err (unwrapProjectKEK kr proj) (\<lambda>kek.
    let aad = ConfigEditRequestAAD (p_ID proj) (c_ID cfg) in
    bind_err (map_err mapCryptoErr (NewDEK kr kek aad r)) (\<lambda>(dek, wrappedDEK, r1).
    bind_err (map_err mapCryptoErr (Encrypt dek plaintext aad r1)) (\<lambda>(ct, r2).
      Inr (\<lparr>bl_Ciphertext = Data ct, bl_WrappedDEK = Marshal wrappedDEK, bl_Nonce = Nonce ct,
            bl_DEKKeyVersion = p_KEKVersion proj\<rparr>, r2)))))"

definition DecryptConfigBlob :: "Keyring \<Rightarrow> secret_db \<Rightarrow> string \<Rightarrow> EditRequestBlob \<Rightarrow> svc_err + bytes" where
  "DecryptConfigBlob kr db configID blob =
    bind_err (resolveProject db configID) (\<lambda>(cfg, proj).
    bind_err (forVersion kr db (bl_DEKKeyVersion blob) (newKEKResolver proj)) (\<lambda>(kek, _).
    let aad = ConfigEditRequestAAD (p_ID proj) (c_ID cfg) in
    (case ParseCiphertext (bl_WrappedDEK blob) of
       Inl _ \<Rightarrow> Inl SvcErrDecrypt
     | Inr dekCT \<Rightarrow>
       bind_err (map_err mapCryptoErr (UnwrapKey kek dekCT aad)) (\<lambda>dek.
         map_err mapCryptoErr (Decrypt dek \<lparr>KeyVersion = 0, Nonce = bl_Nonce blob, Data = bl_Ciphertext blob\<rparr> aad)))))"


section \<open>A rollback as a batch of changes\<close>

text \<open>Values are stored with a type; an empty one becomes \<^verbatim>\<open>string\<close> on the way in.\<close>

definition typed :: "secret_db \<Rightarrow> bool" where
  "typed db \<longleftrightarrow> (\<forall>s\<in>set (secret_values db). sv_Type s \<noteq> '''')"

lemma set_map_filter: "set (List.map_filter f xs) = {y. \<exists>x\<in>set xs. f x = Some y}"
  by (force simp: List.map_filter_def)

lemma last_change_eq:
  assumes "ch \<in> set changes" "sc_Key ch = k" "\<And>x. x \<in> set changes \<Longrightarrow> sc_Key x = k \<Longrightarrow> x = ch"
  shows "last_change changes k = Some ch"
proof (cases "last_change changes k")
  case None
  then show ?thesis using assms(1,2) by (force simp: last_change_def map_of_eq_None_iff)
qed (use last_change_key assms(3) in blast)

lemma last_change_None: "(\<And>x. x \<in> set changes \<Longrightarrow> sc_Key x \<noteq> k) \<Longrightarrow> last_change changes k = None"
  using last_change_key by (cases "last_change changes k") blast+

definition restore_set :: "string \<Rightarrow> Secret \<Rightarrow> SecretChange" where
  "restore_set k sec = \<lparr>sc_Key = k, sc_Value = se_Value sec, sc_Delete = False, sc_Type = se_Type sec\<rparr>"

definition restore_delete :: "string \<Rightarrow> SecretChange" where
  "restore_delete k = \<lparr>sc_Key = k, sc_Value = [], sc_Delete = True, sc_Type = ''''\<rparr>"

lemma latest_shown_max:
  "store_wf db \<Longrightarrow> max_version db c \<noteq> 0 \<Longrightarrow> shown kr db c (max_version db c) = Some (latest_shown kr db c)"
  using GetLatest_Inr [of db c] GetLatest_view by (fastforce simp: shown_def latest_shown_def fun_eq_iff)

lemma shown_positive:
  assumes "store_wf db" "shown kr db c v = Some m"
  shows "1 \<le> v" "v \<le> max_version db c"
proof -
  obtain st where "view db c v = Some st" using assms(2) by (auto simp: shown_def)
  then obtain cv where cv: "cv \<in> set (config_versions db)" "cv_ConfigID cv = c" "cv_Version cv = v"
    using view_Some [of db c v st] assms(1) by (auto simp: store_wf_def)
  show "1 \<le> v" using assms(1) cv by (auto simp: store_wf_def versions_ok_def)
  show "v \<le> max_version db c" using max_version_ge [OF cv(1,2)] cv(3) by simp
qed

lemma RollbackChanges_set:
  assumes wf: "store_wf db" and rd: "readable kr db" and p: "resolveProject db c = Inr (cfg, p)" and m: "shown kr db c v = Some m"
    and o1: "dom m \<subseteq> set o1" and o2: "dom (latest_shown kr db c) \<subseteq> set o2"
  shows "\<exists>changes. RollbackChanges kr db o1 o2 c v = Inr changes \<and>
    set changes = {restore_set k sec |k sec. m k = Some sec} \<union> {restore_delete k |k. latest_shown kr db c k \<noteq> None \<and> m k = None}"
proof -
  have "max_version db c \<noteq> 0"
  proof
    assume "max_version db c = 0"
    then show False using shown_positive [OF wf m] by simp
  qed
  then obtain cv where g: "GetLatest db c = Inr (cv, latest_state db c)" using GetLatest_Inr [OF wf] by blast
  let ?metas = "List.map_filter (\<lambda>k. map_option (\<lambda>sv. \<lparr>sm_Key = k, sm_ValueVersion = sv_ValueVersion sv, sm_CreatedAt = sv_CreatedAt sv\<rparr>)
    (latest_state db c k)) o2"
  have l: "ListSecrets db o2 c = Inr (cv, ?metas)" by (simp add: ListSecrets_def g)
  have keys: "sm_Key ` set ?metas = {k. latest_shown kr db c k \<noteq> None}"
  proof (intro equalityI subsetI)
    fix k assume k: "k \<in> {k. latest_shown kr db c k \<noteq> None}"
    then obtain sv where "latest_state db c k = Some sv" by (auto simp: latest_shown_def)
    moreover have "k \<in> set o2" using o2 k by auto
    ultimately have "\<lparr>sm_Key = k, sm_ValueVersion = sv_ValueVersion sv, sm_CreatedAt = sv_CreatedAt sv\<rparr> \<in> set ?metas"
      by (auto simp: set_map_filter)
    then show "k \<in> sm_Key ` set ?metas" by (rule image_eqI [rotated]) simp
  qed (auto simp: set_map_filter latest_shown_def)
  let ?sets = "List.map_filter (\<lambda>k. map_option (restore_set k) (m k)) o1"
  let ?dels = "map (\<lambda>t. restore_delete (sm_Key t)) (filter (\<lambda>t. m (sm_Key t) = None) ?metas)"
  have run: "RollbackChanges kr db o1 o2 c v = Inr (?sets @ ?dels)"
    unfolding RollbackChanges_def RevealConfigVersion_shown [OF wf rd p m o1] l bind_err_simps prod.case
      restore_set_def [abs_def] restore_delete_def [abs_def] ..
  have sets: "set ?sets = {restore_set k sec |k sec. m k = Some sec}" using o1 by (auto simp: set_map_filter)
  have im: "(\<lambda>t. f (g t)) ` {t \<in> S. P (g t)} = {f k |k. k \<in> g ` S \<and> P k}" for f :: "string \<Rightarrow> SecretChange" and g :: "SecretMeta \<Rightarrow> string" and S P
    by auto
  have dels: "set ?dels = {restore_delete k |k. latest_shown kr db c k \<noteq> None \<and> m k = None}"
    unfolding set_map set_filter im [of restore_delete sm_Key _ "\<lambda>k. m k = None"] keys by simp
  show ?thesis by (rule exI [of _ "?sets @ ?dels"], rule conjI, rule run, simp only: set_append sets dels)
qed

lemma RollbackChanges_batch:
  assumes wf: "store_wf db" and rd: "readable kr db" and p: "resolveProject db c = Inr (cfg, p)" and m: "shown kr db c v = Some m"
    and o1: "dom m \<subseteq> set o1" and o2: "dom (latest_shown kr db c) \<subseteq> set o2" and ty: "typed db"
  shows "\<exists>changes. RollbackChanges kr db o1 o2 c v = Inr changes \<and> apply_batch changes (content (latest_shown kr db c)) = content m"
proof -
  obtain changes where run: "RollbackChanges kr db o1 o2 c v = Inr changes"
    and set: "set changes = {restore_set k sec |k sec. m k = Some sec} \<union> {restore_delete k |k. latest_shown kr db c k \<noteq> None \<and> m k = None}"
    using RollbackChanges_set [OF assms(1-6)] by blast
  have "apply_batch changes (content (latest_shown kr db c)) k = content m k" for k
  proof (cases "m k")
    case (Some sec)
    have "last_change changes k = Some (restore_set k sec)"
      by (rule last_change_eq) (auto simp: set Some restore_set_def restore_delete_def)
    moreover have "se_Type sec \<noteq> ''''"
      using m Some view_values [OF wf] ty by (fastforce simp: shown_def secret_of_def typed_def)
    ultimately show ?thesis using Some by (simp add: apply_batch_def restore_set_def content_def normalizeType_def)
  next
    case None
    show ?thesis
    proof (cases "latest_shown kr db c k")
      case l: None
      have "last_change changes k = None"
        by (rule last_change_None) (auto simp: set None l restore_set_def restore_delete_def)
      then show ?thesis using None l by (simp add: apply_batch_def content_def)
    next
      case l: (Some x)
      have "last_change changes k = Some (restore_delete k)"
        by (rule last_change_eq) (auto simp: set None l restore_set_def restore_delete_def)
      then show ?thesis using None by (simp add: apply_batch_def restore_delete_def content_def)
    qed
  qed
  then show ?thesis using run by blast
qed

lemma Rollback_shown:
  assumes wf: "store_wf db" and rd: "readable kr db" and run: "svc_Rollback commit c v msg actor cvID now db = (Inr cv, db')"
  shows "store_wf db'" "readable kr db'" "max_version db' c = max_version db c + 1" "shown kr db c v \<noteq> None"
    "shown kr db' c (max_version db c + 1) = shown kr db c v"
    "\<And>c' v'. \<not> (c' = c \<and> v' = max_version db c + 1) \<Longrightarrow> shown kr db' c' v' = shown kr db c' v'"
proof -
  have rb: "rollback_tx c v msg actor cvID now db = Inr (cv, db')"
    using run by (auto simp: svc_Rollback_def Rollback_def withTx_def map_err_Inr split: sum.splits prod.splits option.splits)
  note sp = rollback_spec [OF wf rb]
  have "projects db' = projects db \<and> environments db' = environments db \<and> configs db' = configs db \<and> project_kek_versions db' = project_kek_versions db"
    using rollback_tx_Inr [OF rb] by (auto simp: with_version_def insert_entries_def)
  then have pl: "plain kr db' = plain kr db" by (intro plain_cong) auto
  show "store_wf db'" "max_version db' c = max_version db c + 1" using sp by simp_all
  show "readable kr db'" using rd sp(5) by (simp add: readable_def pl)
  show "shown kr db c v \<noteq> None" using sp(3) by (simp add: shown_def)
  have so: "secret_of kr db' = secret_of kr db" by (simp add: fun_eq_iff secret_of_def pl)
  show "shown kr db' c (max_version db c + 1) = shown kr db c v" by (simp add: shown_def sp(4) so)
  show "\<And>c' v'. \<not> (c' = c \<and> v' = max_version db c + 1) \<Longrightarrow> shown kr db' c' v' = shown kr db c' v'"
    using sp(6) by (simp add: shown_def so)
qed

lemma Rollback_Inl: "svc_Rollback commit c v msg actor cvID now db = (Inl e, db') \<Longrightarrow> db' = db"
  by (auto simp: svc_Rollback_def Rollback_def map_err_Inl dest: withTx_error split: prod.splits)


section \<open>Retention\<close>

lemma raise_ge: "eff \<le> raise ov eff" "ov = Some n \<Longrightarrow> n \<le> raise ov eff"
  by (auto simp: raise_def split: option.splits)

lemma maxInt_ge: "v \<in> set vs \<Longrightarrow> v \<le> maxInt vs" "0 \<le> maxInt vs"
proof -
  have *: "m \<le> foldl (\<lambda>out v. if v > out then v else out) m vs \<and> (\<forall>v\<in>set vs. v \<le> foldl (\<lambda>out v. if v > out then v else out) m vs)" for m :: int
  proof (induction vs arbitrary: m)
    case (Cons a vs)
    show ?case using Cons [of "if a > m then a else m"] by auto
  qed simp
  show "v \<in> set vs \<Longrightarrow> v \<le> maxInt vs" "0 \<le> maxInt vs" using * [of 0] by (auto simp: maxInt_def)
qed

definition keep_versions :: "RetentionFloor \<Rightarrow> secret_db \<Rightarrow> string \<Rightarrow> PruneRequest \<Rightarrow> int" where
  "keep_versions fl rdb c req = maxInt [rq_KeepVersions req, EffectiveVersions (resolvePolicy fl (ret_Get rdb c)), 1]"

definition keep_days :: "RetentionFloor \<Rightarrow> secret_db \<Rightarrow> string \<Rightarrow> PruneRequest \<Rightarrow> int" where
  "keep_days fl rdb c req = maxInt [rq_KeepDays req, EffectiveDays (resolvePolicy fl (ret_Get rdb c))]"

lemma keep_versions_ge:
  "fl_MinVersions fl \<le> keep_versions fl rdb c req" "rq_KeepVersions req \<le> keep_versions fl rdb c req" "1 \<le> keep_versions fl rdb c req"
  "MinVersions (ret_Get rdb c) = Some n \<Longrightarrow> n \<le> keep_versions fl rdb c req"
proof -
  let ?vs = "[rq_KeepVersions req, EffectiveVersions (resolvePolicy fl (ret_Get rdb c)), 1]"
  have le: "\<forall>v\<in>set ?vs. v \<le> keep_versions fl rdb c req" unfolding keep_versions_def using maxInt_ge(1) by blast
  then show "rq_KeepVersions req \<le> keep_versions fl rdb c req" "1 \<le> keep_versions fl rdb c req" by auto
  show "fl_MinVersions fl \<le> keep_versions fl rdb c req"
    using le raise_ge(1) [of "fl_MinVersions fl" "MinVersions (ret_Get rdb c)"] by (auto simp: resolvePolicy_def)
  show "MinVersions (ret_Get rdb c) = Some n \<Longrightarrow> n \<le> keep_versions fl rdb c req"
    using le raise_ge(2) [of "MinVersions (ret_Get rdb c)" n "fl_MinVersions fl"] by (auto simp: resolvePolicy_def)
qed

lemma keep_days_ge:
  "fl_MinDays fl \<le> keep_days fl rdb c req" "rq_KeepDays req \<le> keep_days fl rdb c req" "0 \<le> keep_days fl rdb c req"
  "MinDays (ret_Get rdb c) = Some n \<Longrightarrow> n \<le> keep_days fl rdb c req"
proof -
  let ?vs = "[rq_KeepDays req, EffectiveDays (resolvePolicy fl (ret_Get rdb c))]"
  have le: "\<forall>v\<in>set ?vs. v \<le> keep_days fl rdb c req" unfolding keep_days_def using maxInt_ge(1) by blast
  then show "rq_KeepDays req \<le> keep_days fl rdb c req" by auto
  show "0 \<le> keep_days fl rdb c req" by (simp add: keep_days_def maxInt_ge(2))
  show "fl_MinDays fl \<le> keep_days fl rdb c req"
    using le raise_ge(1) [of "fl_MinDays fl" "MinDays (ret_Get rdb c)"] by (auto simp: resolvePolicy_def)
  show "MinDays (ret_Get rdb c) = Some n \<Longrightarrow> n \<le> keep_days fl rdb c req"
    using le raise_ge(2) [of "MinDays (ret_Get rdb c)" n "fl_MinDays fl"] by (auto simp: resolvePolicy_def)
qed

text \<open>What a prune through the service does to the versions and to the rest of the store.\<close>

lemma PruneVersions_spec:
  assumes wf: "store_wf db" and run: "PruneVersions fl rdb commit c req now db = (out, db')"
  shows "store_wf db'" "max_version db' c = max_version db c"
    "\<forall>c' v. view db' c' v = view db c' v \<or> view db' c' v = None"
    "w \<in> set (config_versions db) \<Longrightarrow> \<not> expendable db c (keep_versions fl rdb c req) (keep_days fl rdb c req) now w \<Longrightarrow>
       view db' (cv_ConfigID w) (cv_Version w) = view db (cv_ConfigID w) (cv_Version w)"
    "\<exists>commit plan out. db' = db \<or> PruneConfigVersions commit c plan now db = (out, db')"
proof -
  define plan where "plan = \<lparr>KeepVersions = keep_versions fl rdb c req, KeepDays = keep_days fl rdb c req, DryRun = rq_DryRun req\<rparr>"
  obtain o' d where pr: "PruneConfigVersions commit c plan now db = (o', d)" by fastforce
  then have "db' = db \<or> db' = d"
    using run by (auto simp: PruneVersions_def Let_def plan_def keep_versions_def keep_days_def split: if_split_asm sum.splits)
  then consider (same) "db' = db" | (run) "PruneConfigVersions commit c plan now db = (o', db')" using pr by blast
  then have *: "store_wf db' \<and> max_version db' c = max_version db c \<and> (\<forall>c' v. view db' c' v = view db c' v \<or> view db' c' v = None) \<and>
    (\<forall>w\<in>set (config_versions db). \<not> expendable db c (keep_versions fl rdb c req) (keep_days fl rdb c req) now w \<longrightarrow>
       view db' (cv_ConfigID w) (cv_Version w) = view db (cv_ConfigID w) (cv_Version w)) \<and>
    (\<exists>commit plan out. db' = db \<or> PruneConfigVersions commit c plan now db = (out, db'))"
  proof cases
    case same
    then show ?thesis using wf by blast
  next
    case run
    have k: "keep_versions fl rdb c req = max 1 (KeepVersions plan)" "keep_days fl rdb c req = max 0 (KeepDays plan)"
      using keep_versions_ge(3) [of fl rdb c req] keep_days_ge(3) [of fl rdb c req] by (simp_all add: plan_def)
    note sp = prune_spec [OF wf run k]
    have uniq: "w = x" if "w \<in> set (config_versions db)" "x \<in> set (config_versions db)" "cv_ConfigID w = cv_ConfigID x" "cv_Version w = cv_Version x" for w x
      using version_unique [of db w x] wf that by (auto simp: store_wf_def)
    show ?thesis
    proof (cases "DryRun plan \<or> (\<exists>e. o' = Inl e)")
      case True
      then show ?thesis using sp wf by auto
    next
      case False
      then have v: "view db' c' v = (if \<exists>w\<in>set (config_versions db). expendable db c (keep_versions fl rdb c req) (keep_days fl rdb c req) now w \<and>
          cv_ConfigID w = c' \<and> cv_Version w = v then None else view db c' v)" for c' v
        using sp by auto
      have "view db' (cv_ConfigID w) (cv_Version w) = view db (cv_ConfigID w) (cv_Version w)"
        if "w \<in> set (config_versions db)" "\<not> expendable db c (keep_versions fl rdb c req) (keep_days fl rdb c req) now w" for w
        unfolding v using uniq [OF _ that(1)] that(2) by (metis (no_types, lifting))
      moreover have "\<forall>c' v. view db' c' v = view db c' v \<or> view db' c' v = None" by (simp add: v)
      ultimately show ?thesis using sp run by blast
    qed
  qed
  show "store_wf db'" "max_version db' c = max_version db c" "\<forall>c' v. view db' c' v = view db c' v \<or> view db' c' v = None"
    "\<exists>commit plan out. db' = db \<or> PruneConfigVersions commit c plan now db = (out, db')" using * by simp_all
  show "w \<in> set (config_versions db) \<Longrightarrow> \<not> expendable db c (keep_versions fl rdb c req) (keep_days fl rdb c req) now w \<Longrightarrow>
    view db' (cv_ConfigID w) (cv_Version w) = view db (cv_ConfigID w) (cv_Version w)" using * by blast
qed

text \<open>What a prune reports is what it did.\<close>

lemma prune_dry: "PruneConfigVersions commit c plan now db = (Inr res, db') \<Longrightarrow> prr_DryRun res = DryRun plan"
  by (auto simp: PruneConfigVersions_def prune_tx_def withTx_def Let_def split: if_split_asm sum.splits option.splits)

lemma PruneVersions_report:
  assumes wf: "store_wf db" and run: "PruneVersions fl rdb commit c req now db = (out, db')"
  shows "case out of Inl _ \<Rightarrow> db' = db
    | Inr res \<Rightarrow> if prr_DryRun res then db' = db
        else max_version db c \<notin> set (PrunedVersions res) \<and>
          (\<forall>c' v. view db' c' v = (if c' = c \<and> v \<in> set (PrunedVersions res) then None else view db c' v))"
proof -
  let ?kv = "keep_versions fl rdb c req" and ?kd = "keep_days fl rdb c req"
  define plan where "plan = \<lparr>KeepVersions = ?kv, KeepDays = ?kd, DryRun = rq_DryRun req\<rparr>"
  have k: "?kv = max 1 (KeepVersions plan)" "?kd = max 0 (KeepDays plan)"
    using keep_versions_ge(3) [of fl rdb c req] keep_days_ge(3) [of fl rdb c req] by (simp_all add: plan_def)
  obtain o' d where pr: "PruneConfigVersions commit c plan now db = (o', d)" by fastforce
  then have alt: "(db' = db \<and> (\<exists>e. out = Inl e)) \<or> (db' = d \<and> out = map_err map_prune_err o')"
    using run by (auto simp: PruneVersions_def Let_def plan_def keep_versions_def keep_days_def split: if_split_asm sum.splits)
  note sp = prune_spec [OF wf pr k]
  show ?thesis
  proof (cases out)
    case (Inl e)
    then have "db' = db \<or> (db' = d \<and> (\<exists>e. o' = Inl e))" using alt by (cases o') auto
    then show ?thesis using Inl sp by auto
  next
    case (Inr res)
    then have o: "o' = Inr res" "db' = d" using alt by (cases o'; auto)+
    let ?E = "{w \<in> set (config_versions db). expendable db c ?kv ?kd now w}"
    have V: "set (PrunedVersions res) = cv_Version ` ?E" using sp o(1) by auto
    have c: "cv_ConfigID w = c" "?kv \<le> int (newer db c (cv_Version w))" if "w \<in> ?E" for w using that by (auto simp: expendable_def)
    have "max_version db c \<notin> set (PrunedVersions res)"
      using c(2) newer_max [of db c] keep_versions_ge(3) [of fl rdb c req] unfolding V by fastforce
    moreover have "(\<exists>w\<in>set (config_versions db). expendable db c ?kv ?kd now w \<and> cv_ConfigID w = c' \<and> cv_Version w = v) \<longleftrightarrow>
        c' = c \<and> v \<in> set (PrunedVersions res)" for c' v
      unfolding V using c(1) by blast
    ultimately show ?thesis using sp o Inr prune_dry [OF pr [unfolded o(1)]] by (auto simp: o(2))
  qed
qed

lemma PruneVersions_shown:
  assumes wf: "store_wf db" and rd: "readable kr db" and run: "PruneVersions fl rdb commit c req now db = (out, db')"
  shows "readable kr db'" "plain kr db' = plain kr db"
proof -
  obtain commit plan out' where "db' = db \<or> PruneConfigVersions commit c plan now db = (out', db')"
    using PruneVersions_spec(5) [OF wf run] by blast
  then have same: "projects db' = projects db" "environments db' = environments db" "configs db' = configs db"
      "project_kek_versions db' = project_kek_versions db" and sub: "set (secret_values db') \<subseteq> set (secret_values db)"
    using prune_frame [of commit c plan now db out' db'] by auto
  show pl: "plain kr db' = plain kr db" using same by (rule plain_cong)
  show "readable kr db'" using rd sub by (auto simp: readable_def pl)
qed


section \<open>Blobs of pending edit requests\<close>

text \<open>The key operations of a project, in any order.\<close>

inductive key_step :: "Keyring \<Rightarrow> secret_db \<Rightarrow> secret_db \<Rightarrow> bool" for kr where
  rotate: "Rotate kr commit i r now db = (res, db') \<Longrightarrow> key_step kr db db'"
| rewrap: "Rewrap kr commits i r db = (res, db') \<Longrightarrow> key_step kr db db'"

lemma Rewrap_shape:
  assumes wf: "store_wf db" and run: "Rewrap kr commits i r db = (res, db')"
  shows "\<exists>p ids f. swept kr p db ids f \<and> (db' = db\<lparr>secret_values := map f (secret_values db)\<rparr> \<or>
    db' = snd (DeleteEmpty i (db\<lparr>secret_values := map f (secret_values db)\<rparr>)))"
proof (cases "\<exists>p k cache. proj_Get db i = Inr p \<and> loadKEK kr db p (p_KEKVersion p) Map.empty = Inr (k, cache)")
  case False
  then have "db' = db" using run by (auto simp: Rewrap_def split: sum.splits)
  then have "db' = db\<lparr>secret_values := map (\<lambda>s. s) (secret_values db)\<rparr>" by simp
  then show ?thesis using swept_id by blast
next
  case True
  then obtain p k cache where p: "proj_Get db i = Inr p" "loadKEK kr db p (p_KEKVersion p) Map.empty = Inr (k, cache)" by blast
  obtain n e db1 where l: "rewrap_loop kr p k commits 0 '''' 0 (cache, r) db = (n, e, db1)" by (metis prod_cases3)
  obtain ids f where f: "swept kr p db ids f" "db1 = db\<lparr>secret_values := map f (secret_values db)\<rparr>"
    using rewrap_loop_swept [OF l sweep_start(1) [OF wf p]] sweep_start(2) [OF wf p] by auto
  have "db' = db1 \<or> db' = snd (DeleteEmpty i db1)" using run p l by (cases e) (auto simp: Rewrap_def split: prod.splits)
  then show ?thesis using f by blast
qed

lemma DeleteEmpty_kek:
  assumes "edit_refs db (p_ID p) v \<noteq> []"
  shows "kek_at kr (snd (DeleteEmpty i db)) p v = kek_at kr db p v"
proof -
  have "\<not> retirable db i k" if "kv_ProjectID k = p_ID p \<and> kv_Version k = v" for k
    using that assms by (auto simp: retirable_def)
  then have "GetWrapped (snd (DeleteEmpty i db)) (p_ID p) v = GetWrapped db (p_ID p) v"
    by (simp add: GetWrapped_def DeleteEmpty_def one_row_filter)
  then show ?thesis by (simp add: kek_at_def wrapped_at_def)
qed

text \<open>A pinned key: a request of the config that is pending or being applied was sealed under it.\<close>

definition pinned_key :: "Keyring \<Rightarrow> secret_db \<Rightarrow> string \<Rightarrow> int \<Rightarrow> bytes \<Rightarrow> string \<Rightarrow> bool" where
  "pinned_key kr db c v kek pid \<longleftrightarrow>
    (\<exists>er\<in>set (config_edit_requests db). er_ConfigID er = c \<and> er_Status er \<in> {''pending'', ''applying''} \<and> er_DEKKeyVersion er = v) \<and>
    (\<exists>cfg p. resolveProject db c = Inr (cfg, p) \<and> p_ID p = pid \<and> kek_at kr db p v = Some kek)"

lemma resolveProject_cong:
  assumes "projects db' = projects db" "environments db' = environments db" "configs db' = configs db"
  shows "resolveProject db' = resolveProject db"
proof -
  have eqs: "cfg_Get db' = cfg_Get db" "env_Get db' = env_Get db" "proj_Get db' = proj_Get db"
    using assms by (simp_all add: fun_eq_iff cfg_Get_def env_Get_def proj_Get_def)
  show ?thesis by (intro ext) (unfold resolveProject_def eqs, rule refl)
qed

lemma rotation_resolve:
  assumes "rotation i w now p db db'" "resolveProject db c = Inr (cfg, q)"
  shows "resolveProject db' c = Inr (cfg, rotated i w (p_KEKVersion p + 1) now q)"
proof -
  have "proj_Get db' j = (case proj_Get db j of Inl e \<Rightarrow> Inl e | Inr q \<Rightarrow> Inr (rotated i w (p_KEKVersion p + 1) now q))" for j
    using assms(1) by (simp add: proj_Get_def rotation_def one_row_map)
  moreover have "cfg_Get db' = cfg_Get db" "env_Get db' = env_Get db"
    using rotation_same [OF assms(1)] by (simp_all add: fun_eq_iff cfg_Get_def env_Get_def)
  ultimately show ?thesis using assms(2) by (auto simp: resolveProject_def go_result)
qed

lemma key_step_pinned:
  assumes "key_step kr db db'" "store_wf db" "pinned_key kr db c v kek pid"
  shows "store_wf db' \<and> pinned_key kr db' c v kek pid"
  using assms(1)
proof cases
  case (rotate commit i r now res)
  show ?thesis
  proof (cases res)
    case (Inl e)
    then show ?thesis using Rotate_Inl rotate assms(2,3) by blast
  next
    case (Inr a)
    obtain u r' where run: "Rotate kr commit i r now db = (Inr (u, r'), db')" using rotate Inr by (cases a) auto
    obtain p w where rot: "rotation i w now p db db'" using Rotate_rotation [OF run] by blast
    obtain cfg q where q: "resolveProject db c = Inr (cfg, q)" "p_ID q = pid" "kek_at kr db q v = Some kek"
      using assms(3) by (auto simp: pinned_key_def)
    have "q \<in> set (projects db)" using resolveProject_Inr(3) [OF _ q(1)] assms(2) by (simp add: store_wf_def)
    from rotation_kek [OF assms(2) rot this q(3)] rotation_resolve [OF rot q(1)] q(2)
    have "\<exists>cfg p. resolveProject db' c = Inr (cfg, p) \<and> p_ID p = pid \<and> kek_at kr db' p v = Some kek" by force
    moreover have "config_edit_requests db' = config_edit_requests db" using rotation_same [OF rot] by simp
    ultimately have "pinned_key kr db' c v kek pid" using assms(3) unfolding pinned_key_def by simp
    then show ?thesis using Rotate_wf [OF assms(2) run] by simp
  qed
next
  case (rewrap commits i r res)
  obtain f where f: "rekeys f" and shape: "db' = db\<lparr>secret_values := map f (secret_values db)\<rparr> \<or>
    db' = snd (DeleteEmpty i (db\<lparr>secret_values := map f (secret_values db)\<rparr>))"
    using Rewrap_shape [OF assms(2) rewrap] sweptD(1) by blast
  let ?db = "db\<lparr>secret_values := map f (secret_values db)\<rparr>"
  have wf: "store_wf ?db" using rekeys_wf [OF f assms(2)] .
  have same: "projects db' = projects db" "environments db' = environments db" "configs db' = configs db" "config_edit_requests db' = config_edit_requests db"
    using shape by (auto simp: DeleteEmpty_def)
  obtain cfg q where q: "resolveProject db c = Inr (cfg, q)" "p_ID q = pid" "kek_at kr db q v = Some kek"
    using assms(3) by (auto simp: pinned_key_def)
  have "in_project db (p_ID q) c"
    using resolveProject_Inr(2) [OF _ q(1)] assms(2) by (simp add: store_wf_def project_of_in_project)
  then have "edit_refs ?db (p_ID q) v \<noteq> []"
    using assms(3) by (auto simp: pinned_key_def edit_refs_def filter_empty_conv)
  moreover have "kek_at kr ?db q v = Some kek" using q(3) kek_at_cong [of ?db db kr] by simp
  ultimately have "kek_at kr db' q v = Some kek" using shape DeleteEmpty_kek by auto
  then have "pinned_key kr db' c v kek pid" using assms(3) q resolveProject_cong [OF same(1-3)] unfolding pinned_key_def same(4) by auto
  then show ?thesis using shape wf DeleteEmpty_wf by auto
qed

lemma key_steps_pinned:
  "(key_step kr)\<^sup>*\<^sup>* db db' \<Longrightarrow> store_wf db \<Longrightarrow> pinned_key kr db c v kek pid \<Longrightarrow> store_wf db' \<and> pinned_key kr db' c v kek pid"
  by (induction rule: rtranclp_induct) (auto dest: key_step_pinned)

lemma EncryptConfigBlob_Inr:
  assumes "EncryptConfigBlob kr db c pt r = Inr (blob, r')"
  shows "\<exists>cfg p kek. resolveProject db c = Inr (cfg, p) \<and> kek_at kr db p (bl_DEKKeyVersion blob) = Some kek \<and>
    (\<exists>dekCT dek. ParseCiphertext (bl_WrappedDEK blob) = Inr dekCT \<and> UnwrapKey kek dekCT (ConfigEditRequestAAD (p_ID p) (c_ID cfg)) = Inr dek \<and>
      Decrypt dek \<lparr>KeyVersion = 0, Nonce = bl_Nonce blob, Data = bl_Ciphertext blob\<rparr> (ConfigEditRequestAAD (p_ID p) (c_ID cfg)) = Inr pt)"
proof -
  obtain cfg p kek dek w r1 ct where p: "resolveProject db c = Inr (cfg, p)" and kek: "unwrapProjectKEK kr p = Inr kek"
    and n: "NewDEK kr kek (ConfigEditRequestAAD (p_ID p) (c_ID cfg)) r = Inr (dek, w, r1)"
    and e: "Encrypt dek pt (ConfigEditRequestAAD (p_ID p) (c_ID cfg)) r1 = Inr (ct, r')"
    and blob: "blob = \<lparr>bl_Ciphertext = Data ct, bl_WrappedDEK = Marshal w, bl_Nonce = Nonce ct, bl_DEKKeyVersion = p_KEKVersion p\<rparr>"
    using assms by (auto simp: EncryptConfigBlob_def Let_def bind_err_Inr map_err_Inr)
  have "kek_at kr db p (bl_DEKKeyVersion blob) = Some kek" using kek unwrapProjectKEK_kek [of kr p kek db] by (simp add: blob)
  then show ?thesis using p NewDEK_opens [OF n] Decrypt_headless [OF e] by (auto simp: blob)
qed

lemma EncryptConfigBlob_ok:
  assumes "\<not> Sealed kr" "resolveProject db c = Inr (cfg, p)" "unwrapProjectKEK kr p = Inr kek" "length pt \<le> gcm_limit" "56 \<le> length r"
  shows "\<exists>blob r'. EncryptConfigBlob kr db c pt r = Inr (blob, r') \<and> bl_DEKKeyVersion blob = p_KEKVersion p"
proof -
  have "length kek = KeySize" using assms(3) kek_length unwrapProjectKEK_kek [of kr p kek db] by blast
  from seal_ok [OF assms(1) this assms(4,5), of "ConfigEditRequestAAD (p_ID p) (c_ID cfg)"] show ?thesis
    using assms(2,3) by (auto simp: EncryptConfigBlob_def Let_def)
qed

lemma DecryptConfigBlob_pinned:
  assumes "resolveProject db c = Inr (cfg, p)" "kek_at kr db p (bl_DEKKeyVersion blob) = Some kek"
    "ParseCiphertext (bl_WrappedDEK blob) = Inr dekCT" "UnwrapKey kek dekCT (ConfigEditRequestAAD (p_ID p) (c_ID cfg)) = Inr dek"
    "Decrypt dek \<lparr>KeyVersion = 0, Nonce = bl_Nonce blob, Data = bl_Ciphertext blob\<rparr> (ConfigEditRequestAAD (p_ID p) (c_ID cfg)) = Inr pt"
  shows "DecryptConfigBlob kr db c blob = Inr pt"
  using forVersion_kek [OF serves_new [of kr db p], of "bl_DEKKeyVersion blob"] assms
  by (auto simp: DecryptConfigBlob_def Let_def)

section \<open>The service as the source of the resolver\<close>

text \<open>
  The resolver of \<^verbatim>\<open>internal/resolve\<close> reads configs through \<^verbatim>\<open>ReadRaw\<close> and \<^verbatim>\<open>ReadRawByID\<close>. On one state of the
  database they are finite tables: one entry for every config, and one for every coordinate that names something.
\<close>

definition coords_of :: "secret_db \<Rightarrow> Coord list" where
  "coords_of db = [\<lparr>co_Project = p_Slug p, co_Env = e_Slug e, co_Config = c_Name c\<rparr>. p \<leftarrow> projects db, e \<leftarrow> environments db, c \<leftarrow> configs db]"

definition svc_reader :: "Keyring \<Rightarrow> secret_db \<Rightarrow> string list \<Rightarrow> svc_err RawReader" where
  "svc_reader kr db order = \<lparr>by_coord = map (\<lambda>co. (co, svc_ReadRaw kr db order co)) (coords_of db),
     by_id = map (\<lambda>c. (c_ID c, svc_ReadRawByID kr db order (c_ID c))) (configs db), missing = SvcErrNotFound\<rparr>"

lemma map_of_self: "map_of (map (\<lambda>x. (g x, f (g x))) xs) k = (if k \<in> g ` set xs then Some (f k) else None)"
  by (induction xs) auto

lemma one_row_missing: "(\<And>r. r \<in> set t \<Longrightarrow> \<not> P r) \<Longrightarrow> one_row P t = Inl ErrNotFound"
  by (simp add: one_row_Inl)

lemma svc_reader_id: "ReadRawByID (svc_reader kr db order) i = svc_ReadRawByID kr db order i"
proof (cases "i \<in> c_ID ` set (configs db)")
  case True
  then show ?thesis using map_of_self [of c_ID "svc_ReadRawByID kr db order" "configs db" i] by (simp add: ReadRawByID_def svc_reader_def)
next
  case False
  then have "cfg_Get db i = Inl ErrNotFound" by (auto simp: cfg_Get_def intro!: one_row_missing)
  then show ?thesis using False map_of_self [of c_ID "svc_ReadRawByID kr db order" "configs db" i]
    by (simp add: ReadRawByID_def svc_reader_def svc_ReadRawByID_def mapStoreErr_def)
qed

lemma svc_reader_coord: "ReadRaw (svc_reader kr db order) co = svc_ReadRaw kr db order co"
proof (cases "co \<in> set (coords_of db)")
  case True
  then show ?thesis using map_of_self [of "\<lambda>x. x" "svc_ReadRaw kr db order" "coords_of db" co] by (simp add: ReadRaw_def svc_reader_def)
next
  case False
  have "svc_ReadRaw kr db order co = Inl SvcErrNotFound"
  proof (cases "proj_GetBySlug db (co_Project co)")
    case (Inr p)
    then have p: "p \<in> set (projects db)" "p_Slug p = co_Project co" by (auto simp: proj_GetBySlug_def dest: one_row_Inr)
    show ?thesis
    proof (cases "env_GetBySlug db (p_ID p) (co_Env co)")
      case e: (Inr e)
      then have e': "e \<in> set (environments db)" "e_Slug e = co_Env co" by (auto simp: env_GetBySlug_def dest: one_row_Inr)
      have "cfg_GetByName db (e_ID e) (co_Config co) = Inl ErrNotFound"
        unfolding cfg_GetByName_def
      proof (rule one_row_missing, rule notI)
        fix c assume c: "c \<in> set (configs db)" "c_EnvironmentID c = e_ID e \<and> c_Name c = co_Config co \<and> live_config c"
        then have "co = \<lparr>co_Project = p_Slug p, co_Env = e_Slug e, co_Config = c_Name c\<rparr>" using p e' by simp
        then show False using False p(1) e'(1) c(1) by (auto simp: coords_of_def)
      qed
      then show ?thesis using Inr e by (simp add: svc_ReadRaw_def mapStoreErr_def)
    next
      case (Inl e)
      then have "e = ErrNotFound" by (simp add: env_GetBySlug_def one_row_Inl)
      then show ?thesis using Inr Inl by (simp add: svc_ReadRaw_def mapStoreErr_def)
    qed
  next
    case (Inl e)
    then have "e = ErrNotFound" by (simp add: proj_GetBySlug_def one_row_Inl)
    then show ?thesis using Inl by (simp add: svc_ReadRaw_def mapStoreErr_def)
  qed
  then show ?thesis using False map_of_self [of "\<lambda>x. x" "svc_ReadRaw kr db order" "coords_of db" co]
    by (simp add: ReadRaw_def svc_reader_def)
qed

lemma rawFor_id: "rawFor kr db order p e cfg = Inr rc \<Longrightarrow> rc_ConfigID rc = c_ID cfg"
  unfolding rawFor_def bind_err_Inr by auto

lemma svc_ReadRawByID_id: "svc_ReadRawByID kr db order i = Inr rc \<Longrightarrow> rc_ConfigID rc = i"
  by (auto simp: svc_ReadRawByID_def bind_err_Inr map_err_Inr cfg_Get_def dest!: one_row_Inr rawFor_id)

interpretation svc: raw_source "svc_reader kr db order" for kr db order
  by unfold_locales (simp add: svc_reader_id svc_ReadRawByID_id)

lemma rawFor_shown:
  assumes wf: "store_wf db" and rd: "readable kr db" and p: "project_of db (c_ID cfg) = Some p" and o: "dom (latest_shown kr db (c_ID cfg)) \<subseteq> set order"
  shows "\<exists>rc. rawFor kr db order p env cfg = Inr rc \<and> Values rc = (\<lambda>k. map_option se_Value (latest_shown kr db (c_ID cfg) k)) \<and>
    InheritsFrom rc = c_InheritsFrom cfg"
proof (cases "max_version db (c_ID cfg) = 0")
  case True
  then have "GetLatest db (c_ID cfg) = Inl ErrNotFound" by (simp add: GetLatest_def)
  moreover have "latest_state db (c_ID cfg) = Map.empty" using True no_version_zero [OF wf] by (simp add: latest_state_def)
  ultimately show ?thesis by (simp add: rawFor_def latest_shown_def)
next
  case False
  then obtain cv where g: "GetLatest db (c_ID cfg) = Inr (cv, latest_state db (c_ID cfg))" using GetLatest_Inr [OF wf] by blast
  note v = GetLatest_view [OF g]
  have "dom (latest_state db (c_ID cfg)) \<subseteq> set order" using o by (auto simp: latest_shown_def)
  then have "(if k \<in> set order \<and> latest_state db (c_ID cfg) k \<noteq> None then Option.bind (latest_state db (c_ID cfg) k) (plain kr db) else None) =
      map_option se_Value (latest_shown kr db (c_ID cfg) k)" for k
    using view_ok [OF wf rd v, of k] by (cases "latest_state db (c_ID cfg) k") (auto simp: latest_shown_def secret_of_def)
  moreover have "decrypt_keys kr db p (c_ID cfg) (latest_state db (c_ID cfg)) order (newKEKResolver p) Map.empty = Inr (\<lambda>k.
      if k \<in> set order \<and> latest_state db (c_ID cfg) k \<noteq> None then Option.bind (latest_state db (c_ID cfg) k) (plain kr db) else None)"
    using decrypt_keys_plain [OF _ p serves_new] view_ok [OF wf rd v] by auto
  ultimately show ?thesis using g by (simp add: rawFor_def)
qed

end
