(* ===== verification/Hierarchy.thy ===== *)
theory Hierarchy
  imports Secret_Versions
begin

section \<open>Changes of the hierarchy\<close>

text \<open>
  The operations on projects, environments and configs (\<^verbatim>\<open>store/projects.go\<close>, \<^verbatim>\<open>store/environments.go\<close>,
  \<^verbatim>\<open>store/configs.go\<close> and the service's \<^verbatim>\<open>Create\<close> methods) seen from the secrets: creating, renaming, soft-deleting and
  restoring keep all of them, and destroying removes exactly those of the destroyed configs.
\<close>

lemma project_of_Some: "project_of db c = Some p \<longleftrightarrow> (\<exists>cfg env. cfg_GetIncludingDeleted db c = Inr cfg \<and>
    env_GetIncludingDeleted db (c_EnvironmentID cfg) = Inr env \<and> proj_GetIncludingDeleted db (e_ProjectID env) = Inr p)"
proof (cases "cfg_GetIncludingDeleted db c")
  case (Inr cfg)
  then show ?thesis
    by (cases "env_GetIncludingDeleted db (c_EnvironmentID cfg)") (auto simp: project_of_def split: sum.split)
qed (simp add: project_of_def)

subsection \<open>Keys that stay in place\<close>

text \<open>Every config keeps its project, and the project its keys.\<close>

definition keeps_keys :: "secret_db \<Rightarrow> secret_db \<Rightarrow> string \<Rightarrow> bool" where
  "keeps_keys db db' c \<longleftrightarrow> (\<forall>p. project_of db c = Some p \<longrightarrow> (\<exists>p'. project_of db' c = Some p' \<and> p_ID p' = p_ID p \<and>
     p_KEKVersion p' = p_KEKVersion p \<and> p_WrappedKEK p' = p_WrappedKEK p \<and> (\<forall>v. GetWrapped db' (p_ID p) v = GetWrapped db (p_ID p) v)))"

lemma keeps_keys_plain:
  assumes "keeps_keys db db' (sv_ConfigID s)" "plain kr db s = Some x"
  shows "plain kr db' s = Some x"
proof -
  obtain p kek where p: "project_of db (sv_ConfigID s) = Some p" and k: "kek_at kr db p (DEKKeyVersion (sv_Enc s)) = Some kek"
    and o: "open_value kek s (value_aad p s) = Inr x"
    using assms(2) by (auto simp: plain_Some)
  obtain p' where p': "project_of db' (sv_ConfigID s) = Some p'" "p_ID p' = p_ID p" "p_KEKVersion p' = p_KEKVersion p"
      "p_WrappedKEK p' = p_WrappedKEK p" "\<And>v. GetWrapped db' (p_ID p) v = GetWrapped db (p_ID p) v"
    using assms(1) p by (auto simp: keeps_keys_def)
  have "kek_at kr db' p' v = kek_at kr db p v" for v by (simp add: kek_at_def wrapped_at_def p')
  moreover have "value_aad p' s = value_aad p s" by (simp add: value_aad_def p'(2))
  ultimately show ?thesis using p'(1) k o by (auto simp: plain_Some)
qed

lemma keeps_hierarchy:
  assumes wf: "store_wf db" and rd: "readable kr db" and wf': "store_wf db'" and keys: "\<And>c. keeps_keys db db' c"
    and same: "config_versions db' = config_versions db" "config_version_entries db' = config_version_entries db" "secret_values db' = secret_values db"
  shows "keeps_secrets kr db db'"
proof -
  have pl: "plain kr db' s = plain kr db s" if "s \<in> set (secret_values db)" for s
    using keeps_keys_plain [OF keys, of kr s] rd that by (cases "plain kr db s") (auto simp: readable_def)
  have "shown kr db' c v = shown kr db c v" for c v by (rule shown_same_values [OF wf wf' same]) (use pl in auto)
  then show ?thesis using wf' rd pl by (simp add: keeps_secrets_def readable_def same(3))
qed

subsection \<open>Updates in place\<close>

text \<open>An update of the rows that touches neither ids and links nor the keys.\<close>

definition relabels :: "(Project \<Rightarrow> Project) \<Rightarrow> (Environment \<Rightarrow> Environment) \<Rightarrow> (Config \<Rightarrow> Config) \<Rightarrow> bool" where
  "relabels f g h \<longleftrightarrow> (\<forall>p. p_ID (f p) = p_ID p \<and> p_KEKVersion (f p) = p_KEKVersion p \<and> p_WrappedKEK (f p) = p_WrappedKEK p) \<and>
     (\<forall>e. e_ID (g e) = e_ID e \<and> e_ProjectID (g e) = e_ProjectID e) \<and>
     (\<forall>c. c_ID (h c) = c_ID c \<and> c_EnvironmentID (h c) = c_EnvironmentID c)"

definition relabelled :: "(Project \<Rightarrow> Project) \<Rightarrow> (Environment \<Rightarrow> Environment) \<Rightarrow> (Config \<Rightarrow> Config) \<Rightarrow> secret_db \<Rightarrow> secret_db" where
  "relabelled f g h db = db\<lparr>projects := map f (projects db), environments := map g (environments db), configs := map h (configs db)\<rparr>"

lemma relabelled_wf:
  assumes "relabels f g h" "store_wf db"
  shows "store_wf (relabelled f g h db)"
proof -
  have "\<exists>p\<in>f ` set (projects db). p_ID p = i \<and> v < p_KEKVersion p" if "\<exists>p\<in>set (projects db). p_ID p = i \<and> v < p_KEKVersion p" for i v
    using that assms(1) by (auto simp: relabels_def)
  then show ?thesis
    using assms by (simp add: store_wf_def hierarchy_ok_def versions_ok_def values_ok_def manifest_ok_def entry_ok_def keks_ok_def
        relabelled_def relabels_def comp_def image_image)
qed

lemma relabelled_keys:
  assumes "relabels f g h"
  shows "keeps_keys db (relabelled f g h db) c"
proof -
  have "\<exists>p'. project_of (relabelled f g h db) c = Some p' \<and> p' = f p" if "project_of db c = Some p" for p
  proof -
    have 1: "cfg_GetIncludingDeleted (relabelled f g h db) i = (case cfg_GetIncludingDeleted db i of Inl e \<Rightarrow> Inl e | Inr q \<Rightarrow> Inr (h q))" for i
      using assms by (simp add: cfg_GetIncludingDeleted_def relabelled_def one_row_map relabels_def)
    have 2: "env_GetIncludingDeleted (relabelled f g h db) i = (case env_GetIncludingDeleted db i of Inl e \<Rightarrow> Inl e | Inr q \<Rightarrow> Inr (g q))" for i
      using assms by (simp add: env_GetIncludingDeleted_def relabelled_def one_row_map relabels_def)
    have 3: "proj_GetIncludingDeleted (relabelled f g h db) i = (case proj_GetIncludingDeleted db i of Inl e \<Rightarrow> Inl e | Inr q \<Rightarrow> Inr (f q))" for i
      using assms by (simp add: proj_GetIncludingDeleted_def relabelled_def one_row_map relabels_def)
    show ?thesis using that assms by (auto simp: project_of_def 1 2 3 relabels_def split: sum.splits)
  qed
  then show ?thesis using assms by (fastforce simp: keeps_keys_def relabels_def relabelled_def GetWrapped_def)
qed

lemma relabelled_keeps:
  "relabels f g h \<Longrightarrow> store_wf db \<Longrightarrow> readable kr db \<Longrightarrow> keeps_secrets kr db (relabelled f g h db)"
  by (rule keeps_hierarchy [OF _ _ relabelled_wf relabelled_keys]) (simp_all add: relabelled_def)

lemma update_project_relabels:
  assumes "execAffectingOne (update_project P f db) = Inr db'" "\<And>p. p_ID (f p) = p_ID p \<and> p_KEKVersion (f p) = p_KEKVersion p \<and> p_WrappedKEK (f p) = p_WrappedKEK p"
  shows "\<exists>f. relabels f id id \<and> db' = relabelled f id id db"
  using assms by (intro exI [of _ "\<lambda>p. if P p then f p else p"])
    (auto simp: execAffectingOne_def update_project_def update_rows_def relabels_def relabelled_def split: if_splits)

lemma update_env_relabels:
  assumes "execAffectingOne (update_env P f db) = Inr db'" "\<And>e. e_ID (f e) = e_ID e \<and> e_ProjectID (f e) = e_ProjectID e"
  shows "\<exists>g. relabels id g id \<and> db' = relabelled id g id db"
  using assms by (intro exI [of _ "\<lambda>e. if P e then f e else e"])
    (auto simp: execAffectingOne_def update_env_def update_rows_def relabels_def relabelled_def split: if_splits)

lemma update_config_relabels:
  assumes "execAffectingOne (update_config P f db) = Inr db'" "\<And>c. c_ID (f c) = c_ID c \<and> c_EnvironmentID (f c) = c_EnvironmentID c"
  shows "\<exists>h. relabels id id h \<and> db' = relabelled id id h db"
  using assms by (intro exI [of _ "\<lambda>c. if P c then f c else c"])
    (auto simp: execAffectingOne_def update_config_def update_rows_def relabels_def relabelled_def split: if_splits)

subsection \<open>New rows\<close>

definition extended :: "Project list \<Rightarrow> Environment list \<Rightarrow> Config list \<Rightarrow> secret_db \<Rightarrow> secret_db" where
  "extended ps es cs db = db\<lparr>projects := projects db @ ps, environments := environments db @ es, configs := configs db @ cs\<rparr>"

lemma one_row_append: "one_row P t = Inr r \<Longrightarrow> one_row P (t @ u) = Inr r"
  by (induction t) (auto simp: one_row_def split: if_splits)

lemma extended_keys: "keeps_keys db (extended ps es cs db) c"
proof -
  have "project_of (extended ps es cs db) c = Some p" if po: "project_of db c = Some p" for p
  proof -
    obtain cfg env where "one_row (\<lambda>x. c_ID x = c) (configs db) = Inr cfg" "one_row (\<lambda>e. e_ID e = c_EnvironmentID cfg) (environments db) = Inr env"
      "one_row (\<lambda>p. p_ID p = e_ProjectID env) (projects db) = Inr p"
      using po by (auto simp: project_of_Some cfg_GetIncludingDeleted_def env_GetIncludingDeleted_def proj_GetIncludingDeleted_def)
    then show ?thesis
      by (simp add: project_of_def cfg_GetIncludingDeleted_def env_GetIncludingDeleted_def proj_GetIncludingDeleted_def extended_def one_row_append)
  qed
  then show ?thesis by (auto simp: keeps_keys_def extended_def GetWrapped_def)
qed

lemma extended_wf:
  assumes "store_wf db" "hierarchy_ok (extended ps es cs db)"
  shows "store_wf (extended ps es cs db)"
proof -
  have "keks_ok (extended ps es cs db)" using assms(1) by (fastforce simp: store_wf_def keks_ok_def extended_def)
  then show ?thesis using assms
    by (auto simp: store_wf_def versions_ok_def values_ok_def manifest_ok_def entry_ok_def extended_def)
qed

lemma extended_keeps:
  "store_wf db \<Longrightarrow> readable kr db \<Longrightarrow> hierarchy_ok (extended ps es cs db) \<Longrightarrow> keeps_secrets kr db (extended ps es cs db)"
  by (rule keeps_hierarchy [OF _ _ extended_wf extended_keys]) (simp_all add: extended_def)

lemma proj_Create_extends:
  assumes "proj_Create i slug name w v now db = Inr (p, db')" "hierarchy_ok db"
  shows "db' = extended [p] [] [] db" "hierarchy_ok (extended [p] [] [] db)"
  using assms by (auto simp: proj_Create_def extended_def hierarchy_ok_def Let_def split: if_splits)

lemma env_Create_extends:
  assumes "env_Create i pid slug name now db = Inr (e, db')" "hierarchy_ok db"
  shows "db' = extended [] [e] [] db" "hierarchy_ok (extended [] [e] [] db)"
  using assms by (auto simp: env_Create_def extended_def hierarchy_ok_def Let_def split: if_splits)

lemma cfg_Create_extends:
  assumes "cfg_Create i eid name inh now db = Inr (c, db')" "hierarchy_ok db"
  shows "db' = extended [] [] [c] db" "hierarchy_ok (extended [] [] [c] db)"
  using assms by (auto simp: cfg_Create_def extended_def hierarchy_ok_def Let_def split: if_splits)


subsection \<open>Destroyed rows\<close>

text \<open>What a statement deletes is closed under the cascades.\<close>

definition cascaded :: "string set \<Rightarrow> string set \<Rightarrow> string set \<Rightarrow> secret_db \<Rightarrow> bool" where
  "cascaded P E C db \<longleftrightarrow> envs_of db P \<subseteq> E \<and> configs_of db E \<subseteq> C"

lemma without_simps:
  "projects (without P E C db) = filter (\<lambda>p. p_ID p \<notin> P) (projects db)"
  "environments (without P E C db) = filter (\<lambda>e. e_ID e \<notin> E) (environments db)"
  "configs (without P E C db) = filter (\<lambda>c. c_ID c \<notin> C) (configs db)"
  "config_versions (without P E C db) = filter (\<lambda>v. cv_ConfigID v \<notin> C) (config_versions db)"
  "secret_values (without P E C db) = filter (\<lambda>s. sv_ConfigID s \<notin> C) (secret_values db)"
  "project_kek_versions (without P E C db) = filter (\<lambda>k. kv_ProjectID k \<notin> P) (project_kek_versions db)"
  by (simp_all add: without_def Let_def)

lemma entry_value:
  assumes "store_wf db" "n \<in> set (config_version_entries db)" "v \<in> set (config_versions db)" "cv_ID v = en_VersionID n" "en_ValueID n = Some i"
  shows "\<exists>s\<in>set (secret_values db). sv_ID s = i \<and> sv_Key s = en_Key n \<and> sv_ConfigID s = cv_ConfigID v"
proof -
  have "entry_ok db n" using assms(1,2) by (simp add: store_wf_def manifest_ok_def)
  then obtain w where w: "w \<in> set (config_versions db)" "cv_ID w = en_VersionID n"
    "\<exists>s\<in>set (secret_values db). sv_ID s = i \<and> sv_Key s = en_Key n \<and> sv_ConfigID s = cv_ConfigID w"
    using assms(5) by (auto simp: entry_ok_def)
  moreover have "w = v" using distinct_map_inj [of cv_ID "config_versions db" w v] w assms by (auto simp: store_wf_def versions_ok_def)
  ultimately show ?thesis by simp
qed

lemma distinct_map_filter: "distinct (map f xs) \<Longrightarrow> distinct (map f (filter Q xs))"
  by (auto simp: distinct_map intro: inj_on_subset)

lemma without_entries:
  assumes wf: "store_wf db"
  shows "n \<in> set (config_version_entries (without P E C db)) \<longleftrightarrow>
    n \<in> set (config_version_entries db) \<and> (\<exists>v\<in>set (config_versions db). cv_ID v = en_VersionID n \<and> cv_ConfigID v \<notin> C)"
proof -
  have "set_option (en_ValueID n) \<subseteq> sv_ID ` {s \<in> set (secret_values db). sv_ConfigID s \<notin> C}"
    if "n \<in> set (config_version_entries db)" "v \<in> set (config_versions db)" "cv_ID v = en_VersionID n" "cv_ConfigID v \<notin> C" for v
    using entry_value [OF wf that(1-3)] that(4) by (cases "en_ValueID n") force+
  then show ?thesis by (auto simp: without_def Let_def) (metis (mono_tags, lifting) image_eqI mem_Collect_eq)
qed

lemma without_wf:
  assumes wf: "store_wf db" and cl: "cascaded P E C db"
  shows "store_wf (without P E C db)"
proof -
  let ?db = "without P E C db"
  have ok: "hierarchy_ok db" "versions_ok db" "values_ok db" "manifest_ok db" "keks_ok db" using wf by (auto simp: store_wf_def)
  note f = distinct_map_filter
  have "e_ProjectID e \<in> p_ID ` {p \<in> set (projects db). p_ID p \<notin> P}" if e: "e \<in> set (environments db)" "e_ID e \<notin> E" for e
  proof -
    have "e_ProjectID e \<notin> P" using e cl by (auto simp: cascaded_def envs_of_def)
    moreover obtain p where "p \<in> set (projects db)" "p_ID p = e_ProjectID e" using ok(1) e(1) by (force simp: hierarchy_ok_def)
    ultimately show ?thesis by force
  qed
  moreover have "c_EnvironmentID c \<in> e_ID ` {e \<in> set (environments db). e_ID e \<notin> E}" if c: "c \<in> set (configs db)" "c_ID c \<notin> C" for c
  proof -
    have "c_EnvironmentID c \<notin> E" using c cl by (auto simp: cascaded_def configs_of_def)
    moreover obtain e where "e \<in> set (environments db)" "e_ID e = c_EnvironmentID c" using ok(1) c(1) by (force simp: hierarchy_ok_def)
    ultimately show ?thesis by force
  qed
  ultimately have h: "hierarchy_ok ?db" using ok(1) by (auto simp: hierarchy_ok_def without_simps f)
  have in_c: "x \<in> c_ID ` {c \<in> set (configs db). c_ID c \<notin> C}" if "x \<in> c_ID ` set (configs db)" "x \<notin> C" for x using that by auto
  have v: "versions_ok ?db" using ok(2) in_c by (auto simp: versions_ok_def without_simps f)
  have s: "values_ok ?db" using ok(3) in_c by (auto simp: values_ok_def without_simps f)
  have "\<exists>p\<in>set (projects ?db). p_ID p = kv_ProjectID k \<and> kv_Version k < p_KEKVersion p" if k: "k \<in> set (project_kek_versions ?db)" for k
  proof -
    obtain p where "p \<in> set (projects db)" "p_ID p = kv_ProjectID k" "kv_Version k < p_KEKVersion p"
      using ok(5) k by (auto simp: keks_ok_def without_simps)
    then show ?thesis using k by (intro bexI [of _ p]) (auto simp: without_simps)
  qed
  then have k: "keks_ok ?db" using ok(5) by (auto simp: keks_ok_def without_simps(6) f)
  have "entry_ok ?db n" if n: "n \<in> set (config_version_entries ?db)" for n
  proof -
    obtain w where w: "w \<in> set (config_versions db)" "cv_ID w = en_VersionID n" "cv_ConfigID w \<notin> C" and nin: "n \<in> set (config_version_entries db)"
      using n without_entries [OF wf] by blast
    have "\<exists>s\<in>set (secret_values ?db). sv_ID s = i \<and> sv_Key s = en_Key n \<and> sv_ConfigID s = cv_ConfigID w" if "en_ValueID n = Some i" for i
      using entry_value [OF wf nin w(1,2) that] w(3) by (auto simp: without_simps)
    then show ?thesis unfolding entry_ok_def using w by (intro bexI [of _ w]) (auto simp: without_simps)
  qed
  moreover have "distinct (map (\<lambda>n. (en_VersionID n, en_Key n)) (config_version_entries ?db))"
    using ok(4) by (auto simp: manifest_ok_def without_def Let_def f)
  ultimately show ?thesis using h v s k by (simp add: store_wf_def manifest_ok_def)
qed

lemma without_view:
  assumes wf: "store_wf db" and cl: "cascaded P E C db"
  shows "view (without P E C db) c v = (if c \<in> C then None else view db c v)"
proof -
  let ?db = "without P E C db"
  have ok: "versions_ok db" "values_ok db" "manifest_ok db" "versions_ok ?db" "values_ok ?db" "manifest_ok ?db"
    using wf without_wf [OF assms] by (auto simp: store_wf_def)
  have st: "state_of ?db (cv_ID w) = state_of db (cv_ID w)" if w: "w \<in> set (config_versions db)" "cv_ConfigID w \<notin> C" for w
  proof (rule map_eqI)
    fix k s
    have "view db (cv_ConfigID w) (cv_Version w) = Some (state_of db (cv_ID w))" using view_Some [OF ok(1)] w(1) by blast
    from view_values [OF wf this, of k s] have c: "sv_ConfigID s \<notin> C" if "state_of db (cv_ID w) k = Some s" using that w(2) by simp
    have e: "n \<in> set (config_version_entries ?db) \<longleftrightarrow> n \<in> set (config_version_entries db)" if "en_VersionID n = cv_ID w" for n
      using that w without_entries [OF wf, of n P E C] by auto
    have "state_of ?db (cv_ID w) k = Some s \<longleftrightarrow> state_of db (cv_ID w) k = Some s \<and> sv_ConfigID s \<notin> C"
      unfolding state_of_iff [OF ok(2,3)] state_of_iff [OF ok(5,6)] without_simps using e by auto
    then show "state_of ?db (cv_ID w) k = Some s \<longleftrightarrow> state_of db (cv_ID w) k = Some s" using c by blast
  qed
  have "view ?db c v = Some x \<longleftrightarrow> (if c \<in> C then None else view db c v) = Some x" for x
    using st by (auto simp: view_Some [OF ok(1)] view_Some [OF ok(4)] without_simps)
  then show ?thesis by (rule option_eqI)
qed

lemma without_keys:
  assumes wf: "store_wf db" and cl: "cascaded P E C db" and c: "c \<notin> C"
  shows "keeps_keys db (without P E C db) c"
  unfolding keeps_keys_def
proof (intro allI impI)
  fix p assume "project_of db c = Some p"
  then obtain cfg env where q: "one_row (\<lambda>x. c_ID x = c) (configs db) = Inr cfg" "one_row (\<lambda>e. e_ID e = c_EnvironmentID cfg) (environments db) = Inr env"
      "one_row (\<lambda>p. p_ID p = e_ProjectID env) (projects db) = Inr p"
    by (auto simp: project_of_Some cfg_GetIncludingDeleted_def env_GetIncludingDeleted_def proj_GetIncludingDeleted_def)
  have m: "cfg \<in> set (configs db)" "c_ID cfg = c" "env \<in> set (environments db)" "e_ID env = c_EnvironmentID cfg" "p_ID p = e_ProjectID env"
    using q one_row_Inr by fastforce+
  have e: "c_EnvironmentID cfg \<notin> E" using m(1,2) c cl by (auto simp: cascaded_def configs_of_def)
  have p: "e_ProjectID env \<notin> P" using m(3,4) e cl by (auto simp: cascaded_def envs_of_def)
  have "one_row (\<lambda>x. c_ID x = c) (filter (\<lambda>c. c_ID c \<notin> C) (configs db)) = Inr cfg" using q(1) c by (subst one_row_filter) auto
  moreover have "one_row (\<lambda>x. e_ID x = c_EnvironmentID cfg) (filter (\<lambda>e. e_ID e \<notin> E) (environments db)) = Inr env"
    using q(2) e by (subst one_row_filter) auto
  moreover have "one_row (\<lambda>x. p_ID x = e_ProjectID env) (filter (\<lambda>p. p_ID p \<notin> P) (projects db)) = Inr p"
    using q(3) p by (subst one_row_filter) auto
  ultimately have "project_of (without P E C db) c = Some p"
    by (auto simp: project_of_Some cfg_GetIncludingDeleted_def env_GetIncludingDeleted_def proj_GetIncludingDeleted_def without_simps)
  moreover have "GetWrapped (without P E C db) (p_ID p) v = GetWrapped db (p_ID p) v" for v
    unfolding GetWrapped_def without_simps using p m(5) by (subst one_row_filter) auto
  ultimately show "\<exists>p'. project_of (without P E C db) c = Some p' \<and> p_ID p' = p_ID p \<and> p_KEKVersion p' = p_KEKVersion p \<and>
      p_WrappedKEK p' = p_WrappedKEK p \<and> (\<forall>v. GetWrapped (without P E C db) (p_ID p) v = GetWrapped db (p_ID p) v)" by blast
qed

lemma without_shown:
  assumes wf: "store_wf db" and rd: "readable kr db" and cl: "cascaded P E C db"
  shows "readable kr (without P E C db)" "shown kr (without P E C db) c v = (if c \<in> C then None else shown kr db c v)"
proof -
  have pl: "plain kr (without P E C db) s = plain kr db s" if "s \<in> set (secret_values db)" "sv_ConfigID s \<notin> C" for s
    using keeps_keys_plain [OF without_keys [OF wf cl that(2)], of kr] rd that(1) by (cases "plain kr db s") (auto simp: readable_def)
  then show "readable kr (without P E C db)" using rd by (auto simp: readable_def without_simps)
  show "shown kr (without P E C db) c v = (if c \<in> C then None else shown kr db c v)"
  proof (cases "c \<in> C \<or> view db c v = None")
    case False
    then obtain st where st: "view db c v = Some st" by auto
    have "map_option (secret_of kr (without P E C db)) (st k) = map_option (secret_of kr db) (st k)" for k
      using view_values [OF wf st, of k] pl False by (cases "st k") (auto simp: secret_of_def)
    then show ?thesis using False st by (simp add: shown_def without_view [OF wf cl])
  qed (auto simp: shown_def without_view [OF wf cl])
qed

lemma without_max: "max_version (without P E C db) c = (if c \<in> C then 0 else max_version db c)"
proof -
  have "versions_of (without P E C db) c = (if c \<in> C then [] else versions_of db c)"
    by (auto simp: versions_of_def without_simps filter_empty_conv intro: filter_cong)
  then show ?thesis by (simp add: max_version_def)
qed

lemma delete_rows_Inr: "execAffectingOne (delete_rows P E C n db) = Inr db' \<Longrightarrow> db' = without P E C db"
  by (auto simp: execAffectingOne_def delete_rows_def split: if_splits)

end
