(* ===== verification/Vault.thy ===== *)
theory Vault
  imports Hierarchy
begin

section \<open>The vault\<close>

text \<open>
  What the service promises, without keys, ciphertexts and tables: every config has a history of numbered versions,
  each mapping keys to a value and its type, and the number of its latest version.
\<close>

record vault =
  history :: "string \<Rightarrow> int \<rightharpoonup> (string \<rightharpoonup> bytes \<times> string)"
  head_of :: "string \<Rightarrow> int"

definition current :: "vault \<Rightarrow> string \<Rightarrow> string \<rightharpoonup> bytes \<times> string" where
  "current a c = (case history a c (head_of a c) of None \<Rightarrow> Map.empty | Some m \<Rightarrow> m)"

definition push :: "string \<Rightarrow> (string \<rightharpoonup> bytes \<times> string) \<Rightarrow> vault \<Rightarrow> vault" where
  "push c m a = \<lparr>history = (history a)(c := (history a c)(head_of a c + 1 \<mapsto> m)), head_of = (head_of a)(c := head_of a c + 1)\<rparr>"

text \<open>The operations of a vault; \<open>Quiet\<close> is one that leaves every version of every config as it is.\<close>

datatype vault_op =
    Saved string "SecretChange list"
  | RolledBack string int
  | Pruned string "int set"
  | Dropped "string set"
  | Quiet

definition drop_configs :: "string set \<Rightarrow> vault \<Rightarrow> vault" where
  "drop_configs C a = \<lparr>history = (\<lambda>c. if c \<in> C then Map.empty else history a c), head_of = (\<lambda>c. if c \<in> C then 0 else head_of a c)\<rparr>"

definition forget :: "string \<Rightarrow> int set \<Rightarrow> vault \<Rightarrow> vault" where
  "forget c V a = a\<lparr>history := (history a)(c := history a c |` (- V))\<rparr>"

fun perform :: "vault_op \<Rightarrow> vault \<Rightarrow> vault option" where
  "perform (Saved c changes) a = Some (push c (apply_batch changes (current a c)) a)"
| "perform (RolledBack c v) a = map_option (\<lambda>m. push c m a) (history a c v)"
| "perform (Pruned c V) a = (if head_of a c \<in> V then None else Some (forget c V a))"
| "perform (Dropped C) a = Some (drop_configs C a)"
| "perform Quiet a = Some a"

fun replay :: "vault_op list \<Rightarrow> vault \<Rightarrow> vault option" where
  "replay [] a = Some a"
| "replay (op # ops) a = Option.bind (perform op a) (replay ops)"

definition vault_of :: "Keyring \<Rightarrow> secret_db \<Rightarrow> vault" where
  "vault_of kr db = \<lparr>history = (\<lambda>c v. map_option content (shown kr db c v)), head_of = max_version db\<rparr>"

subsection \<open>Every operation of the store and the service\<close>

text \<open>
  One rule for each operation that can change the tables, whatever its outcome: the service's methods and the
  repository methods the handlers call directly. The label says what the call asked for and reported: a call that fails,
  a dry run and an operation on names, keys or policies is \<open>Quiet\<close>. A save reads \<open>rdb\<close> before its transaction
  runs on \<open>db\<close>, and so does a prune; the one restriction is that the key a save has read is still on file when it commits.
\<close>

definition reported :: "vault_op \<Rightarrow> 'e + 'a \<Rightarrow> vault_op" where
  "reported op out = (case out of Inl _ \<Rightarrow> Quiet | Inr _ \<Rightarrow> op)"

definition reported_prune :: "string \<Rightarrow> 'e + PruneResult \<Rightarrow> vault_op" where
  "reported_prune c out = (case out of Inl _ \<Rightarrow> Quiet | Inr res \<Rightarrow> if prr_DryRun res then Quiet else Pruned c (set (PrunedVersions res)))"

inductive edit_op :: "Keyring \<Rightarrow> vault_op \<Rightarrow> secret_db \<Rightarrow> secret_db \<Rightarrow> bool" for kr where
  set_secrets: "\<lbrakk>key_on_file rdb db c; distinct order; set order = sc_Key ` set changes;
    SetSecrets kr rdb commit c changes msg actor fresh cvID order r now db = (out, db')\<rbrakk> \<Longrightarrow> edit_op kr (reported (Saved c changes) out) db db'"
| rollback: "svc_Rollback commit c v msg actor cvID now db = (out, db') \<Longrightarrow> edit_op kr (reported (RolledBack c v) out) db db'"
| prune: "PruneVersions fl rdb commit c req now db = (out, db') \<Longrightarrow> edit_op kr (reported_prune c out) db db'"
| keys: "key_step kr db db' \<Longrightarrow> edit_op kr Quiet db db'"
| create_project: "CreateProject kr slug name i r now db = Inr (p, r', db') \<Longrightarrow> edit_op kr Quiet db db'"
| create_env: "CreateEnvironment i pid slug name now db = Inr (e, db') \<Longrightarrow> edit_op kr Quiet db db'"
| create_config: "CreateConfig i eid name inh now db = Inr (cfg, db') \<Longrightarrow> edit_op kr Quiet db db'"
| rename_project: "proj_UpdateName i name now db = Inr db' \<Longrightarrow> edit_op kr Quiet db db'"
| own_project: "proj_UpdateOwner i owner now db = Inr db' \<Longrightarrow> edit_op kr Quiet db db'"
| delete_project: "proj_SoftDelete i now db = Inr db' \<Longrightarrow> edit_op kr Quiet db db'"
| restore_project: "proj_Undelete i now db = Inr db' \<Longrightarrow> edit_op kr Quiet db db'"
| rename_env: "env_UpdateName i name now db = Inr db' \<Longrightarrow> edit_op kr Quiet db db'"
| protect_env: "env_SetRequireApproval i b now db = Inr db' \<Longrightarrow> edit_op kr Quiet db db'"
| delete_env: "env_SoftDelete i now db = Inr db' \<Longrightarrow> edit_op kr Quiet db db'"
| restore_env: "env_Undelete i now db = Inr db' \<Longrightarrow> edit_op kr Quiet db db'"
| protect_config: "cfg_SetRequireApproval i b now db = Inr db' \<Longrightarrow> edit_op kr Quiet db db'"
| delete_config: "cfg_SoftDelete i now db = Inr db' \<Longrightarrow> edit_op kr Quiet db db'"
| restore_config: "cfg_Undelete i now db = Inr db' \<Longrightarrow> edit_op kr Quiet db db'"
| promoted: "MarkPromoted cvID eid v db = Inr db' \<Longrightarrow> edit_op kr Quiet db db'"
| set_retention: "SetVersionRetention c mv md db = Inr db' \<Longrightarrow> edit_op kr Quiet db db'"
| clear_retention: "ClearVersionRetention c db = Inr db' \<Longrightarrow> edit_op kr Quiet db db'"

inductive destroy_op :: "vault_op \<Rightarrow> secret_db \<Rightarrow> secret_db \<Rightarrow> bool" where
  destroy_project: "proj_Destroy i db = Inr db' \<Longrightarrow> destroy_op (Dropped (configs_of db (envs_of db {i}))) db db'"
| destroy_env: "env_Destroy i db = Inr db' \<Longrightarrow> destroy_op (Dropped (configs_of db {i})) db db'"
| destroy_config: "cfg_Destroy i db = Inr db' \<Longrightarrow> destroy_op (Dropped {i}) db db'"

definition svc_op :: "Keyring \<Rightarrow> vault_op \<Rightarrow> secret_db \<Rightarrow> secret_db \<Rightarrow> bool" where
  "svc_op kr op db db' \<longleftrightarrow> edit_op kr op db db' \<or> destroy_op op db db'"

text \<open>A run, with what each of its operations reported; and the steps without their labels.\<close>

inductive svc_run :: "Keyring \<Rightarrow> vault_op list \<Rightarrow> secret_db \<Rightarrow> secret_db \<Rightarrow> bool" for kr where
  idle: "svc_run kr [] db db"
| op: "\<lbrakk>svc_op kr op db db1; svc_run kr ops db1 db'\<rbrakk> \<Longrightarrow> svc_run kr (op # ops) db db'"

definition edit_step :: "Keyring \<Rightarrow> secret_db \<Rightarrow> secret_db \<Rightarrow> bool" where
  "edit_step kr db db' \<longleftrightarrow> (\<exists>op. edit_op kr op db db')"

definition destroy_step :: "secret_db \<Rightarrow> secret_db \<Rightarrow> bool" where
  "destroy_step db db' \<longleftrightarrow> (\<exists>op. destroy_op op db db')"

definition svc_step :: "Keyring \<Rightarrow> secret_db \<Rightarrow> secret_db \<Rightarrow> bool" where
  "svc_step kr db db' \<longleftrightarrow> edit_step kr db db' \<or> destroy_step db db'"

subsection \<open>Simulation of each operation\<close>

text \<open>The invariant, and a step that preserves it and does to the vault what its label says.\<close>

definition vault_inv :: "Keyring \<Rightarrow> secret_db \<Rightarrow> bool" where
  "vault_inv kr db \<longleftrightarrow> store_wf db \<and> readable kr db"

definition simulates :: "Keyring \<Rightarrow> vault_op \<Rightarrow> secret_db \<Rightarrow> secret_db \<Rightarrow> bool" where
  "simulates kr op db db' \<longleftrightarrow> vault_inv kr db' \<and> perform op (vault_of kr db) = Some (vault_of kr db')"

lemma current_vault: "store_wf db \<Longrightarrow> current (vault_of kr db) c = content (latest_shown kr db c)"
proof (cases "max_version db c = 0")
  case True
  assume wf: "store_wf db"
  have "shown kr db c 0 = None" using no_version_zero [OF wf] by (simp add: shown_def)
  moreover have "latest_state db c = Map.empty" using True no_version_zero [OF wf] by (simp add: latest_state_def)
  ultimately show ?thesis using True by (simp add: current_def vault_of_def latest_shown_def content_def fun_eq_iff)
next
  case False
  assume wf: "store_wf db"
  show ?thesis using latest_shown_max [OF wf False, of kr] by (simp add: current_def vault_of_def)
qed

lemma simulates_keeps:
  assumes "keeps_secrets kr db db'" "\<And>c. max_version db' c = max_version db c"
  shows "simulates kr Quiet db db'"
proof -
  have "vault_of kr db' = vault_of kr db" using assms by (simp add: vault_of_def keeps_secrets_def fun_eq_iff)
  then show ?thesis using assms(1) by (simp add: simulates_def vault_inv_def keeps_secrets_def)
qed

lemma max_version_same: "config_versions db' = config_versions db \<Longrightarrow> max_version db' c = max_version db c"
  by (simp add: max_version_def versions_of_def)

lemma simulates_hierarchy:
  "vault_inv kr db \<Longrightarrow> store_wf db' \<Longrightarrow> (\<And>c. keeps_keys db db' c) \<Longrightarrow> config_versions db' = config_versions db \<Longrightarrow>
    config_version_entries db' = config_version_entries db \<Longrightarrow> secret_values db' = secret_values db \<Longrightarrow> simulates kr Quiet db db'"
  by (intro simulates_keeps keeps_hierarchy max_version_same) (auto simp: vault_inv_def)

lemma simulates_relabelled: "vault_inv kr db \<Longrightarrow> relabels f g h \<Longrightarrow> simulates kr Quiet db (relabelled f g h db)"
  by (rule simulates_hierarchy) (auto simp: vault_inv_def relabelled_wf relabelled_keys, simp_all add: relabelled_def)

lemma simulates_extended: "vault_inv kr db \<Longrightarrow> hierarchy_ok (extended ps es cs db) \<Longrightarrow> simulates kr Quiet db (extended ps es cs db)"
  by (rule simulates_hierarchy) (auto simp: vault_inv_def extended_wf extended_keys, simp_all add: extended_def)

lemma without_simulates:
  assumes "vault_inv kr db" "cascaded P E C db"
  shows "vault_inv kr (without P E C db) \<and> vault_of kr (without P E C db) = drop_configs C (vault_of kr db)"
proof -
  have inv: "store_wf db" "readable kr db" using assms(1) by (simp_all add: vault_inv_def)
  have "vault_of kr (without P E C db) = drop_configs C (vault_of kr db)"
    by (auto simp: vault_of_def drop_configs_def fun_eq_iff without_shown(2) [OF inv assms(2)] without_max)
  then show ?thesis using without_wf [OF inv(1) assms(2)] without_shown(1) [OF inv assms(2)] by (simp add: vault_inv_def)
qed

lemma shown_None: "shown kr db c v = None \<longleftrightarrow> view db c v = None"
  by (simp add: shown_def)

lemma max_version_le:
  assumes "store_wf db" "store_wf db'" "\<And>v. view db c v \<noteq> None \<Longrightarrow> view db' c v \<noteq> None"
  shows "max_version db c \<le> max_version db' c"
proof (cases "max_version db c = 0")
  case False
  then have "view db c (max_version db c) \<noteq> None" using view_latest [OF assms(1)] by auto
  then obtain st where st: "view db' c (max_version db c) = Some st" using assms(3) by blast
  then have "shown undefined db' c (max_version db c) = Some (\<lambda>k. map_option (secret_of undefined db') (st k))" by (simp add: shown_def)
  then show ?thesis using shown_positive(2) [OF assms(2)] by blast
qed (use max_version_nonneg in simp)

lemma max_version_shown:
  assumes "store_wf db" "store_wf db'" "\<And>v. shown kr db' c v = shown kr db c v"
  shows "max_version db' c = max_version db c"
  using max_version_le [OF assms(1,2), of c] max_version_le [OF assms(2,1), of c] assms(3) shown_None by (metis order_antisym)

lemma pushes:
  assumes wf: "store_wf db" "store_wf db'" and new: "max_version db' c = max_version db c + 1" "shown kr db' c (max_version db c + 1) = Some m"
    and old: "\<And>c' v. \<not> (c' = c \<and> v = max_version db c + 1) \<Longrightarrow> shown kr db' c' v = shown kr db c' v"
  shows "vault_of kr db' = push c (content m) (vault_of kr db)"
proof -
  have "max_version db' c' = max_version db c'" if "c' \<noteq> c" for c' using max_version_shown [OF wf] old that by blast
  then have "max_version db' = (max_version db)(c := max_version db c + 1)" using new(1) by (auto simp: fun_eq_iff)
  moreover have "map_option content (shown kr db' c' v) = ((history (vault_of kr db))(c := (history (vault_of kr db) c)(max_version db c + 1 \<mapsto> content m))) c' v" for c' v
    using new(2) old [of c' v] by (cases "c' = c \<and> v = max_version db c + 1") (auto simp: vault_of_def)
  ultimately show ?thesis by (simp add: vault_of_def push_def fun_eq_iff)
qed

lemma simulates_set:
  assumes inv: "vault_inv kr db" and key: "key_on_file rdb db c" and order: "distinct order" "set order = sc_Key ` set changes"
    and run: "SetSecrets kr rdb commit c changes msg actor fresh cvID order r now db = (out, db')"
  shows "simulates kr (reported (Saved c changes) out) db db'"
proof (cases out)
  case (Inl e)
  then have "db' = db" using SetSecrets_Inl run by blast
  then show ?thesis using Inl inv by (simp add: simulates_def reported_def)
next
  case (Inr a)
  obtain cv r' where run: "SetSecrets kr rdb commit c changes msg actor fresh cvID order r now db = (Inr (cv, r'), db')"
    using run Inr by (cases a) auto
  have wf: "store_wf db" "readable kr db" using inv by (simp_all add: vault_inv_def)
  note sp = SetSecrets_spec [OF wf key order run]
  obtain m where m: "shown kr db' c (max_version db c + 1) = Some m" "content m = apply_batch changes (content (latest_shown kr db c))"
    using sp(5) by blast
  have "vault_of kr db' = push c (apply_batch changes (current (vault_of kr db) c)) (vault_of kr db)"
    using pushes [OF wf(1) sp(1,4) m(1) sp(6)] m(2) current_vault [OF wf(1)] by simp
  then show ?thesis using sp(1,2) Inr by (simp add: simulates_def vault_inv_def reported_def)
qed

lemma simulates_rollback:
  assumes inv: "vault_inv kr db" and run: "svc_Rollback commit c v msg actor cvID now db = (out, db')"
  shows "simulates kr (reported (RolledBack c v) out) db db'"
proof (cases out)
  case (Inl e)
  then have "db' = db" using Rollback_Inl run by blast
  then show ?thesis using Inl inv by (simp add: simulates_def reported_def)
next
  case (Inr cv)
  have wf: "store_wf db" "readable kr db" using inv by (simp_all add: vault_inv_def)
  note sp = Rollback_shown [OF wf run [unfolded Inr]]
  obtain m where m: "shown kr db c v = Some m" using sp(4) by blast
  have "vault_of kr db' = push c (content m) (vault_of kr db)"
    using pushes [OF wf(1) sp(1,3) _ sp(6)] sp(5) m by metis
  moreover have "history (vault_of kr db) c v = Some (content m)" using m by (simp add: vault_of_def)
  ultimately show ?thesis using sp(1,2) Inr by (simp add: simulates_def vault_inv_def reported_def)
qed

lemma simulates_prune:
  assumes inv: "vault_inv kr db" and run: "PruneVersions fl rdb commit c req now db = (out, db')"
  shows "simulates kr (reported_prune c out) db db'"
proof (cases "reported_prune c out = Quiet")
  case True
  then have "db' = db" using PruneVersions_report [OF _ run] inv
    by (auto simp: reported_prune_def vault_inv_def split: sum.splits if_splits)
  then show ?thesis using True inv by (simp add: simulates_def)
next
  case False
  then obtain res where res: "out = Inr res" "\<not> prr_DryRun res" by (auto simp: reported_prune_def split: sum.splits if_splits)
  have wf: "store_wf db" "readable kr db" using inv by (simp_all add: vault_inv_def)
  have wf': "store_wf db'" by (rule PruneVersions_spec(1) [OF wf(1) run])
  note pl = PruneVersions_shown [OF wf run]
  let ?V = "set (PrunedVersions res)"
  have rep: "max_version db c \<notin> ?V" "view db' c' v = (if c' = c \<and> v \<in> ?V then None else view db c' v)" for c' v
    using PruneVersions_report [OF wf(1) run] res by auto
  have so: "secret_of kr db' = secret_of kr db" by (simp add: fun_eq_iff secret_of_def pl(2))
  have sh: "shown kr db' c' v = (if c' = c \<and> v \<in> ?V then None else shown kr db c' v)" for c' v
    by (simp add: shown_def rep(2) so)
  have "max_version db' c' = max_version db c'" for c'
  proof (cases "c' = c")
    case False
    then show ?thesis using max_version_shown [OF wf(1) wf', of kr c'] sh by simp
  qed (use PruneVersions_spec(2) [OF wf(1) run] in simp)
  then have "vault_of kr db' = forget c ?V (vault_of kr db)"
    by (auto simp: vault_of_def forget_def sh fun_eq_iff restrict_map_def)
  moreover have "head_of (vault_of kr db) c \<notin> ?V" using rep(1) by (simp add: vault_of_def)
  ultimately show ?thesis using wf' pl(1) res by (simp add: simulates_def vault_inv_def reported_prune_def)
qed

lemma simulates_keys:
  assumes inv: "vault_inv kr db" and step: "key_step kr db db'"
  shows "simulates kr Quiet db db'"
proof -
  have wf: "store_wf db" "readable kr db" using inv by (simp_all add: vault_inv_def)
  have k: "keeps_secrets kr db db'" using step by cases (auto intro: Rotate_keeps Rewrap_keeps wf)
  then have "max_version db' c = max_version db c" for c
    using max_version_shown [OF wf(1), of db' kr c] by (simp add: keeps_secrets_def)
  then show ?thesis using k simulates_keeps by blast
qed

lemma MarkPromoted_keeps:
  assumes inv: "vault_inv kr db" and run: "MarkPromoted cvID eid v db = Inr db'"
  shows "keeps_secrets kr db db'"
proof -
  define u where "u w = (if cv_ID w = cvID then w\<lparr>cv_PromotedFromEnvID := Some eid, cv_PromotedFromVersion := Some v\<rparr> else w)" for w :: ConfigVersion
  have wf: "store_wf db" "readable kr db" using inv by (simp_all add: vault_inv_def)
  have db': "db' = db\<lparr>config_versions := map u (config_versions db)\<rparr>"
    using run by (auto simp: MarkPromoted_def execAffectingOne_def update_rows_def Let_def u_def [abs_def] split: if_splits)
  have id: "cv_ID (u w) = cv_ID w" "cv_ConfigID (u w) = cv_ConfigID w" "cv_Version (u w) = cv_Version w" for w by (simp_all add: u_def)
  have ent: "entry_ok db' n = entry_ok db n" for n unfolding entry_ok_def db' by (simp add: id)
  have "versions_ok db'" using wf(1) by (simp add: store_wf_def versions_ok_def db' id comp_def)
  then have wf': "store_wf db'" using wf(1) ent
    by (simp add: store_wf_def hierarchy_ok_def values_ok_def manifest_ok_def keks_ok_def) (simp add: db')
  have ok: "versions_ok db" "values_ok db" "manifest_ok db" "versions_ok db'" "values_ok db'" "manifest_ok db'"
    using wf(1) wf' by (auto simp: store_wf_def)
  have same: "secret_values db' = secret_values db" "config_version_entries db' = config_version_entries db" by (simp_all add: db')
  have "state_of db' i = state_of db i" for i unfolding state_of_def joined_def same ..
  then have vw: "view db' c w = view db c w" for c w
    by (intro option_eqI) (simp add: view_Some [OF ok(1)] view_Some [OF ok(4)], simp add: db' id)
  have pl: "plain kr db' = plain kr db" by (rule plain_cong) (simp_all add: db')
  have sh: "shown kr db' c w = shown kr db c w" for c w by (rule shown_cong [OF vw pl])
  have "readable kr db'" using wf(2) by (simp add: readable_def pl) (simp add: db')
  then show ?thesis using wf' sh by (simp add: keeps_secrets_def)
qed

lemma keeps_max_version: "store_wf db \<Longrightarrow> keeps_secrets kr db db' \<Longrightarrow> max_version db' c = max_version db c"
  using max_version_shown [of db db' kr c] by (simp add: keeps_secrets_def)

lemma simulates_promoted:
  assumes "vault_inv kr db" "MarkPromoted cvID eid v db = Inr db'"
  shows "simulates kr Quiet db db'"
  using MarkPromoted_keeps [OF assms] keeps_max_version simulates_keeps assms(1) by (auto simp: vault_inv_def)

lemma simulates_retention:
  assumes inv: "vault_inv kr db" and db': "db' = db\<lparr>config_version_retention := t\<rparr>"
  shows "simulates kr Quiet db db'"
proof (rule simulates_hierarchy [OF inv])
  show "store_wf db'" using inv
    by (simp add: vault_inv_def store_wf_def hierarchy_ok_def versions_ok_def values_ok_def manifest_ok_def entry_ok_def keks_ok_def db')
  show "keeps_keys db db' c" for c
    using project_of_cong [of db' db] by (auto simp: keeps_keys_def GetWrapped_def db')
qed (simp_all add: db')

lemma guard_Inr: "(case x of None \<Rightarrow> m | Some e \<Rightarrow> Inl e) = Inr y \<Longrightarrow> m = Inr y"
  by (cases x) auto

lemma simulates_create_project:
  assumes inv: "vault_inv kr db" and run: "CreateProject kr' slug name i r now db = Inr (p, r', db')"
  shows "simulates kr Quiet db db'"
proof -
  have h: "hierarchy_ok db" using inv by (simp add: vault_inv_def store_wf_def)
  obtain w where c: "proj_Create i slug name w 1 now db = Inr (p, db')"
    using run by (auto simp: CreateProject_def bind_err_Inr map_err_Inr split: option.split_asm)
  show ?thesis unfolding proj_Create_extends(1) [OF c h] by (rule simulates_extended [OF inv proj_Create_extends(2) [OF c h]])
qed

lemma simulates_create_env:
  assumes inv: "vault_inv kr db" and run: "CreateEnvironment i pid slug name now db = Inr (e, db')"
  shows "simulates kr Quiet db db'"
proof -
  have h: "hierarchy_ok db" using inv by (simp add: vault_inv_def store_wf_def)
  have c: "env_Create i pid slug name now db = Inr (e, db')"
    using run by (auto simp: CreateEnvironment_def map_err_Inr split: option.split_asm)
  show ?thesis unfolding env_Create_extends(1) [OF c h] by (rule simulates_extended [OF inv env_Create_extends(2) [OF c h]])
qed

lemma simulates_create_config:
  assumes inv: "vault_inv kr db" and run: "CreateConfig i eid name inh now db = Inr (cfg, db')"
  shows "simulates kr Quiet db db'"
proof -
  have h: "hierarchy_ok db" using inv by (simp add: vault_inv_def store_wf_def)
  have c: "cfg_Create i eid name inh now db = Inr (cfg, db')"
    using guard_Inr [OF run [unfolded CreateConfig_def]] by (simp add: map_err_Inr)
  show ?thesis unfolding cfg_Create_extends(1) [OF c h] by (rule simulates_extended [OF inv cfg_Create_extends(2) [OF c h]])
qed

lemma simulates_set_retention:
  assumes inv: "vault_inv kr db" and run: "SetVersionRetention c mv md db = Inr db'"
  shows "simulates kr Quiet db db'"
proof -
  obtain ret where "ret_Set c ret db = Inr db'"
    using run by (auto simp: SetVersionRetention_def bind_err_Inr map_err_Inr split: if_split_asm)
  then show ?thesis using simulates_retention [OF inv] by (auto simp: ret_Set_def split: if_split_asm)
qed

lemma undelete_Inr: "execAffectingOne (if b then Inl e else m) = Inr db' \<Longrightarrow> execAffectingOne m = Inr db'"
  by (auto simp: execAffectingOne_def split: if_splits)

lemma edit_op_simulates:
  assumes inv: "vault_inv kr db" and step: "edit_op kr op db db'"
  shows "simulates kr op db db'"
proof -
  have rel: "simulates kr Quiet db db'" if "(\<exists>f. relabels f id id \<and> db' = relabelled f id id db) \<or> (\<exists>g. relabels id g id \<and> db' = relabelled id g id db) \<or>
      (\<exists>h. relabels id id h \<and> db' = relabelled id id h db)" for db'
    using that by (elim disjE exE conjE) (simp_all add: simulates_relabelled [OF inv])
  from step show ?thesis
  proof cases
    case set_secrets
    show ?thesis unfolding set_secrets(1) by (rule simulates_set [OF inv set_secrets(2-)])
  next
    case rollback
    show ?thesis unfolding rollback(1) by (rule simulates_rollback [OF inv rollback(2-)])
  next
    case prune
    show ?thesis unfolding prune(1) by (rule simulates_prune [OF inv prune(2-)])
  next
    case keys
    show ?thesis unfolding keys(1) by (rule simulates_keys [OF inv keys(2-)])
  next
    case create_project
    show ?thesis unfolding create_project(1) by (rule simulates_create_project [OF inv create_project(2-)])
  next
    case create_env
    show ?thesis unfolding create_env(1) by (rule simulates_create_env [OF inv create_env(2-)])
  next
    case create_config
    show ?thesis unfolding create_config(1) by (rule simulates_create_config [OF inv create_config(2-)])
  next
    case rename_project
    show ?thesis unfolding rename_project(1) by (rule rel [OF disjI1 [OF update_project_relabels [OF rename_project(2) [unfolded proj_UpdateName_def]]]]) simp
  next
    case own_project
    show ?thesis unfolding own_project(1) by (rule rel [OF disjI1 [OF update_project_relabels [OF own_project(2) [unfolded proj_UpdateOwner_def]]]]) simp
  next
    case delete_project
    show ?thesis unfolding delete_project(1) by (rule rel [OF disjI1 [OF update_project_relabels [OF delete_project(2) [unfolded proj_SoftDelete_def]]]]) simp
  next
    case restore_project
    show ?thesis unfolding restore_project(1) by (rule rel [OF disjI1 [OF update_project_relabels [OF undelete_Inr [OF restore_project(2) [unfolded proj_Undelete_def]]]]]) simp
  next
    case rename_env
    show ?thesis unfolding rename_env(1) by (rule rel [OF disjI2 [OF disjI1 [OF update_env_relabels [OF rename_env(2) [unfolded env_UpdateName_def]]]]]) simp
  next
    case protect_env
    show ?thesis unfolding protect_env(1) by (rule rel [OF disjI2 [OF disjI1 [OF update_env_relabels [OF protect_env(2) [unfolded env_SetRequireApproval_def]]]]]) simp
  next
    case delete_env
    show ?thesis unfolding delete_env(1) by (rule rel [OF disjI2 [OF disjI1 [OF update_env_relabels [OF delete_env(2) [unfolded env_SoftDelete_def]]]]]) simp
  next
    case restore_env
    show ?thesis unfolding restore_env(1) by (rule rel [OF disjI2 [OF disjI1 [OF update_env_relabels [OF undelete_Inr [OF restore_env(2) [unfolded env_Undelete_def]]]]]]) simp
  next
    case protect_config
    show ?thesis unfolding protect_config(1) by (rule rel [OF disjI2 [OF disjI2 [OF update_config_relabels [OF protect_config(2) [unfolded cfg_SetRequireApproval_def]]]]]) simp
  next
    case delete_config
    show ?thesis unfolding delete_config(1) by (rule rel [OF disjI2 [OF disjI2 [OF update_config_relabels [OF delete_config(2) [unfolded cfg_SoftDelete_def]]]]]) simp
  next
    case restore_config
    show ?thesis unfolding restore_config(1) by (rule rel [OF disjI2 [OF disjI2 [OF update_config_relabels [OF undelete_Inr [OF restore_config(2) [unfolded cfg_Undelete_def]]]]]]) simp
  next
    case promoted
    show ?thesis unfolding promoted(1) by (rule simulates_promoted [OF inv promoted(2-)])
  next
    case set_retention
    show ?thesis unfolding set_retention(1) by (rule simulates_set_retention [OF inv set_retention(2-)])
  next
    case clear_retention
    then show ?thesis using simulates_retention [OF inv] by (auto simp: ClearVersionRetention_def ret_Clear_def bind_err_Inr)
  qed
qed

lemma destroy_op_simulates:
  assumes inv: "vault_inv kr db" and step: "destroy_op op db db'"
  shows "simulates kr op db db'"
  using step
proof cases
  case (destroy_project i)
  then have "db' = without {i} (envs_of db {i}) (configs_of db (envs_of db {i})) db"
    by (auto simp: proj_Destroy_def Let_def dest: delete_rows_Inr)
  then show ?thesis using without_simulates [OF inv, of "{i}" "envs_of db {i}"] destroy_project(1) by (auto simp: cascaded_def simulates_def)
next
  case (destroy_env i)
  then have "db' = without {} {i} (configs_of db {i}) db" by (auto simp: env_Destroy_def dest: delete_rows_Inr)
  then show ?thesis using without_simulates [OF inv, of "{}" "{i}"] destroy_env(1) by (auto simp: cascaded_def envs_of_def simulates_def)
next
  case (destroy_config i)
  then have "db' = without {} {} {i} db" by (auto simp: cfg_Destroy_def dest: delete_rows_Inr)
  then show ?thesis using without_simulates [OF inv, of "{}" "{}" "{i}"] destroy_config(1)
    by (auto simp: cascaded_def envs_of_def configs_of_def simulates_def)
qed

lemma svc_run_simulates:
  "svc_run kr ops db db' \<Longrightarrow> vault_inv kr db \<Longrightarrow> vault_inv kr db' \<and> replay ops (vault_of kr db) = Some (vault_of kr db')"
proof (induction rule: svc_run.induct)
  case (op op db db1 ops db')
  then have "simulates kr op db db1" using edit_op_simulates destroy_op_simulates unfolding svc_op_def by blast
  then show ?case using op.IH by (simp add: simulates_def)
qed simp

lemma svc_step_inv: "vault_inv kr db \<Longrightarrow> svc_step kr db db' \<Longrightarrow> vault_inv kr db'"
  using edit_op_simulates destroy_op_simulates unfolding svc_step_def edit_step_def destroy_step_def simulates_def by blast

lemma svc_steps_inv: "(svc_step kr)\<^sup>*\<^sup>* db db' \<Longrightarrow> vault_inv kr db \<Longrightarrow> vault_inv kr db'"
  by (induction rule: rtranclp_induct) (auto dest: svc_step_inv)

subsection \<open>History is append-only\<close>

text \<open>Versions may be forgotten, but none changes and no number is given out twice.\<close>

definition extends :: "vault \<Rightarrow> vault \<Rightarrow> bool" where
  "extends a b \<longleftrightarrow> (\<forall>c. head_of a c \<le> head_of b c \<and> (\<forall>v\<le>head_of a c. history b c v = history a c v \<or> history b c v = None))"

lemma extends_refl: "extends a a"
  by (simp add: extends_def)

lemma extends_trans: "extends a b \<Longrightarrow> extends b d \<Longrightarrow> extends a d"
  unfolding extends_def by (metis order_trans)

lemma push_extends: "extends a (push c m a)"
  by (auto simp: extends_def push_def)

lemma forget_extends: "extends a (forget c V a)"
  by (auto simp: extends_def forget_def restrict_map_def)

lemma perform_extends: "perform op a = Some b \<Longrightarrow> (\<And>C. op \<noteq> Dropped C) \<Longrightarrow> extends a b"
  by (cases op) (auto simp: push_extends forget_extends extends_refl split: if_split_asm)

lemma edit_op_keeps_configs: "edit_op kr op db db' \<Longrightarrow> op \<noteq> Dropped C"
  by (induction rule: edit_op.induct) (auto simp: reported_def reported_prune_def split: sum.splits)

lemma edit_steps_extend:
  "(edit_step kr)\<^sup>*\<^sup>* db db' \<Longrightarrow> vault_inv kr db \<Longrightarrow> vault_inv kr db' \<and> extends (vault_of kr db) (vault_of kr db')"
proof (induction rule: rtranclp_induct)
  case (step db1 db2)
  then obtain op where op: "edit_op kr op db1 db2" by (auto simp: edit_step_def)
  then have "simulates kr op db1 db2" using edit_op_simulates step by blast
  then have "vault_inv kr db2" "extends (vault_of kr db1) (vault_of kr db2)"
    using perform_extends edit_op_keeps_configs [OF op] by (auto simp: simulates_def)
  then show ?case using step extends_trans by blast
qed (simp add: extends_refl)


section \<open>Reads while keys move\<close>

text \<open>
  What a key operation may do to what a reader holds: rows keep their identity and what they decrypt to, a project keeps
  its id, and a wrapped key that a version once had is kept or gone, never replaced.
\<close>

definition keys_from :: "Project \<Rightarrow> secret_db \<Rightarrow> Project \<Rightarrow> secret_db \<Rightarrow> bool" where
  "keys_from p db p' db' \<longleftrightarrow> p_ID p' = p_ID p \<and> p_KEKVersion p \<le> p_KEKVersion p' \<and>
     (\<forall>v\<le>p_KEKVersion p. wrapped_at db' p' v = wrapped_at db p v \<or> wrapped_at db' p' v = None)"

definition moved :: "Keyring \<Rightarrow> secret_db \<Rightarrow> secret_db \<Rightarrow> bool" where
  "moved kr db db' \<longleftrightarrow> keeps_secrets kr db db' \<and>
    (\<forall>s\<in>set (secret_values db). \<exists>s'\<in>set (secret_values db'). sv_ID s' = sv_ID s \<and> sv_ConfigID s' = sv_ConfigID s \<and>
       plain kr db' s' = plain kr db s) \<and>
    (\<forall>c cfg p. resolveProject db c = Inr (cfg, p) \<longrightarrow> (\<exists>p'. resolveProject db' c = Inr (cfg, p') \<and> keys_from p db p' db'))"

lemma keys_from_trans: "keys_from p db p1 db1 \<Longrightarrow> keys_from p1 db1 p2 db2 \<Longrightarrow> keys_from p db p2 db2"
  unfolding keys_from_def by (metis order_trans)

lemma moved_refl: "vault_inv kr db \<Longrightarrow> moved kr db db"
  by (auto simp: moved_def keeps_secrets_refl keys_from_def vault_inv_def)

lemma movedD:
  assumes "moved kr db db'"
  shows "keeps_secrets kr db db'"
    "s \<in> set (secret_values db) \<Longrightarrow> \<exists>s'\<in>set (secret_values db'). sv_ID s' = sv_ID s \<and> sv_ConfigID s' = sv_ConfigID s \<and> plain kr db' s' = plain kr db s"
    "resolveProject db c = Inr (cfg, p) \<Longrightarrow> \<exists>p'. resolveProject db' c = Inr (cfg, p') \<and> keys_from p db p' db'"
  using assms unfolding moved_def by simp_all

lemma moved_trans:
  assumes a: "moved kr db db1" and b: "moved kr db1 db2"
  shows "moved kr db db2"
  unfolding moved_def
proof (intro conjI ballI allI impI)
  show "keeps_secrets kr db db2" using keeps_secrets_trans [OF movedD(1) [OF a] movedD(1) [OF b]] .
next
  fix s assume "s \<in> set (secret_values db)"
  from movedD(2) [OF a this] obtain s1 where 1: "s1 \<in> set (secret_values db1)" "sv_ID s1 = sv_ID s" "sv_ConfigID s1 = sv_ConfigID s"
    "plain kr db1 s1 = plain kr db s" by blast
  from movedD(2) [OF b 1(1)] show "\<exists>s'\<in>set (secret_values db2). sv_ID s' = sv_ID s \<and> sv_ConfigID s' = sv_ConfigID s \<and> plain kr db2 s' = plain kr db s"
    using 1(2-4) by auto
next
  fix c cfg p assume "resolveProject db c = Inr (cfg, p)"
  from movedD(3) [OF a this] obtain p1 where 1: "resolveProject db1 c = Inr (cfg, p1)" "keys_from p db p1 db1" by blast
  from movedD(3) [OF b 1(1)] show "\<exists>p'. resolveProject db2 c = Inr (cfg, p') \<and> keys_from p db p' db2" using keys_from_trans [OF 1(2)] by blast
qed

lemma one_row_sub:
  assumes "\<And>r s. r \<in> set t \<Longrightarrow> s \<in> set t \<Longrightarrow> P r \<Longrightarrow> P s \<Longrightarrow> r = s"
  shows "one_row P (filter Q t) = one_row P t \<or> one_row P (filter Q t) = Inl ErrNotFound"
proof (cases "one_row P (filter Q t)")
  case (Inl e)
  then show ?thesis by (simp add: one_row_Inl)
next
  case (Inr r)
  then have "r \<in> set t" "P r" using one_row_Inr by fastforce+
  then show ?thesis using Inr one_row_unique [of r t P] assms by metis
qed

lemma wrapped_None: "wrapped_at db p v = None \<longleftrightarrow> v \<noteq> p_KEKVersion p \<and> (\<forall>x. GetWrapped db (p_ID p) v \<noteq> Inr x)"
  by (cases "GetWrapped db (p_ID p) v") (auto simp: wrapped_at_def)

lemma rotation_retired:
  assumes h: "hierarchy_ok db" and rot: "rotation i w now p db db'" and q: "q \<in> set (projects db)"
    and v: "v \<le> p_KEKVersion q" "wrapped_at db q v = None"
  shows "wrapped_at db' (rotated i w (p_KEKVersion p + 1) now q) v = None"
proof -
  have n: "v \<noteq> p_KEKVersion q" "\<And>x. GetWrapped db (p_ID q) v \<noteq> Inr x" using v(2) by (auto simp: wrapped_None)
  have qp: "p_ID q = i \<Longrightarrow> q = p" using rotation_project(3) [OF h rot q] .
  have ne: "v \<noteq> p_KEKVersion (rotated i w (p_KEKVersion p + 1) now q)"
    using n(1) v(1) qp by (cases "p_ID q = i") (simp_all add: rotated_def)
  have old: "one_row (\<lambda>k. kv_ProjectID k = p_ID q \<and> kv_Version k = v) (project_kek_versions db) = Inl ErrNotFound"
  proof (cases "one_row (\<lambda>k. kv_ProjectID k = p_ID q \<and> kv_Version k = v) (project_kek_versions db)")
    case (Inl e)
    then show ?thesis by (simp add: one_row_Inl)
  next
    case (Inr k)
    then show ?thesis using n(2) [of "kv_Wrapped k"] by (simp add: GetWrapped_def)
  qed
  have "project_kek_versions db' = project_kek_versions db @ [\<lparr>kv_ProjectID = i, kv_Version = p_KEKVersion p, kv_Wrapped = p_WrappedKEK p\<rparr>]"
    using rot by (simp add: rotation_def)
  then have "GetWrapped db' (p_ID q) v = bind_err (if p_ID q = i \<and> p_KEKVersion p = v
      then Inr \<lparr>kv_ProjectID = i, kv_Version = p_KEKVersion p, kv_Wrapped = p_WrappedKEK p\<rparr> else Inl ErrNotFound) (\<lambda>k. Inr (kv_Wrapped k))"
    unfolding GetWrapped_def by (simp only: one_row_snoc old sum.case kek_row.select_convs) auto
  then have "GetWrapped db' (p_ID q) v = Inl ErrNotFound" using n(1) qp by auto
  then show ?thesis using ne by (simp add: wrapped_None)
qed

lemma rotation_moved:
  assumes wf: "store_wf db" and rd: "readable kr db" and keep: "keeps_secrets kr db db'" and rot: "rotation i w now p db db'"
  shows "moved kr db db'"
proof -
  have "plain kr db' s = plain kr db s" if "s \<in> set (secret_values db)" for s
    using rotation_plain [OF wf rot] that rd by (cases "plain kr db s") (auto simp: readable_def)
  then have rows: "\<forall>s\<in>set (secret_values db). \<exists>s'\<in>set (secret_values db'). sv_ID s' = sv_ID s \<and> sv_ConfigID s' = sv_ConfigID s \<and>
      plain kr db' s' = plain kr db s" using rotation_same [OF rot] by auto
  have h: "hierarchy_ok db" using wf by (simp add: store_wf_def)
  have "keys_from q db (rotated i w (p_KEKVersion p + 1) now q) db'" if q: "resolveProject db c = Inr (cfg, q)" for c cfg q
  proof -
    let ?q = "rotated i w (p_KEKVersion p + 1) now q"
    have qin: "q \<in> set (projects db)" using resolveProject_Inr(3) [OF h q] .
    have le: "p_KEKVersion q \<le> p_KEKVersion ?q" using rotation_project(3) [OF h rot qin] by (auto simp: rotated_def)
    have "wrapped_at db' ?q v = wrapped_at db q v \<or> wrapped_at db' ?q v = None" if v: "v \<le> p_KEKVersion q" for v
      using rotation_wrapped [OF wf rot qin, of v] rotation_retired [OF h rot qin v] by (cases "wrapped_at db q v") auto
    then show ?thesis using le unfolding keys_from_def by simp
  qed
  then show ?thesis using keep rows rotation_resolve [OF rot] unfolding moved_def by blast
qed

lemma rewrap_moved:
  assumes wf: "store_wf db" and rd: "readable kr db" and keep: "keeps_secrets kr db db'"
    and f: "swept kr q db ids f" and db': "db' = db\<lparr>secret_values := map f (secret_values db)\<rparr> \<or>
      db' = snd (DeleteEmpty i (db\<lparr>secret_values := map f (secret_values db)\<rparr>))"
  shows "moved kr db db'"
proof -
  let ?db = "db\<lparr>secret_values := map f (secret_values db)\<rparr>"
  have pl: "plain kr ?db = plain kr db" by (rule plain_cong) simp_all
  have vals: "secret_values db' = map f (secret_values db)" using db' by (auto simp: DeleteEmpty_def)
  have pl': "plain kr db' s = plain kr db s" if "s \<in> set (secret_values db')" for s
    using that db' DeleteEmpty_plain [of s ?db kr i] vals by (auto simp: pl)
  have "plain kr db' (f s) = plain kr db s" if "s \<in> set (secret_values db)" for s
    using pl' [of "f s"] sweptD(2) [OF f that] that vals by simp
  then have rows: "\<forall>s\<in>set (secret_values db). \<exists>s'\<in>set (secret_values db'). sv_ID s' = sv_ID s \<and> sv_ConfigID s' = sv_ConfigID s \<and>
      plain kr db' s' = plain kr db s"
    using rekeys_simps(1,2) [OF sweptD(1) [OF f]] vals by auto
  have same: "projects db' = projects db" "environments db' = environments db" "configs db' = configs db" using db' by (auto simp: DeleteEmpty_def)
  have d: "distinct (map (\<lambda>k. (kv_ProjectID k, kv_Version k)) (project_kek_versions db))" using wf by (simp add: store_wf_def keks_ok_def)
  have sub: "one_row (\<lambda>k. kv_ProjectID k = j \<and> kv_Version k = v) (filter Q (project_kek_versions db)) =
      one_row (\<lambda>k. kv_ProjectID k = j \<and> kv_Version k = v) (project_kek_versions db) \<or>
    one_row (\<lambda>k. kv_ProjectID k = j \<and> kv_Version k = v) (filter Q (project_kek_versions db)) = Inl ErrNotFound" for j v Q
    by (rule one_row_sub) (rule distinct_map_inj [OF d], simp_all)
  have "GetWrapped db' j v = GetWrapped db j v \<or> GetWrapped db' j v = Inl ErrNotFound" for j v
    using db' sub [of j v "\<lambda>k. \<not> retirable ?db i k"] by (elim disjE) (simp_all add: GetWrapped_def DeleteEmpty_def)
  then have "wrapped_at db' p v = wrapped_at db p v \<or> wrapped_at db' p v = None" for p v
    by (metis (no_types) wrapped_at_def old.sum.simps(5))
  then have "keys_from p db p db'" for p by (simp add: keys_from_def)
  then show ?thesis using keep rows resolveProject_cong [OF same] unfolding moved_def by auto
qed


lemma key_step_moved:
  assumes inv: "vault_inv kr db" and step: "key_step kr db db'"
  shows "moved kr db db'"
proof -
  have wf: "store_wf db" "readable kr db" using inv by (simp_all add: vault_inv_def)
  have keep: "keeps_secrets kr db db'" using step by cases (auto intro: Rotate_keeps Rewrap_keeps wf)
  from step show ?thesis
  proof cases
    case (rotate commit i r now res)
    show ?thesis
    proof (cases res)
      case (Inl e)
      then have "db' = db" using Rotate_Inl rotate by blast
      then show ?thesis using moved_refl [OF inv] by simp
    next
      case (Inr a)
      obtain u r' where "Rotate kr commit i r now db = (Inr (u, r'), db')" using rotate Inr by (cases a) auto
      from Rotate_rotation [OF this] show ?thesis using rotation_moved [OF wf keep] by blast
    qed
  next
    case (rewrap commits i r res)
    from Rewrap_shape [OF wf(1) rewrap] show ?thesis using rewrap_moved [OF wf keep] by blast
  qed
qed

lemma key_steps_moved: "(key_step kr)\<^sup>*\<^sup>* db db' \<Longrightarrow> vault_inv kr db \<Longrightarrow> moved kr db db'"
proof (induction rule: rtranclp_induct)
  case (step db1 db2)
  then have m: "moved kr db db1" by blast
  then have "vault_inv kr db1" using movedD(1) by (auto simp: vault_inv_def keeps_secrets_def)
  then show ?case using key_step_moved [OF _ step(2)] moved_trans [OF m] by blast
qed (rule moved_refl)

text \<open>A stale project record still finds the right key, or finds it retired.\<close>

lemma stale_forVersion:
  assumes wf': "store_wf db'" and p: "resolveProject db c = Inr (cfg, p)" and p': "resolveProject db' c = Inr (cfg, p')" and fr: "keys_from p db p' db'"
    and v: "v \<le> p_KEKVersion p" and kek: "kek_at kr db p v = Some kek"
  shows "(\<exists>res'. forVersion kr db' v (newKEKResolver p) = Inr (kek, res')) \<or> forVersion kr db' v (newKEKResolver p) = Inl ErrKEKVersionRetired"
proof -
  obtain w ct where w: "wrapped_at db p v = Some w" "ParseCiphertext w = Inr ct" "UnwrapProjectKEK kr ct (p_ID p) = Inr kek"
    using kek by (auto simp: kek_at_Some unwrap_blob_Some)
  have new: "kres_cache (newKEKResolver p) v = None" "kres_proj (newKEKResolver p) = p" by (simp_all add: newKEKResolver_def)
  show ?thesis
  proof (cases "v = p_KEKVersion p")
    case True
    then show ?thesis using w new by (simp add: forVersion_def wrapped_at_def)
  next
    case False
    show ?thesis
    proof (cases "GetWrapped db' (p_ID p) v")
      case (Inl e)
      then have "e = ErrNotFound" by (auto simp: GetWrapped_def bind_err_Inl one_row_Inl)
      then show ?thesis using False Inl new by (simp add: forVersion_def)
    next
      case (Inr x)
      have h: "hierarchy_ok db'" "keks_ok db'" using wf' by (simp_all add: store_wf_def)
      have pin: "p' \<in> set (projects db')" using resolveProject_Inr(3) [OF h(1) p'] .
      have id: "p_ID p' = p_ID p" using fr by (simp add: keys_from_def)
      obtain k where k: "k \<in> set (project_kek_versions db')" "kv_ProjectID k = p_ID p" "kv_Version k = v"
        using Inr by (auto simp: GetWrapped_def bind_err_Inr dest: one_row_Inr)
      then obtain q where q: "q \<in> set (projects db')" "p_ID q = p_ID p" "v < p_KEKVersion q" using h(2) by (auto simp: keks_ok_def)
      then have "q = p'" using distinct_map_inj [of p_ID "projects db'" q p'] pin id h(1) by (auto simp: hierarchy_ok_def)
      then have "wrapped_at db' p' v = Some x" using Inr q(3) id by (simp add: wrapped_at_Some)
      then have "x = w" using fr v w(1) by (auto simp: keys_from_def)
      then show ?thesis using False Inr w new by (simp add: forVersion_def)
    qed
  qed
qed

lemma decrypt_survives:
  assumes inv: "vault_inv kr db" and p: "resolveProject db c = Inr (cfg, p)" and s: "s \<in> set (secret_values db)" "sv_ConfigID s = c"
    and v: "DEKKeyVersion (sv_Enc s) \<le> p_KEKVersion p" and pt: "plain kr db s = Some pt"
    and steps: "(key_step kr)\<^sup>*\<^sup>* db d1" "(key_step kr)\<^sup>*\<^sup>* d1 d2"
  shows "\<exists>res. decryptValue kr d1 d2 d2 d2 p c s (newKEKResolver p) = Inr (pt, res)"
proof -
  have wf: "store_wf db" using inv by (simp add: vault_inv_def)
  have h: "hierarchy_ok db" using wf by (simp add: store_wf_def)
  note m1 = key_steps_moved [OF steps(1) inv]
  have inv1: "vault_inv kr d1" using movedD(1) [OF m1] by (simp add: keeps_secrets_def vault_inv_def)
  note m2 = moved_trans [OF m1 key_steps_moved [OF steps(2) inv1]]
  have wf2: "store_wf d2" using movedD(1) [OF m2] by (simp add: keeps_secrets_def)
  have po: "project_of db c = Some p" "c_ID cfg = c" using resolveProject_Inr [OF h p] by simp_all
  obtain kek where kek: "kek_at kr db p (DEKKeyVersion (sv_Enc s)) = Some kek" and o: "open_value kek s (value_aad p s) = Inr pt"
    using pt po s(2) by (auto simp: plain_Some)
  have vv: "0 \<le> sv_ValueVersion s" using s(1) wf by (auto simp: store_wf_def values_ok_def)
  have aad: "dekAAD (p_ID p) (secret_path c (sv_Key s)) (sv_ValueVersion s) = Inr (value_aad p s)"
    using vv s(2) by (simp add: dekAAD_def value_aad_def)
  obtain p1 where p1: "resolveProject d1 c = Inr (cfg, p1)" "keys_from p db p1 d1" using movedD(3) [OF m1 p] by blast
  have wf1: "store_wf d1" using inv1 by (simp add: vault_inv_def)
  from stale_forVersion [OF wf1 p p1 v kek] show ?thesis
  proof
    assume "\<exists>res'. forVersion kr d1 (DEKKeyVersion (sv_Enc s)) (newKEKResolver p) = Inr (kek, res')"
    then show ?thesis using aad o by (auto simp: decryptValue_def decryptValueOnce_def)
  next
    assume "forVersion kr d1 (DEKKeyVersion (sv_Enc s)) (newKEKResolver p) = Inl ErrKEKVersionRetired"
    then have once: "decryptValueOnce kr d1 p c s (newKEKResolver p) = Inl ErrKEKVersionRetired" using aad by (simp add: decryptValueOnce_def)
    obtain s2 where s2: "s2 \<in> set (secret_values d2)" "sv_ID s2 = sv_ID s" "sv_ConfigID s2 = c" "plain kr d2 s2 = Some pt"
      using movedD(2) [OF m2 s(1)] s(2) pt by auto
    have g: "GetValueByID d2 (sv_ID s) = Inr s2"
      unfolding GetValueByID_def using one_row_by_id [of sv_ID "secret_values d2" "sv_ID s" s2] wf2 s2 by (simp add: store_wf_def values_ok_def)
    obtain p2 where p2: "resolveProject d2 c = Inr (cfg, p2)" using movedD(3) [OF m2 p] by blast
    have h2: "hierarchy_ok d2" using wf2 by (simp add: store_wf_def)
    have po2: "project_of d2 (sv_ConfigID s2) = Some p2" using resolveProject_Inr(2) [OF h2 p2] s2(3) by simp
    have "0 \<le> sv_ValueVersion s2" using s2(1) wf2 by (auto simp: store_wf_def values_ok_def)
    from decryptValueOnce_plain [OF po2 serves_new this s2(3) [symmetric], of kr] s2(4)
    obtain res2 where "decryptValueOnce kr d2 p2 c s2 (newKEKResolver p2) = Inr (pt, res2)" by auto
    then show ?thesis using once g p2 by (simp add: decryptValue_def)
  qed
qed

section \<open>Read after write\<close>

lemma first_error_None: "first_error f xs = None \<longleftrightarrow> (\<forall>x\<in>set xs. f x = None)"
  by (induction xs) (auto split: option.splits)

lemma SetSecrets_frame:
  assumes wf: "store_wf db" and order: "distinct order" "set order = sc_Key ` set changes"
    and run: "SetSecrets kr rdb commit c changes msg actor fresh cvID order r now db = (Inr (cv, r'), db')"
  shows "\<exists>cfg p kek new ptrs tombs. resolveProject rdb c = Inr (cfg, p) \<and> unwrapProjectKEK kr p = Inr kek \<and>
    saved (net_change (map (store_change kr kek p cfg) changes)) fresh (c_ID cfg) now db new (latest_state db' (c_ID cfg)) \<and>
    db' = with_version (db\<lparr>secret_values := secret_values db @ new\<rparr>) cv ptrs tombs \<and> store_wf db' \<and> cv_ConfigID cv = c_ID cfg \<and>
    max_version db' (c_ID cfg) = max_version db (c_ID cfg) + 1 \<and>
    view db' (c_ID cfg) (max_version db (c_ID cfg) + 1) = Some (latest_state db' (c_ID cfg))"
proof -
  obtain cfg p kek where p: "resolveProject rdb c = Inr (cfg, p)" "unwrapProjectKEK kr p = Inr kek"
    and save: "save_tx (c_ID cfg) (map (store_change kr kek p cfg) changes) msg actor fresh cvID order r now db = Inr ((cv, r'), db')"
    using SetSecrets_Inr [OF run] by blast
  have o: "set order = ch_Key ` set (map (store_change kr kek p cfg) changes)" using order(2) by (simp add: image_image)
  note sp = save_spec [OF wf order(1) o save]
  have "cv_ConfigID cv = c_ID cfg" using sp(3) by (simp add: version_row_def)
  then show ?thesis using p sp(1,2,4,5) by blast
qed

text \<open>One state, every reader of the service: what each returns when \<open>m\<close> are the secrets of the latest version.\<close>

lemma head_of_only: "set xs = {s} \<Longrightarrow> \<exists>rest. xs = s # rest"
  by (cases xs) auto

lemma GetSecretVersion_shown:
  assumes "store_wf db" "readable kr db" "resolveProject db c = Inr (cfg, p)" "validateKey k = None" "shown kr db c v = Some m" "m k = Some se"
  shows "GetSecretVersion kr db c k (se_ValueVersion se) = Inr se"
proof -
  have h: "hierarchy_ok db" and ok: "values_ok db" using assms(1) by (simp_all add: store_wf_def)
  note r = resolveProject_Inr [OF h assms(3)]
  obtain st s where st: "view db c v = Some st" "st k = Some s" and se: "se = secret_of kr db s"
    using assms(5,6) by (auto simp: shown_def)
  note s = view_ok [OF assms(1,2) st]
  have sin: "s \<in> set (secret_values db)" using view_values [OF assms(1) st] by blast
  let ?hits = "filter (\<lambda>sv. sv_ValueVersion sv = sv_ValueVersion s) (GetKeyHistory db c k)"
  have d: "distinct (map (\<lambda>s. (sv_ConfigID s, sv_Key s, sv_ValueVersion s)) (secret_values db))" using ok by (simp add: values_ok_def)
  have "set ?hits \<subseteq> {s}"
  proof (rule subsetI, rule iffD2 [OF singleton_iff])
    fix x assume "x \<in> set ?hits"
    then have "x \<in> set (secret_values db)" "sv_ConfigID x = c" "sv_Key x = k" "sv_ValueVersion x = sv_ValueVersion s"
      by (simp_all add: GetKeyHistory_def)
    then show "x = s" using distinct_map_inj [OF d _ sin, of x] s by simp
  qed
  moreover have "s \<in> set ?hits" using s sin by (simp add: GetKeyHistory_def)
  ultimately have "set ?hits = {s}" by (intro subset_antisym) simp_all
  from head_of_only [OF this] obtain rest where hits: "?hits = s # rest" ..
  obtain pt where pt: "plain kr db s = Some pt" using s by auto
  have "\<exists>res'. decryptValue kr db db db db p c s (newKEKResolver p) = Inr (pt, res') \<and> serves kr db p res'"
    by (rule decryptValue_plain [OF _ serves_new _ _ pt]) (use s r(2) in auto)
  then obtain res' where "decryptValue kr db db db db p c s (newKEKResolver p) = Inr (pt, res')" by blast
  then show ?thesis using hits s pt by (simp add: GetSecretVersion_def assms(3,4) r(1) se secret_of_def)
qed

lemma ReadRawByID_shown:
  assumes "store_wf db" "readable kr db" "resolveProject db c = Inr (cfg, p)" "dom (latest_shown kr db c) \<subseteq> set order"
  shows "\<exists>rc. svc_ReadRawByID kr db order c = Inr rc \<and> Values rc = (\<lambda>k. map_option se_Value (latest_shown kr db c k))"
proof -
  have h: "hierarchy_ok db" using assms(1) by (simp add: store_wf_def)
  note r = resolveProject_Inr [OF h assms(3)]
  obtain env where "cfg_Get db c = Inr cfg" "env_Get db (c_EnvironmentID cfg) = Inr env" "proj_Get db (e_ProjectID env) = Inr p"
    using assms(3) by (auto simp: resolveProject_def bind_err_Inr map_err_Inr)
  then show ?thesis using rawFor_shown [of db kr cfg p order env] assms(1,2,4) r(1,2) by (auto simp: svc_ReadRawByID_def)
qed

definition all_readers :: "Keyring \<Rightarrow> secret_db \<Rightarrow> string \<Rightarrow> int \<Rightarrow> (string \<rightharpoonup> Secret) \<Rightarrow> bool" where
  "all_readers kr db c v m \<longleftrightarrow>
    (\<forall>k. validateKey k = None \<longrightarrow> GetSecret kr db c k = (case m k of None \<Rightarrow> Inl SvcErrNotFound | Some se \<Rightarrow> Inr se)) \<and>
    (\<forall>k se. validateKey k = None \<longrightarrow> m k = Some se \<longrightarrow> GetSecretVersion kr db c k (se_ValueVersion se) = Inr se) \<and>
    (\<forall>keys. dom m \<subseteq> set keys \<longrightarrow>
      (\<exists>cv. RevealConfig kr db keys c = Inr (cv, m) \<and> cv_Version cv = v) \<and> RevealConfigVersion kr db keys c v = Inr m \<and>
      (\<exists>rc. svc_ReadRawByID kr db keys c = Inr rc \<and> Values rc = (\<lambda>k. map_option se_Value (m k))))"

lemma all_readers_shown:
  assumes wf: "store_wf db" "readable kr db" and p: "resolveProject db c = Inr (cfg, p)" and m: "shown kr db c (max_version db c) = Some m"
  shows "all_readers kr db c (max_version db c) m"
proof -
  have nz: "max_version db c \<noteq> 0" using m no_version_zero [OF wf(1), of c] by (auto simp: shown_def)
  have "latest_shown kr db c = m" using m latest_shown_max [OF wf(1) nz, of kr] by simp
  then show ?thesis unfolding all_readers_def
    using GetSecret_shown [OF wf p _ nz] m GetSecretVersion_shown [OF wf p _ m] RevealConfig_shown [OF wf p m]
      RevealConfigVersion_shown [OF wf p m] ReadRawByID_shown [OF wf p] by simp
qed

lemma read_back:
  assumes inv: "vault_inv kr db" and key: "key_on_file rdb db c" "resolveProject db c = Inr (cfg, p)"
    and order: "distinct order" "set order = sc_Key ` set changes"
    and run: "SetSecrets kr rdb commit c changes msg actor fresh cvID order r now db = (Inr (cv, r'), db1)"
    and steps: "(key_step kr)\<^sup>*\<^sup>* db1 db2"
  shows "\<exists>m. content m = apply_batch changes (content (latest_shown kr db c)) \<and> all_readers kr db2 c (cv_Version cv) m"
proof -
  have wf: "store_wf db" "readable kr db" using inv by (simp_all add: vault_inv_def)
  note sp = SetSecrets_spec [OF wf key(1) order run]
  obtain m where m: "shown kr db1 c (max_version db c + 1) = Some m" "content m = apply_batch changes (content (latest_shown kr db c))"
    using sp(5) by blast
  have inv1: "vault_inv kr db1" using sp(1,2) by (simp add: vault_inv_def)
  note mv = key_steps_moved [OF steps inv1]
  have keep: "store_wf db2" "readable kr db2" "shown kr db2 c v = shown kr db1 c v" for v using movedD(1) [OF mv] by (auto simp: keeps_secrets_def)
  have mx: "max_version db2 c = cv_Version cv" using max_version_shown [OF sp(1) keep(1), of kr c] keep(3) sp(3,4) by simp
  obtain new ptrs tombs where "db1 = with_version (db\<lparr>secret_values := secret_values db @ new\<rparr>) cv ptrs tombs"
    using SetSecrets_frame [OF wf(1) order run] by blast
  then have "resolveProject db1 c = Inr (cfg, p)" using key(2) resolveProject_cong [of db1 db] by simp
  then obtain p2 where p2: "resolveProject db2 c = Inr (cfg, p2)" using movedD(3) [OF mv] by blast
  have "shown kr db2 c (max_version db2 c) = Some m" using keep(3) mx m(1) sp(3) by simp
  from all_readers_shown [OF keep(1,2) p2 this] show ?thesis using m(2) mx by auto
qed


section \<open>A write that crosses a rotation\<close>

text \<open>
  \<^verbatim>\<open>SetSecrets\<close> reads the project and its key before the transaction that saves. What follows is what becomes of the
  saved row when the key is retired in between.
\<close>

lemma Rewrap_retired:
  assumes run: "Rewrap kr commits i r db = ((None, res), db')" and v: "v \<in> set (Retired res)"
  shows "GetWrapped db' i v = Inl ErrNotFound"
proof -
  obtain p k cache n e db1 where p: "proj_Get db i = Inr p" "loadKEK kr db p (p_KEKVersion p) Map.empty = Inr (k, cache)"
    and l: "rewrap_loop kr p k commits 0 '''' 0 (cache, r) db = (n, e, db1)"
  proof (cases "\<exists>p k cache. proj_Get db i = Inr p \<and> loadKEK kr db p (p_KEKVersion p) Map.empty = Inr (k, cache)")
    case False
    then show thesis using run by (auto simp: Rewrap_def split: sum.splits)
  next
    case True
    then show thesis using that by (metis prod_cases3)
  qed
  have d: "e = None" "db' = snd (DeleteEmpty i db1)" "Retired res = fst (DeleteEmpty i db1)"
    using run p l by (cases e; auto simp: Rewrap_def split: prod.splits)+
  obtain q where q: "retirable db1 i q" "kv_Version q = v" using v d(3) by (auto simp: DeleteEmpty_def)
  then have "retirable db1 i x" if "kv_ProjectID x = i" "kv_Version x = v" for x using that by (auto simp: retirable_def)
  then have "one_row (\<lambda>k. kv_ProjectID k = i \<and> kv_Version k = v) (project_kek_versions db') = Inl ErrNotFound"
    by (auto simp: d(2) DeleteEmpty_def one_row_Inl)
  then show ?thesis by (simp add: GetWrapped_def)
qed

lemma lost_write:
  assumes wf: "store_wf db" and order: "distinct order" "set order = sc_Key ` set changes"
    and run: "SetSecrets kr rdb commit c changes msg actor fresh cvID order r now db = (Inr (cv, r'), db')"
    and old: "resolveProject rdb c = Inr (cfg, p)" "c_ID cfg = c" and new: "resolveProject db c = Inr (cfg', p')"
    and gone: "p_KEKVersion p' \<noteq> p_KEKVersion p" "GetWrapped db (p_ID p') (p_KEKVersion p) = Inl ErrNotFound"
    and k: "last_change changes k = Some ch" "\<not> sc_Delete ch" "validateKey k = None"
  shows "GetSecret kr db' c k = Inl SvcErrDecrypt"
proof -
  obtain kek nw ptrs tombs where sv: "saved (net_change (map (store_change kr kek p cfg) changes)) fresh c now db nw (latest_state db' c)"
    and db': "db' = with_version (db\<lparr>secret_values := secret_values db @ nw\<rparr>) cv ptrs tombs" and wf': "store_wf db'"
    and mx: "max_version db' c = max_version db c + 1" and vw: "view db' c (max_version db c + 1) = Some (latest_state db' c)"
    using SetSecrets_frame [OF wf order run] old by auto
  have "sets (net_change (map (store_change kr kek p cfg) changes)) k" using k by (auto simp: sets_def net_change_store store_change_def)
  then obtain s where s: "s \<in> set nw" "sv_Key s = k" using sv by (auto simp: saved_def)
  then have ls: "latest_state db' c k = Some s" and w: "written (net_change (map (store_change kr kek p cfg) changes)) fresh c now db s"
    using sv by (auto simp: saved_def)
  obtain sc val r0 r1 t where e: "encrypt_value kr kek p cfg sc (next_value_version db c k) r0 = Inr (val, r1)"
    and row: "s = value_row (fresh k) c k (next_value_version db c k) t val now"
    using w s(2) by (auto simp: written_def net_change_store store_change_def split: if_splits)
  have ver: "DEKKeyVersion (sv_Enc s) = p_KEKVersion p" using encrypt_value_Inr(2) [OF e] by (simp add: row value_row_def)
  have p': "resolveProject db' c = Inr (cfg', p')" using new resolveProject_cong [of db' db] by (simp add: db')
  have g: "GetWrapped db' (p_ID p') (p_KEKVersion p) = Inl ErrNotFound" using gone(2) by (simp add: GetWrapped_def db')
  have sin: "s \<in> set (secret_values db')" using s(1) by (simp add: db')
  have vv: "0 \<le> sv_ValueVersion s" using sin wf' by (auto simp: store_wf_def values_ok_def)
  have id: "GetValueByID db' (sv_ID s) = Inr s"
    unfolding GetValueByID_def using one_row_by_id [of sv_ID "secret_values db'" "sv_ID s" s] wf' sin by (simp add: store_wf_def values_ok_def)
  have once: "decryptValueOnce kr db' p' x s (newKEKResolver p') = Inl ErrKEKVersionRetired" for x
    using vv g gone(1) by (simp add: decryptValueOnce_def dekAAD_def forVersion_def newKEKResolver_def ver)
  have "max_version db' c \<noteq> 0" using mx max_version_nonneg [of db c] by simp
  then obtain cw where "GetLatest db' c = Inr (cw, latest_state db' c)" using GetLatest_Inr [OF wf'] by blast
  moreover have "c_ID cfg' = c" using resolveProject_Inr(1) [OF _ p'] wf' by (simp add: store_wf_def)
  ultimately show ?thesis using k(3) p' ls once id by (simp add: GetSecret_def decryptValue_def)
qed

end
