(* ===== verification/Vault_Properties.thy ===== *)
theory Vault_Properties
  imports Vault
begin

section \<open>What the secrets service guarantees\<close>

text \<open>The properties of the secrets service as a whole, over the operations of the store, the service and the key rotation.\<close>

subsection \<open>Types\<close>

definition well_typed :: "secret_db \<Rightarrow> bool" where
  "well_typed db \<longleftrightarrow> (\<forall>s\<in>set (secret_values db). validateKey (sv_Key s) = None \<and> sv_Type s \<in> set allowedTypes)"

text \<open>Values that an operation leaves behind: old ones under the same key and type, or validated ones.\<close>

definition types_from :: "secret_db \<Rightarrow> secret_db \<Rightarrow> bool" where
  "types_from db db' \<longleftrightarrow> (\<forall>s'\<in>set (secret_values db'). (\<exists>s\<in>set (secret_values db). sv_Key s' = sv_Key s \<and> sv_Type s' = sv_Type s) \<or>
     (validateKey (sv_Key s') = None \<and> sv_Type s' \<in> set allowedTypes))"

lemma types_from_well_typed: "types_from db db' \<Longrightarrow> well_typed db \<Longrightarrow> well_typed db'"
  unfolding types_from_def well_typed_def by metis

lemma types_from_sub: "set (secret_values db') \<subseteq> set (secret_values db) \<Longrightarrow> types_from db db'"
  by (auto simp: types_from_def)

lemma SetSecrets_valid:
  "SetSecrets kr rdb commit c changes msg actor fresh cvID order r now db = (Inr (cv, r'), db') \<Longrightarrow> \<forall>ch\<in>set changes. validate_change ch = None"
  by (auto simp: SetSecrets_def first_error_None [symmetric] split: option.split_asm)

lemma allowed_normalised: "validateType t = None \<Longrightarrow> normalizeType t \<in> set allowedTypes"
  by (auto simp: validateType_def normalizeType_def allowedTypes_def split: if_splits)

lemma types_from_set:
  assumes wf: "store_wf db" and order: "distinct order" "set order = sc_Key ` set changes"
    and run: "SetSecrets kr rdb commit c changes msg actor fresh cvID order r now db = (out, db')"
  shows "types_from db db'"
proof (cases out)
  case (Inl e)
  then have "db' = db" using SetSecrets_Inl run by blast
  then show ?thesis by (simp add: types_from_sub)
next
  case (Inr a)
  obtain cv r' where run: "SetSecrets kr rdb commit c changes msg actor fresh cvID order r now db = (Inr (cv, r'), db')"
    using run Inr by (cases a) auto
  obtain cfg p kek nw ptrs tombs where sv: "saved (net_change (map (store_change kr kek p cfg) changes)) fresh (c_ID cfg) now db nw (latest_state db' (c_ID cfg))"
    and db': "db' = with_version (db\<lparr>secret_values := secret_values db @ nw\<rparr>) cv ptrs tombs"
    using SetSecrets_frame [OF wf order run] by blast
  have "validateKey (sv_Key s) = None \<and> sv_Type s \<in> set allowedTypes" if s: "s \<in> set nw" for s
  proof -
    have "written (net_change (map (store_change kr kek p cfg) changes)) fresh (c_ID cfg) now db s" using sv s by (simp add: saved_def)
    then obtain ch val where ch: "last_change changes (sv_Key s) = Some ch" "\<not> sc_Delete ch"
      and row: "s = value_row (fresh (sv_Key s)) (c_ID cfg) (sv_Key s) (next_value_version db (c_ID cfg) (sv_Key s)) (normalizeType (sc_Type ch)) val now"
      by (auto simp: written_def net_change_store store_change_def split: if_splits)
    have "validate_change ch = None" using SetSecrets_valid [OF run] last_change_key [OF ch(1)] by blast
    then have "validateKey (sv_Key s) = None" "normalizeType (sc_Type ch) \<in> set allowedTypes"
      using ch(2) last_change_key [OF ch(1)] by (auto simp: validate_change_def allowed_normalised split: option.splits)
    moreover have "sv_Type s = normalizeType (sc_Type ch)" by (subst row) (simp add: value_row_def normalizeType_nonempty)
    ultimately show ?thesis by simp
  qed
  then show ?thesis by (auto simp: types_from_def db')
qed

lemma update_types:
  "execAffectingOne (update_project P f db) = Inr db' \<Longrightarrow> types_from db db'"
  "execAffectingOne (update_env Q g db) = Inr db' \<Longrightarrow> types_from db db'"
  "execAffectingOne (update_config R h db) = Inr db' \<Longrightarrow> types_from db db'"
  by (auto simp: execAffectingOne_def update_project_def update_env_def update_config_def update_rows_def
      split: if_splits intro!: types_from_sub)

lemma types_from_edit:
  assumes wf: "store_wf db" and step: "edit_op kr op db db'"
  shows "types_from db db'"
  using step
proof cases
  case set_secrets
  show ?thesis by (rule types_from_set [OF wf set_secrets(3-5)])
next
  case (rollback commit c v msg actor cvID now out)
  have "secret_values db' = secret_values db"
  proof (cases out)
    case (Inl e)
    then show ?thesis using Rollback_Inl rollback by blast
  next
    case (Inr cv)
    then have "rollback_tx c v msg actor cvID now db = Inr (cv, db')"
      using rollback by (auto simp: svc_Rollback_def Rollback_def withTx_def map_err_Inr split: sum.splits prod.splits option.splits)
    then show ?thesis using rollback_spec(5) [OF wf] by blast
  qed
  then show ?thesis by (simp add: types_from_sub)
next
  case prune
  from PruneVersions_spec(5) [OF wf prune(2)] show ?thesis using prune_frame(5) types_from_sub by blast
next
  case keys
  from keys(2) show ?thesis
  proof cases
    case (rotate commit i r now res)
    have "secret_values db' = secret_values db"
    proof (cases res)
      case (Inl e)
      then show ?thesis using Rotate_Inl rotate by blast
    next
      case (Inr a)
      obtain u r' where "Rotate kr commit i r now db = (Inr (u, r'), db')" using rotate Inr by (cases a) auto
      from Rotate_rotation [OF this] show ?thesis using rotation_same by blast
    qed
    then show ?thesis by (simp add: types_from_sub)
  next
    case (rewrap commits i r res)
    from Rewrap_shape [OF wf rewrap] obtain p ids f where f: "swept kr p db ids f" "secret_values db' = map f (secret_values db)"
      by (auto simp: DeleteEmpty_def)
    show ?thesis using rekeys_simps(3,5) [OF sweptD(1) [OF f(1)]] by (auto simp: types_from_def f(2))
  qed
next
  case (create_project slug name i r now p r')
  then show ?thesis by (auto simp: CreateProject_def proj_Create_def Let_def bind_err_Inr map_err_Inr split: option.split_asm if_split_asm intro!: types_from_sub)
next
  case (create_env i pid slug name now e)
  then show ?thesis by (auto simp: CreateEnvironment_def env_Create_def Let_def map_err_Inr split: option.split_asm if_split_asm intro!: types_from_sub)
next
  case (create_config i eid name inh now cfg)
  have "cfg_Create i eid name inh now db = Inr (cfg, db')"
    using guard_Inr [OF create_config(2) [unfolded CreateConfig_def]] by (simp add: map_err_Inr)
  then show ?thesis by (auto simp: cfg_Create_def Let_def split: if_split_asm intro!: types_from_sub)
next
  case promoted
  then show ?thesis by (auto simp: MarkPromoted_def execAffectingOne_def update_rows_def Let_def split: if_split_asm intro!: types_from_sub)
next
  case set_retention
  then show ?thesis by (auto simp: SetVersionRetention_def ret_Set_def bind_err_Inr map_err_Inr split: if_split_asm intro!: types_from_sub)
next
  case clear_retention
  then show ?thesis by (auto simp: ClearVersionRetention_def ret_Clear_def bind_err_Inr intro!: types_from_sub)
qed (auto simp: proj_UpdateName_def proj_UpdateOwner_def proj_SoftDelete_def proj_Undelete_def
    env_UpdateName_def env_SetRequireApproval_def env_SoftDelete_def env_Undelete_def cfg_SetRequireApproval_def cfg_SoftDelete_def cfg_Undelete_def
    intro: update_types dest!: undelete_Inr)


lemma svc_steps_types:
  "(svc_step kr)\<^sup>*\<^sup>* db db' \<Longrightarrow> vault_inv kr db \<Longrightarrow> well_typed db \<Longrightarrow> well_typed db'"
proof (induction rule: rtranclp_induct)
  case (step db1 db2)
  have inv: "vault_inv kr db1" using svc_steps_inv [OF step(1,4)] .
  have "types_from db1 db2"
  proof (cases "edit_step kr db1 db2")
    case True
    then show ?thesis using types_from_edit inv by (auto simp: vault_inv_def edit_step_def)
  next
    case False
    then obtain op where "destroy_op op db1 db2" using step(2) by (auto simp: svc_step_def destroy_step_def)
    then have "set (secret_values db2) \<subseteq> set (secret_values db1)"
      by cases (auto simp: proj_Destroy_def env_Destroy_def cfg_Destroy_def Let_def without_simps dest!: delete_rows_Inr)
    then show ?thesis by (rule types_from_sub)
  qed
  then show ?case using types_from_well_typed step by blast
qed simp

section \<open>Properties\<close>

text \<open>
  C1. The service and its store refine a vault of plaintext histories, operation by operation. Take any run of
  operations (saving, rolling back, pruning, rotating and re-wrapping keys, creating, renaming, protecting,
  deleting, restoring and destroying projects, environments and configs, promoting, setting retention), with
  whatever outcome, where a save and a prune may have read an older state of the database than the one their
  transaction runs on; the one exclusion is a save whose project key was retired in between. The tables keep
  their integrity, every stored value can still be decrypted, and replaying on the vault what the calls
  reported gives exactly the final histories: a save that succeeds appends its own batch applied to the
  latest content, a rollback to \<open>v\<close> a copy of version \<open>v\<close>, a prune removes the versions it reports, none of them the
  latest, destroying a project, environment or config drops the configs under it, and everything else,
  failed calls and dry runs included, changes no history.
\<close>

theorem store_refines_vault:
  assumes "svc_run kr ops db db'" "store_wf db" "readable kr db"
  shows "store_wf db' \<and> readable kr db' \<and> replay ops (vault_of kr db) = Some (vault_of kr db')"
  using svc_run_simulates [OF assms(1)] assms(2,3) by (simp add: vault_inv_def)

text \<open>
  C35. As long as nothing is destroyed, history is append-only: the number of the latest version never
  falls, and a version that has been given out shows for ever what it showed at first, or is gone. In
  particular no version number is used twice, and a pruned version never comes back.
\<close>

theorem history_append_only:
  assumes "(edit_step kr)\<^sup>*\<^sup>* db db'" "store_wf db" "readable kr db" "v \<le> max_version db c"
  shows "max_version db c \<le> max_version db' c \<and>
    (history (vault_of kr db') c v = history (vault_of kr db) c v \<or> history (vault_of kr db') c v = None)"
  using edit_steps_extend [OF assms(1)] assms(2-4) by (simp add: vault_inv_def extends_def vault_of_def)

text \<open>
  C2. A read after a write returns what was written, whichever way it reads. Let a save of a batch succeed
  on a config that is live, with the project key it had read still on file. Then there are secrets \<open>m\<close>, with the
  values and types of the config's latest version changed by the batch (the last change of a key wins), that every reader
  returns after any number of key rotations and re-wraps: \<^verbatim>\<open>GetSecret\<close> for each key, with \<^verbatim>\<open>ErrNotFound\<close> for a key that is
  not there, \<^verbatim>\<open>GetSecretVersion\<close> at each value's version, \<^verbatim>\<open>RevealConfig\<close>, \<^verbatim>\<open>RevealConfigVersion\<close> at the new version
  and the raw read of the resolver, \<^verbatim>\<open>ReadRawByID\<close>.
\<close>

theorem read_after_write:
  assumes "store_wf db" "readable kr db" "key_on_file rdb db c" "resolveProject db c = Inr (cfg, p)"
    and "distinct order" "set order = sc_Key ` set changes"
    and "SetSecrets kr rdb commit c changes msg actor fresh cvID order r now db = (Inr (cv, r'), db1)" "(key_step kr)\<^sup>*\<^sup>* db1 db2"
  shows "\<exists>m. content m = apply_batch changes (content (latest_shown kr db c)) \<and>
    (\<forall>k. validateKey k = None \<longrightarrow> GetSecret kr db2 c k = (case m k of None \<Rightarrow> Inl SvcErrNotFound | Some se \<Rightarrow> Inr se)) \<and>
    (\<forall>k se. validateKey k = None \<longrightarrow> m k = Some se \<longrightarrow> GetSecretVersion kr db2 c k (se_ValueVersion se) = Inr se) \<and>
    (\<forall>keys. dom m \<subseteq> set keys \<longrightarrow>
      (\<exists>cv'. RevealConfig kr db2 keys c = Inr (cv', m) \<and> cv_Version cv' = cv_Version cv) \<and> RevealConfigVersion kr db2 keys c (cv_Version cv) = Inr m \<and>
      (\<exists>rc. svc_ReadRawByID kr db2 keys c = Inr rc \<and> Values rc = (\<lambda>k. map_option se_Value (m k))))"
  using read_back [OF _ assms(3-8)] assms(1,2) by (simp add: vault_inv_def all_readers_def)

text \<open>
  C13. A sweep ends and leaves nothing behind. With a database that answers and a random source that has
  not run dry, re-wrapping a project succeeds, counts exactly the values that were under an older key, and
  afterwards none is; the only superseded keys it leaves are those that a pending edit request was sealed
  under. No secret of any config changes.
\<close>

theorem rewrap_completes:
  assumes "store_wf db" "readable kr db" "proj_Get db i = Inr p" "kek_at kr db p (p_KEKVersion p) = Some k"
    and "12 * length (pending_rows db i (p_KEKVersion p)) \<le> length r"
  shows "\<exists>retired db'. Rewrap kr (\<lambda>_. None) i r db =
      ((None, \<lparr>Rewrapped = length (pending_rows db i (p_KEKVersion p)), Retired = retired\<rparr>), db') \<and>
    pending_rows db' i (p_KEKVersion p) = [] \<and>
    (\<forall>q\<in>set (project_kek_versions db'). kv_ProjectID q = i \<longrightarrow>
      dek_refs db' i (kv_Version q) = [] \<longrightarrow> edit_refs db' i (kv_Version q) \<noteq> []) \<and>
    (\<forall>c v. shown kr db' c v = shown kr db c v)"
  using Rewrap_complete [OF assms] Rewrap_keeps [OF assms(1,2)] by (fastforce simp: keeps_secrets_def)

text \<open>
  C12. Decrypting a fetched value survives the rotation of its key. A reader holds a value row and the
  project record it has read, and calls \<^verbatim>\<open>decryptValue\<close>; project-key rotations, re-wraps and retirements may run
  before it looks up the key, and more of them between that lookup and its single retry with fresh rows. If none runs
  during the retry, the call returns the plaintext. Edits are not among the steps that may intervene.
\<close>

theorem read_survives_rotation:
  assumes "store_wf db" "readable kr db" "resolveProject db c = Inr (cfg, p)" "s \<in> set (secret_values db)" "sv_ConfigID s = c"
    and "DEKKeyVersion (sv_Enc s) \<le> p_KEKVersion p" "plain kr db s = Some pt"
    and "(key_step kr)\<^sup>*\<^sup>* db d1" "(key_step kr)\<^sup>*\<^sup>* d1 d2"
  shows "\<exists>res. decryptValue kr d1 d2 d2 d2 p c s (newKEKResolver p) = Inr (pt, res)"
  using decrypt_survives [of kr db c cfg p s pt d1 d2] assms by (simp add: vault_inv_def)

text \<open>
  C36. A write does not survive it. When the project key that \<^verbatim>\<open>SetSecrets\<close> has read is rotated, swept and
  retired before its transaction runs, the transaction still succeeds and saves a new version, whose
  values nobody can decrypt any more.
\<close>

theorem late_write_is_lost:
  assumes "store_wf rdb" "readable kr rdb" "resolveProject rdb c = Inr (cfg, p)"
    and "Rotate kr commit (p_ID p) r1 now1 rdb = (Inr (v, r2), db1)"
    and "Rewrap kr commits (p_ID p) r3 db1 = ((None, res), db)" "p_KEKVersion p \<in> set (Retired res)"
    and "distinct order" "set order = sc_Key ` set changes"
    and "SetSecrets kr rdb commit2 c changes msg actor fresh cvID order r now db = (Inr (cv, r'), db')"
    and "last_change changes k = Some ch" "\<not> sc_Delete ch"
  shows "GetSecret kr db' c k = Inl SvcErrDecrypt"
proof -
  have h: "hierarchy_ok rdb" using assms(1) by (simp add: store_wf_def)
  note p = resolveProject_Inr [OF h assms(3)]
  obtain q w where rot: "rotation (p_ID p) w now1 q rdb db1" using Rotate_rotation [OF assms(4)] by blast
  have qp: "q = p" using rotation_project(3) [OF h rot p(3)] by simp
  let ?p = "rotated (p_ID p) w (p_KEKVersion p + 1) now1 p"
  have wf1: "store_wf db1" "readable kr db1" using Rotate_keeps [OF assms(1,2,4)] by (simp_all add: keeps_secrets_def)
  have wf: "store_wf db" using Rewrap_keeps [OF wf1 assms(5)] by (simp add: keeps_secrets_def)
  obtain f where "projects db = projects db1" "environments db = environments db1" "configs db = configs db1"
    using Rewrap_shape [OF wf1(1) assms(5)] by (auto simp: DeleteEmpty_def)
  then have new: "resolveProject db c = Inr (cfg, ?p)"
    using rotation_resolve [OF rot assms(3)] resolveProject_cong [of db db1] by (simp add: qp)
  have gone: "GetWrapped db (p_ID ?p) (p_KEKVersion p) = Inl ErrNotFound" using Rewrap_retired [OF assms(5,6)] by simp
  have "validate_change ch = None" "sc_Key ch = k" using SetSecrets_valid [OF assms(9)] last_change_key [OF assms(10)] by blast+
  then have "validateKey k = None" by (auto simp: validate_change_def split: option.splits)
  then show ?thesis using lost_write [OF wf assms(7-9) assms(3) p(1) new _ gone assms(10,11)] by (simp add: rotated_def)
qed

text \<open>
  C37. The retention floor holds. No prune removes a version of another config, the latest version, one of
  the newest \<open>MinVersions\<close> or one younger than \<open>MinDays\<close> days (of the instance floor, of the config's override and
  of the request alike), or a version that a pending promotion reads; whatever it keeps shows what it showed.
\<close>

theorem retention_floor_holds:
  assumes "store_wf db" "PruneVersions fl rdb commit c req now db = (out, db')" "w \<in> set (config_versions db)"
    and "cv_ConfigID w \<noteq> c \<or> newer db c (cv_Version w) = 0 \<or> cv_Version w \<in> pinned_versions db c \<or>
      (\<exists>n. (n = fl_MinVersions fl \<or> MinVersions (ret_Get rdb c) = Some n \<or> n = rq_KeepVersions req) \<and> int (newer db c (cv_Version w)) < n) \<or>
      (\<exists>d. (d = fl_MinDays fl \<or> MinDays (ret_Get rdb c) = Some d \<or> d = rq_KeepDays req) \<and> 0 < d \<and> now - d * day_ns \<le> cv_CreatedAt w)"
  shows "view db' (cv_ConfigID w) (cv_Version w) = view db (cv_ConfigID w) (cv_Version w)"
proof (rule PruneVersions_spec(4) [OF assms(1-3)], rule notI)
  let ?kv = "keep_versions fl rdb c req" and ?kd = "keep_days fl rdb c req"
  assume e: "expendable db c ?kv ?kd now w"
  have kv: "n \<le> ?kv" if "n = fl_MinVersions fl \<or> MinVersions (ret_Get rdb c) = Some n \<or> n = rq_KeepVersions req" for n
    using that keep_versions_ge by blast
  have kd: "d \<le> ?kd" if "d = fl_MinDays fl \<or> MinDays (ret_Get rdb c) = Some d \<or> d = rq_KeepDays req" for d
    using that keep_days_ge by blast
  have x: "?kv \<le> int (newer db c (cv_Version w))" "cv_ConfigID w = c" "cv_Version w \<notin> pinned_versions db c"
    and old: "0 < ?kd \<Longrightarrow> cv_CreatedAt w < now - ?kd * day_ns" using e by (simp_all add: expendable_def)
  from assms(4) x(2,3) consider (head) "newer db c (cv_Version w) = 0"
    | (count) n where "n \<le> ?kv" "int (newer db c (cv_Version w)) < n"
    | (age) d where "d \<le> ?kd" "0 < d" "now - d * day_ns \<le> cv_CreatedAt w"
    by (elim disjE exE conjE) (blast intro: kv kd keep_versions_ge keep_days_ge)+
  then show False
  proof cases
    case head
    then show False using x(1) keep_versions_ge(3) [of fl rdb c req] by simp
  next
    case count
    then show False using x(1) by simp
  next
    case age
    then have "d * day_ns \<le> ?kd * day_ns" by (simp add: day_ns_def)
    then show False using old age by linarith
  qed
qed

text \<open>
  C38. A reviewed rollback is a rollback. Saving the changes that \<^verbatim>\<open>RollbackChanges\<close> computes, as the approval of
  an edit request does, gives a version with exactly the keys, values and types of the target, the
  same as rolling back directly.
\<close>

theorem reviewed_rollback_is_rollback:
  assumes "store_wf db" "readable kr db" "typed db" "resolveProject db c = Inr (cfg, p)" "shown kr db c v = Some m"
    and "dom m \<subseteq> set o1" "dom (latest_shown kr db c) \<subseteq> set o2"
  shows "\<exists>changes. RollbackChanges kr db o1 o2 c v = Inr changes \<and>
    (\<forall>commit msg actor fresh cvID order r now cv r' db'. distinct order \<longrightarrow> set order = sc_Key ` set changes \<longrightarrow>
      SetSecrets kr db commit c changes msg actor fresh cvID order r now db = (Inr (cv, r'), db') \<longrightarrow>
      history (vault_of kr db') c (max_version db' c) = Some (content m)) \<and>
    (\<forall>commit msg actor cvID now cv db'. svc_Rollback commit c v msg actor cvID now db = (Inr cv, db') \<longrightarrow>
      history (vault_of kr db') c (max_version db' c) = Some (content m))"
proof -
  obtain changes where run: "RollbackChanges kr db o1 o2 c v = Inr changes"
    and b: "apply_batch changes (content (latest_shown kr db c)) = content m"
    using RollbackChanges_batch [OF assms(1,2,4-7,3)] by blast
  have 1: "history (vault_of kr db') c (max_version db' c) = Some (content m)"
    if "distinct order" "set order = sc_Key ` set changes" "SetSecrets kr db commit c changes msg actor fresh cvID order r now db = (Inr (cv, r'), db')"
    for commit msg actor fresh cvID order r now cv r' db'
    using SetSecrets_spec(4,5) [OF assms(1,2) key_on_file_refl that] assms(1) b by (auto simp: vault_of_def store_wf_def)
  have 2: "history (vault_of kr db') c (max_version db' c) = Some (content m)"
    if "svc_Rollback commit c v msg actor cvID now db = (Inr cv, db')" for commit msg actor cvID now cv db'
    using Rollback_shown(3,5) [OF assms(1,2) that] assms(5) by (simp add: vault_of_def)
  show ?thesis by (rule exI [of _ changes], intro conjI allI impI) (rule run, rule 1, assumption+, rule 2, assumption)
qed

lemma blob_survives:
  assumes "store_wf db" "EncryptConfigBlob kr db c pt r = Inr (blob, r')"
    and "er \<in> set (config_edit_requests db)" "er_ConfigID er = c" "er_Status er \<in> {''pending'', ''applying''}"
    and "er_DEKKeyVersion er = bl_DEKKeyVersion blob" "(key_step kr)\<^sup>*\<^sup>* db db'"
  shows "DecryptConfigBlob kr db' c blob = Inr pt"
proof -
  obtain cfg p kek dekCT dek where p: "resolveProject db c = Inr (cfg, p)" and k: "kek_at kr db p (bl_DEKKeyVersion blob) = Some kek"
    and d: "ParseCiphertext (bl_WrappedDEK blob) = Inr dekCT" "UnwrapKey kek dekCT (ConfigEditRequestAAD (p_ID p) (c_ID cfg)) = Inr dek"
      "Decrypt dek \<lparr>KeyVersion = 0, Nonce = bl_Nonce blob, Data = bl_Ciphertext blob\<rparr> (ConfigEditRequestAAD (p_ID p) (c_ID cfg)) = Inr pt"
    using EncryptConfigBlob_Inr [OF assms(2)] by blast
  have "pinned_key kr db c (bl_DEKKeyVersion blob) kek (p_ID p)" using assms(3-6) p k by (auto simp: pinned_key_def)
  from key_steps_pinned [OF assms(7,1) this] obtain cfg' p' where wf: "store_wf db'" and p': "resolveProject db' c = Inr (cfg', p')" "p_ID p' = p_ID p"
    "kek_at kr db' p' (bl_DEKKeyVersion blob) = Some kek" by (auto simp: pinned_key_def)
  have "c_ID cfg' = c_ID cfg" using resolveProject_Inr(1) [OF _ p] resolveProject_Inr(1) [OF _ p'(1)] assms(1) wf by (simp add: store_wf_def)
  then show ?thesis using DecryptConfigBlob_pinned [OF p'(1,3) d(1)] d(2,3) p'(2) by simp
qed

text \<open>
  A pending edit request stays readable. The blob of a request that is pending or being applied can be
  decrypted, to what was sealed, after any number of rotations and sweeps of any project: retiring
  superseded keys spares the ones that such requests were sealed under.
\<close>

theorem pending_request_readable:
  assumes "store_wf db" "EncryptConfigBlob kr db c pt r = Inr (blob, r')"
    and "er \<in> set (config_edit_requests db)" "er_ConfigID er = c" "er_Status er \<in> {''pending'', ''applying''}"
    and "er_DEKKeyVersion er = bl_DEKKeyVersion blob" "(key_step kr)\<^sup>*\<^sup>* db db'"
  shows "DecryptConfigBlob kr db' c blob = Inr pt"
  by (rule blob_survives [OF assms])

text \<open>
  C39. Only validated keys and known types are ever stored: whatever operations run, every value in the
  store has a key that passes the service's validation and one of the six types.
\<close>

theorem stored_values_typed:
  assumes "(svc_step kr)\<^sup>*\<^sup>* db db'" "store_wf db" "readable kr db" "well_typed db"
  shows "well_typed db'"
  using svc_steps_types [OF assms(1)] assms(2-4) by (simp add: vault_inv_def)


section \<open>Witnesses\<close>

text \<open>A small instance: an unsealed keyring, one project with a key, one environment, one config and no version yet.\<close>

definition demo_kr :: Keyring where
  "demo_kr = \<lparr>master = Some zero_key\<rparr>"

definition demo_kek :: bytes where
  "demo_kek = replicate 32 9"

definition demo_project :: Project where
  "demo_project = (hd (projects example_db))\<lparr>p_WrappedKEK :=
     (case WrapProjectKEK demo_kr demo_kek ''p'' (replicate 12 0) of Inr (ct, _) \<Rightarrow> Marshal ct | Inl _ \<Rightarrow> [])\<rparr>"

definition demo_db :: secret_db where
  "demo_db = example_db\<lparr>projects := [demo_project], config_versions := [], secret_values := [], config_version_entries := []\<rparr>"

definition demo_changes :: "SecretChange list" where
  "demo_changes = [\<lparr>sc_Key = ''K'', sc_Value = [1, 2, 3], sc_Delete = False, sc_Type = ''''\<rparr>]"

lemma demo_keyring: "\<not> Sealed demo_kr" "keyring_wf demo_kr"
  by (simp_all add: demo_kr_def Sealed_def keyring_wf_def sizes)

lemma demo_project_simps [simp]: "p_ID demo_project = ''p''" "p_KEKVersion demo_project = 1" "p_DeletedAt demo_project = None"
  by (simp_all add: demo_project_def example_db_def)

lemma demo_wrapped: "\<exists>ct r. WrapProjectKEK demo_kr demo_kek ''p'' (replicate 12 0) = Inr (ct, r) \<and> p_WrappedKEK demo_project = Marshal ct"
  using project_kek.wrap_succeeds [OF demo_keyring(2,1), of demo_kek "replicate 12 0" "''p''"]
  by (auto simp: demo_project_def key_sized_def demo_kek_def sizes)

lemma WrapProjectKEK_parse: "WrapProjectKEK kr kek i r = Inr (ct, r') \<Longrightarrow> ParseCiphertext (Marshal ct) = Inr ct"
  by (auto simp: WrapProjectKEK_def with_master_def WrapKey_def dest: ParseCiphertext_Encrypt split: option.splits if_splits)

lemma demo_key: "unwrapProjectKEK demo_kr demo_project = Inr demo_kek"
  using demo_wrapped WrapProjectKEK_parse project_kek.unwrap_wrap by (fastforce simp: unwrapProjectKEK_def)

lemma demo_db_wf: "store_wf demo_db"
  by (simp add: store_wf_def hierarchy_ok_def versions_ok_def values_ok_def manifest_ok_def keks_ok_def demo_db_def example_db_def)

lemma demo_db_readable: "readable demo_kr demo_db"
  by (simp add: readable_def demo_db_def)

lemma demo_resolve: "\<exists>cfg. resolveProject demo_db ''c'' = Inr (cfg, demo_project) \<and> c_ID cfg = ''c'' \<and> cfg_Get demo_db ''c'' = Inr cfg"
  by (simp add: resolveProject_def cfg_Get_def env_Get_def proj_Get_def one_row_def demo_db_def example_db_def live_config_def live_env_def
      live_project_def)

lemma demo_get: "proj_Get demo_db ''p'' = Inr demo_project"
  by (simp add: proj_Get_def one_row_def demo_db_def live_project_def)

lemma demo_valid: "first_error validate_change demo_changes = None"
  by (simp add: demo_changes_def validate_change_def validateKey_def validateType_def key_char_def)

lemma demo_save:
  assumes "cfg_Get db ''c'' = cfg_Get demo_db ''c''" "secret_values db = []" "config_versions db = []"
  shows "\<exists>cv r' db'. SetSecrets demo_kr demo_db None ''c'' demo_changes '''' '''' id ''v1'' [''K''] (replicate 56 0) 1 db = (Inr (cv, r'), db')"
proof -
  obtain cfg where c: "resolveProject demo_db ''c'' = Inr (cfg, demo_project)" "c_ID cfg = ''c''" "cfg_Get demo_db ''c'' = Inr cfg"
    using demo_resolve by blast
  show ?thesis
    by (rule SetSecrets_ok [OF demo_keyring(1) demo_valid c(1) demo_key])
      (use assms c in \<open>simp_all add: demo_changes_def gcm_limit_def\<close>)
qed

lemma demo_order: "distinct [''K'']" "set [''K''] = sc_Key ` set demo_changes"
  by (simp_all add: demo_changes_def)

lemma demo_latest: "latest_shown demo_kr demo_db ''c'' = Map.empty"
  by (simp add: latest_shown_def latest_state_def max_version_def versions_of_def view_def GetVersion_def one_row_def demo_db_def fun_eq_iff)

lemma demo_batch: "apply_batch demo_changes (content Map.empty) ''K'' = Some ([1, 2, 3], ''string'')"
  by (simp add: apply_batch_def last_change_def demo_changes_def normalizeType_def)

text \<open>The state after one save, and after a rotation.\<close>

lemma demo_saved:
  "\<exists>cv r' db1. SetSecrets demo_kr demo_db None ''c'' demo_changes '''' '''' id ''v1'' [''K''] (replicate 56 0) 1 demo_db = (Inr (cv, r'), db1) \<and>
    edit_step demo_kr demo_db db1 \<and> store_wf db1 \<and> readable demo_kr db1 \<and> max_version db1 ''c'' = 1 \<and> projects db1 = projects demo_db \<and>
    environments db1 = environments demo_db \<and> configs db1 = configs demo_db \<and> project_kek_versions db1 = [] \<and>
    (\<exists>s m. secret_values db1 = [s] \<and> sv_ConfigID s = ''c'' \<and> DEKKeyVersion (sv_Enc s) = 1 \<and> sv_Type s = ''string'' \<and>
       shown demo_kr db1 ''c'' 1 = Some m \<and> latest_shown demo_kr db1 ''c'' = m \<and> dom m \<subseteq> {''K''})"
proof -
  obtain cv r' db1 where run: "SetSecrets demo_kr demo_db None ''c'' demo_changes '''' '''' id ''v1'' [''K''] (replicate 56 0) 1 demo_db = (Inr (cv, r'), db1)"
    using demo_save [of demo_db] by (auto simp: demo_db_def)
  have onf: "key_on_file demo_db demo_db ''c''" using demo_db_wf by (simp add: key_on_file_refl store_wf_def)
  note sp = SetSecrets_spec [OF demo_db_wf demo_db_readable onf demo_order run]
  have mx: "max_version demo_db ''c'' = 0" by (simp add: max_version_def versions_of_def demo_db_def)
  obtain cfg p kek nw ptrs tombs where p: "resolveProject demo_db ''c'' = Inr (cfg, p)"
    and sv: "saved (net_change (map (store_change demo_kr kek p cfg) demo_changes)) id (c_ID cfg) 1 demo_db nw (latest_state db1 (c_ID cfg))"
    and db1: "db1 = with_version (demo_db\<lparr>secret_values := secret_values demo_db @ nw\<rparr>) cv ptrs tombs" and wf: "store_wf db1"
    using SetSecrets_frame [OF demo_db_wf demo_order run] by blast
  have p': "p = demo_project" "c_ID cfg = ''c''" using p demo_resolve by auto
  have nw: "sv_Key s = ''K'' \<and> DEKKeyVersion (sv_Enc s) = 1 \<and> sv_ConfigID s = ''c'' \<and> sv_Type s = ''string''" if s: "s \<in> set nw" for s
  proof -
    have w: "written (net_change (map (store_change demo_kr kek p cfg) demo_changes)) id ''c'' 1 demo_db s" using sv s p' by (simp add: saved_def)
    then obtain ch val r0 r1 where ch: "last_change demo_changes (sv_Key s) = Some ch"
      and e: "encrypt_value demo_kr kek p cfg ch (next_value_version demo_db ''c'' (sv_Key s)) r0 = Inr (val, r1)"
      and row: "s = value_row (sv_Key s) ''c'' (sv_Key s) (next_value_version demo_db ''c'' (sv_Key s)) (normalizeType (sc_Type ch)) val 1"
      by (auto simp: written_def net_change_store store_change_def split: if_splits)
    have "sv_Enc s = val" "sv_ConfigID s = ''c''" "sv_Type s = normalizeType (sc_Type ch)"
      by (subst row, simp add: value_row_def normalizeType_nonempty)+
    then show ?thesis using last_change_key [OF ch] encrypt_value_Inr(2) [OF e] p' by (auto simp: demo_changes_def normalizeType_def)
  qed
  have "last_change demo_changes ''K'' = Some (hd demo_changes)" by (simp add: last_change_def demo_changes_def)
  then have "sets (net_change (map (store_change demo_kr kek p cfg) demo_changes)) ''K''"
    unfolding sets_def net_change_store by (simp add: store_change_def) (simp add: demo_changes_def)
  then obtain s where "s \<in> set nw" using sv by (auto simp: saved_def)
  moreover have "distinct nw" using wf by (auto simp: store_wf_def values_ok_def db1 distinct_map)
  moreover have "x = y" if "x \<in> set nw" "y \<in> set nw" for x y
    using that sv nw unfolding saved_def by (metis option.inject)
  ultimately have one: "nw = [s]" by (metis distinct.simps(2) empty_iff insert_iff list.set(1) list.set(2) neq_Nil_conv)
  obtain m where m: "shown demo_kr db1 ''c'' 1 = Some m" "content m = apply_batch demo_changes (content (latest_shown demo_kr demo_db ''c''))"
    using sp(5) mx by auto
  have "content m k = None" if "k \<noteq> ''K''" for k
    using that by (simp add: m(2) demo_latest apply_batch_def last_change_def demo_changes_def content_def)
  then have "m k = None" if "k \<noteq> ''K''" for k using that by (simp add: content_def)
  then have "dom m \<subseteq> {''K''}" by force
  moreover have "max_version db1 ''c'' = 1" using sp(4) mx by simp
  moreover have "latest_shown demo_kr db1 ''c'' = m" using latest_shown_max [OF wf, of "''c''" demo_kr] \<open>max_version db1 ''c'' = 1\<close> m(1) by simp
  moreover have "secret_values db1 = [s]" by (simp add: db1 one demo_db_def)
  ultimately show ?thesis using run wf sp(2) m(1) nw [of s] one edit_op.set_secrets [OF onf demo_order run]
    by (auto simp: db1 demo_db_def example_db_def edit_step_def)
qed

lemma demo_rotate:
  assumes "projects db = projects demo_db" "project_kek_versions db = []"
  shows "\<exists>w db'. Rotate demo_kr None ''p'' (replicate 44 7) 5 db = (Inr (2, []), db') \<and> rotation ''p'' w 5 demo_project db db' \<and>
    kek_at demo_kr db' (rotated ''p'' w 2 5 demo_project) 2 \<noteq> None"
proof -
  have g: "GenerateKey (replicate 44 7) = Inr (replicate 32 7, replicate 12 7)"
    by (simp add: GenerateKey_Inr sizes)
  obtain ct where ct: "WrapProjectKEK demo_kr (replicate 32 7) ''p'' (replicate 12 7) = Inr (ct, [])"
    using project_kek.wrap_succeeds [OF demo_keyring(2,1), of "replicate 32 7" "replicate 12 7" "''p''"] by (auto simp: key_sized_def sizes)
  then have w: "wrap_new_kek demo_kr ''p'' 1 (replicate 44 7) = Inr (Marshal ct, [])" by (simp add: wrap_new_kek_def g)
  have p: "proj_Get db ''p'' = Inr demo_project" using demo_get assms(1) by (simp add: proj_Get_def)
  have ps: "projects db = [demo_project]" using assms(1) by (simp add: demo_db_def)
  let ?db' = "db\<lparr>projects := map (rotated ''p'' (Marshal ct) 2 5) (projects db),
    project_kek_versions := [\<lparr>kv_ProjectID = ''p'', kv_Version = 1, kv_Wrapped = p_WrappedKEK demo_project\<rparr>]\<rparr>"
  have "Rotate demo_kr None ''p'' (replicate 44 7) 5 db = (Inr (2, []), ?db')"
    using p w assms(2) by (simp add: Rotate_def RotateKEK_def withTx_def rotate_tx_def kek_insert_def update_rows_def Let_def ps rotated_def)
  moreover have "rotation ''p'' (Marshal ct) 5 demo_project db ?db'" using p assms(2) by (simp add: rotation_def)
  moreover have "kek_at demo_kr ?db' (rotated ''p'' (Marshal ct) 2 5 demo_project) 2 \<noteq> None"
    using WrapProjectKEK_parse [OF ct] project_kek.unwrap_wrap [OF ct] by (simp add: kek_at_def wrapped_at_def rotated_def unwrap_blob_def)
  ultimately show ?thesis by blast
qed


lemma GetSecret_key: "GetSecret kr db c k = Inr se \<Longrightarrow> se_Key se = k"
  by (auto simp: GetSecret_def bind_err_Inr split: option.split_asm)

text \<open>A save that crosses a rotation: the key it has read is superseded but still on file.\<close>

lemma demo_window:
  "\<exists>db1 cfg p cv r' db2. Rotate demo_kr None ''p'' (replicate 44 7) 5 demo_db = (Inr (2, []), db1) \<and> store_wf db1 \<and> readable demo_kr db1 \<and>
    key_on_file demo_db db1 ''c'' \<and> resolveProject db1 ''c'' = Inr (cfg, p) \<and> latest_shown demo_kr db1 ''c'' = Map.empty \<and>
    SetSecrets demo_kr demo_db None ''c'' demo_changes '''' '''' id ''v1'' [''K''] (replicate 56 0) 1 db1 = (Inr (cv, r'), db2)"
proof -
  obtain w db1 where r: "Rotate demo_kr None ''p'' (replicate 44 7) 5 demo_db = (Inr (2, []), db1)" "rotation ''p'' w 5 demo_project demo_db db1"
    using demo_rotate [of demo_db] by (auto simp: demo_db_def example_db_def)
  let ?p = "rotated ''p'' w 2 5 demo_project"
  obtain cfg where c: "resolveProject demo_db ''c'' = Inr (cfg, demo_project)" using demo_resolve by blast
  have p: "resolveProject db1 ''c'' = Inr (cfg, ?p)" using rotation_resolve [OF r(2) c] by simp
  have k: "keeps_secrets demo_kr demo_db db1" by (rule Rotate_keeps [OF demo_db_wf demo_db_readable r(1)])
  then have wf: "store_wf db1" "readable demo_kr db1" by (simp_all add: keeps_secrets_def)
  have po: "project_of db1 ''c'' = Some ?p" using resolveProject_Inr(2) [OF _ p] wf(1) by (simp add: store_wf_def)
  have "project_kek_versions db1 = [\<lparr>kv_ProjectID = ''p'', kv_Version = 1, kv_Wrapped = p_WrappedKEK demo_project\<rparr>]"
    using r(2) by (simp add: rotation_def demo_db_def example_db_def)
  then have "key_on_file demo_db db1 ''c''" using c po by (simp add: key_on_file_def wrapped_at_def GetWrapped_def one_row_def rotated_def)
  moreover have same: "secret_values db1 = []" "configs db1 = configs demo_db" "config_versions db1 = []"
    using rotation_same [OF r(2)] by (simp_all add: demo_db_def)
  moreover have "cfg_Get db1 ''c'' = cfg_Get demo_db ''c''" using same(2) by (simp add: cfg_Get_def)
  moreover have "latest_shown demo_kr db1 ''c'' = Map.empty"
    using same(3) by (simp add: latest_shown_def latest_state_def view_def GetVersion_def one_row_def fun_eq_iff)
  ultimately show ?thesis using demo_save r(1) p wf by blast
qed

theorem read_after_write_witness:
  "\<exists>db1 cv r' db2 n. Rotate demo_kr None ''p'' (replicate 44 7) 5 demo_db = (Inr (2, []), db1) \<and>
    SetSecrets demo_kr demo_db None ''c'' demo_changes '''' '''' id ''v1'' [''K''] (replicate 56 0) 1 db1 = (Inr (cv, r'), db2) \<and>
    GetSecret demo_kr db2 ''c'' ''K'' = Inr \<lparr>se_Key = ''K'', se_Value = [1, 2, 3], se_ValueVersion = n, se_Type = ''string''\<rparr>"
proof -
  obtain db1 cfg p cv r' db2 where d: "Rotate demo_kr None ''p'' (replicate 44 7) 5 demo_db = (Inr (2, []), db1)" "store_wf db1" "readable demo_kr db1"
    "key_on_file demo_db db1 ''c''" "resolveProject db1 ''c'' = Inr (cfg, p)" "latest_shown demo_kr db1 ''c'' = Map.empty"
    "SetSecrets demo_kr demo_db None ''c'' demo_changes '''' '''' id ''v1'' [''K''] (replicate 56 0) 1 db1 = (Inr (cv, r'), db2)"
    using demo_window by blast
  from read_after_write [OF d(2-5) demo_order d(7) rtranclp.rtrancl_refl] obtain m
    where m: "content m = apply_batch demo_changes (content Map.empty)"
      and g: "validateKey k = None \<Longrightarrow> GetSecret demo_kr db2 ''c'' k = (case m k of None \<Rightarrow> Inl SvcErrNotFound | Some se \<Rightarrow> Inr se)" for k
    unfolding d(6) by blast
  have "validateKey ''K'' = None" by (simp add: validateKey_def key_char_def)
  note g = g [OF this]
  obtain se where se: "m ''K'' = Some se" "se_Value se = [1, 2, 3]" "se_Type se = ''string''"
    using fun_cong [OF m, of "''K''"] by (auto simp: demo_batch content_def)
  have "GetSecret demo_kr db2 ''c'' ''K'' = Inr se" using g se(1) by simp
  moreover have "se = \<lparr>se_Key = ''K'', se_Value = [1, 2, 3], se_ValueVersion = se_ValueVersion se, se_Type = ''string''\<rparr>"
    using se(2,3) GetSecret_key [OF calculation] by (cases se) simp
  ultimately show ?thesis using d(1,7) by metis
qed

theorem store_refines_vault_witness:
  "\<exists>db'. svc_run demo_kr [Quiet, Saved ''c'' demo_changes] demo_db db' \<and> store_wf db' \<and> readable demo_kr db' \<and>
    replay [Quiet, Saved ''c'' demo_changes] (vault_of demo_kr demo_db) = Some (vault_of demo_kr db') \<and>
    history (vault_of demo_kr db') ''c'' 1 = Some [''K'' \<mapsto> ([1, 2, 3], ''string'')]"
proof -
  obtain db1 cfg p cv r' db2 where d: "Rotate demo_kr None ''p'' (replicate 44 7) 5 demo_db = (Inr (2, []), db1)" "key_on_file demo_db db1 ''c''"
    "SetSecrets demo_kr demo_db None ''c'' demo_changes '''' '''' id ''v1'' [''K''] (replicate 56 0) 1 db1 = (Inr (cv, r'), db2)"
    using demo_window by blast
  have "svc_op demo_kr Quiet demo_db db1" using edit_op.keys [OF key_step.rotate [OF d(1)]] by (simp add: svc_op_def)
  moreover have "svc_op demo_kr (Saved ''c'' demo_changes) db1 db2"
    using edit_op.set_secrets [OF d(2) demo_order d(3)] by (simp add: svc_op_def reported_def)
  ultimately have run: "svc_run demo_kr [Quiet, Saved ''c'' demo_changes] demo_db db2" by (blast intro: svc_run.intros)
  note res = store_refines_vault [OF run demo_db_wf demo_db_readable]
  have "head_of (vault_of demo_kr demo_db) ''c'' = 0" by (simp add: vault_of_def max_version_def versions_of_def demo_db_def)
  then have "vault_of demo_kr db2 = push ''c'' (apply_batch demo_changes Map.empty) (vault_of demo_kr demo_db)"
    using res current_vault [OF demo_db_wf, of demo_kr "''c''"] by (simp add: demo_latest content_def [abs_def])
  moreover have "apply_batch demo_changes Map.empty = [''K'' \<mapsto> ([1, 2, 3], ''string'')]"
    by (auto simp: fun_eq_iff apply_batch_def last_change_def demo_changes_def normalizeType_def)
  ultimately have "history (vault_of demo_kr db2) ''c'' 1 = Some [''K'' \<mapsto> ([1, 2, 3], ''string'')]"
    using \<open>head_of (vault_of demo_kr demo_db) ''c'' = 0\<close> by (simp add: push_def)
  then show ?thesis using run res by blast
qed

theorem history_append_only_witness:
  "\<exists>db1 db2. (edit_step demo_kr)\<^sup>*\<^sup>* db1 db2 \<and> max_version db1 ''c'' = 1 \<and> projects db2 \<noteq> projects db1 \<and>
    (history (vault_of demo_kr db2) ''c'' 1 = history (vault_of demo_kr db1) ''c'' 1 \<or> history (vault_of demo_kr db2) ''c'' 1 = None)"
proof -
  obtain db1 where s: "store_wf db1" "readable demo_kr db1" "max_version db1 ''c'' = 1" "projects db1 = projects demo_db" "project_kek_versions db1 = []"
    using demo_saved by blast
  obtain w db2 where r: "Rotate demo_kr None ''p'' (replicate 44 7) 5 db1 = (Inr (2, []), db2)" "rotation ''p'' w 5 demo_project db1 db2"
    using demo_rotate [OF s(4,5)] by blast
  then have st: "(edit_step demo_kr)\<^sup>*\<^sup>* db1 db2" using edit_op.keys [OF key_step.rotate [OF r(1)]] by (intro r_into_rtranclp) (auto simp: edit_step_def)
  have "p_KEKVersion (hd (projects db2)) = 2" "p_KEKVersion (hd (projects db1)) = 1"
    using r(2) s(4) by (simp_all add: rotation_def demo_db_def rotated_def)
  then have "projects db2 \<noteq> projects db1" by auto
  moreover have "1 \<le> max_version db1 ''c''" using s(3) by simp
  ultimately show ?thesis using history_append_only [OF st s(1,2)] st s(3) by blast
qed

theorem rewrap_completes_witness:
  "\<exists>db2 r retired db3. pending_rows db2 ''p'' 2 \<noteq> [] \<and> Rewrap demo_kr (\<lambda>_. None) ''p'' r db2 = ((None, \<lparr>Rewrapped = 1, Retired = retired\<rparr>), db3) \<and>
    pending_rows db3 ''p'' 2 = [] \<and> (\<forall>c v. shown demo_kr db3 c v = shown demo_kr db2 c v)"
proof -
  obtain db1 s where s: "store_wf db1" "readable demo_kr db1" "projects db1 = projects demo_db" "project_kek_versions db1 = []"
    "environments db1 = environments demo_db" "configs db1 = configs demo_db" "secret_values db1 = [s]" "sv_ConfigID s = ''c''" "DEKKeyVersion (sv_Enc s) = 1"
    using demo_saved by blast
  obtain w db2 where r: "Rotate demo_kr None ''p'' (replicate 44 7) 5 db1 = (Inr (2, []), db2)" "rotation ''p'' w 5 demo_project db1 db2"
    and k: "kek_at demo_kr db2 (rotated ''p'' w 2 5 demo_project) 2 \<noteq> None" using demo_rotate [OF s(3,4)] by blast
  have wf: "store_wf db2" "readable demo_kr db2" using Rotate_keeps [OF s(1,2) r(1)] by (simp_all add: keeps_secrets_def)
  let ?p = "rotated ''p'' w 2 5 demo_project"
  have p: "proj_Get db2 ''p'' = Inr ?p" "p_KEKVersion ?p = 2"
    using r(2) s(3) by (simp_all add: rotation_def proj_Get_def one_row_def demo_db_def rotated_def live_project_def)
  have same: "secret_values db2 = [s]" "configs db2 = configs demo_db" "environments db2 = environments demo_db"
    using rotation_same [OF r(2)] s by simp_all
  have pend: "pending_rows db2 ''p'' 2 = [s]"
    using s(8,9) by (simp add: pending_rows_def in_project_def same demo_db_def example_db_def)
  obtain kek where kek: "kek_at demo_kr db2 ?p (p_KEKVersion ?p) = Some kek" using k p(2) by auto
  have "12 * length (pending_rows db2 ''p'' (p_KEKVersion ?p)) \<le> length (replicate 12 (0::byte))" by (simp add: p(2) pend)
  from rewrap_completes [OF wf p(1) kek this] obtain retired db3
    where "Rewrap demo_kr (\<lambda>_. None) ''p'' (replicate 12 0) db2 = ((None, \<lparr>Rewrapped = 1, Retired = retired\<rparr>), db3)"
      "pending_rows db3 ''p'' 2 = []" "\<forall>c v. shown demo_kr db3 c v = shown demo_kr db2 c v"
    unfolding p(2) pend by auto
  moreover have "pending_rows db2 ''p'' 2 \<noteq> []" by (simp add: pend)
  ultimately show ?thesis by blast
qed

theorem read_survives_rotation_witness:
  "\<exists>db1 db2 s pt res. Rotate demo_kr None ''p'' (replicate 44 7) 5 db1 = (Inr (2, []), db2) \<and>
    decryptValue demo_kr db2 db2 db2 db2 demo_project ''c'' s (newKEKResolver demo_project) = Inr (pt, res)"
proof -
  obtain db1 s where s: "store_wf db1" "readable demo_kr db1" "projects db1 = projects demo_db" "project_kek_versions db1 = []"
    "environments db1 = environments demo_db" "configs db1 = configs demo_db" "secret_values db1 = [s]" "sv_ConfigID s = ''c''" "DEKKeyVersion (sv_Enc s) = 1"
    using demo_saved by blast
  obtain cfg where p: "resolveProject db1 ''c'' = Inr (cfg, demo_project)" using demo_resolve resolveProject_cong [OF s(3,5,6)] by auto
  obtain pt where pt: "plain demo_kr db1 s = Some pt" using s(2,7) by (auto simp: readable_def)
  obtain w db2 where r: "Rotate demo_kr None ''p'' (replicate 44 7) 5 db1 = (Inr (2, []), db2)" using demo_rotate [OF s(3,4)] by blast
  have st: "(key_step demo_kr)\<^sup>*\<^sup>* db1 db2" using key_step.rotate [OF r] by (rule r_into_rtranclp)
  have "s \<in> set (secret_values db1)" "DEKKeyVersion (sv_Enc s) \<le> p_KEKVersion demo_project" using s(7,9) by simp_all
  from read_survives_rotation [OF s(1,2) p this(1) s(8) this(2) pt st rtranclp.rtrancl_refl] r show ?thesis by blast
qed


lemma Rewrap_no_values:
  assumes "secret_values db = []" "proj_Get db i = Inr p" "loadKEK kr db p (p_KEKVersion p) Map.empty = Inr (k, cache)"
  shows "Rewrap kr (\<lambda>_. None) i r db = ((None, \<lparr>Rewrapped = 0, Retired = fst (DeleteEmpty i db)\<rparr>), snd (DeleteEmpty i db))"
proof -
  have "rewrap_loop kr p k (\<lambda>_. None) 0 '''' 0 (cache, r) db = (0, None, db)"
    using assms(1) by (simp add: rewrap_loop.simps RewrapBatch_def withTx_def rewrap_select_def batch_limit_def rewrapBatchSize_def)
  then show ?thesis using assms(2,3) by (simp add: Rewrap_def split: prod.split)
qed

theorem late_write_is_lost_witness:
  "\<exists>db1 db res cv r' db'. Rotate demo_kr None ''p'' (replicate 44 7) 5 demo_db = (Inr (2, []), db1) \<and>
    Rewrap demo_kr (\<lambda>_. None) ''p'' [] db1 = ((None, res), db) \<and>
    SetSecrets demo_kr demo_db None ''c'' demo_changes '''' '''' id ''v1'' [''K''] (replicate 56 0) 1 db = (Inr (cv, r'), db') \<and>
    GetSecret demo_kr db' ''c'' ''K'' = Inl SvcErrDecrypt"
proof -
  obtain w db1 where r: "Rotate demo_kr None ''p'' (replicate 44 7) 5 demo_db = (Inr (2, []), db1)" "rotation ''p'' w 5 demo_project demo_db db1"
    and k: "kek_at demo_kr db1 (rotated ''p'' w 2 5 demo_project) 2 \<noteq> None"
    using demo_rotate [of demo_db] by (auto simp: demo_db_def example_db_def)
  let ?p = "rotated ''p'' w 2 5 demo_project"
  have p: "proj_Get db1 ''p'' = Inr ?p" "p_KEKVersion ?p = 2"
    using r(2) by (simp_all add: rotation_def proj_Get_def one_row_def demo_db_def rotated_def live_project_def)
  obtain kek where "kek_at demo_kr db1 ?p (p_KEKVersion ?p) = Some kek" using k p(2) by auto
  from loadKEK_ok [OF _ this, of Map.empty] obtain cache where l: "loadKEK demo_kr db1 ?p (p_KEKVersion ?p) Map.empty = Inr (kek, cache)"
    by (auto simp: cache_ok_def)
  let ?db = "snd (DeleteEmpty ''p'' db1)"
  have same: "secret_values db1 = []" "configs db1 = configs demo_db" "config_versions db1 = []" "config_edit_requests db1 = []"
    using rotation_same [OF r(2)] by (simp_all add: demo_db_def example_db_def)
  have rw: "Rewrap demo_kr (\<lambda>_. None) ''p'' [] db1 = ((None, \<lparr>Rewrapped = 0, Retired = fst (DeleteEmpty ''p'' db1)\<rparr>), ?db)"
    by (rule Rewrap_no_values [OF same(1) p(1) l])
  have "project_kek_versions db1 = [\<lparr>kv_ProjectID = ''p'', kv_Version = 1, kv_Wrapped = p_WrappedKEK demo_project\<rparr>]"
    using r(2) by (simp add: rotation_def demo_db_def example_db_def)
  then have ret: "p_KEKVersion demo_project \<in> set (Retired \<lparr>Rewrapped = 0, Retired = fst (DeleteEmpty ''p'' db1)\<rparr>)"
    by (simp add: DeleteEmpty_def retirable_def dek_refs_def edit_refs_def same)
  have "cfg_Get ?db ''c'' = cfg_Get demo_db ''c''" "secret_values ?db = []" "config_versions ?db = []"
    using same by (simp_all add: DeleteEmpty_def cfg_Get_def)
  from demo_save [OF this] obtain cv r' db' where set: "SetSecrets demo_kr demo_db None ''c'' demo_changes '''' '''' id ''v1'' [''K''] (replicate 56 0) 1 ?db = (Inr (cv, r'), db')"
    by blast
  obtain cfg where c: "resolveProject demo_db ''c'' = Inr (cfg, demo_project)" using demo_resolve by blast
  have lc: "last_change demo_changes ''K'' = Some (hd demo_changes)" "\<not> sc_Delete (hd demo_changes)" by (simp_all add: last_change_def demo_changes_def)
  have "GetSecret demo_kr db' ''c'' ''K'' = Inl SvcErrDecrypt"
    by (rule late_write_is_lost [OF demo_db_wf demo_db_readable c _ _ ret demo_order set lc]) (use r(1) rw in simp_all)
  then show ?thesis using r(1) rw set by blast
qed

theorem retention_floor_holds_witness:
  "\<exists>out db'. PruneVersions \<lparr>fl_MinVersions = 2, fl_MinDays = 0\<rparr> example_db None ''c'' \<lparr>rq_KeepVersions = 1, rq_KeepDays = 0, rq_DryRun = False\<rparr> 3 example_db = (out, db') \<and>
    view db' ''c'' 1 = view example_db ''c'' 1"
proof -
  obtain out db' where run: "PruneVersions \<lparr>fl_MinVersions = 2, fl_MinDays = 0\<rparr> example_db None ''c''
    \<lparr>rq_KeepVersions = 1, rq_KeepDays = 0, rq_DryRun = False\<rparr> 3 example_db = (out, db')" by fastforce
  let ?w = "version_row ''v1'' ''c'' 1 '''' '''' 1"
  have w: "?w \<in> set (config_versions example_db)" by (simp add: example_db_def)
  have "int (newer example_db ''c'' (cv_Version ?w)) < 2" by (simp add: newer_def versions_of_def example_db_def version_row_def)
  then have "view db' (cv_ConfigID ?w) (cv_Version ?w) = view example_db (cv_ConfigID ?w) (cv_Version ?w)"
    by (intro retention_floor_holds [OF example_db_wf run w, OF disjI2 [OF disjI2 [OF disjI2 [OF disjI1]]]] exI [of _ 2]) simp
  then show ?thesis using run by (simp add: version_row_def)
qed

theorem reviewed_rollback_is_rollback_witness:
  "\<exists>db changes. RollbackChanges demo_kr db [''K''] [''K''] ''c'' 1 = Inr changes \<and> max_version db ''c'' = 1"
proof -
  obtain db1 s m where s: "store_wf db1" "readable demo_kr db1" "max_version db1 ''c'' = 1" "projects db1 = projects demo_db"
    "environments db1 = environments demo_db" "configs db1 = configs demo_db" "secret_values db1 = [s]" "sv_Type s = ''string''"
    "shown demo_kr db1 ''c'' 1 = Some m" "latest_shown demo_kr db1 ''c'' = m" "dom m \<subseteq> {''K''}"
    using demo_saved by blast
  have ty: "typed db1" using s(7,8) by (simp add: typed_def)
  obtain cfg where p: "resolveProject db1 ''c'' = Inr (cfg, demo_project)" using demo_resolve resolveProject_cong [OF s(4-6)] by auto
  have "dom m \<subseteq> set [''K'']" "dom (latest_shown demo_kr db1 ''c'') \<subseteq> set [''K'']" using s(10,11) by simp_all
  from reviewed_rollback_is_rollback [OF s(1,2) ty p s(9) this]
  obtain changes where "RollbackChanges demo_kr db1 [''K''] [''K''] ''c'' 1 = Inr changes" by (elim exE conjE)
  then show ?thesis using s(3) by (intro exI conjI)
qed

theorem pending_request_readable_witness:
  "\<exists>db blob r' db'. EncryptConfigBlob demo_kr db ''c'' [42] (replicate 56 0) = Inr (blob, r') \<and>
    Rotate demo_kr None ''p'' (replicate 44 7) 5 db = (Inr (2, []), db') \<and> DecryptConfigBlob demo_kr db' ''c'' blob = Inr [42]"
proof -
  let ?er = "\<lparr>er_ID = ''r'', er_ConfigID = ''c'', er_RequestedBy = ''alice'', er_Reason = '''', er_Status = ''pending'',
    er_ProposedCiphertext = [], er_WrappedDEK = [], er_Nonce = [], er_DEKKeyVersion = 1, er_ChangedKeys = [], er_Message = '''',
    er_ResolvedBy = None, er_ResolvedAt = None, er_AppliedVersion = None, er_CreatedAt = 0\<rparr>"
  let ?db = "demo_db\<lparr>config_edit_requests := [?er]\<rparr>"
  have wf: "store_wf ?db"
    by (simp add: store_wf_def hierarchy_ok_def versions_ok_def values_ok_def manifest_ok_def keks_ok_def demo_db_def example_db_def)
  obtain cfg where c: "resolveProject ?db ''c'' = Inr (cfg, demo_project)" using demo_resolve resolveProject_cong [of ?db demo_db] by auto
  obtain blob r' where e: "EncryptConfigBlob demo_kr ?db ''c'' [42] (replicate 56 0) = Inr (blob, r')" "bl_DEKKeyVersion blob = 1"
    using EncryptConfigBlob_ok [OF demo_keyring(1) c demo_key, of "[42]" "replicate 56 0"] by (auto simp: gcm_limit_def)
  obtain w db' where r: "Rotate demo_kr None ''p'' (replicate 44 7) 5 ?db = (Inr (2, []), db')"
    using demo_rotate [of ?db] by (auto simp: demo_db_def example_db_def)
  have st: "(key_step demo_kr)\<^sup>*\<^sup>* ?db db'" using key_step.rotate [OF r] by (rule r_into_rtranclp)
  have "DecryptConfigBlob demo_kr db' ''c'' blob = Inr [42]"
    by (rule pending_request_readable [OF wf e(1) _ _ _ _ st, of ?er]) (simp_all add: e(2))
  then show ?thesis using e(1) r by blast
qed

theorem stored_values_typed_witness:
  "\<exists>db'. (svc_step demo_kr)\<^sup>*\<^sup>* demo_db db' \<and> secret_values db' \<noteq> [] \<and> well_typed db'"
proof -
  obtain db1 s where s: "edit_step demo_kr demo_db db1" "secret_values db1 = [s]" using demo_saved by blast
  then have st: "(svc_step demo_kr)\<^sup>*\<^sup>* demo_db db1" by (simp add: svc_step_def r_into_rtranclp)
  have "well_typed demo_db" by (simp add: well_typed_def demo_db_def)
  from stored_values_typed [OF st demo_db_wf demo_db_readable this] st s(2) show ?thesis by auto
qed

end
