(* ===== verification/Json_Codec.thy ===== *)
theory Json_Codec
  imports Prelude
begin

section \<open>JSON as Go's encoding/json reads and writes it\<close>

text \<open>
  What the program uses of \<^verbatim>\<open>encoding/json\<close>: the compact output of \<^verbatim>\<open>json.Marshal\<close>, with its escaping of HTML characters
  and its replacement of bytes that are not UTF-8, and the syntax \<^verbatim>\<open>json.Unmarshal\<close> accepts. The input is split into
  tokens; a machine with an explicit stack, like the scanner's \<^verbatim>\<open>parseState\<close>, reads the value from them and refuses
  a nesting deeper than 10000.
\<close>

subsection \<open>UTF-8\<close>

abbreviation code :: "char \<Rightarrow> nat" where
  "code c \<equiv> of_char c"

definition byte_in :: "nat \<Rightarrow> nat \<Rightarrow> string \<Rightarrow> nat \<Rightarrow> bool" where
  "byte_in lo hi s i \<longleftrightarrow> i < length s \<and> lo \<le> code (s ! i) \<and> code (s ! i) \<le> hi"

text \<open>
  The number of bytes of the first rune of a text, 0 when they are not the encoding of one
  (\<^verbatim>\<open>utf8.DecodeRuneInString\<close> with \<^verbatim>\<open>RuneError\<close> of width 1).
\<close>

definition rune_len :: "string \<Rightarrow> nat" where
  "rune_len s = (case s of [] \<Rightarrow> 0 | c # _ \<Rightarrow>
     let n = code c; tail = byte_in 0x80 0xBF s in
     if n < 0x80 then 1
     else if 0xC2 \<le> n \<and> n \<le> 0xDF then (if tail 1 then 2 else 0)
     else if 0xE0 \<le> n \<and> n \<le> 0xEF then
       (if byte_in (if n = 0xE0 then 0xA0 else 0x80) (if n = 0xED then 0x9F else 0xBF) s 1 \<and> tail 2 then 3 else 0)
     else if 0xF0 \<le> n \<and> n \<le> 0xF4 then
       (if byte_in (if n = 0xF0 then 0x90 else 0x80) (if n = 0xF4 then 0x8F else 0xBF) s 1 \<and> tail 2 \<and> tail 3 then 4 else 0)
     else 0)"

text \<open>\<^verbatim>\<open>utf8.AppendRune\<close>.\<close>

definition encode_rune :: "nat \<Rightarrow> string" where
  "encode_rune n =
    (if n < 0x80 then [char_of n]
     else if n < 0x800 then [char_of (0xC0 + n div 64), char_of (0x80 + n mod 64)]
     else if n < 0x10000 then [char_of (0xE0 + n div 4096), char_of (0x80 + n div 64 mod 64), char_of (0x80 + n mod 64)]
     else [char_of (0xF0 + n div 262144), char_of (0x80 + n div 4096 mod 64), char_of (0x80 + n div 64 mod 64), char_of (0x80 + n mod 64)])"

definition replacement :: string where
  "replacement = [CHR 0xEF, CHR 0xBF, CHR 0xBD]"

text \<open>The text with U+FFFD for every byte that is not part of a rune.\<close>

fun to_valid :: "string \<Rightarrow> string" where
  "to_valid [] = []"
| "to_valid (c # s) =
    (let n = rune_len (c # s) in
     if n = 0 then replacement @ to_valid s else take n (c # s) @ to_valid (drop (n - 1) s))"

definition valid_utf8 :: "string \<Rightarrow> bool" where
  "valid_utf8 s \<longleftrightarrow> to_valid s = s"

subsection \<open>Strings\<close>

definition hex_digit :: "nat \<Rightarrow> char" where
  "hex_digit n = ''0123456789abcdef'' ! n"

definition backslash :: char where
  "backslash = CHR 0x5C"

definition quotation :: char where
  "quotation = CHR 0x22"

text \<open>The escapes of \<^verbatim>\<open>appendString\<close> for ASCII, with the HTML characters escaped.\<close>

definition escape :: "char \<Rightarrow> string" where
  "escape c =
    (if c = quotation \<or> c = backslash then [backslash, c]
     else if c = CHR 0x08 then [backslash, CHR ''b'']
     else if c = CHR 0x0C then [backslash, CHR ''f'']
     else if c = CHR 0x0A then [backslash, CHR ''n'']
     else if c = CHR 0x0D then [backslash, CHR ''r'']
     else if c = CHR 0x09 then [backslash, CHR ''t'']
     else if code c < 0x20 \<or> c = CHR ''<'' \<or> c = CHR ''>'' \<or> c = CHR ''&''
       then [backslash, CHR ''u'', CHR ''0'', CHR ''0'', hex_digit (code c div 16), hex_digit (code c mod 16)]
     else [c])"

definition is_separator :: "string \<Rightarrow> bool" where
  "is_separator s \<longleftrightarrow> take 3 s = [CHR 0xE2, CHR 0x80, CHR 0xA8] \<or> take 3 s = [CHR 0xE2, CHR 0x80, CHR 0xA9]"

fun quote_body :: "string \<Rightarrow> string" where
  "quote_body [] = []"
| "quote_body (c # s) =
    (if code c < 0x80 then escape c @ quote_body s
     else let n = rune_len (c # s) in
       if n = 0 then backslash # ''ufffd'' @ quote_body s
       else if is_separator (c # s) then backslash # ''u202'' @ [hex_digit (code (s ! 1) mod 16)] @ quote_body (drop 2 s)
       else take n (c # s) @ quote_body (drop (n - 1) s))"

definition quote :: "string \<Rightarrow> string" where
  "quote s = quotation # quote_body s @ [quotation]"

text \<open>The inside of a string literal up to its closing quotation mark: the text it denotes, and what follows.\<close>

definition hex_value :: "char \<Rightarrow> nat option" where
  "hex_value c =
    (let n = code c in
     if 0x30 \<le> n \<and> n \<le> 0x39 then Some (n - 0x30)
     else if 0x61 \<le> n \<and> n \<le> 0x66 then Some (n - 0x61 + 10)
     else if 0x41 \<le> n \<and> n \<le> 0x46 then Some (n - 0x41 + 10)
     else None)"

definition hex4 :: "string \<Rightarrow> nat option" where
  "hex4 s = (case s of a # b # c # d # _ \<Rightarrow>
      (case (hex_value a, hex_value b, hex_value c, hex_value d) of
         (Some h, Some i, Some j, Some k) \<Rightarrow> Some (((h * 16 + i) * 16 + j) * 16 + k)
       | _ \<Rightarrow> None)
    | _ \<Rightarrow> None)"

definition unescape :: "char \<Rightarrow> char option" where
  "unescape c =
    (if c = quotation \<or> c = backslash \<or> c = CHR ''/'' then Some c
     else if c = CHR ''b'' then Some CHR 0x08
     else if c = CHR ''f'' then Some CHR 0x0C
     else if c = CHR ''n'' then Some CHR 0x0A
     else if c = CHR ''r'' then Some CHR 0x0D
     else if c = CHR ''t'' then Some CHR 0x09
     else None)"

text \<open>The second half of a surrogate pair: the rune of the pair, when one follows.\<close>

definition low_surrogate :: "nat \<Rightarrow> string \<Rightarrow> nat option" where
  "low_surrogate hi s =
    (case s of b # u # s' \<Rightarrow>
      if b = backslash \<and> u = CHR ''u'' \<and> hi < 0xDC00 then
        (case hex4 s' of
           Some lo \<Rightarrow> if 0xDC00 \<le> lo \<and> lo < 0xE000 then Some (0x10000 + (hi - 0xD800) * 0x400 + (lo - 0xDC00)) else None
         | None \<Rightarrow> None)
      else None
    | _ \<Rightarrow> None)"

definition push_text :: "string \<Rightarrow> (string \<times> string) option \<Rightarrow> (string \<times> string) option" where
  "push_text t m = map_option (\<lambda>(x, r). (t @ x, r)) m"

fun str_body :: "string \<Rightarrow> (string \<times> string) option" where
  "str_body [] = None"
| "str_body (c # s) =
    (if c = quotation then Some ([], s)
     else if c = backslash then
       (case s of
          [] \<Rightarrow> None
        | e # s1 \<Rightarrow>
          if e = CHR ''u'' then
            (case hex4 s1 of
               None \<Rightarrow> None
             | Some u \<Rightarrow>
               if 0xD800 \<le> u \<and> u < 0xE000 then
                 (case low_surrogate u (drop 4 s1) of
                    Some n \<Rightarrow> push_text (encode_rune n) (str_body (drop 10 s1))
                  | None \<Rightarrow> push_text replacement (str_body (drop 4 s1)))
               else push_text (encode_rune u) (str_body (drop 4 s1)))
          else (case unescape e of None \<Rightarrow> None | Some d \<Rightarrow> push_text [d] (str_body s1)))
     else if code c < 0x20 then None
     else let n = rune_len (c # s) in
       if n = 0 then push_text replacement (str_body s)
       else push_text (take n (c # s)) (str_body (drop (n - 1) s)))"

subsection \<open>Tokens\<close>

datatype json_token = LBrack | RBrack | LBrace | RBrace | Comma | Colon
  | TStr string | TNum string | TTrue | TFalse | TNull

definition is_space :: "char \<Rightarrow> bool" where
  "is_space c \<longleftrightarrow> c \<in> {CHR 0x20, CHR 0x09, CHR 0x0D, CHR 0x0A}"

definition is_digit :: "char \<Rightarrow> bool" where
  "is_digit c \<longleftrightarrow> 0x30 \<le> code c \<and> code c \<le> 0x39"

text \<open>The three parts of a number; a part that is there must have digits.\<close>

definition scan_int :: "string \<Rightarrow> (string \<times> string) option" where
  "scan_int s = (case s of [] \<Rightarrow> None | c # s' \<Rightarrow>
     if c = CHR ''0'' then Some ([c], s')
     else if is_digit c then Some (takeWhile is_digit s, dropWhile is_digit s)
     else None)"

definition scan_digits :: "string \<Rightarrow> string \<Rightarrow> (string \<times> string) option" where
  "scan_digits pre s = (if takeWhile is_digit s = [] then None else Some (pre @ takeWhile is_digit s, dropWhile is_digit s))"

definition scan_frac :: "string \<Rightarrow> (string \<times> string) option" where
  "scan_frac s = (case s of c # s' \<Rightarrow> if c = CHR ''.'' then scan_digits [c] s' else Some ([], s) | [] \<Rightarrow> Some ([], s))"

definition scan_exp :: "string \<Rightarrow> (string \<times> string) option" where
  "scan_exp s = (case s of c # s' \<Rightarrow>
      if c = CHR ''e'' \<or> c = CHR ''E'' then
        (case s' of d # s'' \<Rightarrow> if d = CHR ''+'' \<or> d = CHR ''-'' then scan_digits [c, d] s'' else scan_digits [c] s' | [] \<Rightarrow> None)
      else Some ([], s)
    | [] \<Rightarrow> Some ([], s))"

definition scan_number :: "string \<Rightarrow> (string \<times> string) option" where
  "scan_number s =
    (let (sign, s0) = (case s of c # s' \<Rightarrow> if c = CHR ''-'' then ([c], s') else ([], s) | [] \<Rightarrow> ([], s)) in
     Option.bind (scan_int s0) (\<lambda>(i, s1).
     Option.bind (scan_frac s1) (\<lambda>(f, s2).
     Option.bind (scan_exp s2) (\<lambda>(e, s3). Some (sign @ i @ f @ e, s3)))))"

definition punctuation :: "char \<Rightarrow> json_token option" where
  "punctuation c =
    (if c = CHR ''['' then Some LBrack else if c = CHR '']'' then Some RBrack
     else if c = CHR ''{'' then Some LBrace else if c = CHR ''}'' then Some RBrace
     else if c = CHR '','' then Some Comma else if c = CHR '':'' then Some Colon else None)"

definition next_token :: "char \<Rightarrow> string \<Rightarrow> (json_token \<times> string) option" where
  "next_token c s = (case punctuation c of
     Some t \<Rightarrow> Some (t, s)
   | None \<Rightarrow>
     if c = quotation then map_option (\<lambda>(t, r). (TStr t, r)) (str_body s)
     else if c = CHR ''t'' then (if take 3 s = ''rue'' then Some (TTrue, drop 3 s) else None)
     else if c = CHR ''f'' then (if take 4 s = ''alse'' then Some (TFalse, drop 4 s) else None)
     else if c = CHR ''n'' then (if take 3 s = ''ull'' then Some (TNull, drop 3 s) else None)
     else map_option (\<lambda>(t, r). (TNum t, r)) (scan_number (c # s)))"


lemma str_body_length: "str_body s = Some (t, r) \<Longrightarrow> length r < length s"
proof (induction "length s" arbitrary: s t r rule: less_induct)
  case less
  have ih: "str_body u = Some (x, r) \<Longrightarrow> length u < length s \<Longrightarrow> length r < length u" for u x
    using less.hyps by blast
  show ?case
  proof (cases s)
    case (Cons c s1)
    show ?thesis
      using less.prems unfolding Cons
      by (auto simp: push_text_def Let_def Cons split: if_splits list.splits option.splits prod.splits dest!: ih)
  qed (use less.prems in simp)
qed

lemma scan_digits_length: "scan_digits p s = Some (t, r) \<Longrightarrow> length r \<le> length s"
  by (auto simp: scan_digits_def length_dropWhile_le split: if_splits)

lemma scan_number_length:
  assumes "scan_number s = Some (t, r)"
  shows "length r < length s"
proof -
  define s0 where "s0 = snd (case s of c # s' \<Rightarrow> if c = CHR ''-'' then ([c], s') else ([], s) | [] \<Rightarrow> ([], s))"
  have "length s0 \<le> length s" by (simp add: s0_def split: list.splits)
  moreover obtain i s1 f s2 e where s: "scan_int s0 = Some (i, s1)" "scan_frac s1 = Some (f, s2)" "scan_exp s2 = Some (e, r)"
    using assms by (auto simp: scan_number_def s0_def Option.bind_eq_Some_conv split: prod.splits)
  moreover have "length s1 < length s0" using s(1)
    by (auto simp: scan_int_def length_dropWhile_le le_imp_less_Suc split: list.splits if_splits)
  moreover have "length s2 \<le> length s1" using s(2)
    by (auto simp: scan_frac_def dest!: scan_digits_length split: list.splits if_splits)
  moreover have "length r \<le> length s2" using s(3)
    by (auto simp: scan_exp_def dest!: scan_digits_length split: list.splits if_splits)
  ultimately show ?thesis by simp
qed

lemma next_token_length: "next_token c s = Some (t, r) \<Longrightarrow> length r \<le> length s"
  by (auto simp: next_token_def dest!: str_body_length scan_number_length split: option.splits if_splits)

function tokenize :: "string \<Rightarrow> json_token list option" where
  "tokenize [] = Some []"
| "tokenize (c # s) =
    (if is_space c then tokenize s
     else (case next_token c s of
        None \<Rightarrow> None
      | Some (t, r) \<Rightarrow> map_option (Cons t) (tokenize r)))"
  by pat_completeness auto
termination by (relation "measure length") (auto dest: next_token_length)

subsection \<open>Values\<close>

datatype json = JNull | JBool bool | JNum string | JStr string | JArr "json list" | JObj "(string \<times> json) list"

text \<open>
  What encloses the value that is read: an array with its elements so far (last first), an object with its members
  so far and the key of the current one. The state says what the next token may be.
\<close>

datatype json_frame = InArr "json list" | InObj "(string \<times> json) list" | AtKey "(string \<times> json) list" string

datatype json_state = NeedValue | NeedElemOrEnd | NeedKeyOrEnd | NeedKey | NeedColon | Got json

definition maxNesting :: nat where
  "maxNesting = 10000"

definition atom :: "json_token \<Rightarrow> json option" where
  "atom t = (case t of TStr s \<Rightarrow> Some (JStr s) | TNum n \<Rightarrow> Some (JNum n) | TTrue \<Rightarrow> Some (JBool True)
     | TFalse \<Rightarrow> Some (JBool False) | TNull \<Rightarrow> Some JNull | _ \<Rightarrow> None)"

definition begin_value :: "json_token \<Rightarrow> json_frame list \<Rightarrow> (json_state \<times> json_frame list) option" where
  "begin_value t st = (case atom t of
     Some v \<Rightarrow> Some (Got v, st)
   | None \<Rightarrow>
     if length st \<ge> maxNesting then None
     else if t = LBrack then Some (NeedElemOrEnd, InArr [] # st)
     else if t = LBrace then Some (NeedKeyOrEnd, InObj [] # st)
     else None)"

fun after_value :: "json \<Rightarrow> json_token \<Rightarrow> json_frame list \<Rightarrow> (json_state \<times> json_frame list) option" where
  "after_value v Comma (InArr vs # st) = Some (NeedValue, InArr (v # vs) # st)"
| "after_value v RBrack (InArr vs # st) = Some (Got (JArr (rev (v # vs))), st)"
| "after_value v Comma (AtKey ms k # st) = Some (NeedKey, InObj ((k, v) # ms) # st)"
| "after_value v RBrace (AtKey ms k # st) = Some (Got (JObj (rev ((k, v) # ms))), st)"
| "after_value v t st = None"

fun read_key :: "json_token \<Rightarrow> json_frame list \<Rightarrow> (json_state \<times> json_frame list) option" where
  "read_key (TStr k) (InObj ms # st) = Some (NeedColon, AtKey ms k # st)"
| "read_key t st = None"

definition json_step :: "json_state \<Rightarrow> json_token \<Rightarrow> json_frame list \<Rightarrow> (json_state \<times> json_frame list) option" where
  "json_step q t st = (case q of
     NeedValue \<Rightarrow> begin_value t st
   | NeedElemOrEnd \<Rightarrow> if t = RBrack then Some (Got (JArr []), tl st) else begin_value t st
   | NeedKeyOrEnd \<Rightarrow> if t = RBrace then Some (Got (JObj []), tl st) else read_key t st
   | NeedKey \<Rightarrow> read_key t st
   | NeedColon \<Rightarrow> if t = Colon then Some (NeedValue, st) else None
   | Got v \<Rightarrow> after_value v t st)"

fun json_run :: "json_state \<Rightarrow> json_frame list \<Rightarrow> json_token list \<Rightarrow> json option" where
  "json_run q st [] = (case (q, st) of (Got v, []) \<Rightarrow> Some v | _ \<Rightarrow> None)"
| "json_run q st (t # ts) = (case json_step q t st of None \<Rightarrow> None | Some (q', st') \<Rightarrow> json_run q' st' ts)"

definition parse_json :: "string \<Rightarrow> json option" where
  "parse_json s = Option.bind (tokenize s) (json_run NeedValue [])"

text \<open>The compact output of \<^verbatim>\<open>json.Marshal\<close>.\<close>

fun commas :: "string list \<Rightarrow> string" where
  "commas [] = []"
| "commas [x] = x"
| "commas (x # y # xs) = x @ CHR '','' # commas (y # xs)"

fun print_json :: "json \<Rightarrow> string" where
  "print_json JNull = ''null''"
| "print_json (JBool b) = (if b then ''true'' else ''false'')"
| "print_json (JNum n) = n"
| "print_json (JStr s) = quote s"
| "print_json (JArr vs) = ''['' @ commas (map print_json vs) @ '']''"
| "print_json (JObj ms) = ''{'' @ commas (map (\<lambda>(k, v). quote k @ '':'' @ print_json v) ms) @ ''}''"


section \<open>Reading back what was written\<close>

subsection \<open>Strings\<close>

lemma hex_value_digit: "n < 16 \<Longrightarrow> hex_value (hex_digit n) = Some n"
proof -
  have "list_all (\<lambda>n. hex_value (hex_digit n) = Some n) [0..<16]" by code_simp
  then show "n < 16 \<Longrightarrow> hex_value (hex_digit n) = Some n" by (simp add: list_all_iff)
qed

lemma quote_chars [simp]: "quotation \<noteq> backslash" "backslash \<noteq> quotation" "code quotation = 0x22" "code backslash = 0x5C"
  by (simp_all add: quotation_def backslash_def)

lemma push_text_push [simp]: "push_text a (push_text b m) = push_text (a @ b) m"
  by (cases m) (auto simp: push_text_def)

lemma push_text_Some [simp]: "push_text a (Some (x, r)) = Some (a @ x, r)"
  by (simp add: push_text_def)

lemmas [simp del] = str_body.simps(2)

lemma str_body_close [simp]: "str_body (quotation # s) = Some ([], s)"
  by (simp add: str_body.simps(2))

lemma str_body_unescape:
  assumes "unescape e = Some d" "e \<noteq> CHR ''u''"
  shows "str_body (backslash # e # u) = push_text [d] (str_body u)"
  using assms by (subst str_body.simps) simp

lemma str_body_unicode:
  assumes "a < 16" "b < 16" "c < 16" "d < 16" "n = ((a * 16 + b) * 16 + c) * 16 + d" "\<not> (0xD800 \<le> n \<and> n < 0xE000)"
  shows "str_body (backslash # CHR ''u'' # hex_digit a # hex_digit b # hex_digit c # hex_digit d # u) = push_text (encode_rune n) (str_body u)"
proof -
  have "hex4 (hex_digit a # hex_digit b # hex_digit c # hex_digit d # u) = Some n"
    unfolding assms(5) using assms(1-4) by (simp add: hex4_def hex_value_digit)
  moreover have "(0xD800 \<le> n \<and> n < 0xE000) = False" using assms(6) by blast
  ultimately show ?thesis
    by (subst str_body.simps) (simp only: quote_chars if_False if_True list.case option.case refl, simp)
qed

lemma hex_digits [simp]: "hex_digit 0 = CHR ''0''" "hex_digit 2 = CHR ''2''" "hex_digit 15 = CHR ''f''" "hex_digit 13 = CHR ''d''"
  by (simp_all add: hex_digit_def)

lemma str_body_plain:
  assumes "rune_len (c # s) = n" "n \<noteq> 0" "c \<noteq> quotation" "c \<noteq> backslash" "\<not> code c < 0x20"
  shows "str_body (c # s) = push_text (take n (c # s)) (str_body (drop n (c # s)))"
  using assms by (cases n; subst str_body.simps) simp_all

lemma rune_len_ascii: "code c < 0x80 \<Longrightarrow> rune_len (c # s) = 1"
  by (simp add: rune_len_def)

lemma encode_ascii: "code c < 0x80 \<Longrightarrow> encode_rune (code c) = [c]"
  by (simp add: encode_rune_def)

lemma str_body_escape:
  assumes "code c < 0x80"
  shows "str_body (escape c @ u) = push_text [c] (str_body u)"
proof -
  have n: "code c = ((0 * 16 + 0) * 16 + code c div 16) * 16 + code c mod 16" "code c div 16 < 16" using assms by simp_all
  have u: "str_body (backslash # CHR ''u'' # CHR ''0'' # CHR ''0'' # hex_digit (code c div 16) # hex_digit (code c mod 16) # u) = push_text [c] (str_body u)"
    using str_body_unicode [of 0 0 "code c div 16" "code c mod 16" "code c" u] n assms by (simp add: encode_ascii)
  have p: "c \<noteq> quotation \<Longrightarrow> c \<noteq> backslash \<Longrightarrow> \<not> code c < 0x20 \<Longrightarrow> str_body (c # u) = push_text [c] (str_body u)"
    using str_body_plain [OF rune_len_ascii [OF assms]] by simp
  note e = str_body_unescape [of _ _ u]
  consider "c = quotation \<or> c = backslash" | "c = CHR 0x08" | "c = CHR 0x0C" | "c = CHR 0x0A" | "c = CHR 0x0D" | "c = CHR 0x09"
    | "escape c = [backslash, CHR ''u'', CHR ''0'', CHR ''0'', hex_digit (code c div 16), hex_digit (code c mod 16)]"
    | "escape c = [c]" "c \<noteq> quotation" "c \<noteq> backslash" "\<not> code c < 0x20"
    by (cases "c \<in> {quotation, backslash, CHR 0x08, CHR 0x0C, CHR 0x0A, CHR 0x0D, CHR 0x09}";
        cases "code c < 0x20 \<or> c = CHR ''<'' \<or> c = CHR ''>'' \<or> c = CHR ''&''") (auto simp: escape_def)
  then show ?thesis
  proof cases
    case 1 then show ?thesis using e [of c c] by (auto simp: escape_def unescape_def quotation_def backslash_def)
  next
    case 2 then show ?thesis using e [of "CHR ''b''" c] by (simp add: escape_def unescape_def quotation_def backslash_def)
  next
    case 3 then show ?thesis using e [of "CHR ''f''" c] by (simp add: escape_def unescape_def quotation_def backslash_def)
  next
    case 4 then show ?thesis using e [of "CHR ''n''" c] by (simp add: escape_def unescape_def quotation_def backslash_def)
  next
    case 5 then show ?thesis using e [of "CHR ''r''" c] by (simp add: escape_def unescape_def quotation_def backslash_def)
  next
    case 6 then show ?thesis using e [of "CHR ''t''" c] by (simp add: escape_def unescape_def quotation_def backslash_def)
  next
    case 7 show ?thesis by (simp only: 7 append_Cons append_Nil u)
  next
    case 8 then show ?thesis using p by simp
  qed
qed


lemma rune_len_le: "rune_len s \<le> length s"
  by (auto simp: rune_len_def byte_in_def Let_def Suc_le_eq split: list.splits)

lemma rune_len_prefix:
  assumes "rune_len s = n" "n \<noteq> 0"
  shows "rune_len (take n s @ u) = n"
proof -
  have le: "n \<le> length s" using rune_len_le assms(1) by blast
  obtain c t where s: "s = c # t" using assms by (cases s) (auto simp: rune_len_def)
  have b: "i < n \<Longrightarrow> byte_in lo hi (take n s @ u) i = byte_in lo hi s i" for lo hi i
    using le by (auto simp: byte_in_def nth_append)
  have hd: "take n s @ u = c # (take (n - 1) t @ u)" using s assms(2) by (cases n) simp_all
  consider "code c < 0x80" | "0xC2 \<le> code c" "code c \<le> 0xDF" | "0xE0 \<le> code c" "code c \<le> 0xEF" | "0xF0 \<le> code c" "code c \<le> 0xF4"
    using assms s by (fastforce simp: rune_len_def Let_def split: if_splits)
  then show ?thesis
    by cases (use assms s b [of 1] b [of 2] b [of 3] hd in \<open>auto simp: rune_len_def Let_def split: if_splits\<close>)
qed


lemma rune_len_lead:
  assumes "rune_len (c # s) \<noteq> 0" "\<not> code c < 0x80"
  shows "c \<noteq> quotation \<and> c \<noteq> backslash \<and> \<not> code c < 0x20"
  using assms(2) by auto

lemma str_body_rune:
  assumes n: "rune_len (c # s) = n" "n \<noteq> 0" "\<not> code c < 0x80"
  shows "str_body (take n (c # s) @ u) = push_text (take n (c # s)) (str_body u)"
proof -
  have le: "n \<le> length (c # s)" using rune_len_le [of "c # s"] n(1) by simp
  obtain m where m: "n = Suc m" using n(2) by (cases n) auto
  have eq: "take n (c # s) @ u = c # (take m s @ u)" by (simp add: m)
  have "str_body (take n (c # s) @ u) = push_text (take n (take n (c # s) @ u)) (str_body (drop n (take n (c # s) @ u)))"
    using str_body_plain [of c "take m s @ u" n] rune_len_prefix [OF n(1,2), of u] rune_len_lead [of c s] n by (simp add: eq)
  then show ?thesis using le by simp
qed

lemma is_separator_iff: "is_separator (c # s) \<longleftrightarrow> c = CHR 0xE2 \<and> (\<exists>d t. s = CHR 0x80 # d # t \<and> (d = CHR 0xA8 \<or> d = CHR 0xA9))"
  by (auto simp: is_separator_def numeral_eq_Suc take_Suc_conv_app_nth) (cases s; cases "tl s"; auto)+

lemma encode_examples: "encode_rune 0xFFFD = replacement" "encode_rune 0x2028 = [CHR 0xE2, CHR 0x80, CHR 0xA8]"
    "encode_rune 0x2029 = [CHR 0xE2, CHR 0x80, CHR 0xA9]"
  by (simp_all add: encode_rune_def replacement_def char_of_def bit_0)

lemma str_body_replacement: "str_body (backslash # ''ufffd'' @ u) = push_text replacement (str_body u)"
  using str_body_unicode [of 15 15 15 13 "0xFFFD" u] encode_examples by simp

lemma str_body_separator:
  assumes "d = CHR 0xA8 \<or> d = CHR 0xA9"
  shows "str_body (backslash # ''u202'' @ hex_digit (code d mod 16) # u) = push_text [CHR 0xE2, CHR 0x80, d] (str_body u)"
proof -
  have "str_body (backslash # ''u202'' @ hex_digit 8 # u) = push_text [CHR 0xE2, CHR 0x80, CHR 0xA8] (str_body u)"
    "str_body (backslash # ''u202'' @ hex_digit 9 # u) = push_text [CHR 0xE2, CHR 0x80, CHR 0xA9] (str_body u)"
    using str_body_unicode [of 2 0 2 8 "0x2028" u] str_body_unicode [of 2 0 2 9 "0x2029" u] encode_examples by simp_all
  moreover have "code CHR 0xA8 mod 16 = 8" "code CHR 0xA9 mod 16 = 9" by simp_all
  ultimately show ?thesis using assms by (elim disjE) (simp_all only: refl)
qed

lemma separator_len:
  assumes "d = CHR 0xA8 \<or> d = CHR 0xA9"
  shows "rune_len (CHR 0xE2 # CHR 0x80 # d # t) = 3"
  using assms by (auto simp: rune_len_def byte_in_def)

lemma quote_body_invalid:
  assumes "\<not> code c < 0x80" "rune_len (c # s) = 0"
  shows "quote_body (c # s) = backslash # ''ufffd'' @ quote_body s" "to_valid (c # s) = replacement @ to_valid s"
  using assms by simp_all

lemma quote_body_separator:
  assumes "d = CHR 0xA8 \<or> d = CHR 0xA9" "s = CHR 0x80 # d # t"
  shows "quote_body (CHR 0xE2 # s) = backslash # ''u202'' @ hex_digit (code d mod 16) # quote_body t"
    "to_valid (CHR 0xE2 # s) = CHR 0xE2 # CHR 0x80 # d # to_valid t"
proof -
  have "is_separator (CHR 0xE2 # s)" using assms by (simp add: is_separator_iff)
  moreover have "rune_len (CHR 0xE2 # s) = 3" using separator_len assms by simp
  moreover have "\<not> code CHR 0xE2 < 0x80" by simp
  ultimately show "quote_body (CHR 0xE2 # s) = backslash # ''u202'' @ hex_digit (code d mod 16) # quote_body t"
    "to_valid (CHR 0xE2 # s) = CHR 0xE2 # CHR 0x80 # d # to_valid t"
    unfolding quote_body.simps to_valid.simps Let_def by (simp_all add: assms(2))
qed

lemma str_body_quote: "str_body (quote_body s @ quotation # r) = Some (to_valid s, r)"
proof (induction s rule: quote_body.induct)
  case (2 c s)
  let ?n = "rune_len (c # s)"
  consider (ascii) "code c < 0x80" | (invalid) "\<not> code c < 0x80" "?n = 0"
    | (separator) "\<not> code c < 0x80" "?n \<noteq> 0" "is_separator (c # s)"
    | (rune) "\<not> code c < 0x80" "?n \<noteq> 0" "\<not> is_separator (c # s)" by blast
  then show ?case
  proof cases
    case ascii
    then show ?thesis using "2.IH"(1) by (simp add: str_body_escape rune_len_ascii)
  next
    case invalid
    have "str_body (quote_body s @ quotation # r) = Some (to_valid s, r)" using "2.IH"(2) invalid by blast
    then show ?thesis by (simp only: quote_body_invalid [OF invalid] append.simps append_assoc str_body_replacement [unfolded append.simps] push_text_Some)
  next
    case separator
    obtain d t where s: "c = CHR 0xE2" "s = CHR 0x80 # d # t" "d = CHR 0xA8 \<or> d = CHR 0xA9"       using separator(3) unfolding is_separator_iff by blast
    have "str_body (quote_body (drop 2 s) @ quotation # r) = Some (to_valid (drop 2 s), r)" using "2.IH"(3) separator by blast
    then have "str_body (quote_body t @ quotation # r) = Some (to_valid t, r)" using s(2) by simp
    then show ?thesis
      by (simp only: s(1) quote_body_separator [OF s(3,2)] append.simps append_assoc str_body_separator [OF s(3), unfolded append.simps] push_text_Some)
  next
    case rune
    have "str_body (quote_body (drop (?n - 1) s) @ quotation # r) = Some (to_valid (drop (?n - 1) s), r)" using "2.IH"(4) rune by simp
    then show ?thesis using rune str_body_rune [OF refl rune(2,1), of "quote_body (drop (?n - 1) s) @ quotation # r"] by (simp add: Let_def)
  qed
qed simp

lemma to_valid_ascii: "\<forall>c\<in>set s. code c < 0x80 \<Longrightarrow> to_valid s = s"
  by (induction s) (simp_all add: rune_len_ascii Let_def)

subsection \<open>Values\<close>

text \<open>The value that is read back: its texts are made valid.\<close>

fun valid_json :: "json \<Rightarrow> json" where
  "valid_json (JStr s) = JStr (to_valid s)"
| "valid_json (JArr vs) = JArr (map valid_json vs)"
| "valid_json (JObj ms) = JObj (map (\<lambda>(k, v). (to_valid k, valid_json v)) ms)"
| "valid_json v = v"

fun no_numbers :: "json \<Rightarrow> bool" where
  "no_numbers (JNum n) = False"
| "no_numbers (JArr vs) = (\<forall>v\<in>set vs. no_numbers v)"
| "no_numbers (JObj ms) = (\<forall>(k, v)\<in>set ms. no_numbers v)"
| "no_numbers v = True"

fun nesting :: "json \<Rightarrow> nat" where
  "nesting (JArr vs) = Suc (Max (set (0 # map nesting vs)))"
| "nesting (JObj ms) = Suc (Max (set (0 # map (\<lambda>(k, v). nesting v) ms)))"
| "nesting v = 0"

fun join_tokens :: "json_token list list \<Rightarrow> json_token list" where
  "join_tokens [] = []"
| "join_tokens [x] = x"
| "join_tokens (x # y # xs) = x @ Comma # join_tokens (y # xs)"

fun tokens :: "json \<Rightarrow> json_token list" where
  "tokens JNull = [TNull]"
| "tokens (JBool b) = [if b then TTrue else TFalse]"
| "tokens (JNum n) = [TNum n]"
| "tokens (JStr s) = [TStr s]"
| "tokens (JArr vs) = LBrack # join_tokens (map tokens vs) @ [RBrack]"
| "tokens (JObj ms) = LBrace # join_tokens (map (\<lambda>(k, v). TStr k # Colon # tokens v) ms) @ [RBrace]"


definition prepend :: "json_token list \<Rightarrow> json_token list option \<Rightarrow> json_token list option" where
  "prepend ts m = map_option (\<lambda>x. ts @ x) m"

lemma prepend_simps [simp]: "prepend [] m = m" "prepend ts (prepend us m) = prepend (ts @ us) m" "prepend ts (Some us) = Some (ts @ us)"
  by (cases m; simp add: prepend_def)+

lemma lex_token:
  assumes "next_token c s = Some (t, r)" "\<not> is_space c"
  shows "tokenize (c # s) = prepend [t] (tokenize r)"
  using assms by (simp add: prepend_def)

lemma lex_punctuation: "punctuation c = Some t \<Longrightarrow> tokenize (c # s) = prepend [t] (tokenize s)"
  by (rule lex_token) (auto simp: next_token_def punctuation_def is_space_def split: if_splits)

lemma lex_quote: "tokenize (quote s @ r) = prepend [TStr (to_valid s)] (tokenize r)"
  by (simp only: quote_def append.simps append_assoc, rule lex_token)
    (simp_all add: next_token_def punctuation_def is_space_def quotation_def str_body_quote [unfolded quotation_def])

lemma lex_words:
  "tokenize (''null'' @ r) = prepend [TNull] (tokenize r)"
  "tokenize (''true'' @ r) = prepend [TTrue] (tokenize r)"
  "tokenize (''false'' @ r) = prepend [TFalse] (tokenize r)"
  by (simp only: append.simps, rule lex_token; simp add: next_token_def punctuation_def is_space_def quotation_def)+

lemmas lex_marks =
  lex_punctuation [of "CHR ''[''" LBrack] lex_punctuation [of "CHR '']''" RBrack] lex_punctuation [of "CHR ''{''" LBrace]
  lex_punctuation [of "CHR ''}''" RBrace] lex_punctuation [of "CHR '',''" Comma] lex_punctuation [of "CHR '':''" Colon]

lemma punctuation_simps [simp]:
  "punctuation CHR ''['' = Some LBrack" "punctuation CHR '']'' = Some RBrack" "punctuation CHR ''{'' = Some LBrace"
  "punctuation CHR ''}'' = Some RBrace" "punctuation CHR '','' = Some Comma" "punctuation CHR '':'' = Some Colon"
  by (simp_all add: punctuation_def)

lemma lex_commas:
  assumes "\<And>x r. x \<in> set xs \<Longrightarrow> tokenize (pr x @ r) = prepend (tk x) (tokenize r)"
  shows "tokenize (commas (map pr xs) @ r) = prepend (join_tokens (map tk xs)) (tokenize r)"
  using assms
proof (induction xs arbitrary: r rule: induct_list012)
  case (3 x y xs)
  have "tokenize (commas (map pr (x # y # xs)) @ r) = tokenize (pr x @ CHR '','' # commas (map pr (y # xs)) @ r)" by simp
  then show ?case using "3.prems" "3.IH"(2) by (simp add: lex_marks del: tokenize.simps)
qed (simp_all del: tokenize.simps)

lemma lex_print: "no_numbers v \<Longrightarrow> tokenize (print_json v @ r) = prepend (tokens (valid_json v)) (tokenize r)"
proof (induction v arbitrary: r rule: print_json.induct)
  case (5 vs)
  have "tokenize (commas (map print_json vs) @ u) = prepend (join_tokens (map (\<lambda>v. tokens (valid_json v)) vs)) (tokenize u)" for u
    by (rule lex_commas) (use 5 in auto)
  then show ?case by (simp add: lex_marks comp_def del: tokenize.simps)
next
  case (6 ms)
  have "tokenize (commas (map (\<lambda>(k, v). quote k @ '':'' @ print_json v) ms) @ u) =
    prepend (join_tokens (map (\<lambda>(k, v). TStr (to_valid k) # Colon # tokens (valid_json v)) ms)) (tokenize u)" for u
    by (rule lex_commas) (use 6 in \<open>auto simp: lex_quote lex_marks simp del: tokenize.simps split: prod.splits\<close>)
  then show ?case by (simp add: lex_marks case_prod_unfold comp_def del: tokenize.simps)
qed (simp_all add: lex_words [unfolded append.simps] lex_quote del: tokenize.simps)

subsection \<open>The machine\<close>

lemma tokens_first: "\<exists>t ts. tokens v = t # ts \<and> t \<noteq> RBrack"
  by (cases v) auto

lemma run_first_element: "json_run NeedElemOrEnd st (tokens v @ ts) = json_run NeedValue st (tokens v @ ts)"
  using tokens_first [of v] by (auto simp: json_step_def)

lemma run_elements:
  assumes "\<And>v ts' acc. v \<in> set (x # xs) \<Longrightarrow> json_run NeedValue (InArr acc # st) (tokens v @ ts') = json_run (Got v) (InArr acc # st) ts'"
  shows "json_run NeedValue (InArr acc # st) (join_tokens (map tokens (x # xs)) @ RBrack # ts) =
    json_run (Got (JArr (rev acc @ x # xs))) st ts"
  using assms
proof (induction xs arbitrary: x acc)
  case (Cons y ys)
  show ?case using Cons.prems Cons.IH [of y "x # acc"] by (simp add: json_step_def)
qed (simp add: json_step_def)

lemma run_members:
  assumes "\<And>k v ts' acc. (k, v) \<in> set (m # ms) \<Longrightarrow> json_run NeedValue (AtKey acc k # st) (tokens v @ ts') = json_run (Got v) (AtKey acc k # st) ts'"
  shows "json_run NeedKey (InObj acc # st) (join_tokens (map (\<lambda>(k, v). TStr k # Colon # tokens v) (m # ms)) @ RBrace # ts) =
    json_run (Got (JObj (rev acc @ m # ms))) st ts"
  using assms
proof (induction ms arbitrary: m acc)
  case Nil
  then show ?case by (cases m) (simp add: json_step_def)
next
  case (Cons n ns)
  show ?case using Cons.prems Cons.IH [of n "m # acc"] by (cases m) (simp add: json_step_def)
qed

lemma nesting_elem: "v \<in> set vs \<Longrightarrow> nesting v < nesting (JArr vs)"
  by (auto simp: le_imp_less_Suc)

lemma nesting_member: "(k, v) \<in> set ms \<Longrightarrow> nesting v < nesting (JObj ms)"
  by (force intro!: le_imp_less_Suc Max_ge)

lemma run_tokens: "length st + nesting v \<le> maxNesting \<Longrightarrow> json_run NeedValue st (tokens v @ ts) = json_run (Got v) st ts"
proof (induction v arbitrary: st ts rule: tokens.induct)
  case (5 vs)
  have e: "json_run NeedValue (InArr acc # st) (tokens v @ ts') = json_run (Got v) (InArr acc # st) ts'" if "v \<in> set vs" for v ts' acc
    using "5.IH" [OF that] "5.prems" nesting_elem [OF that] by simp
  have "length st < maxNesting" using "5.prems" by simp
  then have "json_run NeedValue st (tokens (JArr vs) @ ts) = json_run NeedElemOrEnd (InArr [] # st) (join_tokens (map tokens vs) @ RBrack # ts)"
    by (simp add: json_step_def begin_value_def atom_def)
  also have "\<dots> = json_run (Got (JArr vs)) st ts"
  proof (cases vs)
    case (Cons x xs)
    obtain u where "join_tokens (map tokens (x # xs)) @ RBrack # ts = tokens x @ u" by (cases xs) auto
    then have "json_run NeedElemOrEnd (InArr [] # st) (join_tokens (map tokens vs) @ RBrack # ts) =
        json_run NeedValue (InArr [] # st) (join_tokens (map tokens vs) @ RBrack # ts)"
      using run_first_element Cons by simp
    then show ?thesis using run_elements [of x xs st "[]" ts] e Cons by simp
  qed (simp add: json_step_def)
  finally show ?case .
next
  case (6 ms)
  have e: "json_run NeedValue (AtKey acc k # st) (tokens v @ ts') = json_run (Got v) (AtKey acc k # st) ts'" if "(k, v) \<in> set ms" for k v ts' acc
    using "6.IH" [OF that refl] "6.prems" nesting_member [OF that] by simp
  have "length st < maxNesting" using "6.prems" by simp
  then have "json_run NeedValue st (tokens (JObj ms) @ ts) =
      json_run NeedKeyOrEnd (InObj [] # st) (join_tokens (map (\<lambda>(k, v). TStr k # Colon # tokens v) ms) @ RBrace # ts)"
    by (simp add: json_step_def begin_value_def atom_def)
  also have "\<dots> = json_run (Got (JObj ms)) st ts"
  proof (cases ms)
    case (Cons m ns)
    have "json_run NeedKeyOrEnd (InObj [] # st) (join_tokens (map (\<lambda>(k, v). TStr k # Colon # tokens v) ms) @ RBrace # ts) =
        json_run NeedKey (InObj [] # st) (join_tokens (map (\<lambda>(k, v). TStr k # Colon # tokens v) ms) @ RBrace # ts)"
      by (cases m; cases ns) (simp_all add: Cons json_step_def)
    then show ?thesis using run_members [of m ns st "[]" ts] e Cons by simp
  qed (simp add: json_step_def)
  finally show ?case .
qed (simp_all add: json_step_def begin_value_def atom_def)

lemma nesting_valid [simp]: "nesting (valid_json v) = nesting v"
proof (induction v rule: valid_json.induct)
  case (3 ms)
  have "(\<lambda>p. nesting (valid_json (snd p))) ` set ms = (\<lambda>p. nesting (snd p)) ` set ms"
    using 3 by (intro image_cong) (auto simp: prod_eq_iff)
  then show ?case by (simp add: image_image case_prod_unfold)
qed (simp_all add: image_image cong: image_cong)

text \<open>Reading what \<^verbatim>\<open>json.Marshal\<close> wrote gives the value back, with its texts made valid UTF-8.\<close>

lemma parse_print_json:
  assumes "no_numbers v" "nesting v \<le> maxNesting"
  shows "parse_json (print_json v) = Some (valid_json v)"
  using lex_print [OF assms(1), of "[]"] run_tokens [of "[]" "valid_json v" "[]"] assms(2) by (simp add: parse_json_def)


section \<open>Decoding into a struct\<close>

text \<open>
  \<^verbatim>\<open>foldName\<close>: object keys match field names up to Unicode's simple case folding; of the runes outside ASCII only the
  Kelvin sign and the long s fold into it.
\<close>

fun fold_name :: "string \<Rightarrow> string" where
  "fold_name [] = []"
| "fold_name (c # s) =
    (if 0x61 \<le> code c \<and> code c \<le> 0x7A then char_of (code c - 0x20) # fold_name s
     else if c = CHR 0xE2 \<and> take 2 s = [CHR 0x84, CHR 0xAA] then CHR ''K'' # fold_name (drop 2 s)
     else if c = CHR 0xC5 \<and> take 1 s = [CHR 0xBF] then CHR ''S'' # fold_name (drop 1 s)
     else c # fold_name s)"

text \<open>
  A field of type \<^verbatim>\<open>string\<close> or \<^verbatim>\<open>bool\<close>: null leaves it alone, a value of another type is an error. A slice of structs:
  null is the empty slice, an element that is null a zero struct, members that match no field are ignored and of
  several that match the last wins.
\<close>

definition string_field :: "json \<Rightarrow> (string \<Rightarrow> 'r \<Rightarrow> 'r) \<Rightarrow> 'r \<Rightarrow> 'r option" where
  "string_field v upd r = (case v of JStr s \<Rightarrow> Some (upd s r) | JNull \<Rightarrow> Some r | _ \<Rightarrow> None)"

definition bool_field :: "json \<Rightarrow> (bool \<Rightarrow> 'r \<Rightarrow> 'r) \<Rightarrow> 'r \<Rightarrow> 'r option" where
  "bool_field v upd r = (case v of JBool b \<Rightarrow> Some (upd b r) | JNull \<Rightarrow> Some r | _ \<Rightarrow> None)"

fun decode_members :: "(string \<Rightarrow> json \<Rightarrow> 'r \<Rightarrow> 'r option) \<Rightarrow> (string \<times> json) list \<Rightarrow> 'r \<Rightarrow> 'r option" where
  "decode_members field [] r = Some r"
| "decode_members field ((k, v) # ms) r = Option.bind (field (fold_name k) v r) (decode_members field ms)"

definition decode_struct :: "(string \<Rightarrow> json \<Rightarrow> 'r \<Rightarrow> 'r option) \<Rightarrow> 'r \<Rightarrow> json \<Rightarrow> 'r option" where
  "decode_struct field zero v = (case v of JNull \<Rightarrow> Some zero | JObj ms \<Rightarrow> decode_members field ms zero | _ \<Rightarrow> None)"

fun decode_all :: "(json \<Rightarrow> 'r option) \<Rightarrow> json list \<Rightarrow> 'r list option" where
  "decode_all d [] = Some []"
| "decode_all d (v # vs) = Option.bind (d v) (\<lambda>x. map_option (Cons x) (decode_all d vs))"

definition decode_slice :: "(json \<Rightarrow> 'r option) \<Rightarrow> json \<Rightarrow> 'r list option" where
  "decode_slice d v = (case v of JNull \<Rightarrow> Some [] | JArr vs \<Rightarrow> decode_all d vs | _ \<Rightarrow> None)"

lemma decode_all_map: "(\<And>x. x \<in> set xs \<Longrightarrow> d (f x) = Some (g x)) \<Longrightarrow> decode_all d (map f xs) = Some (map g xs)"
  by (induction xs) auto


lemma nesting_JArr: "\<forall>v\<in>set vs. nesting v \<le> n \<Longrightarrow> nesting (JArr vs) \<le> Suc n"
  by auto

lemmas [simp del] = to_valid.simps(2) quote_body.simps(2) tokenize.simps(2) print_json.simps(5,6) fold_name.simps(2) nesting.simps(1)

end
