(* ===== verification/Edit_Requests.thy ===== *)
theory Edit_Requests
  imports Vault_Properties Json_Codec
begin

section \<open>Edit requests\<close>

text \<open>
  \<^verbatim>\<open>internal/store/config_edit_requests.go\<close> and \<^verbatim>\<open>internal/editreq/service.go\<close>: a change to a protected config is stored
  encrypted as a pending request; a second user approves it, which claims the row, decrypts the proposal and saves
  it, or rejects it. The table of users is an argument, the predicate of the ids it holds. Texts given to the database
  are UTF-8 without NUL bytes; the encoding error the driver reports for others is not modelled.
\<close>

subsection \<open>The table\<close>

definition update_edit :: "(ConfigEditRequest \<Rightarrow> bool) \<Rightarrow> (ConfigEditRequest \<Rightarrow> ConfigEditRequest) \<Rightarrow> secret_db \<Rightarrow> pg_err + (nat \<times> secret_db)" where
  "update_edit P f db = (let (n, t) = update_rows P f (config_edit_requests db) in Inr (n, db\<lparr>config_edit_requests := t\<rparr>))"

text \<open>The key names go through a JSON column, which makes them valid UTF-8.\<close>

definition stored_keys :: "string list \<Rightarrow> string list" where
  "stored_keys keys = map to_valid keys"

definition er_Create :: "(string \<Rightarrow> bool) \<Rightarrow> string \<Rightarrow> ConfigEditRequest \<Rightarrow> int \<Rightarrow> secret_db \<Rightarrow> store_err + (ConfigEditRequest \<times> secret_db)" where
  "er_Create is_user i rec now db =
    (if i \<in> er_ID ` set (config_edit_requests db) then Inl (mapError unique_violation)
     else if er_ConfigID rec \<notin> c_ID ` set (configs db) \<or> \<not> is_user (er_RequestedBy rec) then Inl (mapError fk_violation)
     else let row = rec\<lparr>er_ID := i, er_Status := ''pending'', er_ChangedKeys := stored_keys (er_ChangedKeys rec),
                        er_ResolvedBy := None, er_ResolvedAt := None, er_AppliedVersion := None, er_CreatedAt := now\<rparr>
          in Inr (row, db\<lparr>config_edit_requests := config_edit_requests db @ [row]\<rparr>))"

definition er_Get :: "secret_db \<Rightarrow> string \<Rightarrow> store_err + ConfigEditRequest" where
  "er_Get db i = one_row (\<lambda>q. er_ID q = i) (config_edit_requests db)"

definition er_listBy :: "(ConfigEditRequest \<Rightarrow> string) \<Rightarrow> secret_db \<Rightarrow> string \<Rightarrow> string \<Rightarrow> ConfigEditRequest list" where
  "er_listBy col db value status = newest_first er_CreatedAt er_ID
    (filter (\<lambda>q. col q = value \<and> (status = '''' \<or> er_Status q = status)) (config_edit_requests db))"

definition er_ListByConfig :: "secret_db \<Rightarrow> string \<Rightarrow> string \<Rightarrow> ConfigEditRequest list" where
  "er_ListByConfig = er_listBy er_ConfigID"

definition er_ListByRequester :: "secret_db \<Rightarrow> string \<Rightarrow> string \<Rightarrow> ConfigEditRequest list" where
  "er_ListByRequester = er_listBy er_RequestedBy"

definition with_status :: "string \<Rightarrow> string \<Rightarrow> ConfigEditRequest \<Rightarrow> bool" where
  "with_status i s q \<longleftrightarrow> er_ID q = i \<and> er_Status q = s"

definition ClaimForApply :: "string \<Rightarrow> secret_db \<Rightarrow> store_err + secret_db" where
  "ClaimForApply i db = execAffectingOne (update_edit (with_status i ''pending'') (\<lambda>q. q\<lparr>er_Status := ''applying''\<rparr>) db)"

definition RevertApplying :: "string \<Rightarrow> secret_db \<Rightarrow> store_err + secret_db" where
  "RevertApplying i db = execAffectingOne (update_edit (with_status i ''applying'') (\<lambda>q. q\<lparr>er_Status := ''pending''\<rparr>) db)"

text \<open>\<^verbatim>\<open>resolved_by\<close> refers to the users: an update that writes another id there fails.\<close>

definition resolve_edit :: "(string \<Rightarrow> bool) \<Rightarrow> (ConfigEditRequest \<Rightarrow> bool) \<Rightarrow> string \<Rightarrow> (ConfigEditRequest \<Rightarrow> ConfigEditRequest) \<Rightarrow> secret_db \<Rightarrow>
    pg_err + (nat \<times> secret_db)" where
  "resolve_edit is_user P who f db =
    (if (\<exists>q\<in>set (config_edit_requests db). P q) \<and> \<not> is_user who then Inl fk_violation
     else update_edit P (\<lambda>q. f (q\<lparr>er_ResolvedBy := Some who\<rparr>)) db)"

definition er_MarkApplied :: "(string \<Rightarrow> bool) \<Rightarrow> string \<Rightarrow> string \<Rightarrow> int \<Rightarrow> int \<Rightarrow> secret_db \<Rightarrow> store_err + secret_db" where
  "er_MarkApplied is_user i approver version now db = execAffectingOne (resolve_edit is_user (with_status i ''applying'') approver
    (\<lambda>q. q\<lparr>er_Status := ''applied'', er_ResolvedAt := Some now, er_AppliedVersion := Some version\<rparr>) db)"

definition er_Decide :: "(string \<Rightarrow> bool) \<Rightarrow> string \<Rightarrow> string \<Rightarrow> string \<Rightarrow> int \<Rightarrow> secret_db \<Rightarrow> store_err + secret_db" where
  "er_Decide is_user i to decidedBy now db = execAffectingOne (resolve_edit is_user (with_status i ''pending'') decidedBy
    (\<lambda>q. q\<lparr>er_Status := to, er_ResolvedAt := Some now\<rparr>) db)"

subsection \<open>The proposal\<close>

record proposedChange =
  pc_Key :: string
  pc_Value :: string
  pc_Delete :: bool
  pc_Type :: string

definition propose :: "SecretChange \<Rightarrow> proposedChange" where
  "propose ch = \<lparr>pc_Key = sc_Key ch, pc_Value = string_of (sc_Value ch), pc_Delete = sc_Delete ch, pc_Type = sc_Type ch\<rparr>"

definition accept_change :: "proposedChange \<Rightarrow> SecretChange" where
  "accept_change pc = \<lparr>sc_Key = pc_Key pc, sc_Value = bytes_of (pc_Value pc), sc_Delete = pc_Delete pc, sc_Type = pc_Type pc\<rparr>"

definition pc_json :: "proposedChange \<Rightarrow> json" where
  "pc_json pc = JObj [(''key'', JStr (pc_Key pc)), (''value'', JStr (pc_Value pc)), (''delete'', JBool (pc_Delete pc)), (''type'', JStr (pc_Type pc))]"

definition pc_field :: "string \<Rightarrow> json \<Rightarrow> proposedChange \<Rightarrow> proposedChange option" where
  "pc_field name v pc =
    (if name = ''KEY'' then string_field v (\<lambda>s p. p\<lparr>pc_Key := s\<rparr>) pc
     else if name = ''VALUE'' then string_field v (\<lambda>s p. p\<lparr>pc_Value := s\<rparr>) pc
     else if name = ''DELETE'' then bool_field v (\<lambda>b p. p\<lparr>pc_Delete := b\<rparr>) pc
     else if name = ''TYPE'' then string_field v (\<lambda>s p. p\<lparr>pc_Type := s\<rparr>) pc
     else Some pc)"

definition marshal_proposal :: "proposedChange list \<Rightarrow> bytes" where
  "marshal_proposal pcs = bytes_of (print_json (JArr (map pc_json pcs)))"

definition unmarshal_proposal :: "bytes \<Rightarrow> proposedChange list option" where
  "unmarshal_proposal b = Option.bind (parse_json (string_of b))
    (decode_slice (decode_struct pc_field \<lparr>pc_Key = '''', pc_Value = '''', pc_Delete = False, pc_Type = ''''\<rparr>))"

subsection \<open>The service\<close>

record ApplyResult =
  ar_Version :: int
  ar_Keys :: "string list"

text \<open>
  \<open>ErrConflictAfter res\<close> is \<^verbatim>\<open>ErrRequestConflict\<close> together with the result of the save that came before it, which
  \<^verbatim>\<open>Approve\<close> returns when the version is saved and the mark fails.
\<close>

datatype er_err = ErrRequestConflict | ErrConflictAfter ApplyResult | ErrSelfApproval | ErStore store_err | ErSvc svc_err | ErJSON

record CreateInput =
  ci_ConfigID :: string
  ci_Changes :: "SecretChange list"
  ci_Message :: string
  ci_Reason :: string
  ci_RequestedBy :: string

text \<open>\<open>rdb\<close> is the database the project key is read from, \<open>db\<close> the one the row is inserted into.\<close>

definition er_Submit :: "Keyring \<Rightarrow> (string \<Rightarrow> bool) \<Rightarrow> secret_db \<Rightarrow> string \<Rightarrow> CreateInput \<Rightarrow> rng \<Rightarrow> int \<Rightarrow> secret_db \<Rightarrow>
    er_err + (string \<times> rng \<times> secret_db)" where
  "er_Submit kr is_user rdb i inp r now db =
    bind_err (map_err ErSvc (EncryptConfigBlob kr rdb (ci_ConfigID inp) (marshal_proposal (map propose (ci_Changes inp))) r)) (\<lambda>(blob, r').
    bind_err (map_err ErStore (er_Create is_user i
      \<lparr>er_ID = '''', er_ConfigID = ci_ConfigID inp, er_RequestedBy = ci_RequestedBy inp, er_Reason = ci_Reason inp, er_Status = '''',
       er_ProposedCiphertext = bl_Ciphertext blob, er_WrappedDEK = bl_WrappedDEK blob, er_Nonce = bl_Nonce blob,
       er_DEKKeyVersion = bl_DEKKeyVersion blob, er_ChangedKeys = map sc_Key (ci_Changes inp), er_Message = ci_Message inp,
       er_ResolvedBy = None, er_ResolvedAt = None, er_AppliedVersion = None, er_CreatedAt = 0\<rparr> now db)) (\<lambda>(row, db').
      Inr (er_ID row, r', db')))"

definition blob_of :: "ConfigEditRequest \<Rightarrow> EditRequestBlob" where
  "blob_of q = \<lparr>bl_Ciphertext = er_ProposedCiphertext q, bl_WrappedDEK = er_WrappedDEK q, bl_Nonce = er_Nonce q,
     bl_DEKKeyVersion = er_DEKKeyVersion q\<rparr>"

text \<open>
  \<^verbatim>\<open>Approve\<close> in the four pieces between which other requests may run: the checks, the claim, the save and the mark.
  \<open>fresh\<close>, \<open>cvID\<close>, \<open>r\<close> and \<open>now\<close> are the arguments of \<open>SetSecrets\<close>; \<open>walk\<close> says in which order Go walks a map with the keys it is given.
\<close>

definition approve_check :: "secret_db \<Rightarrow> string \<Rightarrow> string \<Rightarrow> er_err + ConfigEditRequest" where
  "approve_check db i approver =
    bind_err (map_err ErStore (er_Get db i)) (\<lambda>q.
      if er_Status q \<noteq> ''pending'' then Inl ErrRequestConflict
      else if approver = er_RequestedBy q then Inl ErrSelfApproval
      else Inr q)"

definition approve_claim :: "string \<Rightarrow> secret_db \<Rightarrow> er_err + secret_db" where
  "approve_claim i db = map_err (\<lambda>_. ErrRequestConflict) (ClaimForApply i db)"

definition approve_save :: "Keyring \<Rightarrow> secret_db \<Rightarrow> svc_err tx_err option \<Rightarrow> ConfigEditRequest \<Rightarrow> string \<Rightarrow> (string \<Rightarrow> string) \<Rightarrow> string \<Rightarrow> (string list \<Rightarrow> string list) \<Rightarrow> rng \<Rightarrow> int \<Rightarrow>
    secret_db \<Rightarrow> (er_err + (ApplyResult \<times> rng)) \<times> secret_db" where
  "approve_save kr rdb commit q approver fresh cvID walk r now db =
    (case DecryptConfigBlob kr rdb (er_ConfigID q) (blob_of q) of
       Inl e \<Rightarrow> (Inl (ErSvc e), db)
     | Inr pt \<Rightarrow>
       (case unmarshal_proposal pt of
          None \<Rightarrow> (Inl ErJSON, db)
        | Some pcs \<Rightarrow>
          (case SetSecrets kr rdb commit (er_ConfigID q) (map accept_change pcs) (er_Message q) approver fresh cvID (walk (map pc_Key pcs)) r now db of
             (Inl e, db') \<Rightarrow> (Inl (ErSvc e), db')
           | (Inr (cv, r'), db') \<Rightarrow> (Inr (\<lparr>ar_Version = cv_Version cv, ar_Keys = map pc_Key pcs\<rparr>, r'), db'))))"

definition revert_claim :: "string \<Rightarrow> secret_db \<Rightarrow> secret_db" where
  "revert_claim i db = (case RevertApplying i db of Inl _ \<Rightarrow> db | Inr db' \<Rightarrow> db')"

definition Approve :: "Keyring \<Rightarrow> (string \<Rightarrow> bool) \<Rightarrow> svc_err tx_err option \<Rightarrow> string \<Rightarrow> string \<Rightarrow> (string \<Rightarrow> string) \<Rightarrow> string \<Rightarrow> (string list \<Rightarrow> string list) \<Rightarrow> rng \<Rightarrow> int \<Rightarrow>
    secret_db \<Rightarrow> (er_err + (ApplyResult \<times> rng)) \<times> secret_db" where
  "Approve kr is_user commit i approver fresh cvID walk r now db =
    (case approve_check db i approver of
       Inl e \<Rightarrow> (Inl e, db)
     | Inr q \<Rightarrow>
       (case approve_claim i db of
          Inl e \<Rightarrow> (Inl e, db)
        | Inr db1 \<Rightarrow>
          (case approve_save kr db1 commit q approver fresh cvID walk r now db1 of
             (Inl e, db2) \<Rightarrow> (Inl e, revert_claim i db2)
           | (Inr (res, r'), db2) \<Rightarrow>
             (case er_MarkApplied is_user i approver (ar_Version res) now db2 of
                Inl _ \<Rightarrow> (Inl (ErrConflictAfter res), db2)
              | Inr db3 \<Rightarrow> (Inr (res, r'), db3)))))"

definition Reject :: "(string \<Rightarrow> bool) \<Rightarrow> string \<Rightarrow> string \<Rightarrow> int \<Rightarrow> secret_db \<Rightarrow> er_err + secret_db" where
  "Reject is_user i rejecter now db =
    bind_err (map_err ErStore (er_Get db i)) (\<lambda>q.
      if rejecter = er_RequestedBy q then Inl ErrSelfApproval
      else map_err (\<lambda>_. ErrRequestConflict) (er_Decide is_user i ''rejected'' rejecter now db))"

definition Cancel :: "(string \<Rightarrow> bool) \<Rightarrow> string \<Rightarrow> string \<Rightarrow> int \<Rightarrow> secret_db \<Rightarrow> er_err + secret_db" where
  "Cancel is_user i requester now db = map_err (\<lambda>_. ErrRequestConflict) (er_Decide is_user i ''cancelled'' requester now db)"


section \<open>The proposal survives its encoding\<close>

definition valid_proposal :: "proposedChange \<Rightarrow> proposedChange" where
  "valid_proposal pc = \<lparr>pc_Key = to_valid (pc_Key pc), pc_Value = to_valid (pc_Value pc), pc_Delete = pc_Delete pc, pc_Type = to_valid (pc_Type pc)\<rparr>"

definition utf8_change :: "SecretChange \<Rightarrow> bool" where
  "utf8_change ch \<longleftrightarrow> valid_utf8 (sc_Key ch) \<and> valid_utf8 (string_of (sc_Value ch)) \<and> valid_utf8 (sc_Type ch)"

lemma field_names [simp]:
  "fold_name ''key'' = ''KEY''" "fold_name ''value'' = ''VALUE''" "fold_name ''delete'' = ''DELETE''" "fold_name ''type'' = ''TYPE''"
  by code_simp+

lemma name_valid [simp]: "to_valid ''key'' = ''key''" "to_valid ''value'' = ''value''" "to_valid ''delete'' = ''delete''" "to_valid ''type'' = ''type''"
  by (rule to_valid_ascii; simp)+

lemma decode_pc:
  "decode_struct pc_field z (valid_json (pc_json pc)) = Some (valid_proposal pc)"
  by (simp add: pc_json_def decode_struct_def pc_field_def string_field_def bool_field_def valid_proposal_def)

lemma pc_nesting: "nesting (pc_json pc) = 1"
  by (simp add: pc_json_def)

lemma proposal_nesting: "nesting (JArr (map pc_json pcs)) \<le> maxNesting"
  using nesting_JArr [of "map pc_json pcs" 1] by (simp add: pc_nesting maxNesting_def)

lemma unmarshal_marshal: "unmarshal_proposal (marshal_proposal pcs) = Some (map valid_proposal pcs)"
proof -
  have "no_numbers (JArr (map pc_json pcs))" by (auto simp: pc_json_def)
  from parse_print_json [OF this proposal_nesting]
  have "parse_json (print_json (JArr (map pc_json pcs))) = Some (JArr (map (\<lambda>pc. valid_json (pc_json pc)) pcs))"
    by (simp add: comp_def)
  then show ?thesis
    by (simp add: unmarshal_proposal_def marshal_proposal_def decode_slice_def decode_all_map [where g = valid_proposal] decode_pc)
qed

lemma stored_keys_codec:
  "Option.bind (parse_json (print_json (JArr (map JStr keys)))) (decode_slice (\<lambda>v. string_field v (\<lambda>s _. s) '''')) = Some (stored_keys keys)"
proof -
  have "nesting (JArr (map JStr keys)) \<le> maxNesting" using nesting_JArr [of "map JStr keys" 0] by (simp add: maxNesting_def)
  then have "parse_json (print_json (JArr (map JStr keys))) = Some (JArr (map (\<lambda>k. JStr (to_valid k)) keys))"
    using parse_print_json [of "JArr (map JStr keys)"] by (simp add: comp_def)
  then show ?thesis by (simp add: decode_slice_def stored_keys_def decode_all_map [where g = to_valid] string_field_def)
qed

lemma bytes_of_string_of [simp]: "bytes_of (string_of b) = b"
proof -
  have "of_char (char_of (unat x) :: char) = (x :: byte)" for x
  proof -
    have "unat x < 256" using unsigned_less [of x] by (simp add: nat_less_iff [symmetric])
    moreover have "of_char (char_of (unat x) :: char) = (of_nat (of_char (char_of (unat x) :: char)) :: byte)" by (simp only: of_nat_of_char)
    ultimately show ?thesis by simp
  qed
  then show ?thesis by (simp add: bytes_of_def string_of_def comp_def)
qed

lemma accept_proposal: "utf8_change ch \<Longrightarrow> accept_change (valid_proposal (propose ch)) = ch"
  by (simp add: accept_change_def valid_proposal_def propose_def utf8_change_def valid_utf8_def)

lemma accept_proposals: "\<forall>ch\<in>set chs. utf8_change ch \<Longrightarrow> map (\<lambda>x. accept_change (valid_proposal (propose x))) chs = chs"
  by (induction chs) (simp_all add: accept_proposal)

section \<open>The tables beside the secrets\<close>

text \<open>Requests, pipelines and locks do not touch secrets: a change there is invisible to every reader.\<close>

definition beside :: "secret_db \<Rightarrow> secret_db \<Rightarrow> bool" where
  "beside db db' \<longleftrightarrow> projects db' = projects db \<and> environments db' = environments db \<and> configs db' = configs db \<and>
     config_versions db' = config_versions db \<and> secret_values db' = secret_values db \<and>
     config_version_entries db' = config_version_entries db \<and> project_kek_versions db' = project_kek_versions db"

lemma beside_refl [simp]: "beside db db"
  by (simp add: beside_def)

lemma beside_trans: "beside a b \<Longrightarrow> beside b c \<Longrightarrow> beside a c"
  by (simp add: beside_def)

lemma beside_wf: "beside db db' \<Longrightarrow> store_wf db' \<longleftrightarrow> store_wf db"
  by (auto simp: beside_def store_wf_def hierarchy_ok_def versions_ok_def values_ok_def manifest_ok_def entry_ok_def keks_ok_def)

lemma beside_shown:
  assumes "beside db db'"
  shows "shown kr db' c v = shown kr db c v" "max_version db' c = max_version db c" "latest_shown kr db' c = latest_shown kr db c"
    "readable kr db' \<longleftrightarrow> readable kr db" "resolveProject db' c = resolveProject db c"
proof -
  note e = assms [unfolded beside_def]
  have p: "plain kr db' = plain kr db" by (rule plain_cong) (simp_all add: e)
  have o: "secret_of kr db' = secret_of kr db" by (simp add: fun_eq_iff secret_of_def p)
  have m: "max_version db' = max_version db" by (rule ext, rule max_version_same) (simp add: e)
  then show "max_version db' c = max_version db c" by simp
  have "state_of db' = state_of db" by (simp add: fun_eq_iff state_of_def joined_def e cong: if_cong)
  then have w: "view db' = view db" by (intro ext) (simp add: view_def GetVersion_def e)
  show "shown kr db' c v = shown kr db c v" by (simp add: shown_def w o)
  show "latest_shown kr db' c = latest_shown kr db c" by (simp add: fun_eq_iff latest_shown_def latest_state_def w m o)
  show "readable kr db' \<longleftrightarrow> readable kr db" by (simp add: readable_def p e)
  show "resolveProject db' c = resolveProject db c" using resolveProject_cong [of db' db] by (simp add: e)
qed


text \<open>The other operations leave these tables alone.\<close>

definition side :: "secret_db \<Rightarrow> ConfigEditRequest list \<times> PromotionRequestRow list \<times> step_row list \<times> locked_row list" where
  "side db = (config_edit_requests db, promotion_requests db, promotion_pipeline_steps db, config_locked_keys db)"

lemma withTx_side:
  assumes "\<And>a s'. body s = Inr (a, s') \<Longrightarrow> side s' = side s" "withTx commit body s = (res, s')"
  shows "side s' = side s"
  using assms by (auto simp: withTx_def split: sum.splits option.splits prod.splits)

lemma apply_changes_side:
  "apply_changes c final fresh now ks ptrs tombs r db = Inr (ptrs', tombs', r', db') \<Longrightarrow> side db' = side db"
proof (induction ks arbitrary: ptrs tombs r db)
  case (Cons k ks)
  then show ?case
    by (fastforce simp: insert_value_def side_def Let_def split: option.splits sum.splits if_splits prod.splits)
qed simp

lemma save_side: "SaveConfigVersion commit c changes msg by fresh cvID order r now db = (res, db') \<Longrightarrow> side db' = side db"
  unfolding SaveConfigVersion_def
  by (rule withTx_side)
    (auto simp: save_tx_def insert_version_def insert_entries_def side_def Let_def bind_err_Inr split: option.splits if_splits prod.splits sum.splits
      dest!: apply_changes_side)

lemma set_side: "SetSecrets kr rdb commit c changes msg actor fresh cvID order r now db = (res, db') \<Longrightarrow> side db' = side db"
  by (auto simp: SetSecrets_def dest!: save_side split: option.splits sum.splits prod.splits)

lemma rewrap_rows_side: "rewrap_rows f l rs c db = Inr (c', db') \<Longrightarrow> side db' = side db"
proof (induction rs arbitrary: c db)
  case (Cons rr rs)
  then show ?case by (fastforce simp: rewrap_rows_Cons side_def)
qed simp

lemma RewrapBatch_side: "RewrapBatch commit p l cur limit f c db = (res, db') \<Longrightarrow> side db' = side db"
  unfolding RewrapBatch_def Let_def by (rule withTx_side) (auto simp: bind_err_Inr dest: rewrap_rows_side split: prod.splits)

lemma rewrap_loop_side: "rewrap_loop kr p k commits n cur d c db = (m, e, db') \<Longrightarrow> side db' = side db"
proof (induction kr p k commits n cur d c db arbitrary: m e db' rule: rewrap_loop.induct)
  case (1 kr p k commits n cur d c db)
  obtain res db1 where b: "RewrapBatch (commits n) (p_ID p) (p_KEKVersion p) cur rewrapBatchSize (rewrapFn kr db p k) c db = (res, db1)" by fastforce
  then have s: "side db1 = side db" by (rule RewrapBatch_side)
  show ?case
    using "1.prems" "1.IH" b s by (subst (asm) rewrap_loop.simps) (auto split: sum.splits if_splits)
qed

lemma key_step_side: "key_step kr db db' \<Longrightarrow> side db' = side db"
proof (induction rule: key_step.induct)
  case (rotate commit i r now db res db')
  then show ?case
    unfolding Rotate_def RotateKEK_def
    by (auto simp: rotate_tx_def kek_insert_def side_def Let_def withTx_def split: sum.splits prod.splits if_splits option.splits)
next
  case (rewrap commits i r db res db')
  then show ?case
    by (auto simp: Rewrap_def DeleteEmpty_def side_def [of "project_kek_versions_update _ _"] side_def [symmetric] Let_def dest!: rewrap_loop_side
      split: sum.splits prod.splits option.splits)
qed


lemma update_side:
  "execAffectingOne (update_project P f db) = Inr db' \<Longrightarrow> side db' = side db"
  "execAffectingOne (update_env Q g db) = Inr db' \<Longrightarrow> side db' = side db"
  "execAffectingOne (update_config R h db) = Inr db' \<Longrightarrow> side db' = side db"
  by (auto simp: execAffectingOne_def update_project_def update_env_def update_config_def Let_def side_def split: prod.splits if_splits)

lemma rollback_side: "Rollback commit c v msg by cvID now db = (res, db') \<Longrightarrow> side db' = side db"
  unfolding Rollback_def
  by (rule withTx_side) (auto simp: rollback_tx_def insert_version_def insert_entries_def side_def Let_def bind_err_Inr split: option.splits if_splits prod.splits sum.splits)

lemma prune_config_side:
  assumes "PruneConfigVersions commit c plan now db = (res, db')"
  shows "side db' = side db"
proof -
  have "db' = db \<or> (\<exists>ids. db' = gc_values c (delete_versions ids db))"
    using assms by (auto simp: PruneConfigVersions_def withTx_def Let_def dest!: prune_tx_frame split: if_split_asm sum.splits option.splits)
  then show ?thesis by (auto simp: gc_values_def delete_versions_def Let_def side_def)
qed

lemma prune_side: "PruneVersions fl rdb commit c req now db = (res, db') \<Longrightarrow> side db' = side db"
  by (auto simp: PruneVersions_def Let_def dest!: prune_config_side split: sum.splits if_splits prod.splits)

lemma create_side:
  "CreateProject kr slug name i r now db = Inr (p, r', db') \<Longrightarrow> side db' = side db"
  "CreateEnvironment i pid slug name now db = Inr (e, db') \<Longrightarrow> side db' = side db"
  "CreateConfig i eid name inh now db = Inr (cfg, db') \<Longrightarrow> side db' = side db"
  by (auto simp: CreateProject_def CreateEnvironment_def CreateConfig_def proj_Create_def env_Create_def cfg_Create_def bind_err_Inr map_err_Inr
    side_def Let_def split: option.splits if_splits prod.splits sum.splits dest!: guard_Inr)

lemma edit_op_side: "edit_op kr op db db' \<Longrightarrow> side db' = side db"
proof (induction rule: edit_op.induct)
  case (rollback commit c v msg actor cvID now db out db')
  then show ?case by (auto simp: svc_Rollback_def Let_def dest!: rollback_side split: prod.splits sum.splits)
next
  case (restore_project i now db db')
  then show ?case unfolding proj_Undelete_def by (blast dest: undelete_Inr update_side)
next
  case (restore_env i now db db')
  then show ?case unfolding env_Undelete_def by (blast dest: undelete_Inr update_side)
next
  case (restore_config i now db db')
  then show ?case unfolding cfg_Undelete_def by (blast dest: undelete_Inr update_side)
next
  case (promoted cvID eid v db db')
  then show ?case by (auto simp: MarkPromoted_def execAffectingOne_def Let_def side_def split: sum.splits if_splits prod.splits)
next
  case (set_retention c mv md db db')
  then show ?case by (auto simp: SetVersionRetention_def ret_Set_def bind_err_Inr map_err_Inr side_def split: if_splits sum.splits)
next
  case (clear_retention c db db')
  then show ?case by (auto simp: ClearVersionRetention_def ret_Clear_def bind_err_Inr side_def)
qed (auto simp: proj_UpdateName_def proj_UpdateOwner_def proj_SoftDelete_def env_UpdateName_def env_SetRequireApproval_def env_SoftDelete_def
  cfg_SetRequireApproval_def cfg_SoftDelete_def dest: set_side prune_side key_step_side create_side update_side)

lemma destroy_op_requests: "destroy_op op db db' \<Longrightarrow> \<exists>P. config_edit_requests db' = filter P (config_edit_requests db)"
  by (induction rule: destroy_op.induct)
    (auto simp: proj_Destroy_def env_Destroy_def cfg_Destroy_def execAffectingOne_def delete_rows_def without_def Let_def split: if_splits)

text \<open>Whatever else runs, the edit requests stay as they are or go with their config.\<close>

lemma svc_step_requests: "svc_step kr db db' \<Longrightarrow> \<exists>P. config_edit_requests db' = filter P (config_edit_requests db)"
proof -
  assume "svc_step kr db db'"
  then consider op where "edit_op kr op db db'" | op where "destroy_op op db db'" by (auto simp: svc_step_def edit_step_def destroy_step_def)
  then show ?thesis
  proof cases
    case 1
    then have "config_edit_requests db' = filter (\<lambda>_. True) (config_edit_requests db)" using edit_op_side by (fastforce simp: side_def)
    then show ?thesis by blast
  qed (rule destroy_op_requests)
qed


section \<open>Approvals that race\<close>

text \<open>
  Any number of approvers run at once. Process \<open>p\<close> approves the request \<open>fst (job p)\<close> for the user \<open>snd (job p)\<close>; between its
  steps requests are submitted, rejected and cancelled and anything else may happen to the database that leaves the edit
  requests as they are or drops some with their config. \<open>commits\<close> records what was saved: the request, its requester, the
  approver and the version; \<open>drawn\<close> the ids in use, since a uuid is not drawn twice.
\<close>

datatype approval = Fresh | Checked ConfigEditRequest | Claimed ConfigEditRequest | Failed ConfigEditRequest
  | Saved ConfigEditRequest int | Finished

record race =
  shared :: secret_db
  procs :: "nat \<Rightarrow> approval"
  commits :: "(string \<times> string \<times> string \<times> int) list"
  drawn :: "string set"

definition go :: "nat \<Rightarrow> approval \<Rightarrow> race \<Rightarrow> race" where
  "go p a s = s\<lparr>procs := (procs s)(p := a)\<rparr>"

inductive race_step :: "Keyring \<Rightarrow> (string \<Rightarrow> bool) \<Rightarrow> (nat \<Rightarrow> string \<times> string) \<Rightarrow> race \<Rightarrow> race \<Rightarrow> bool" for kr is_user job where
  submit: "er_Submit kr is_user rdb i inp r now (shared s) = Inr (i', r', db') \<Longrightarrow> i \<notin> drawn s \<Longrightarrow>
    race_step kr is_user job s (s\<lparr>shared := db', drawn := insert i (drawn s)\<rparr>)"
| other: "config_edit_requests db' = filter P (config_edit_requests (shared s)) \<Longrightarrow> race_step kr is_user job s (s\<lparr>shared := db'\<rparr>)"
| reject: "Reject is_user i who now (shared s) = Inr db' \<Longrightarrow> race_step kr is_user job s (s\<lparr>shared := db'\<rparr>)"
| cancel: "Cancel is_user i who now (shared s) = Inr db' \<Longrightarrow> race_step kr is_user job s (s\<lparr>shared := db'\<rparr>)"
| check: "procs s p = Fresh \<Longrightarrow> approve_check (shared s) (fst (job p)) (snd (job p)) = Inr q \<Longrightarrow> race_step kr is_user job s (go p (Checked q) s)"
| check_fails: "procs s p = Fresh \<Longrightarrow> approve_check (shared s) (fst (job p)) (snd (job p)) = Inl e \<Longrightarrow> race_step kr is_user job s (go p Finished s)"
| claim: "procs s p = Checked q \<Longrightarrow> approve_claim (fst (job p)) (shared s) = Inr db' \<Longrightarrow>
    race_step kr is_user job s (go p (Claimed q) (s\<lparr>shared := db'\<rparr>))"
| claim_fails: "procs s p = Checked q \<Longrightarrow> approve_claim (fst (job p)) (shared s) = Inl e \<Longrightarrow> race_step kr is_user job s (go p Finished s)"
| save: "procs s p = Claimed q \<Longrightarrow>
    approve_save kr rdb commit q (snd (job p)) fresh cvID walk r now (shared s) = (Inr (res, r'), db') \<Longrightarrow>
    race_step kr is_user job s (go p (Saved q (ar_Version res)) (s\<lparr>shared := db',
      commits := commits s @ [(fst (job p), er_RequestedBy q, snd (job p), ar_Version res)]\<rparr>))"
| save_fails: "procs s p = Claimed q \<Longrightarrow>
    approve_save kr rdb commit q (snd (job p)) fresh cvID walk r now (shared s) = (Inl e, db') \<Longrightarrow>
    race_step kr is_user job s (go p (Failed q) (s\<lparr>shared := db'\<rparr>))"
| revert: "procs s p = Failed q \<Longrightarrow> race_step kr is_user job s (go p Finished (s\<lparr>shared := revert_claim (fst (job p)) (shared s)\<rparr>))"
| mark: "procs s p = Saved q v \<Longrightarrow> er_MarkApplied is_user (fst (job p)) (snd (job p)) v now (shared s) = Inr db' \<Longrightarrow>
    race_step kr is_user job s (go p Finished (s\<lparr>shared := db'\<rparr>))"
| mark_fails: "procs s p = Saved q v \<Longrightarrow> er_MarkApplied is_user (fst (job p)) (snd (job p)) v now (shared s) = Inl e \<Longrightarrow>
    race_step kr is_user job s (go p Finished s)"

definition race_start :: "secret_db \<Rightarrow> race" where
  "race_start db = \<lparr>shared = db, procs = (\<lambda>_. Fresh), commits = [], drawn = {}\<rparr>"

subsection \<open>The statements on the table\<close>

lemma update_edit_Inr:
  "execAffectingOne (update_edit P f db) = Inr db' \<longleftrightarrow> (\<exists>q\<in>set (config_edit_requests db). P q) \<and>
    db' = db\<lparr>config_edit_requests := map (\<lambda>q. if P q then f q else q) (config_edit_requests db)\<rparr>"
  by (auto simp: execAffectingOne_def update_edit_def update_rows_def filter_empty_conv)

lemma resolve_edit_Inr:
  "execAffectingOne (resolve_edit is_user P who f db) = Inr db' \<longleftrightarrow> is_user who \<and> (\<exists>q\<in>set (config_edit_requests db). P q) \<and>
    db' = db\<lparr>config_edit_requests := map (\<lambda>q. if P q then f (q\<lparr>er_ResolvedBy := Some who\<rparr>) else q) (config_edit_requests db)\<rparr>"
  by (auto simp: resolve_edit_def update_edit_Inr) (simp add: execAffectingOne_def)

lemma edit_update_beside: "beside db (db\<lparr>config_edit_requests := x\<rparr>)"
  by (simp add: beside_def)

lemma map_err_Inr_iff: "map_err f m = Inr x \<longleftrightarrow> m = Inr x"
  by (cases m) auto

lemma approve_check_Inr:
  "approve_check db i approver = Inr q \<longleftrightarrow> er_Get db i = Inr q \<and> er_Status q = ''pending'' \<and> approver \<noteq> er_RequestedBy q"
  by (auto simp: approve_check_def bind_err_Inr map_err_Inr_iff)

lemma er_Get_Inr: "er_Get db i = Inr q \<Longrightarrow> q \<in> set (config_edit_requests db) \<and> er_ID q = i"
  by (auto simp: er_Get_def dest: one_row_Inr)

lemma approve_save_requests:
  "approve_save kr rdb commit q approver fresh cvID walk r now db = (res, db') \<Longrightarrow> config_edit_requests db' = config_edit_requests db"
  by (auto simp: approve_save_def side_def dest!: set_side split: sum.splits option.splits prod.splits)

definition submitted_row :: "string \<Rightarrow> CreateInput \<Rightarrow> EditRequestBlob \<Rightarrow> int \<Rightarrow> ConfigEditRequest" where
  "submitted_row i inp blob now =
    \<lparr>er_ID = i, er_ConfigID = ci_ConfigID inp, er_RequestedBy = ci_RequestedBy inp, er_Reason = ci_Reason inp, er_Status = ''pending'',
     er_ProposedCiphertext = bl_Ciphertext blob, er_WrappedDEK = bl_WrappedDEK blob, er_Nonce = bl_Nonce blob,
     er_DEKKeyVersion = bl_DEKKeyVersion blob, er_ChangedKeys = stored_keys (map sc_Key (ci_Changes inp)), er_Message = ci_Message inp,
     er_ResolvedBy = None, er_ResolvedAt = None, er_AppliedVersion = None, er_CreatedAt = now\<rparr>"

lemma submitted_row_simps [simp]:
  "er_ID (submitted_row i inp blob now) = i" "er_Status (submitted_row i inp blob now) = ''pending''"
  "er_ConfigID (submitted_row i inp blob now) = ci_ConfigID inp" "er_RequestedBy (submitted_row i inp blob now) = ci_RequestedBy inp"
  "er_DEKKeyVersion (submitted_row i inp blob now) = bl_DEKKeyVersion blob" "blob_of (submitted_row i inp blob now) = blob"
  by (simp_all add: submitted_row_def blob_of_def)

lemma er_Submit_Inr:
  assumes "er_Submit kr is_user rdb i inp r now db = Inr (i', r', db')"
  obtains blob where "EncryptConfigBlob kr rdb (ci_ConfigID inp) (marshal_proposal (map propose (ci_Changes inp))) r = Inr (blob, r')"
    "i' = i" "i \<notin> er_ID ` set (config_edit_requests db)" "is_user (ci_RequestedBy inp)"
    "db' = db\<lparr>config_edit_requests := config_edit_requests db @ [submitted_row i inp blob now]\<rparr>"
proof -
  obtain blob row where b: "EncryptConfigBlob kr rdb (ci_ConfigID inp) (marshal_proposal (map propose (ci_Changes inp))) r = Inr (blob, r')"
    and c: "er_Create is_user i ((submitted_row i inp blob 0)\<lparr>er_ID := '''', er_Status := '''', er_ChangedKeys := map sc_Key (ci_Changes inp)\<rparr>) now db = Inr (row, db')"
    and i: "i' = er_ID row"
    using assms by (auto simp: er_Submit_def bind_err_Inr map_err_Inr_iff submitted_row_def)
  then show thesis
    by (intro that [of blob]) (auto simp: er_Create_def Let_def submitted_row_def split: if_splits)
qed


subsection \<open>The invariant\<close>

definition unsaved :: "approval \<Rightarrow> bool" where
  "unsaved a \<longleftrightarrow> (\<exists>q. a = Claimed q \<or> a = Failed q)"

definition holding :: "approval \<Rightarrow> bool" where
  "holding a \<longleftrightarrow> unsaved a \<or> (\<exists>q v. a = Saved q v)"

definition request_of :: "approval \<Rightarrow> ConfigEditRequest option" where
  "request_of a = (case a of Checked q \<Rightarrow> Some q | Claimed q \<Rightarrow> Some q | Failed q \<Rightarrow> Some q | Saved q v \<Rightarrow> Some q | _ \<Rightarrow> None)"

lemma approval_simps [simp]:
  "unsaved (Claimed q)" "unsaved (Failed q)" "\<not> unsaved (Saved q v)" "\<not> unsaved Fresh" "\<not> unsaved Finished" "\<not> unsaved (Checked q)"
  "holding (Claimed q)" "holding (Failed q)" "holding (Saved q v)" "\<not> holding Fresh" "\<not> holding Finished" "\<not> holding (Checked q)"
  "request_of (Checked q) = Some q" "request_of (Claimed q) = Some q" "request_of (Failed q) = Some q" "request_of (Saved q v) = Some q"
  "request_of Fresh = None" "request_of Finished = None"
  by (simp_all add: unsaved_def holding_def request_of_def)

text \<open>
  Of the table: ids are unique and drawn; a held request is being applied; a saved one is being applied or applied, and an
  applied one was saved as it says. Of the processes: a request has one holder, who has not saved it twice; whoever got
  past the check is not the requester.
\<close>

definition table_inv :: "(nat \<Rightarrow> string \<times> string) \<Rightarrow> race \<Rightarrow> ConfigEditRequest \<Rightarrow> bool" where
  "table_inv job s row \<longleftrightarrow> er_ID row \<in> drawn s \<and>
     (\<forall>p. holding (procs s p) \<longrightarrow> fst (job p) = er_ID row \<longrightarrow> er_Status row = ''applying'') \<and>
     (\<forall>p q. request_of (procs s p) = Some q \<longrightarrow> fst (job p) = er_ID row \<longrightarrow> er_RequestedBy row = er_RequestedBy q) \<and>
     (er_ID row \<in> fst ` set (commits s) \<longrightarrow> er_Status row = ''applying'' \<or> er_Status row = ''applied'') \<and>
     (er_Status row = ''applied'' \<longrightarrow> (\<exists>a v. er_ResolvedBy row = Some a \<and> er_AppliedVersion row = Some v \<and>
        (er_ID row, er_RequestedBy row, a, v) \<in> set (commits s)))"

definition proc_inv :: "(nat \<Rightarrow> string \<times> string) \<Rightarrow> race \<Rightarrow> nat \<Rightarrow> bool" where
  "proc_inv job s p \<longleftrightarrow>
     (\<forall>p'. holding (procs s p) \<longrightarrow> holding (procs s p') \<longrightarrow> fst (job p) = fst (job p') \<longrightarrow> p = p') \<and>
     (unsaved (procs s p) \<longrightarrow> fst (job p) \<notin> fst ` set (commits s)) \<and>
     (\<forall>q. request_of (procs s p) = Some q \<longrightarrow> fst (job p) \<in> drawn s \<and> er_RequestedBy q \<noteq> snd (job p)) \<and>
     (\<forall>q v. procs s p = Saved q v \<longrightarrow> (fst (job p), er_RequestedBy q, snd (job p), v) \<in> set (commits s))"

definition commit_inv :: "race \<Rightarrow> bool" where
  "commit_inv s \<longleftrightarrow> distinct (map fst (commits s)) \<and> fst ` set (commits s) \<subseteq> drawn s \<and> (\<forall>(i, rq, ap, v)\<in>set (commits s). rq \<noteq> ap)"

definition race_inv :: "(nat \<Rightarrow> string \<times> string) \<Rightarrow> race \<Rightarrow> bool" where
  "race_inv job s \<longleftrightarrow> distinct (map er_ID (config_edit_requests (shared s))) \<and>
     (\<forall>row\<in>set (config_edit_requests (shared s)). table_inv job s row) \<and> (\<forall>p. proc_inv job s p) \<and> commit_inv s"

lemma go_simps [simp]: "shared (go p a s) = shared s" "procs (go p a s) = (procs s)(p := a)" "commits (go p a s) = commits s" "drawn (go p a s) = drawn s"
  by (simp_all add: go_def)

text \<open>A statement that rewrites rows under the same id and requester.\<close>

lemma race_inv_rows:
  assumes inv: "race_inv job s" and tab: "config_edit_requests db' = map f (config_edit_requests (shared s))"
    and f: "\<And>row. er_ID (f row) = er_ID row \<and> er_RequestedBy (f row) = er_RequestedBy row"
    and ok: "\<And>row. row \<in> set (config_edit_requests (shared s)) \<Longrightarrow> table_inv job s row \<Longrightarrow> f row \<noteq> row \<Longrightarrow> table_inv job s (f row)"
  shows "race_inv job (s\<lparr>shared := db'\<rparr>)"
proof -
  have "map er_ID (map f rows) = map er_ID rows" for rows using f by simp
  moreover have "table_inv job (s\<lparr>shared := db'\<rparr>) row \<longleftrightarrow> table_inv job s row" "proc_inv job (s\<lparr>shared := db'\<rparr>) p \<longleftrightarrow> proc_inv job s p"
    "commit_inv (s\<lparr>shared := db'\<rparr>) \<longleftrightarrow> commit_inv s" for row p by (simp_all add: table_inv_def proc_inv_def commit_inv_def)
  moreover have "table_inv job s (f row)" if "row \<in> set (config_edit_requests (shared s))" for row
    using ok [OF that] inv that by (cases "f row = row") (auto simp: race_inv_def)
  ultimately show ?thesis using inv tab unfolding race_inv_def by (auto simp del: map_map)
qed

lemma race_inv_same_table:
  assumes "race_inv job s" "config_edit_requests db' = filter P (config_edit_requests (shared s))"
  shows "race_inv job (s\<lparr>shared := db'\<rparr>)"
  using assms by (auto simp: race_inv_def table_inv_def proc_inv_def commit_inv_def distinct_map_filter)

lemma race_inv_decide:
  assumes inv: "race_inv job s" and d: "er_Decide is_user i to who now (shared s) = Inr db'" and to: "to \<noteq> ''applying''" "to \<noteq> ''applied''"
  shows "race_inv job (s\<lparr>shared := db'\<rparr>)"
proof -
  have "config_edit_requests db' = map (\<lambda>q. if with_status i ''pending'' q then q\<lparr>er_ResolvedBy := Some who, er_Status := to, er_ResolvedAt := Some now\<rparr> else q)
      (config_edit_requests (shared s))"
    using d by (auto simp: er_Decide_def resolve_edit_Inr)
  then show ?thesis
    by (rule race_inv_rows [OF inv]) (use to in \<open>auto simp: with_status_def table_inv_def split: if_splits\<close>)
qed


lemma race_inv_row: "race_inv job s \<Longrightarrow> row \<in> set (config_edit_requests (shared s)) \<Longrightarrow> table_inv job s row"
  by (simp add: race_inv_def)

lemma race_inv_proc: "race_inv job s \<Longrightarrow> proc_inv job s p"
  by (simp add: race_inv_def)

lemma table_invD:
  assumes "table_inv job s row" "fst (job p) = er_ID row"
  shows "holding (procs s p) \<Longrightarrow> er_Status row = ''applying''" "request_of (procs s p) = Some q \<Longrightarrow> er_RequestedBy row = er_RequestedBy q"
  using assms unfolding table_inv_def by blast+

lemma race_inv_check:
  assumes inv: "race_inv job s" and p: "procs s p = Fresh" and c: "approve_check (shared s) (fst (job p)) (snd (job p)) = Inr q"
  shows "race_inv job (go p (Checked q) s)"
proof -
  have q: "q \<in> set (config_edit_requests (shared s))" "er_ID q = fst (job p)" "er_RequestedBy q \<noteq> snd (job p)"
    using c er_Get_Inr by (auto simp: approve_check_Inr)
  have uniq: "row = q" if "row \<in> set (config_edit_requests (shared s))" "er_ID row = fst (job p)" for row
    using inv q(1,2) that by (auto simp: race_inv_def dest: distinct_map_inj)
  have t: "table_inv job (go p (Checked q) s) row" if "row \<in> set (config_edit_requests (shared s))" for row
    using race_inv_row [OF inv that] uniq [OF that] unfolding table_inv_def by auto
  have "proc_inv job (go p (Checked q) s) p'" for p'
    using race_inv_proc [OF inv, of p'] race_inv_row [OF inv q(1)] q unfolding proc_inv_def table_inv_def by auto
  then show ?thesis using inv t by (simp add: race_inv_def commit_inv_def)
qed

lemma race_inv_finish:
  assumes inv: "race_inv job s"
  shows "race_inv job (go p Finished s)"
proof -
  have "table_inv job (go p Finished s) row" if "table_inv job s row" for row using that unfolding table_inv_def by auto
  moreover have "proc_inv job (go p Finished s) p'" if "proc_inv job s p'" for p' using that unfolding proc_inv_def by auto
  ultimately show ?thesis using inv by (simp add: race_inv_def commit_inv_def)
qed

lemma race_inv_claim:
  assumes inv: "race_inv job s" and p: "procs s p = Checked q" and c: "approve_claim (fst (job p)) (shared s) = Inr db'"
  shows "race_inv job (go p (Claimed q) (s\<lparr>shared := db'\<rparr>))"
proof -
  let ?R = "config_edit_requests (shared s)"
  obtain r0 where r0: "r0 \<in> set ?R" "er_ID r0 = fst (job p)" "er_Status r0 = ''pending''"
    and tab: "config_edit_requests db' = map (\<lambda>q. if with_status (fst (job p)) ''pending'' q then q\<lparr>er_Status := ''applying''\<rparr> else q) ?R"
    using c by (auto simp: approve_claim_def map_err_Inr_iff ClaimForApply_def update_edit_Inr with_status_def)
  have t0: "table_inv job s r0" by (rule race_inv_row [OF inv r0(1)])
  have free: "fst (job p') \<noteq> fst (job p)" if "holding (procs s p')" for p' using t0 that r0(2,3) by (auto simp: table_inv_def)
  have new: "fst (job p) \<notin> fst ` set (commits s)" using t0 r0(2,3) by (auto simp: table_inv_def)
  have uniq: "row = r0" if "row \<in> set ?R" "er_ID row = fst (job p)" for row
    using inv r0(1,2) that by (auto simp: race_inv_def dest: distinct_map_inj)
  let ?s = "go p (Claimed q) (s\<lparr>shared := db'\<rparr>)"
  have "table_inv job ?s row'" if row: "row' \<in> set (config_edit_requests db')" for row'
  proof -
    obtain row where r: "row \<in> set ?R" "row' = (if with_status (fst (job p)) ''pending'' row then row\<lparr>er_Status := ''applying''\<rparr> else row)"
      using row tab by auto
    show ?thesis
    proof (cases "er_ID row = fst (job p)")
      case True
      then have "row' = r0\<lparr>er_Status := ''applying''\<rparr>" using uniq [OF r(1)] r(2) r0 by (simp add: with_status_def)
      then show ?thesis using t0 r0(2) table_invD(2) [OF t0, of p q] p new unfolding table_inv_def by auto
    next
      case False
      then have "row' = row" using r(2) by (simp add: with_status_def)
      then show ?thesis using race_inv_row [OF inv r(1)] False unfolding table_inv_def by auto
    qed
  qed
  moreover have "proc_inv job ?s p'" for p'
  proof (cases "p' = p")
    case True
    have "\<forall>p'. holding (procs s p') \<longrightarrow> fst (job p) \<noteq> fst (job p')" using free by metis
    then show ?thesis using race_inv_proc [OF inv, of p] new p True unfolding proc_inv_def by auto
  next
    case False
    have "holding (procs s p') \<longrightarrow> fst (job p') \<noteq> fst (job p)" using free by blast
    then show ?thesis using race_inv_proc [OF inv, of p'] False unfolding proc_inv_def by auto
  qed
  moreover have "distinct (map er_ID (config_edit_requests db'))"
  proof -
    have "map er_ID (config_edit_requests db') = map er_ID ?R" unfolding tab by simp
    then show ?thesis using inv by (simp add: race_inv_def)
  qed
  ultimately show ?thesis using inv by (simp add: race_inv_def commit_inv_def)
qed

lemma race_inv_save:
  assumes inv: "race_inv job s" and p: "procs s p = Claimed q" and same: "config_edit_requests db' = config_edit_requests (shared s)"
  shows "race_inv job (go p (Saved q v) (s\<lparr>shared := db', commits := commits s @ [(fst (job p), er_RequestedBy q, snd (job p), v)]\<rparr>))"
    (is "race_inv job ?s")
proof -
  have pp: "fst (job p) \<notin> fst ` set (commits s)" "fst (job p) \<in> drawn s" "er_RequestedBy q \<noteq> snd (job p)"
    using race_inv_proc [OF inv, of p] p by (auto simp: proc_inv_def)
  have free: "fst (job p') \<noteq> fst (job p)" if "holding (procs s p')" "p' \<noteq> p" for p'
    using race_inv_proc [OF inv, of p] p that unfolding proc_inv_def by auto
  have "table_inv job ?s row" if "row \<in> set (config_edit_requests (shared s))" for row
    using race_inv_row [OF inv that] table_invD [OF race_inv_row [OF inv that], of p] p unfolding table_inv_def by (auto split: if_splits)
  moreover have "proc_inv job ?s p'" for p'
  proof (cases "p' = p")
    case True
    then show ?thesis using race_inv_proc [OF inv, of p] p unfolding proc_inv_def by auto
  next
    case False
    have "\<not> (unsaved (procs s p') \<and> fst (job p') = fst (job p))" using free [of p'] False by (auto simp: holding_def)
    then show ?thesis using race_inv_proc [OF inv, of p'] False free p unfolding proc_inv_def by auto
  qed
  moreover have "commit_inv ?s" using inv pp by (auto simp: race_inv_def commit_inv_def)
  ultimately show ?thesis using inv same by (simp add: race_inv_def)
qed


text \<open>The last step of a holder: it lets go of the request, whose row becomes pending again or applied.\<close>

lemma race_inv_release:
  assumes inv: "race_inv job s" and p: "holding (procs s p)"
    and tab: "config_edit_requests db' = map (\<lambda>r. if with_status (fst (job p)) ''applying'' r then f r else r) (config_edit_requests (shared s))"
    and f: "\<And>r. er_ID (f r) = er_ID r \<and> er_RequestedBy (f r) = er_RequestedBy r"
    and fin: "\<And>r. er_ID r = fst (job p) \<Longrightarrow> table_inv job s r \<Longrightarrow> er_Status (f r) \<noteq> ''applied'' \<and> fst (job p) \<notin> fst ` set (commits s) \<or>
      (\<exists>a v. er_Status (f r) = ''applied'' \<and> er_ResolvedBy (f r) = Some a \<and> er_AppliedVersion (f r) = Some v \<and>
        (fst (job p), er_RequestedBy r, a, v) \<in> set (commits s))"
  shows "race_inv job (go p Finished (s\<lparr>shared := db'\<rparr>))"
proof -
  let ?R = "config_edit_requests (shared s)"
  let ?s = "go p Finished (s\<lparr>shared := db'\<rparr>)"
  have free: "fst (job p') \<noteq> fst (job p)" if "holding (procs s p')" "p' \<noteq> p" for p'
    using race_inv_proc [OF inv, of p] p that unfolding proc_inv_def by auto
  have "table_inv job ?s row'" if row: "row' \<in> set (config_edit_requests db')" for row'
  proof -
    obtain row where r: "row \<in> set ?R" "row' = (if with_status (fst (job p)) ''applying'' row then f row else row)" using row tab by auto
    have t: "table_inv job s row" by (rule race_inv_row [OF inv r(1)])
    show ?thesis
    proof (cases "er_ID row = fst (job p)")
      case True
      then have "row' = f row" using r(2) table_invD(1) [OF t, of p] p by (simp add: with_status_def)
      then show ?thesis using t f [of row] fin [OF True t] True unfolding table_inv_def by (auto dest: free)
    next
      case False
      then have "row' = row" using r(2) by (simp add: with_status_def)
      then show ?thesis using t False unfolding table_inv_def by auto
    qed
  qed
  moreover have "proc_inv job ?s p'" for p' using race_inv_proc [OF inv, of p'] unfolding proc_inv_def by auto
  moreover have "map er_ID (config_edit_requests db') = map er_ID ?R" unfolding tab using f by simp
  ultimately show ?thesis using inv by (simp add: race_inv_def commit_inv_def)
qed

lemma race_inv_revert:
  assumes inv: "race_inv job s" and p: "procs s p = Failed q"
  shows "race_inv job (go p Finished (s\<lparr>shared := revert_claim (fst (job p)) (shared s)\<rparr>))"
proof (cases "RevertApplying (fst (job p)) (shared s)")
  case (Inl e)
  then show ?thesis using race_inv_finish [OF inv, of p] by (simp add: revert_claim_def)
next
  case (Inr db')
  then have tab: "config_edit_requests db' = map (\<lambda>r. if with_status (fst (job p)) ''applying'' r then r\<lparr>er_Status := ''pending''\<rparr> else r)
      (config_edit_requests (shared s))" by (auto simp: RevertApplying_def update_edit_Inr)
  have "fst (job p) \<notin> fst ` set (commits s)" using race_inv_proc [OF inv, of p] p by (simp add: proc_inv_def)
  then show ?thesis
    using race_inv_release [OF inv _ tab] p Inr by (simp add: revert_claim_def)
qed

lemma race_inv_mark:
  assumes inv: "race_inv job s" and p: "procs s p = Saved q v"
    and m: "er_MarkApplied is_user (fst (job p)) (snd (job p)) v now (shared s) = Inr db'"
  shows "race_inv job (go p Finished (s\<lparr>shared := db'\<rparr>))"
proof -
  have tab: "config_edit_requests db' = map (\<lambda>r. if with_status (fst (job p)) ''applying'' r
      then r\<lparr>er_ResolvedBy := Some (snd (job p)), er_Status := ''applied'', er_ResolvedAt := Some now, er_AppliedVersion := Some v\<rparr> else r)
      (config_edit_requests (shared s))" using m by (auto simp: er_MarkApplied_def resolve_edit_Inr)
  have "(fst (job p), er_RequestedBy q, snd (job p), v) \<in> set (commits s)" using race_inv_proc [OF inv, of p] p by (simp add: proc_inv_def)
  moreover have "er_RequestedBy r = er_RequestedBy q" if "er_ID r = fst (job p)" "table_inv job s r" for r
    using table_invD(2) [OF that(2), of p q] that(1) p by simp
  ultimately show ?thesis using race_inv_release [OF inv _ tab] p by simp
qed

lemma race_inv_submit:
  assumes inv: "race_inv job s" and i: "i \<notin> drawn s" and sub: "er_Submit kr is_user rdb i inp r now (shared s) = Inr (i', r', db')"
  shows "race_inv job (s\<lparr>shared := db', drawn := insert i (drawn s)\<rparr>)"
proof -
  obtain blob where db: "db' = (shared s)\<lparr>config_edit_requests := config_edit_requests (shared s) @ [submitted_row i inp blob now]\<rparr>"
    using er_Submit_Inr [OF sub] by metis
  let ?s = "s\<lparr>shared := db', drawn := insert i (drawn s)\<rparr>"
  have old: "table_inv job ?s row" if "row \<in> set (config_edit_requests (shared s))" for row
    using race_inv_row [OF inv that] unfolding table_inv_def by auto
  have busy: "fst (job p) \<noteq> i" if "request_of (procs s p) = Some q" for p q
    using race_inv_proc [OF inv, of p] i that unfolding proc_inv_def by auto
  have idle: "fst (job p) \<noteq> i" if "holding (procs s p)" for p
    using busy [of p] that by (cases "procs s p") auto
  have "i \<notin> fst ` set (commits s)" using inv i by (auto simp: race_inv_def commit_inv_def)
  then have "table_inv job ?s (submitted_row i inp blob now)" by (auto simp: table_inv_def dest: busy idle)
  moreover have "proc_inv job ?s p" for p using race_inv_proc [OF inv, of p] unfolding proc_inv_def by auto
  moreover have "i \<notin> er_ID ` set (config_edit_requests (shared s))" using inv i by (auto simp: race_inv_def table_inv_def)
  ultimately show ?thesis using inv old by (auto simp: race_inv_def commit_inv_def db)
qed

lemma race_inv_fail:
  assumes inv: "race_inv job s" and p: "procs s p = Claimed q" and same: "config_edit_requests db' = config_edit_requests (shared s)"
  shows "race_inv job (go p (Failed q) (s\<lparr>shared := db'\<rparr>))" (is "race_inv job ?s")
proof -
  have req: "request_of (procs ?s p') = request_of (procs s p')" "holding (procs ?s p') = holding (procs s p')"
    "unsaved (procs ?s p') = unsaved (procs s p')" "procs ?s p' = Saved q' v \<longleftrightarrow> procs s p' = Saved q' v" for p' q' v
    by (simp_all add: p)
  have "table_inv job ?s row = table_inv job s row" "proc_inv job ?s p' = proc_inv job s p'" for row p'
    unfolding table_inv_def proc_inv_def req by simp_all
  then show ?thesis using inv same by (simp add: race_inv_def commit_inv_def)
qed

lemma race_step_inv: "race_step kr is_user job s s' \<Longrightarrow> race_inv job s \<Longrightarrow> race_inv job s'"
proof (induction rule: race_step.induct)
  case (reject i who now s db')
  then have "er_Decide is_user i ''rejected'' who now (shared s) = Inr db'"
    by (auto simp: Reject_def bind_err_Inr map_err_Inr_iff split: if_splits)
  then show ?case using race_inv_decide reject.prems by simp
next
  case (cancel i who now s db')
  then have "er_Decide is_user i ''cancelled'' who now (shared s) = Inr db'" by (simp add: Cancel_def map_err_Inr_iff)
  then show ?case using race_inv_decide cancel.prems by simp
next
  case (submit rdb i inp r now s i' r' db')
  show ?case by (rule race_inv_submit [OF submit.prems submit.hyps(2,1)])
next
  case (other db' P s)
  show ?case by (rule race_inv_same_table [OF other.prems other.hyps])
next
  case (check s p q)
  show ?case by (rule race_inv_check [OF check.prems check.hyps])
next
  case (claim s p q db')
  show ?case by (rule race_inv_claim [OF claim.prems claim.hyps])
next
  case (revert s p q)
  show ?case by (rule race_inv_revert [OF revert.prems revert.hyps])
next
  case (mark s p q v now db')
  show ?case by (rule race_inv_mark [OF mark.prems mark.hyps])
next
  case (save s p q rdb commit fresh cvID walk r now res r' db')
  show ?case by (rule race_inv_save [OF save.prems save.hyps(1) approve_save_requests [OF save.hyps(2)]])
next
  case (save_fails s p q rdb commit fresh cvID walk r now e db')
  show ?case by (rule race_inv_fail [OF save_fails.prems save_fails.hyps(1) approve_save_requests [OF save_fails.hyps(2)]])
qed (rule race_inv_finish, assumption)+

lemma race_start_inv: "config_edit_requests db = [] \<Longrightarrow> race_inv job (race_start db)"
  by (simp add: race_inv_def race_start_def proc_inv_def commit_inv_def)

lemma race_reachable_inv: "(race_step kr is_user job)\<^sup>*\<^sup>* (race_start db) s \<Longrightarrow> config_edit_requests db = [] \<Longrightarrow> race_inv job s"
  by (induction rule: rtranclp_induct) (auto intro: race_start_inv race_step_inv)


section \<open>What an approval saves\<close>

lemma beside_vault: "beside db db' \<Longrightarrow> vault_of kr db' = vault_of kr db" "beside db db' \<Longrightarrow> vault_inv kr db' \<longleftrightarrow> vault_inv kr db"
  by (simp_all add: vault_of_def vault_inv_def beside_shown beside_wf fun_eq_iff)

lemma keeps_vault: "keeps_secrets kr db db' \<Longrightarrow> vault_inv kr db \<Longrightarrow> vault_inv kr db' \<and> vault_of kr db' = vault_of kr db"
  using keeps_max_version [of db kr db'] by (simp add: keeps_secrets_def vault_inv_def vault_of_def fun_eq_iff)

lemma key_step_vault: "key_step kr db db' \<Longrightarrow> vault_inv kr db \<Longrightarrow> vault_inv kr db' \<and> vault_of kr db' = vault_of kr db"
proof -
  assume step: "key_step kr db db'" and inv: "vault_inv kr db"
  then have "keeps_secrets kr db db'" by cases (auto intro: Rotate_keeps Rewrap_keeps simp: vault_inv_def)
  then show ?thesis using inv by (rule keeps_vault)
qed

lemma key_steps_vault:
  "(key_step kr)\<^sup>*\<^sup>* db db' \<Longrightarrow> vault_inv kr db \<Longrightarrow> vault_inv kr db' \<and> vault_of kr db' = vault_of kr db \<and> side db' = side db"
  by (induction rule: rtranclp_induct) (auto simp: key_step_side dest: key_step_vault)

lemma set_pushes:
  assumes inv: "vault_inv kr db" and order: "distinct order" "set order = sc_Key ` set changes"
    and run: "SetSecrets kr db commit c changes msg actor fresh cvID order r now db = (Inr (cv, r'), db')"
  shows "vault_inv kr db'" "vault_of kr db' = push c (apply_batch changes (current (vault_of kr db) c)) (vault_of kr db)"
    "cv_Version cv = max_version db c + 1"
proof -
  have wf: "store_wf db" "readable kr db" using inv by (simp_all add: vault_inv_def)
  have "key_on_file db db c" using wf(1) by (simp add: key_on_file_refl store_wf_def)
  note sp = SetSecrets_spec [OF wf this order run]
  obtain m where m: "shown kr db' c (max_version db c + 1) = Some m" "content m = apply_batch changes (content (latest_shown kr db c))"
    using sp(5) by blast
  show "vault_of kr db' = push c (apply_batch changes (current (vault_of kr db) c)) (vault_of kr db)"
    using pushes [OF wf(1) sp(1,4) m(1) sp(6)] m(2) current_vault [OF wf(1)] by simp
  show "vault_inv kr db'" "cv_Version cv = max_version db c + 1" using sp by (simp_all add: vault_inv_def)
qed

lemma DecryptConfigBlob_edits:
  "DecryptConfigBlob kr (db\<lparr>config_edit_requests := x\<rparr>) c bl = DecryptConfigBlob kr db c bl"
proof -
  have "GetWrapped (db\<lparr>config_edit_requests := x\<rparr>) = GetWrapped db" by (intro ext) (simp add: GetWrapped_def)
  then have "forVersion kr (db\<lparr>config_edit_requests := x\<rparr>) = forVersion kr db" by (intro ext) (simp only: forVersion_def)
  then show ?thesis by (simp add: DecryptConfigBlob_def beside_shown(5) [OF edit_update_beside])
qed

lemma submit_readable:
  assumes inv: "vault_inv kr db" and sub: "er_Submit kr is_user db i inp r now db = Inr (i', r', db1)"
    and steps: "(key_step kr)\<^sup>*\<^sup>* db1 db2"
  obtains row where "i' = i" "er_ID row = i" "er_Status row = ''pending''" "er_RequestedBy row = ci_RequestedBy inp" "er_ConfigID row = ci_ConfigID inp"
    "config_edit_requests db2 = config_edit_requests db @ [row]" "i \<notin> er_ID ` set (config_edit_requests db)"
    "vault_inv kr db2" "vault_of kr db2 = vault_of kr db"
    "\<And>x. DecryptConfigBlob kr (db2\<lparr>config_edit_requests := x\<rparr>) (ci_ConfigID inp) (blob_of row) = Inr (marshal_proposal (map propose (ci_Changes inp)))"
proof -
  obtain blob where e: "EncryptConfigBlob kr db (ci_ConfigID inp) (marshal_proposal (map propose (ci_Changes inp))) r = Inr (blob, r')"
    and i: "i' = i" "i \<notin> er_ID ` set (config_edit_requests db)"
    and db1: "db1 = db\<lparr>config_edit_requests := config_edit_requests db @ [submitted_row i inp blob now]\<rparr>"
    using er_Submit_Inr [OF sub] by metis
  let ?row = "submitted_row i inp blob now"
  have b: "beside db db1" by (simp add: db1 edit_update_beside)
  then have inv1: "vault_inv kr db1" and v1: "vault_of kr db1 = vault_of kr db" using inv beside_vault by blast+
  have "EncryptConfigBlob kr db1 (ci_ConfigID inp) (marshal_proposal (map propose (ci_Changes inp))) r = Inr (blob, r')"
    using e beside_shown(5) [OF b] by (simp add: EncryptConfigBlob_def)
  then have d: "DecryptConfigBlob kr db2 (ci_ConfigID inp) blob = Inr (marshal_proposal (map propose (ci_Changes inp)))"
    using blob_survives [of db1 kr "ci_ConfigID inp" _ r blob r' ?row db2] inv1 steps by (simp add: vault_inv_def db1)
  note decrypt_same = DecryptConfigBlob_edits [of kr _ db2]
  then show thesis
    using key_steps_vault [OF steps inv1] v1 d i by (intro that [of ?row]) (auto simp: side_def db1 decrypt_same)
qed

lemma Approve_cases:
  assumes "Approve kr is_user commit i approver fresh cvID walk r now db = (out, db')"
  obtains (refused) e where "out = Inl e" "db' = db"
  | (failed) q db1 db2 e where "approve_check db i approver = Inr q" "approve_claim i db = Inr db1"
      "approve_save kr db1 commit q approver fresh cvID walk r now db1 = (Inl e, db2)" "out = Inl e" "db' = revert_claim i db2"
  | (unmarked) q db1 res r' e where "approve_check db i approver = Inr q" "approve_claim i db = Inr db1"
      "approve_save kr db1 commit q approver fresh cvID walk r now db1 = (Inr (res, r'), db')"
      "er_MarkApplied is_user i approver (ar_Version res) now db' = Inl e" "out = Inl (ErrConflictAfter res)"
  | (applied) q db1 db2 res r' where "approve_check db i approver = Inr q" "approve_claim i db = Inr db1"
      "approve_save kr db1 commit q approver fresh cvID walk r now db1 = (Inr (res, r'), db2)"
      "er_MarkApplied is_user i approver (ar_Version res) now db2 = Inr db'" "out = Inr (res, r')"
  using assms by (auto simp: Approve_def split: sum.splits prod.splits)


definition walks :: "(string list \<Rightarrow> string list) \<Rightarrow> bool" where
  "walks walk \<longleftrightarrow> (\<forall>ks. distinct (walk ks) \<and> set (walk ks) = set ks)"

lemma walksD: "walks walk \<Longrightarrow> distinct (walk ks)" "walks walk \<Longrightarrow> set (walk (map f xs)) = f ` set xs"
  by (simp_all add: walks_def)

lemma walks_remdups: "walks remdups"
  by (simp add: walks_def)

lemma update_last:
  assumes "i \<notin> er_ID ` set old" "er_ID row = i" "er_Status row = s"
  shows "map (\<lambda>q. if with_status i s q then f q else q) (old @ [row]) = old @ [f row]"
proof -
  have "map (\<lambda>q. if with_status i s q then f q else q) old = old" using assms(1) by (intro map_idI) (auto simp: with_status_def)
  then show ?thesis using assms(2,3) by (simp add: with_status_def)
qed

text \<open>The save of an approval is \<open>SetSecrets\<close> of the proposed changes.\<close>

lemma approve_save_proposal:
  assumes "DecryptConfigBlob kr db (er_ConfigID q) (blob_of q) = Inr (marshal_proposal (map propose chs))" "\<forall>ch\<in>set chs. utf8_change ch"
  shows "approve_save kr db commit q approver fresh cvID walk r now db =
    (case SetSecrets kr db commit (er_ConfigID q) chs (er_Message q) approver fresh cvID (walk (map sc_Key chs)) r now db of
       (Inl e, db') \<Rightarrow> (Inl (ErSvc e), db')
     | (Inr (cv, r'), db') \<Rightarrow> (Inr (\<lparr>ar_Version = cv_Version cv, ar_Keys = map sc_Key chs\<rparr>, r'), db'))"
proof -
  have "map (pc_Key \<circ> (valid_proposal \<circ> propose)) chs = map sc_Key chs"
    using assms(2) by (simp add: valid_proposal_def propose_def utf8_change_def valid_utf8_def)
  then show ?thesis
    using assms(1) accept_proposals [OF assms(2)] unfolding approve_save_def
    by (auto simp: unmarshal_marshal comp_def simp del: map_eq_conv split: prod.splits sum.splits)
qed

lemma approve_last:
  assumes tab: "config_edit_requests db = old @ [row]" and i: "i \<notin> er_ID ` set old" "er_ID row = i" "er_Status row = ''pending''"
  shows "approve_check db i approver = (if approver = er_RequestedBy row then Inl ErrSelfApproval else Inr row)"
    "approve_claim i db = Inr (db\<lparr>config_edit_requests := old @ [row\<lparr>er_Status := ''applying''\<rparr>]\<rparr>)"
proof -
  have "one_row (\<lambda>q. er_ID q = i) old = Inl ErrNotFound" using i(1) by (auto simp: one_row_Inl)
  then show "approve_check db i approver = (if approver = er_RequestedBy row then Inl ErrSelfApproval else Inr row)"
    using i by (simp add: approve_check_def er_Get_def tab one_row_snoc)
  have "\<exists>q\<in>set (config_edit_requests db). with_status i ''pending'' q" using i by (simp add: tab with_status_def)
  then have "ClaimForApply i db = Inr (db\<lparr>config_edit_requests := old @ [row\<lparr>er_Status := ''applying''\<rparr>]\<rparr>)"
    unfolding ClaimForApply_def update_edit_Inr tab update_last [OF i] by simp
  then show "approve_claim i db = Inr (db\<lparr>config_edit_requests := old @ [row\<lparr>er_Status := ''applying''\<rparr>]\<rparr>)" by (simp add: approve_claim_def)
qed

lemma release_last:
  assumes tab: "config_edit_requests db = old @ [row\<lparr>er_Status := ''applying''\<rparr>]" and i: "i \<notin> er_ID ` set old" "er_ID row = i" "er_Status row = ''pending''"
  shows "revert_claim i db = db\<lparr>config_edit_requests := old @ [row]\<rparr>"
    "is_user approver \<Longrightarrow> er_MarkApplied is_user i approver v now db = Inr (db\<lparr>config_edit_requests := old @
       [row\<lparr>er_Status := ''applied'', er_ResolvedBy := Some approver, er_ResolvedAt := Some now, er_AppliedVersion := Some v\<rparr>]\<rparr>)"
proof -
  have ex: "\<exists>q\<in>set (config_edit_requests db). with_status i ''applying'' q" using i by (simp add: tab with_status_def)
  have "row\<lparr>er_Status := ''pending''\<rparr> = row" using i(3) by (cases row) simp
  then have "RevertApplying i db = Inr (db\<lparr>config_edit_requests := old @ [row]\<rparr>)"
    using ex i unfolding RevertApplying_def update_edit_Inr tab by (subst update_last) simp_all
  then show "revert_claim i db = db\<lparr>config_edit_requests := old @ [row]\<rparr>" by (simp add: revert_claim_def)
  show "er_MarkApplied is_user i approver v now db = Inr (db\<lparr>config_edit_requests := old @
       [row\<lparr>er_Status := ''applied'', er_ResolvedBy := Some approver, er_ResolvedAt := Some now, er_AppliedVersion := Some v\<rparr>]\<rparr>)" if "is_user approver"
    using ex i that unfolding er_MarkApplied_def resolve_edit_Inr tab by (subst update_last) simp_all
qed

text \<open>
  C9. An approval saves the proposal and nothing else: after a submission with UTF-8 texts and any key rotations and re-wraps, the
  requester's own approval is refused and changes nothing; when an approval succeeds the approver is another user, the config
  has one new version, the proposed batch applied to what the config held, everything else in the vault is as before and
  the request is marked with the approver and that version; when a user's approval fails, secrets and requests are unchanged.
\<close>

theorem approved_edit_is_proposal:
  assumes "vault_inv kr db" and "er_Submit kr is_user db i inp r now db = Inr (i', r', db1)"
    and "\<forall>ch\<in>set (ci_Changes inp). utf8_change ch" and "(key_step kr)\<^sup>*\<^sup>* db1 db2"
    and "walks walk"
    and "Approve kr is_user commit i' approver fresh cvID walk r2 now2 db2 = (out, db3)"
  shows "(approver = ci_RequestedBy inp \<longrightarrow> out = Inl ErrSelfApproval \<and> db3 = db2) \<and>
    (case out of
       Inr (res, _) \<Rightarrow> approver \<noteq> ci_RequestedBy inp \<and> ar_Keys res = map sc_Key (ci_Changes inp) \<and>
         ar_Version res = max_version db (ci_ConfigID inp) + 1 \<and>
         vault_of kr db3 = push (ci_ConfigID inp) (apply_batch (ci_Changes inp) (current (vault_of kr db) (ci_ConfigID inp))) (vault_of kr db) \<and>
         (\<exists>row\<in>set (config_edit_requests db3). er_ID row = i' \<and> er_Status row = ''applied'' \<and> er_ResolvedBy row = Some approver \<and>
           er_AppliedVersion row = Some (ar_Version res))
     | Inl e \<Rightarrow> is_user approver \<longrightarrow> vault_of kr db3 = vault_of kr db \<and> config_edit_requests db3 = config_edit_requests db2)"
proof -
  obtain row where i: "i' = i" and row: "er_ID row = i" "er_Status row = ''pending''" "er_RequestedBy row = ci_RequestedBy inp" "er_ConfigID row = ci_ConfigID inp"
    and tab: "config_edit_requests db2 = config_edit_requests db @ [row]" and fresh: "i \<notin> er_ID ` set (config_edit_requests db)"
    and v: "vault_inv kr db2" "vault_of kr db2 = vault_of kr db"
    and d: "\<And>x. DecryptConfigBlob kr (db2\<lparr>config_edit_requests := x\<rparr>) (ci_ConfigID inp) (blob_of row) = Inr (marshal_proposal (map propose (ci_Changes inp)))"
    by (rule submit_readable [OF assms(1,2,4)]) blast
  let ?c = "ci_ConfigID inp" and ?old = "config_edit_requests db"
  let ?db = "db2\<lparr>config_edit_requests := ?old @ [row\<lparr>er_Status := ''applying''\<rparr>]\<rparr>"
  note steps = approve_last [OF tab fresh row(1,2)]
  show ?thesis
  proof (cases "approver = ci_RequestedBy inp")
    case True
    then show ?thesis using assms(6) steps(1) v row(3) by (auto simp: Approve_def i)
  next
    case False
    obtain sres db4 where set: "SetSecrets kr ?db commit ?c (ci_Changes inp) (er_Message row) approver fresh cvID (walk (map sc_Key (ci_Changes inp))) r2 now2 ?db = (sres, db4)" by fastforce
    have saved: "approve_save kr ?db commit row approver fresh cvID walk r2 now2 ?db = (case sres of Inl e \<Rightarrow> (Inl (ErSvc e), db4)
        | Inr (cv, r') \<Rightarrow> (Inr (\<lparr>ar_Version = cv_Version cv, ar_Keys = map sc_Key (ci_Changes inp)\<rparr>, r'), db4))"
      using approve_save_proposal [of kr ?db row "ci_Changes inp" commit approver fresh cvID walk r2 now2] d assms(3) set row(4)
      by (auto split: sum.splits)
    have b: "vault_inv kr ?db" "vault_of kr ?db = vault_of kr db" using v beside_vault [OF edit_update_beside] by simp_all
    have tab4: "config_edit_requests db4 = ?old @ [row\<lparr>er_Status := ''applying''\<rparr>]" using set_side [OF set] by (simp add: side_def)
    note rel = release_last [OF tab4 fresh row(1,2)]
    have run: "Approve kr is_user commit i approver fresh cvID walk r2 now2 db2 = (case sres of Inl e \<Rightarrow> (Inl (ErSvc e), revert_claim i db4)
        | Inr (cv, r') \<Rightarrow> (case er_MarkApplied is_user i approver (cv_Version cv) now2 db4 of Inl _ \<Rightarrow> (Inl (ErrConflictAfter \<lparr>ar_Version = cv_Version cv, ar_Keys = map sc_Key (ci_Changes inp)\<rparr>), db4)
          | Inr db5 \<Rightarrow> (Inr (\<lparr>ar_Version = cv_Version cv, ar_Keys = map sc_Key (ci_Changes inp)\<rparr>, r'), db5)))"
      using steps False row(3) saved by (auto simp: Approve_def split: sum.splits)
    show ?thesis
    proof (cases sres)
      case (Inl e)
      then have "db4 = ?db" using set SetSecrets_Inl by blast
      then have "db3 = db2\<lparr>config_edit_requests := ?old @ [row]\<rparr>" "out = Inl (ErSvc e)" using run Inl assms(6) rel(1) i by simp_all
      then show ?thesis using False v tab beside_vault [OF edit_update_beside] by simp
    next
      case (Inr x)
      obtain cv r' where x: "sres = Inr (cv, r')" using Inr by (cases x) simp
      have push: "vault_of kr db4 = push ?c (apply_batch (ci_Changes inp) (current (vault_of kr db) ?c)) (vault_of kr db)"
        "cv_Version cv = max_version ?db ?c + 1"
        using set_pushes [OF b(1) walksD [OF assms(5)]] set x b(2) by auto
      have m: "max_version ?db = max_version db" using b(2) by (simp add: vault_of_def)
      show ?thesis
      proof (cases "is_user approver")
        case True
        from rel(2) [of is_user approver "cv_Version cv" now2, OF True] show ?thesis
          using run x False assms(6) i beside_vault(1) [OF edit_update_beside, of kr] row(1) push m by auto
      next
        case False
        then have "er_MarkApplied is_user i approver (cv_Version cv) now2 db4 \<noteq> Inr db5" for db5
          by (simp add: er_MarkApplied_def resolve_edit_Inr)
        then have "out = Inl (ErrConflictAfter \<lparr>ar_Version = cv_Version cv, ar_Keys = map sc_Key (ci_Changes inp)\<rparr>)" using run x assms(6) i by (auto split: sum.splits)
        then show ?thesis using False \<open>approver \<noteq> ci_RequestedBy inp\<close> by simp
      qed
    qed
  qed
qed


text \<open>
  C8. A request is saved at most once and never by its requester: whatever approvals of whatever requests run at the same time, interleaved
  at every statement with submissions, rejections, cancellations and other work, no request is committed twice, no commit has
  the requester as its approver, no two processes hold the same request, and a request the table shows as applied was committed
  by the approver and as the version it names.
\<close>

theorem edit_request_applied_once:
  assumes "(race_step kr is_user job)\<^sup>*\<^sup>* (race_start db) s" "config_edit_requests db = []"
  shows "distinct (map fst (commits s)) \<and> (\<forall>(i, rq, ap, v)\<in>set (commits s). rq \<noteq> ap) \<and>
    (\<forall>p p'. holding (procs s p) \<longrightarrow> holding (procs s p') \<longrightarrow> fst (job p) = fst (job p') \<longrightarrow> p = p') \<and>
    (\<forall>row\<in>set (config_edit_requests (shared s)). er_Status row = ''applied'' \<longrightarrow>
      (\<exists>a v. er_ResolvedBy row = Some a \<and> er_AppliedVersion row = Some v \<and> (er_ID row, er_RequestedBy row, a, v) \<in> set (commits s)))"
proof -
  have inv: "race_inv job s" by (rule race_reachable_inv [OF assms])
  then have "commit_inv s" by (simp add: race_inv_def)
  moreover have "p = p'" if "holding (procs s p)" "holding (procs s p')" "fst (job p) = fst (job p')" for p p'
    using race_inv_proc [OF inv, of p] that by (simp add: proc_inv_def)
  moreover have "\<exists>a v. er_ResolvedBy row = Some a \<and> er_AppliedVersion row = Some v \<and> (er_ID row, er_RequestedBy row, a, v) \<in> set (commits s)"
    if "row \<in> set (config_edit_requests (shared s))" "er_Status row = ''applied''" for row
    using race_inv_row [OF inv that(1)] that(2) by (simp add: table_inv_def)
  ultimately show ?thesis by (simp add: commit_inv_def)
qed

subsection \<open>Witnesses\<close>

definition demo_edit :: CreateInput where
  "demo_edit = \<lparr>ci_ConfigID = ''c'', ci_Changes = demo_changes, ci_Message = '''', ci_Reason = ''fix'', ci_RequestedBy = ''ann''\<rparr>"

lemma demo_utf8: "\<forall>ch\<in>set (ci_Changes demo_edit). utf8_change ch"
proof -
  have "valid_utf8 ''K''" "valid_utf8 (string_of [1, 2, 3])" "valid_utf8 ''''"
    by (simp_all add: valid_utf8_def string_of_def to_valid_ascii)
  then show ?thesis by (simp add: demo_edit_def demo_changes_def utf8_change_def)
qed

lemma demo_proposal_size: "length (marshal_proposal (map propose demo_changes)) \<le> gcm_limit"
proof -
  have "length (print_json (JArr (map pc_json (map propose demo_changes)))) \<le> 200" by code_simp
  then show ?thesis by (simp add: marshal_proposal_def bytes_of_def gcm_limit_def)
qed

lemma demo_approve:
  "\<exists>blob db1 dbc res r0 r' dbs dbf. er_Submit demo_kr (\<lambda>_. True) demo_db ''e'' demo_edit (replicate 56 0) 1 demo_db = Inr (''e'', r0, db1) \<and>
     approve_check db1 ''e'' ''bob'' = Inr (submitted_row ''e'' demo_edit blob 1) \<and> approve_claim ''e'' db1 = Inr dbc \<and>
     approve_save demo_kr dbc None (submitted_row ''e'' demo_edit blob 1) ''bob'' id ''v1'' remdups (replicate 56 0) 2 dbc = (Inr (res, r'), dbs) \<and>
     er_MarkApplied (\<lambda>_. True) ''e'' ''bob'' (ar_Version res) 2 dbs = Inr dbf \<and> (\<forall>row\<in>set (config_edit_requests dbf). er_Status row = ''applied'')"
proof -
  obtain cfg where c: "resolveProject demo_db ''c'' = Inr (cfg, demo_project)" "c_ID cfg = ''c''" "cfg_Get demo_db ''c'' = Inr cfg"
    using demo_resolve by blast
  obtain blob r0 where e: "EncryptConfigBlob demo_kr demo_db ''c'' (marshal_proposal (map propose demo_changes)) (replicate 56 0) = Inr (blob, r0)"
    using EncryptConfigBlob_ok [OF demo_keyring(1) c(1) demo_key demo_proposal_size, of "replicate 56 0"] by auto
  let ?row = "submitted_row ''e'' demo_edit blob 1"
  have row_simps: "er_ConfigID ?row = ''c''" "er_Message ?row = ''''" "ci_Changes demo_edit = demo_changes"
    by (simp_all add: demo_edit_def submitted_row_def)
  let ?db1 = "demo_db\<lparr>config_edit_requests := [?row]\<rparr>"
  let ?dbc = "demo_db\<lparr>config_edit_requests := [?row\<lparr>er_Status := ''applying''\<rparr>]\<rparr>"
  have none: "config_edit_requests demo_db = []" "''c'' \<in> c_ID ` set (configs demo_db)" by (simp_all add: demo_db_def example_db_def)
  with e have sub: "er_Submit demo_kr (\<lambda>_. True) demo_db ''e'' demo_edit (replicate 56 0) 1 demo_db = Inr (''e'', r0, ?db1)"
    by (simp add: er_Submit_def er_Create_def demo_edit_def submitted_row_def Let_def)
  have inv: "vault_inv demo_kr demo_db" using demo_db_wf demo_db_readable by (simp add: vault_inv_def)
  obtain row where "config_edit_requests ?db1 = config_edit_requests demo_db @ [row]"
    and row: "\<And>x. DecryptConfigBlob demo_kr (?db1\<lparr>config_edit_requests := x\<rparr>) (ci_ConfigID demo_edit) (blob_of row) =
      Inr (marshal_proposal (map propose (ci_Changes demo_edit)))"
    by (rule submit_readable [OF inv sub rtranclp.rtrancl_refl]) blast
  then have d: "DecryptConfigBlob demo_kr ?dbc ''c'' blob = Inr (marshal_proposal (map propose demo_changes))"
    using row [of "[?row\<lparr>er_Status := ''applying''\<rparr>]"] none by (auto simp: demo_edit_def)
  have "resolveProject ?dbc ''c'' = Inr (cfg, demo_project)" "cfg_Get ?dbc (c_ID cfg) = Inr cfg"
    using c by (simp_all add: beside_shown(5) [OF edit_update_beside] cfg_Get_def)
  from SetSecrets_ok [OF demo_keyring(1) demo_valid this(1) demo_key this(2)]
  have "\<exists>cv r' db'. SetSecrets demo_kr ?dbc None ''c'' demo_changes '''' ''bob'' id ''v1'' (remdups (map sc_Key demo_changes)) (replicate 56 0) 2 ?dbc = (Inr (cv, r'), db')"
    by (simp add: demo_changes_def gcm_limit_def demo_db_def)
  then obtain cv r' dbs where set: "SetSecrets demo_kr ?dbc None ''c'' demo_changes '''' ''bob'' id ''v1'' (remdups (map sc_Key demo_changes)) (replicate 56 0) 2 ?dbc = (Inr (cv, r'), dbs)" by blast
  have "approve_save demo_kr ?dbc None ?row ''bob'' id ''v1'' remdups (replicate 56 0) 2 ?dbc =
      (Inr (\<lparr>ar_Version = cv_Version cv, ar_Keys = map sc_Key demo_changes\<rparr>, r'), dbs)"
    using approve_save_proposal [of demo_kr ?dbc ?row demo_changes None "''bob''" id "''v1''" remdups "replicate 56 0" 2] d demo_utf8 set row_simps
    by simp
  moreover have "config_edit_requests dbs = [?row\<lparr>er_Status := ''applying''\<rparr>]" using set_side [OF set] by (simp add: side_def)
  ultimately show ?thesis
    using sub approve_last(1) [of ?db1 "[]" ?row "''e''" "''bob''"] approve_last(2) [of ?db1 "[]" ?row "''e''"]
      release_last(2) [of dbs "[]" ?row "''e''" "\<lambda>_. True" "''bob''" "cv_Version cv" 2] by (auto simp: demo_edit_def)
qed

text \<open>Ann proposes a secret; after a rotation of the project's key her own approval is refused, and before it Bob's saves the secret.\<close>

theorem approved_edit_is_proposal_witness:
  "\<exists>r0 db1 res r' db3. er_Submit demo_kr (\<lambda>_. True) demo_db ''e'' demo_edit (replicate 56 0) 1 demo_db = Inr (''e'', r0, db1) \<and>
     Approve demo_kr (\<lambda>_. True) None ''e'' ''bob'' id ''v1'' remdups (replicate 56 0) 2 db1 = (Inr (res, r'), db3) \<and>
     ar_Version res = max_version demo_db ''c'' + 1 \<and>
     vault_of demo_kr db3 = push ''c'' (apply_batch demo_changes (current (vault_of demo_kr demo_db) ''c'')) (vault_of demo_kr demo_db) \<and>
     (\<exists>db2. Rotate demo_kr None ''p'' (replicate 44 7) 5 db1 = (Inr (2, []), db2) \<and>
       Approve demo_kr (\<lambda>_. True) None ''e'' ''ann'' id ''v1'' remdups (replicate 56 0) 6 db2 = (Inl ErrSelfApproval, db2))"
proof -
  have inv: "vault_inv demo_kr demo_db" using demo_db_wf demo_db_readable by (simp add: vault_inv_def)
  obtain blob db1 dbc res r0 r' dbs db3 where sub: "er_Submit demo_kr (\<lambda>_. True) demo_db ''e'' demo_edit (replicate 56 0) 1 demo_db = Inr (''e'', r0, db1)"
    and st: "approve_check db1 ''e'' ''bob'' = Inr (submitted_row ''e'' demo_edit blob 1)" "approve_claim ''e'' db1 = Inr dbc"
     "approve_save demo_kr dbc None (submitted_row ''e'' demo_edit blob 1) ''bob'' id ''v1'' remdups (replicate 56 0) 2 dbc = (Inr (res, r'), dbs)"
     "er_MarkApplied (\<lambda>_. True) ''e'' ''bob'' (ar_Version res) 2 dbs = Inr db3"
    using demo_approve by blast
  have run: "Approve demo_kr (\<lambda>_. True) None ''e'' ''bob'' id ''v1'' remdups (replicate 56 0) 2 db1 = (Inr (res, r'), db3)"
    using st by (simp add: Approve_def)
  have "projects db1 = projects demo_db" "project_kek_versions db1 = []" by (rule er_Submit_Inr [OF sub]; simp add: demo_db_def example_db_def)+
  then obtain db2 where rot: "Rotate demo_kr None ''p'' (replicate 44 7) 5 db1 = (Inr (2, []), db2)" using demo_rotate by blast
  obtain out db4 where own: "Approve demo_kr (\<lambda>_. True) None ''e'' ''ann'' id ''v1'' remdups (replicate 56 0) 6 db2 = (out, db4)" by fastforce
  have "(key_step demo_kr)\<^sup>*\<^sup>* db1 db2" using key_step.rotate [OF rot] by (rule r_into_rtranclp)
  from approved_edit_is_proposal [OF inv sub demo_utf8 this walks_remdups own]
  have "Approve demo_kr (\<lambda>_. True) None ''e'' ''ann'' id ''v1'' remdups (replicate 56 0) 6 db2 = (Inl ErrSelfApproval, db2)"
    using own by (simp add: demo_edit_def)
  moreover have "ar_Version res = max_version demo_db ''c'' + 1 \<and>
      vault_of demo_kr db3 = push ''c'' (apply_batch demo_changes (current (vault_of demo_kr demo_db) ''c'')) (vault_of demo_kr demo_db)"
    using approved_edit_is_proposal [OF inv sub demo_utf8 rtranclp.rtrancl_refl walks_remdups run] by (simp add: demo_edit_def)
  ultimately show ?thesis
    using sub run rot by (intro exI [of _ r0] exI [of _ db1] exI [of _ res] exI [of _ r'] exI [of _ db3]) simp
qed

theorem edit_request_applied_once_witness:
  "\<exists>s v. (race_step demo_kr (\<lambda>_. True) (\<lambda>_. (''e'', ''bob'')))\<^sup>*\<^sup>* (race_start demo_db) s \<and> commits s = [(''e'', ''ann'', ''bob'', v)] \<and>
     (\<forall>row\<in>set (config_edit_requests (shared s)). er_Status row = ''applied'' \<and> er_ResolvedBy row = Some ''bob'' \<and> er_AppliedVersion row = Some v)"
proof -
  let ?step = "race_step demo_kr (\<lambda>_. True) (\<lambda>_. (''e'', ''bob''))"
  obtain blob db1 dbc res r0 r' dbs db3 where sub: "er_Submit demo_kr (\<lambda>_. True) demo_db ''e'' demo_edit (replicate 56 0) 1 demo_db = Inr (''e'', r0, db1)"
    and st: "approve_check db1 ''e'' ''bob'' = Inr (submitted_row ''e'' demo_edit blob 1)" "approve_claim ''e'' db1 = Inr dbc"
     "approve_save demo_kr dbc None (submitted_row ''e'' demo_edit blob 1) ''bob'' id ''v1'' remdups (replicate 56 0) 2 dbc = (Inr (res, r'), dbs)"
     "er_MarkApplied (\<lambda>_. True) ''e'' ''bob'' (ar_Version res) 2 dbs = Inr db3"
    and ap: "\<forall>row\<in>set (config_edit_requests db3). er_Status row = ''applied''"
    using demo_approve by blast
  let ?q = "submitted_row ''e'' demo_edit blob 1"
  let ?c = "[(''e'', ''ann'', ''bob'', ar_Version res)]"
  let ?s0 = "race_start demo_db"
  let ?s1 = "?s0\<lparr>shared := db1, drawn := {''e''}\<rparr>"
  let ?s2 = "go 0 (Checked ?q) ?s1"
  let ?s3 = "go 0 (Claimed ?q) (?s2\<lparr>shared := dbc\<rparr>)"
  let ?s4 = "go 0 (Saved ?q (ar_Version res)) (?s3\<lparr>shared := dbs, commits := ?c\<rparr>)"
  let ?s5 = "go 0 Finished (?s4\<lparr>shared := db3\<rparr>)"
  have rq: "er_RequestedBy ?q = ''ann''" by (simp add: demo_edit_def)
  have "?step ?s0 ?s1" using race_step.submit [of demo_kr "\<lambda>_. True" demo_db "''e''" demo_edit "replicate 56 0" 1 ?s0] sub by (simp add: race_start_def)
  moreover have "?step ?s1 ?s2" by (rule race_step.check) (simp_all add: race_start_def st)
  moreover have "?step ?s2 ?s3" by (rule race_step.claim) (simp_all add: st race_start_def)
  moreover have "?step ?s3 ?s4"
    using race_step.save [of ?s3 0 ?q demo_kr dbc None "\<lambda>_. (''e'', ''bob'')" id "''v1''" remdups "replicate 56 0" 2] st rq
    by (simp add: race_start_def go_def)
  moreover have "?step ?s4 ?s5" by (rule race_step.mark [where now = 2]) (use st(4) in simp_all)
  ultimately have run: "?step\<^sup>*\<^sup>* ?s0 ?s5" by (meson rtranclp.rtrancl_into_rtrancl rtranclp.rtrancl_refl)
  have none: "config_edit_requests demo_db = []" by (simp add: demo_db_def example_db_def)
  have c: "commits ?s5 = ?c" by simp
  have "\<forall>row\<in>set (config_edit_requests (shared ?s5)). er_ResolvedBy row = Some ''bob'' \<and> er_AppliedVersion row = Some (ar_Version res)"
    using edit_request_applied_once [OF run none] ap by fastforce
  then show ?thesis using run c ap by (intro exI [of _ ?s5] exI [of _ "ar_Version res"]) simp
qed

end
