(* ===== verification/Promotion.thy ===== *)
theory Promotion
  imports Edit_Requests
begin

section \<open>Promotion\<close>

text \<open>
  \<^verbatim>\<open>internal/store/promotion.go\<close>, \<^verbatim>\<open>internal/store/promotion_requests.go\<close> and \<^verbatim>\<open>internal/promote\<close>: a project orders its
  environments in a pipeline; selected secrets of a config move to a config of the next environment, at once or
  after another user approved a request. An empty id is not a uuid, which the database reports as an error of its
  own. As for edit requests, the users are a predicate and texts are UTF-8 without NUL bytes.
\<close>

subsection \<open>Pipelines and locked keys\<close>

definition invalid_uuid :: store_err where
  "invalid_uuid = mapError (PgError ''22P02'')"

definition pipe_Get :: "secret_db \<Rightarrow> string \<Rightarrow> step_row list" where
  "pipe_Get db projectID = sort_key st_Position (filter (\<lambda>s. st_ProjectID s = projectID) (promotion_pipeline_steps db))"

text \<open>The unique keys of the table are a project's position and a project's environment.\<close>

fun insert_steps :: "string \<Rightarrow> nat \<Rightarrow> string list \<Rightarrow> secret_db \<Rightarrow> store_err + secret_db" where
  "insert_steps projectID i [] db = Inr db"
| "insert_steps projectID i (eid # eids) db =
    (if \<exists>s\<in>set (promotion_pipeline_steps db). st_ProjectID s = projectID \<and> (st_Position s = i \<or> st_EnvironmentID s = eid)
       then Inl (mapError unique_violation)
     else if projectID \<notin> p_ID ` set (projects db) \<or> eid \<notin> e_ID ` set (environments db) then Inl (mapError fk_violation)
     else insert_steps projectID (i + 1) eids (db\<lparr>promotion_pipeline_steps := promotion_pipeline_steps db @
       [\<lparr>st_ProjectID = projectID, st_Position = i, st_EnvironmentID = eid\<rparr>]\<rparr>))"

definition pipe_Set :: "store_err option \<Rightarrow> string \<Rightarrow> string list \<Rightarrow> secret_db \<Rightarrow> (store_err + unit) \<times> secret_db" where
  "pipe_Set commit projectID envIDs = withTx commit (\<lambda>db.
    bind_err (insert_steps projectID 0 envIDs
      (db\<lparr>promotion_pipeline_steps := filter (\<lambda>s. st_ProjectID s \<noteq> projectID) (promotion_pipeline_steps db)\<rparr>)) (\<lambda>db'. Inr ((), db')))"

definition NextEnv :: "secret_db \<Rightarrow> string \<Rightarrow> string \<Rightarrow> string option" where
  "NextEnv db projectID envID =
    (case filter (\<lambda>s. st_ProjectID s = projectID \<and> st_EnvironmentID s = envID) (promotion_pipeline_steps db) of
       [] \<Rightarrow> None
     | here # _ \<Rightarrow>
       (case filter (\<lambda>s. st_ProjectID s = projectID \<and> st_Position s = st_Position here + 1) (promotion_pipeline_steps db) of
          [] \<Rightarrow> None
        | next_step # _ \<Rightarrow> Some (st_EnvironmentID next_step)))"

definition key_locked :: "secret_db \<Rightarrow> string \<Rightarrow> string \<Rightarrow> bool" where
  "key_locked db configID key \<longleftrightarrow> (\<exists>l\<in>set (config_locked_keys db). lk_ConfigID l = configID \<and> lk_Key l = key)"

definition Lock :: "(string \<Rightarrow> bool) \<Rightarrow> string \<Rightarrow> string \<Rightarrow> string \<Rightarrow> secret_db \<Rightarrow> store_err + secret_db" where
  "Lock is_user configID key createdBy db =
    (if key_locked db configID key then Inr db
     else if configID \<notin> c_ID ` set (configs db) \<or> createdBy \<noteq> '''' \<and> \<not> is_user createdBy then Inl (mapError fk_violation)
     else Inr (db\<lparr>config_locked_keys := config_locked_keys db @ [\<lparr>lk_ConfigID = configID, lk_Key = key\<rparr>]\<rparr>))"

definition Unlock :: "string \<Rightarrow> string \<Rightarrow> secret_db \<Rightarrow> secret_db" where
  "Unlock configID key db = db\<lparr>config_locked_keys :=
     filter (\<lambda>l. \<not> (lk_ConfigID l = configID \<and> lk_Key l = key)) (config_locked_keys db)\<rparr>"

text \<open>\<open>collate\<close> is the sort key of the database's collation.\<close>

definition lk_List :: "(string \<Rightarrow> nat) \<Rightarrow> secret_db \<Rightarrow> string \<Rightarrow> string list" where
  "lk_List collate db configID = sort_key collate (map lk_Key (filter (\<lambda>l. lk_ConfigID l = configID) (config_locked_keys db)))"

definition AreLocked :: "secret_db \<Rightarrow> string \<Rightarrow> string list \<Rightarrow> string \<Rightarrow> bool" where
  "AreLocked db configID keys k \<longleftrightarrow> k \<in> set keys \<and> key_locked db configID k"

subsection \<open>The table of requests\<close>

definition update_request :: "(PromotionRequestRow \<Rightarrow> bool) \<Rightarrow> (PromotionRequestRow \<Rightarrow> PromotionRequestRow) \<Rightarrow> secret_db \<Rightarrow> pg_err + (nat \<times> secret_db)" where
  "update_request P f db = (let (n, t) = update_rows P f (promotion_requests db) in Inr (n, db\<lparr>promotion_requests := t\<rparr>))"

definition pm_Create :: "(string \<Rightarrow> bool) \<Rightarrow> string \<Rightarrow> PromotionRequestRow \<Rightarrow> int \<Rightarrow> secret_db \<Rightarrow> store_err + (PromotionRequestRow \<times> secret_db)" where
  "pm_Create is_user i rec now db =
    (if pr_TargetEnvID rec = '''' \<or> pr_RequestedBy rec = '''' then Inl invalid_uuid
     else if i \<in> pr_ID ` set (promotion_requests db) then Inl (mapError unique_violation)
     else if pr_ProjectID rec \<notin> p_ID ` set (projects db) \<or> pr_SourceConfigID rec \<notin> c_ID ` set (configs db) \<or>
       \<not> set_option (pr_TargetConfigID rec) \<subseteq> c_ID ` set (configs db) \<or> pr_TargetEnvID rec \<notin> e_ID ` set (environments db) \<or>
       \<not> is_user (pr_RequestedBy rec) then Inl (mapError fk_violation)
     else let row = rec\<lparr>pr_ID := i, pr_Status := ''pending'', pr_Selections := map (map_prod to_valid to_valid) (pr_Selections rec),
                        pr_DecidedBy := None, pr_DecisionNote := '''', pr_AppliedTargetVersion := None, pr_CreatedAt := now, pr_DecidedAt := None\<rparr>
          in Inr (row, db\<lparr>promotion_requests := promotion_requests db @ [row]\<rparr>))"

definition pm_Get :: "secret_db \<Rightarrow> string \<Rightarrow> store_err + PromotionRequestRow" where
  "pm_Get db i = one_row (\<lambda>q. pr_ID q = i) (promotion_requests db)"

definition pm_listBy :: "(PromotionRequestRow \<Rightarrow> string) \<Rightarrow> secret_db \<Rightarrow> string \<Rightarrow> string \<Rightarrow> PromotionRequestRow list" where
  "pm_listBy col db value status = newest_first pr_CreatedAt pr_ID
    (filter (\<lambda>q. col q = value \<and> (status = '''' \<or> pr_Status q = status)) (promotion_requests db))"

definition pm_ListByProject :: "secret_db \<Rightarrow> string \<Rightarrow> string \<Rightarrow> PromotionRequestRow list" where
  "pm_ListByProject = pm_listBy pr_ProjectID"

definition pm_ListByRequester :: "secret_db \<Rightarrow> string \<Rightarrow> string \<Rightarrow> PromotionRequestRow list" where
  "pm_ListByRequester = pm_listBy pr_RequestedBy"

definition decide_request :: "(string \<Rightarrow> bool) \<Rightarrow> string \<Rightarrow> string \<Rightarrow> (PromotionRequestRow \<Rightarrow> PromotionRequestRow) \<Rightarrow> secret_db \<Rightarrow>
    pg_err + (nat \<times> secret_db)" where
  "decide_request is_user i who f db =
    (let P = (\<lambda>q. pr_ID q = i \<and> pr_Status q = ''pending'') in
     if who = '''' then Inl (PgError ''22P02'')
     else if (\<exists>q\<in>set (promotion_requests db). P q) \<and> \<not> is_user who then Inl fk_violation
     else update_request P (\<lambda>q. f (q\<lparr>pr_DecidedBy := Some who\<rparr>)) db)"

definition pm_MarkApplied :: "(string \<Rightarrow> bool) \<Rightarrow> string \<Rightarrow> string \<Rightarrow> int \<Rightarrow> int \<Rightarrow> secret_db \<Rightarrow> store_err + secret_db" where
  "pm_MarkApplied is_user i approver version now db = execAffectingOne (decide_request is_user i approver
    (\<lambda>q. q\<lparr>pr_Status := ''applied'', pr_DecidedAt := Some now, pr_AppliedTargetVersion := Some version\<rparr>) db)"

definition pm_Decide :: "(string \<Rightarrow> bool) \<Rightarrow> string \<Rightarrow> string \<Rightarrow> string \<Rightarrow> string \<Rightarrow> int \<Rightarrow> secret_db \<Rightarrow> store_err + secret_db" where
  "pm_Decide is_user i to decidedBy note now db = execAffectingOne (decide_request is_user i decidedBy
    (\<lambda>q. q\<lparr>pr_Status := to, pr_DecisionNote := note, pr_DecidedAt := Some now\<rparr>) db)"


subsection \<open>The service\<close>

text \<open>A selection is a key and an action.\<close>

type_synonym Selection = "string \<times> string"

record PromotionResult =
  pa_TargetVersion :: int
  pa_Applied :: "Selection list"
  pa_Skipped :: "string list"

text \<open>
  \<open>PmConflictAfter res\<close> is \<^verbatim>\<open>ErrRequestConflict\<close> together with the result of the promotion that came before it, which
  \<^verbatim>\<open>ApproveRequest\<close> returns when the promotion is saved and the mark fails.
\<close>

datatype pm_err = ErrIllegalStep | ErrLockedKey string | ErrNoPipeline | ErrPromotionConflict | PmConflictAfter PromotionResult
  | PmStore store_err | PmSvc svc_err

datatype pm_status = StatusAdd | StatusChange | StatusRemove | StatusSame

record DiffEntry =
  de_Key :: string
  de_Status :: pm_status
  de_SourceValue :: string
  de_TargetValue :: string
  de_Locked :: bool

record PromotionDiff =
  df_SourceVersion :: int
  df_TargetExists :: bool
  df_Entries :: "DiffEntry list"

definition ActionSet :: string where
  "ActionSet = ''set''"

definition ActionRemove :: string where
  "ActionRemove = ''remove''"

record ApplyRequest =
  aq_SourceConfigID :: string
  aq_TargetConfigID :: string
  aq_TargetEnvID :: string
  aq_TargetName :: string
  aq_CreateTarget :: bool
  aq_SourceVersion :: int
  aq_Selections :: "Selection list"
  aq_Actor :: string

definition projectAndEnv :: "secret_db \<Rightarrow> string \<Rightarrow> store_err + (string \<times> string)" where
  "projectAndEnv db configID =
    bind_err (if configID = '''' then Inl invalid_uuid else cfg_Get db configID) (\<lambda>c.
    bind_err (env_Get db (c_EnvironmentID c)) (\<lambda>e. Inr (e_ProjectID e, c_EnvironmentID c)))"

definition validateStep :: "secret_db \<Rightarrow> string \<Rightarrow> string \<Rightarrow> string \<Rightarrow> pm_err + unit" where
  "validateStep db projectID srcEnv dstEnv =
    (case NextEnv db projectID srcEnv of
       None \<Rightarrow> if pipe_Get db projectID = [] then Inl ErrNoPipeline else Inl ErrIllegalStep
     | Some nxt \<Rightarrow> if nxt \<noteq> dstEnv then Inl ErrIllegalStep else Inr ())"

text \<open>The entry of a key that the source or the target has.\<close>

definition diff_entry :: "(string \<rightharpoonup> Secret) \<Rightarrow> (string \<rightharpoonup> Secret) \<Rightarrow> (string \<Rightarrow> bool) \<Rightarrow> string \<Rightarrow> DiffEntry" where
  "diff_entry srcVals dstVals lockedSet key =
    (let val = (\<lambda>m. case m key of None \<Rightarrow> '''' | Some s \<Rightarrow> string_of (se_Value s)) in
     \<lparr>de_Key = key,
      de_Status = (if srcVals key \<noteq> None \<and> dstVals key = None then StatusAdd
        else if srcVals key = None \<and> dstVals key \<noteq> None then StatusRemove
        else if val srcVals = val dstVals then StatusSame else StatusChange),
      de_SourceValue = val srcVals, de_TargetValue = val dstVals, de_Locked = lockedSet key\<rparr>)"

fun add_entries :: "(string \<Rightarrow> DiffEntry) \<Rightarrow> string list \<Rightarrow> string list \<Rightarrow> DiffEntry list" where
  "add_entries f seen [] = []"
| "add_entries f seen (k # ks) = (if k \<in> set seen then add_entries f seen ks else f k # add_entries f (k # seen) ks)"

text \<open>\<open>so\<close> and \<open>to\<close> are the orders in which the maps of the source and of the target are walked.\<close>

definition Preview :: "Keyring \<Rightarrow> (string \<Rightarrow> nat) \<Rightarrow> secret_db \<Rightarrow> string list \<Rightarrow> string list \<Rightarrow> string \<Rightarrow> string \<Rightarrow> pm_err + PromotionDiff" where
  "Preview kr collate db so to sourceConfigID targetConfigID =
    bind_err (map_err PmStore (projectAndEnv db sourceConfigID)) (\<lambda>(proj, srcEnv).
    bind_err (map_err PmStore (projectAndEnv db targetConfigID)) (\<lambda>(_, dstEnv).
    bind_err (validateStep db proj srcEnv dstEnv) (\<lambda>_.
    bind_err (map_err PmSvc (RevealConfig kr db so sourceConfigID)) (\<lambda>(srcVer, srcVals).
    bind_err (case RevealConfig kr db to targetConfigID of
         Inr (_, m) \<Rightarrow> Inr m
       | Inl e \<Rightarrow> if e = SvcErrNotFound then Inr Map.empty else Inl (PmSvc e)) (\<lambda>dstVals.
      Inr \<lparr>df_SourceVersion = cv_Version srcVer, df_TargetExists = True,
           df_Entries = add_entries (diff_entry srcVals dstVals (\<lambda>k. k \<in> set (lk_List collate db targetConfigID))) []
             (filter (\<lambda>k. srcVals k \<noteq> None) so @ filter (\<lambda>k. dstVals k \<noteq> None) to)\<rparr>)))))"

definition PreviewCreate :: "Keyring \<Rightarrow> secret_db \<Rightarrow> string list \<Rightarrow> string \<Rightarrow> string \<Rightarrow> pm_err + PromotionDiff" where
  "PreviewCreate kr db so sourceConfigID toEnvID =
    bind_err (map_err PmStore (projectAndEnv db sourceConfigID)) (\<lambda>(proj, srcEnv).
    bind_err (map_err PmStore (env_Get db toEnvID)) (\<lambda>toEnv.
    if e_ProjectID toEnv \<noteq> proj then Inl ErrIllegalStep
    else bind_err (validateStep db proj srcEnv toEnvID) (\<lambda>_.
    bind_err (map_err PmSvc (RevealConfig kr db so sourceConfigID)) (\<lambda>(srcVer, srcVals).
      Inr \<lparr>df_SourceVersion = cv_Version srcVer, df_TargetExists = False,
           df_Entries = map (diff_entry srcVals Map.empty (\<lambda>_. False)) (filter (\<lambda>k. srcVals k \<noteq> None) so)\<rparr>))))"

record PlanResult =
  pl_TargetConfigID :: string
  pl_SourceEnv :: string
  pl_SourceVersion :: int
  pl_Message :: string
  pl_Changes :: "SecretChange list"
  pl_Applied :: "Selection list"
  pl_Skipped :: "string list"

text \<open>The loop over the selections; an action that is neither of the two is passed over.\<close>

fun plan_changes :: "(string \<rightharpoonup> Secret) \<Rightarrow> Selection list \<Rightarrow> SecretChange list \<times> Selection list \<times> string list" where
  "plan_changes srcVals [] = ([], [], [])"
| "plan_changes srcVals ((key, action) # sels) =
    (let (changes, applied, skipped) = plan_changes srcVals sels in
     if action = ActionRemove then (\<lparr>sc_Key = key, sc_Value = [], sc_Delete = True, sc_Type = ''''\<rparr> # changes, (key, action) # applied, skipped)
     else if action = ActionSet then
       (case srcVals key of
          None \<Rightarrow> (changes, applied, key # skipped)
        | Some sec \<Rightarrow> (\<lparr>sc_Key = key, sc_Value = se_Value sec, sc_Delete = False, sc_Type = se_Type sec\<rparr> # changes, (key, action) # applied, skipped))
     else (changes, applied, skipped))"

definition plan_target :: "string \<Rightarrow> int \<Rightarrow> ApplyRequest \<Rightarrow> secret_db \<Rightarrow> pm_err + (string \<times> secret_db)" where
  "plan_target newID now req db =
    (if aq_TargetConfigID req = '''' \<and> aq_CreateTarget req
     then bind_err (map_err PmStore (if aq_TargetEnvID req = '''' then Inl invalid_uuid
            else cfg_Create newID (aq_TargetEnvID req) (aq_TargetName req) None now db)) (\<lambda>(c, db'). Inr (c_ID c, db'))
     else Inr (aq_TargetConfigID req, db))"

definition plan_rest :: "Keyring \<Rightarrow> secret_db \<Rightarrow> string list \<Rightarrow> string \<Rightarrow> string \<Rightarrow> string \<Rightarrow> ApplyRequest \<Rightarrow> pm_err + PlanResult" where
  "plan_rest kr db so proj srcEnv target req =
    bind_err (map_err PmStore (projectAndEnv db target)) (\<lambda>(_, dstEnv).
    bind_err (validateStep db proj srcEnv dstEnv) (\<lambda>_.
    (case find (\<lambda>sel. AreLocked db target (map fst (aq_Selections req)) (fst sel)) (aq_Selections req) of
       Some sel \<Rightarrow> Inl (ErrLockedKey (fst sel))
     | None \<Rightarrow>
       bind_err (map_err PmSvc (RevealConfigVersion kr db so (aq_SourceConfigID req) (aq_SourceVersion req))) (\<lambda>srcVals.
         let (changes, applied, skipped) = plan_changes srcVals (aq_Selections req) in
         Inr \<lparr>pl_TargetConfigID = target, pl_SourceEnv = srcEnv, pl_SourceVersion = aq_SourceVersion req,
              pl_Message = ''promote from env '' @ srcEnv @ '' v'' @ decimal (aq_SourceVersion req),
              pl_Changes = changes, pl_Applied = applied, pl_Skipped = skipped\<rparr>))))"

text \<open>The target is created first, and stays when a later check fails.\<close>

definition Plan :: "Keyring \<Rightarrow> string list \<Rightarrow> string \<Rightarrow> int \<Rightarrow> ApplyRequest \<Rightarrow> secret_db \<Rightarrow> (pm_err + PlanResult) \<times> secret_db" where
  "Plan kr so newID now req db =
    (case projectAndEnv db (aq_SourceConfigID req) of
       Inl e \<Rightarrow> (Inl (PmStore e), db)
     | Inr (proj, srcEnv) \<Rightarrow>
       (case plan_target newID now req db of
          Inl e \<Rightarrow> (Inl e, db)
        | Inr (target, db') \<Rightarrow> (plan_rest kr db' so proj srcEnv target req, db')))"

text \<open>\<open>fresh\<close>, \<open>cvID\<close>, \<open>r\<close> and \<open>now\<close> are the arguments of \<open>SetSecrets\<close>, \<open>walk\<close> the order in which maps are walked.\<close>

definition Apply :: "Keyring \<Rightarrow> svc_err tx_err option \<Rightarrow> string list \<Rightarrow> string \<Rightarrow> (string \<Rightarrow> string) \<Rightarrow> string \<Rightarrow> (string list \<Rightarrow> string list) \<Rightarrow> rng \<Rightarrow> int \<Rightarrow> ApplyRequest \<Rightarrow>
    secret_db \<Rightarrow> (pm_err + (PromotionResult \<times> rng)) \<times> secret_db" where
  "Apply kr commit so newID fresh cvID walk r now req db =
    (case Plan kr so newID now req db of
       (Inl e, db1) \<Rightarrow> (Inl e, db1)
     | (Inr plan, db1) \<Rightarrow>
       if pl_Changes plan = []
       then (Inr (\<lparr>pa_TargetVersion = 0, pa_Applied = pl_Applied plan, pa_Skipped = pl_Skipped plan\<rparr>, r), db1)
       else (case SetSecrets kr db1 commit (pl_TargetConfigID plan) (pl_Changes plan) (pl_Message plan) (aq_Actor req) fresh cvID (walk (map sc_Key (pl_Changes plan))) r now db1 of
           (Inl e, db2) \<Rightarrow> (Inl (PmSvc e), db2)
         | (Inr (cv, r'), db2) \<Rightarrow>
           (Inr (\<lparr>pa_TargetVersion = cv_Version cv, pa_Applied = pl_Applied plan, pa_Skipped = pl_Skipped plan\<rparr>, r'),
            (case MarkPromoted (cv_ID cv) (pl_SourceEnv plan) (pl_SourceVersion plan) db2 of Inl _ \<Rightarrow> db2 | Inr db3 \<Rightarrow> db3))))"

subsection \<open>Requests\<close>

record CreateRequestInput =
  cr_SourceConfigID :: string
  cr_TargetConfigID :: string
  cr_TargetEnvID :: string
  cr_TargetName :: string
  cr_CreateTarget :: bool
  cr_SourceVersion :: int
  cr_Selections :: "Selection list"
  cr_Note :: string
  cr_RequestedBy :: string

definition CreateRequest :: "(string \<Rightarrow> bool) \<Rightarrow> string \<Rightarrow> int \<Rightarrow> CreateRequestInput \<Rightarrow> secret_db \<Rightarrow> pm_err + (string \<times> secret_db)" where
  "CreateRequest is_user i now inp db =
    bind_err (map_err PmStore (projectAndEnv db (cr_SourceConfigID inp))) (\<lambda>(projectID, srcEnv).
    bind_err (if cr_TargetConfigID inp \<noteq> '''' then bind_err (map_err PmStore (projectAndEnv db (cr_TargetConfigID inp))) (\<lambda>(_, e). Inr e)
              else Inr (cr_TargetEnvID inp)) (\<lambda>dstEnv.
    bind_err (validateStep db projectID srcEnv dstEnv) (\<lambda>_.
    bind_err (map_err PmStore (pm_Create is_user i
      \<lparr>pr_ID = '''', pr_ProjectID = projectID, pr_SourceConfigID = cr_SourceConfigID inp, pr_SourceVersion = cr_SourceVersion inp,
       pr_TargetConfigID = (if cr_TargetConfigID inp \<noteq> '''' then Some (cr_TargetConfigID inp) else None), pr_TargetEnvID = dstEnv,
       pr_TargetName = cr_TargetName inp, pr_CreateTarget = cr_CreateTarget inp, pr_Selections = cr_Selections inp, pr_Note = cr_Note inp,
       pr_Status = '''', pr_RequestedBy = cr_RequestedBy inp, pr_DecidedBy = None, pr_DecisionNote = '''', pr_AppliedTargetVersion = None,
       pr_CreatedAt = 0, pr_DecidedAt = None\<rparr> now db)) (\<lambda>(row, db'). Inr (pr_ID row, db')))))"

definition request_apply :: "PromotionRequestRow \<Rightarrow> string \<Rightarrow> ApplyRequest" where
  "request_apply q approver =
    \<lparr>aq_SourceConfigID = pr_SourceConfigID q, aq_TargetConfigID = (case pr_TargetConfigID q of None \<Rightarrow> '''' | Some t \<Rightarrow> t),
     aq_TargetEnvID = pr_TargetEnvID q, aq_TargetName = pr_TargetName q, aq_CreateTarget = pr_CreateTarget q,
     aq_SourceVersion = pr_SourceVersion q, aq_Selections = pr_Selections q, aq_Actor = approver\<rparr>"

definition ApproveRequest :: "Keyring \<Rightarrow> (string \<Rightarrow> bool) \<Rightarrow> svc_err tx_err option \<Rightarrow> string list \<Rightarrow> string \<Rightarrow> (string \<Rightarrow> string) \<Rightarrow> string \<Rightarrow> (string list \<Rightarrow> string list) \<Rightarrow> rng \<Rightarrow> int \<Rightarrow>
    string \<Rightarrow> string \<Rightarrow> secret_db \<Rightarrow> (pm_err + (PromotionResult \<times> rng)) \<times> secret_db" where
  "ApproveRequest kr is_user commit so newID fresh cvID walk r now i approver db =
    (case pm_Get db i of
       Inl e \<Rightarrow> (Inl (PmStore e), db)
     | Inr q \<Rightarrow>
       if pr_Status q \<noteq> ''pending'' then (Inl ErrPromotionConflict, db)
       else (case Apply kr commit so newID fresh cvID walk r now (request_apply q approver) db of
           (Inl e, db1) \<Rightarrow> (Inl e, db1)
         | (Inr (res, r'), db1) \<Rightarrow>
           (case pm_MarkApplied is_user i approver (pa_TargetVersion res) now db1 of
              Inl _ \<Rightarrow> (Inl (PmConflictAfter res), db1)
            | Inr db2 \<Rightarrow> (Inr (res, r'), db2))))"

definition RejectRequest :: "(string \<Rightarrow> bool) \<Rightarrow> string \<Rightarrow> string \<Rightarrow> string \<Rightarrow> int \<Rightarrow> secret_db \<Rightarrow> pm_err + secret_db" where
  "RejectRequest is_user i approver note now db = map_err (\<lambda>_. ErrPromotionConflict) (pm_Decide is_user i ''rejected'' approver note now db)"

definition CancelRequest :: "(string \<Rightarrow> bool) \<Rightarrow> string \<Rightarrow> string \<Rightarrow> int \<Rightarrow> secret_db \<Rightarrow> pm_err + secret_db" where
  "CancelRequest is_user i requester now db = map_err (\<lambda>_. ErrPromotionConflict) (pm_Decide is_user i ''cancelled'' requester '''' now db)"


section \<open>What a promotion does\<close>

text \<open>The effect of one selection on the target's secrets, and of a list of them.\<close>

definition select :: "(string \<rightharpoonup> bytes \<times> string) \<Rightarrow> Selection \<Rightarrow> (string \<rightharpoonup> bytes \<times> string) \<Rightarrow> string \<rightharpoonup> bytes \<times> string" where
  "select src sel m = (case sel of (k, a) \<Rightarrow>
     if a = ActionRemove then m(k := None)
     else if a = ActionSet then (case src k of None \<Rightarrow> m | Some (v, t) \<Rightarrow> m(k \<mapsto> (v, normalizeType t)))
     else m)"

definition chosen :: "(string \<rightharpoonup> bytes \<times> string) \<Rightarrow> Selection list \<Rightarrow> string set" where
  "chosen src sels = {k. (k, ActionRemove) \<in> set sels \<or> (k, ActionSet) \<in> set sels \<and> src k \<noteq> None}"

lemma actions [simp]: "ActionSet \<noteq> ActionRemove" "ActionRemove \<noteq> ActionSet"
  by (simp_all add: ActionSet_def ActionRemove_def)

lemma select_pair: "select src (k, a) m =
    (if a = ActionRemove then m(k := None)
     else if a = ActionSet then (case src k of None \<Rightarrow> m | Some (v, t) \<Rightarrow> m(k \<mapsto> (v, normalizeType t)))
     else m)"
  by (simp add: select_def)

lemma apply_batch_Nil [simp]: "apply_batch [] m = m"
  by (simp add: fun_eq_iff apply_batch_def last_change_def)

lemma apply_batch_Cons:
  "apply_batch (ch # chs) m = apply_batch chs (m(sc_Key ch := if sc_Delete ch then None else Some (sc_Value ch, normalizeType (sc_Type ch))))"
  by (auto simp: fun_eq_iff apply_batch_def last_change_def map_add_def split: option.splits)

lemma plan_changes_effect: "apply_batch (fst (plan_changes vals sels)) m = fold (select (content vals)) sels m"
proof (induction vals sels arbitrary: m rule: plan_changes.induct)
  case (2 vals key action sels)
  obtain chs ap sk where p: "plan_changes vals sels = (chs, ap, sk)" by (cases "plan_changes vals sels")
  have key: "content vals key = map_option (\<lambda>se. (se_Value se, se_Type se)) (vals key)" by (simp add: content_def)
  show ?case using "2.IH" p by (auto simp: apply_batch_Cons select_pair key fun_upd_def split: option.splits)
qed simp

lemma plan_changes_keys: "sc_Key ` set (fst (plan_changes vals sels)) = chosen (content vals) sels"
proof (induction vals sels rule: plan_changes.induct)
  case (2 vals key action sels)
  obtain chs ap sk where p: "plan_changes vals sels = (chs, ap, sk)" by (cases "plan_changes vals sels")
  with "2.IH" show ?case
    by (auto simp: Let_def chosen_def content_def split: option.splits)
qed (simp add: chosen_def)

lemma plan_changes_skipped: "snd (snd (plan_changes vals sels)) = [k. (k, a) \<leftarrow> sels, a = ActionSet, content vals k = None]"
proof (induction vals sels rule: plan_changes.induct)
  case (2 vals key action sels)
  obtain chs ap sk where p: "plan_changes vals sels = (chs, ap, sk)" by (cases "plan_changes vals sels")
  with "2.IH" show ?case by (auto simp: Let_def content_def split: option.splits)
qed simp

lemma select_other: "(\<And>a. (k, a) \<notin> set sels) \<Longrightarrow> fold (select src) sels m k = m k"
proof (induction sels arbitrary: m)
  case (Cons sel sels)
  have "fst sel \<noteq> k" using Cons.prems [of "snd sel"] by auto
  then have "select src sel m k = m k" by (auto simp: select_def split: prod.splits option.splits)
  then show ?case using Cons by auto
qed simp

lemma current_push [simp]: "current (push c m a) c = m"
  by (simp add: current_def push_def)

lemma plan_rest_Inr:
  assumes "plan_rest kr db so proj srcEnv target req = Inr plan"
  obtains q dstEnv vals where "projectAndEnv db target = Inr (q, dstEnv)" "NextEnv db proj srcEnv = Some dstEnv"
    "\<forall>(k, a)\<in>set (aq_Selections req). \<not> key_locked db target k"
    "RevealConfigVersion kr db so (aq_SourceConfigID req) (aq_SourceVersion req) = Inr vals"
    "pl_TargetConfigID plan = target" "pl_Changes plan = fst (plan_changes vals (aq_Selections req))"
    "pl_Skipped plan = snd (snd (plan_changes vals (aq_Selections req)))"
proof -
  obtain q dstEnv vals where *: "projectAndEnv db target = Inr (q, dstEnv)" "validateStep db proj srcEnv dstEnv = Inr ()"
    "find (\<lambda>sel. AreLocked db target (map fst (aq_Selections req)) (fst sel)) (aq_Selections req) = None"
    "RevealConfigVersion kr db so (aq_SourceConfigID req) (aq_SourceVersion req) = Inr vals"
    "pl_TargetConfigID plan = target" "pl_Changes plan = fst (plan_changes vals (aq_Selections req))"
    "pl_Skipped plan = snd (snd (plan_changes vals (aq_Selections req)))"
    using assms by (auto simp: plan_rest_def bind_err_Inr map_err_Inr_iff Let_def split_beta split: option.splits)
  moreover have "\<forall>(k, a)\<in>set (aq_Selections req). \<not> key_locked db target k"
    using *(3) by (auto simp: find_None_iff AreLocked_def image_iff Bex_def)
  moreover have "NextEnv db proj srcEnv = Some dstEnv" using *(2) by (auto simp: validateStep_def split: option.splits if_splits)
  ultimately show thesis using that by blast
qed

lemma Apply_existing:
  assumes "Apply kr commit so newID fresh cvID walk r now req db = (out, db')" "aq_TargetConfigID req \<noteq> ''''"
  obtains (failed) e where "out = Inl e" "db' = db"
  | (planned) proj srcEnv plan where "projectAndEnv db (aq_SourceConfigID req) = Inr (proj, srcEnv)"
      "plan_rest kr db so proj srcEnv (aq_TargetConfigID req) req = Inr plan"
      "(case out of Inl _ \<Rightarrow> False | Inr (res, _) \<Rightarrow> pa_Skipped res = pl_Skipped plan \<and>
         (if pl_Changes plan = [] then db' = db \<and> pa_TargetVersion res = 0
          else \<exists>cv r' db2. SetSecrets kr db commit (aq_TargetConfigID req) (pl_Changes plan) (pl_Message plan) (aq_Actor req) fresh cvID (walk (map sc_Key (pl_Changes plan))) r now db =
            (Inr (cv, r'), db2) \<and> pa_TargetVersion res = cv_Version cv \<and> (db' = db2 \<or> (\<exists>i e v. MarkPromoted i e v db2 = Inr db'))))"
proof -
  show thesis
  proof (cases "projectAndEnv db (aq_SourceConfigID req)")
    case (Inl e)
    then show thesis using assms by (intro that(1) [of "PmStore e"]) (auto simp: Apply_def Plan_def)
  next
    case (Inr pe)
    obtain proj srcEnv where pe: "projectAndEnv db (aq_SourceConfigID req) = Inr (proj, srcEnv)" using Inr by (cases pe) simp
    have plan: "Plan kr so newID now req db = (plan_rest kr db so proj srcEnv (aq_TargetConfigID req) req, db)"
      using pe assms(2) by (simp add: Plan_def plan_target_def)
    show thesis
    proof (cases "plan_rest kr db so proj srcEnv (aq_TargetConfigID req) req")
      case (Inl e)
      then show thesis using assms(1) plan by (intro that(1) [of e]) (auto simp: Apply_def)
    next
      case (Inr p)
      have t: "pl_TargetConfigID p = aq_TargetConfigID req" using plan_rest_Inr [OF Inr] by metis
      show thesis
      proof (cases "pl_Changes p = []")
        case True
        then show thesis using assms(1) plan Inr by (intro that(2) [OF pe Inr]) (auto simp: Apply_def)
      next
        case False
        obtain sres db2 where s: "SetSecrets kr db commit (aq_TargetConfigID req) (pl_Changes p) (pl_Message p) (aq_Actor req) fresh cvID (walk (map sc_Key (pl_Changes p))) r now db = (sres, db2)"
          by fastforce
        show thesis
        proof (cases sres)
          case (Inl e)
          then have "db2 = db" using s SetSecrets_Inl by blast
          then show thesis using Inl assms(1) plan Inr False s t by (intro that(1) [of "PmSvc e"]) (auto simp: Apply_def)
        next
          case (Inr x)
          obtain cv r' where "sres = Inr (cv, r')" using Inr by (cases x) simp
          then show thesis using assms(1) plan \<open>plan_rest kr db so proj srcEnv (aq_TargetConfigID req) req = Inr p\<close> False s t
            by (intro that(2) [OF pe \<open>plan_rest kr db so proj srcEnv (aq_TargetConfigID req) req = Inr p\<close>])
              (auto simp: Apply_def split: sum.splits)
        qed
      qed
    qed
  qed
qed


text \<open>
  C11. A promotion into an existing config moves exactly what was selected: when it fails nothing changed; when it succeeds the
  target's environment is the pipeline's next step after the source's, no selected key is locked, the keys reported as
  skipped are those the pinned source version does not have, and the target has one new version in which each selection in turn
  removed its key or copied its value and type from the pinned version. Locked keys keep their values and nothing else in
  the vault changes.
\<close>

theorem promotion_moves_selection:
  assumes inv: "vault_inv kr db" and tgt: "aq_TargetConfigID req \<noteq> ''''"
    and src: "history (vault_of kr db) (aq_SourceConfigID req) (aq_SourceVersion req) = Some src" and so: "dom src \<subseteq> set so"
    and order: "walks walk"
    and run: "Apply kr commit so newID fresh cvID walk r now req db = (out, db')"
  shows "case out of Inl e \<Rightarrow> db' = db
    | Inr (res, _) \<Rightarrow>
      (\<exists>p e q e'. projectAndEnv db (aq_SourceConfigID req) = Inr (p, e) \<and> projectAndEnv db (aq_TargetConfigID req) = Inr (q, e') \<and> NextEnv db p e = Some e') \<and>
      (\<forall>(k, a)\<in>set (aq_Selections req). \<not> key_locked db (aq_TargetConfigID req) k) \<and>
      pa_Skipped res = [k. (k, a) \<leftarrow> aq_Selections req, a = ActionSet, src k = None] \<and>
      (\<forall>k. key_locked db (aq_TargetConfigID req) k \<longrightarrow> current (vault_of kr db') (aq_TargetConfigID req) k = current (vault_of kr db) (aq_TargetConfigID req) k) \<and>
      (if chosen src (aq_Selections req) = {} then db' = db \<and> pa_TargetVersion res = 0
       else pa_TargetVersion res = max_version db (aq_TargetConfigID req) + 1 \<and> vault_inv kr db' \<and>
         vault_of kr db' = push (aq_TargetConfigID req) (fold (select src) (aq_Selections req) (current (vault_of kr db) (aq_TargetConfigID req))) (vault_of kr db))"
  using run tgt
proof (cases rule: Apply_existing)
  case (planned proj srcEnv plan)
  let ?t = "aq_TargetConfigID req" and ?sels = "aq_Selections req"
  obtain q dstEnv vals where pl: "projectAndEnv db ?t = Inr (q, dstEnv)" "NextEnv db proj srcEnv = Some dstEnv"
      "\<forall>(k, a)\<in>set ?sels. \<not> key_locked db ?t k"
    and rev: "RevealConfigVersion kr db so (aq_SourceConfigID req) (aq_SourceVersion req) = Inr vals"
    and ch: "pl_Changes plan = fst (plan_changes vals ?sels)" and sk: "pl_Skipped plan = snd (snd (plan_changes vals ?sels))"
    by (rule plan_rest_Inr [OF planned(2)])
  have c: "content vals = src"
  proof -
    obtain m where m: "shown kr db (aq_SourceConfigID req) (aq_SourceVersion req) = Some m" "content m = src" using src by (auto simp: vault_of_def)
    have "dom m \<subseteq> set so" using so m(2) by (auto simp: dom_def content_def)
    moreover obtain cfg p where "resolveProject db (aq_SourceConfigID req) = Inr (cfg, p)"
      using rev by (auto simp: RevealConfigVersion_def bind_err_Inr)
    ultimately show ?thesis using RevealConfigVersion_shown [of db kr _ cfg p] inv m rev by (simp add: vault_inv_def)
  qed
  have keys: "sc_Key ` set (pl_Changes plan) = chosen src ?sels" using plan_changes_keys [of vals ?sels] by (simp add: c ch)
  have batch: "apply_batch (pl_Changes plan) m = fold (select src) ?sels m" for m using plan_changes_effect [of vals ?sels m] by (simp add: c ch)
  obtain res r' where out: "out = Inr (res, r')" using planned(3) by (auto split: sum.splits)
  have skip: "pa_Skipped res = [k. (k, a) \<leftarrow> ?sels, a = ActionSet, src k = None]"
    using planned(3) out sk unfolding plan_changes_skipped c by simp
  have free: "fold (select src) ?sels m k = m k" if "key_locked db ?t k" for m k
    using pl(3) that by (intro select_other) auto
  show ?thesis
  proof (cases "pl_Changes plan = []")
    case True
    then show ?thesis using planned(1,3) out pl skip keys by auto
  next
    case False
    then obtain cv r2 db2 where set: "SetSecrets kr db commit ?t (pl_Changes plan) (pl_Message plan) (aq_Actor req) fresh cvID (walk (map sc_Key (pl_Changes plan))) r now db = (Inr (cv, r2), db2)"
      and v: "pa_TargetVersion res = cv_Version cv" and mark: "db' = db2 \<or> (\<exists>i e v. MarkPromoted i e v db2 = Inr db')"
      using planned(3) unfolding out by simp blast
    note push = set_pushes [OF inv walksD [OF order] set, unfolded batch]
    have "vault_inv kr db' \<and> vault_of kr db' = vault_of kr db2"
      using mark push(1) MarkPromoted_keeps keeps_vault by blast
    moreover have "chosen src ?sels \<noteq> {}" using keys False by auto
    ultimately show ?thesis using planned(1) out pl skip v push free by auto
  qed
qed auto


subsection \<open>Witness\<close>

text \<open>A second environment, protected and next in the pipeline, with a config of its own.\<close>

definition promo_db :: secret_db where
  "promo_db = demo_db\<lparr>environments := environments demo_db @ [\<lparr>e_ID = ''f'', e_ProjectID = ''p'', e_Slug = ''prod'', e_Name = '''', e_RequireApproval = True,
       e_CreatedAt = 0, e_UpdatedAt = 0, e_DeletedAt = None\<rparr>],
     configs := configs demo_db @ [\<lparr>c_ID = ''d'', c_EnvironmentID = ''f'', c_Name = ''api'', c_InheritsFrom = None, c_RequireApproval = False,
       c_CreatedAt = 0, c_UpdatedAt = 0, c_DeletedAt = None\<rparr>],
     promotion_pipeline_steps := [\<lparr>st_ProjectID = ''p'', st_Position = 0, st_EnvironmentID = ''e''\<rparr>, \<lparr>st_ProjectID = ''p'', st_Position = 1, st_EnvironmentID = ''f''\<rparr>]\<rparr>"

definition promo_req :: ApplyRequest where
  "promo_req = \<lparr>aq_SourceConfigID = ''c'', aq_TargetConfigID = ''d'', aq_TargetEnvID = '''', aq_TargetName = '''', aq_CreateTarget = False,
     aq_SourceVersion = 1, aq_Selections = [(''K'', ActionSet)], aq_Actor = ''ann''\<rparr>"

lemma promo_db_wf: "store_wf promo_db"
  by (simp add: store_wf_def hierarchy_ok_def versions_ok_def values_ok_def manifest_ok_def keks_ok_def promo_db_def demo_db_def example_db_def)

lemma promo_inv: "vault_inv demo_kr promo_db"
  using promo_db_wf by (simp add: vault_inv_def readable_def promo_db_def demo_db_def)

lemma promo_lookups:
  assumes "projects db = projects promo_db" "environments db = environments promo_db" "configs db = configs promo_db"
    "promotion_pipeline_steps db = promotion_pipeline_steps promo_db"
  shows "\<exists>cfg. resolveProject db ''c'' = Inr (cfg, demo_project) \<and> c_ID cfg = ''c'' \<and> cfg_Get db ''c'' = Inr cfg"
    "\<exists>cfg. resolveProject db ''d'' = Inr (cfg, demo_project) \<and> c_ID cfg = ''d'' \<and> cfg_Get db ''d'' = Inr cfg"
    "projectAndEnv db ''c'' = Inr (''p'', ''e'')" "projectAndEnv db ''d'' = Inr (''p'', ''f'')" "validateStep db ''p'' ''e'' ''f'' = Inr ()"
  using assms by (simp_all add: resolveProject_def cfg_Get_def env_Get_def proj_Get_def one_row_def promo_db_def demo_db_def example_db_def live_config_def live_env_def
      live_project_def projectAndEnv_def validateStep_def NextEnv_def)

lemma promo_saved:
  "\<exists>db1. vault_inv demo_kr db1 \<and> projects db1 = projects promo_db \<and> environments db1 = environments promo_db \<and> configs db1 = configs promo_db \<and>
     side db1 = side promo_db \<and> vault_of demo_kr db1 = push ''c'' [''K'' \<mapsto> ([1, 2, 3], ''string'')] (vault_of demo_kr promo_db)"
proof -
  obtain cfg where c: "resolveProject promo_db ''c'' = Inr (cfg, demo_project)" "c_ID cfg = ''c''" "cfg_Get promo_db ''c'' = Inr cfg"
    using promo_lookups(1) [of promo_db] by auto
  have "\<exists>cv r' db'. SetSecrets demo_kr promo_db None ''c'' demo_changes '''' '''' id ''v1'' [''K''] (replicate 56 0) 1 promo_db = (Inr (cv, r'), db')"
    by (rule SetSecrets_ok [OF demo_keyring(1) demo_valid c(1) demo_key])
      (use c in \<open>simp_all add: demo_changes_def gcm_limit_def promo_db_def demo_db_def\<close>)
  then obtain cv r' db1 where run: "SetSecrets demo_kr promo_db None ''c'' demo_changes '''' '''' id ''v1'' [''K''] (replicate 56 0) 1 promo_db = (Inr (cv, r'), db1)"
    by blast
  have none: "current (vault_of demo_kr promo_db) ''c'' = Map.empty"
    by (simp add: current_def vault_of_def max_version_def versions_of_def shown_def view_def GetVersion_def one_row_def promo_db_def demo_db_def)
  have b: "apply_batch demo_changes Map.empty = [''K'' \<mapsto> ([1, 2, 3], ''string'')]"
    by (simp add: fun_eq_iff apply_batch_def last_change_def demo_changes_def normalizeType_def)
  note p = set_pushes [OF promo_inv demo_order run, unfolded none b]
  obtain nw ptrs tombs where "db1 = with_version (promo_db\<lparr>secret_values := secret_values promo_db @ nw\<rparr>) cv ptrs tombs"
    using SetSecrets_frame [OF promo_db_wf demo_order run] by blast
  then show ?thesis using p(1,2) set_side [OF run] by (intro exI [of _ db1]) simp
qed

text \<open>Revealing the source of the example, and saving its secret in another config.\<close>

lemma promo_reveal:
  assumes inv: "vault_inv demo_kr db" and p: "resolveProject db ''c'' = Inr (cc, demo_project)"
    and h: "history (vault_of demo_kr db) ''c'' 1 = Some [''K'' \<mapsto> ([1, 2, 3], ''string'')]"
  shows "\<exists>m se. RevealConfigVersion demo_kr db [''K''] ''c'' 1 = Inr m \<and> m ''K'' = Some se \<and> se_Value se = [1, 2, 3] \<and> se_Type se = ''string''"
proof -
  obtain m where m: "shown demo_kr db ''c'' 1 = Some m" "content m = [''K'' \<mapsto> ([1, 2, 3], ''string'')]" using h by (auto simp: vault_of_def)
  have dom: "dom m \<subseteq> set [''K'']"
  proof
    fix k assume "k \<in> dom m"
    then have "content m k \<noteq> None" by (auto simp: content_def)
    then show "k \<in> set [''K'']" using m(2) by (auto split: if_splits)
  qed
  have "content m ''K'' = Some ([1, 2, 3], ''string'')" using m(2) by simp
  then show ?thesis using RevealConfigVersion_shown [OF _ _ p m(1) dom] inv by (auto simp: vault_inv_def content_def)
qed

definition promo_change :: SecretChange where
  "promo_change = \<lparr>sc_Key = ''K'', sc_Value = [1, 2, 3], sc_Delete = False, sc_Type = ''string''\<rparr>"

lemma promo_save:
  assumes "resolveProject db t = Inr (cfg, demo_project)" "cfg_Get db (c_ID cfg) = Inr cfg'"
    and "i \<notin> sv_ID ` set (secret_values db)" "v \<notin> cv_ID ` set (config_versions db)"
  shows "\<exists>cv r' db'. SetSecrets demo_kr db None t [promo_change] msg actor (\<lambda>_. i) v [''K''] (replicate 56 0) 2 db = (Inr (cv, r'), db')"
  by (rule SetSecrets_ok [OF demo_keyring(1) _ assms(1) demo_key])
    (use assms in \<open>simp_all add: promo_change_def gcm_limit_def validate_change_def validateKey_def validateType_def allowedTypes_def key_char_def\<close>)

lemma fresh_ids: "\<exists>i v. i \<notin> sv_ID ` set (secret_values db) \<and> v \<notin> cv_ID ` set (config_versions db)"
  using ex_new_if_finite [OF infinite_UNIV_listI] by (metis finite_imageI finite_set)

theorem promotion_moves_selection_witness:
  "\<exists>db1 i v r r' res db2. vault_inv demo_kr db1 \<and> Apply demo_kr None [''K''] '''' (\<lambda>_. i) v remdups r 2 promo_req db1 = (Inr (res, r'), db2) \<and>
     pa_TargetVersion res = max_version db1 ''d'' + 1 \<and> current (vault_of demo_kr db2) ''d'' ''K'' = Some ([1, 2, 3], ''string'') \<and>
     history (vault_of demo_kr db2) ''c'' 1 = history (vault_of demo_kr db1) ''c'' 1"
proof -
  obtain db1 where inv: "vault_inv demo_kr db1" and same: "projects db1 = projects promo_db" "environments db1 = environments promo_db" "configs db1 = configs promo_db"
    and sd: "side db1 = side promo_db" and v: "vault_of demo_kr db1 = push ''c'' [''K'' \<mapsto> ([1, 2, 3], ''string'')] (vault_of demo_kr promo_db)"
    using promo_saved by blast
  have steps: "promotion_pipeline_steps db1 = promotion_pipeline_steps promo_db" "config_locked_keys db1 = []"
    using sd by (simp_all add: side_def promo_db_def demo_db_def example_db_def)
  note look = promo_lookups [OF same steps(1)]
  have zero: "max_version promo_db ''c'' = 0" by (simp add: max_version_def versions_of_def promo_db_def demo_db_def)
  have h: "history (vault_of demo_kr db1) ''c'' 1 = Some [''K'' \<mapsto> ([1, 2, 3], ''string'')]"
    using v zero by (simp add: push_def) (simp add: vault_of_def)
  then obtain m se where rev: "RevealConfigVersion demo_kr db1 [''K''] ''c'' 1 = Inr m" and se: "m ''K'' = Some se" "se_Value se = [1, 2, 3]" "se_Type se = ''string''"
    using promo_reveal [OF inv] look(1) by blast
  obtain i v2 where fresh: "i \<notin> sv_ID ` set (secret_values db1)" "v2 \<notin> cv_ID ` set (config_versions db1)" using fresh_ids by blast
  have plan: "plan_rest demo_kr db1 [''K''] ''p'' ''e'' ''d'' promo_req = Inr \<lparr>pl_TargetConfigID = ''d'', pl_SourceEnv = ''e'', pl_SourceVersion = 1,
      pl_Message = ''promote from env '' @ ''e'' @ '' v'' @ decimal 1, pl_Changes = [promo_change], pl_Applied = [(''K'', ActionSet)], pl_Skipped = []\<rparr>"
    using look steps rev se by (simp add: plan_rest_def promo_req_def promo_change_def AreLocked_def key_locked_def)
  obtain cfg where c: "resolveProject db1 ''d'' = Inr (cfg, demo_project)" "c_ID cfg = ''d''" "cfg_Get db1 ''d'' = Inr cfg" using look(2) by blast
  obtain cv r' db' where set: "SetSecrets demo_kr db1 None ''d'' [promo_change] (''promote from env '' @ ''e'' @ '' v'' @ decimal 1) ''ann'' (\<lambda>_. i) v2 [''K''] (replicate 56 0) 2 db1 = (Inr (cv, r'), db')"
    using promo_save [OF c(1) _ fresh] c(2,3) by fastforce
  have "\<exists>res db2. Apply demo_kr None [''K''] '''' (\<lambda>_. i) v2 remdups (replicate 56 0) 2 promo_req db1 = (Inr (res, r'), db2)"
    using plan set look by (simp add: Apply_def Plan_def plan_target_def promo_req_def promo_change_def)
  then obtain res db2 where run: "Apply demo_kr None [''K''] '''' (\<lambda>_. i) v2 remdups (replicate 56 0) 2 promo_req db1 = (Inr (res, r'), db2)" by blast
  have "chosen [''K'' \<mapsto> ([1, 2, 3], ''string'')] [(''K'', ActionSet)] = {''K''}" by (auto simp: chosen_def)
  with promotion_moves_selection [OF inv, of promo_req "[''K'' \<mapsto> ([1, 2, 3], ''string'')]" "[''K'']", OF _ _ _ walks_remdups run] h
  show ?thesis
    using inv run by (intro exI [of _ db1] exI [of _ i] exI [of _ v2] exI [of _ "replicate 56 0"] exI [of _ r'] exI [of _ res] exI [of _ db2])
      (simp add: promo_req_def select_pair normalizeType_def, simp add: push_def)
qed


section \<open>A failed promotion that creates its target\<close>

text \<open>
  \<open>Plan\<close> creates the target before it checks the step, the locks and the source. When one of them fails the new config stays, and
  the same request fails from then on because the name is taken.
\<close>

theorem failed_create_strands_config:
  assumes src: "projectAndEnv db (aq_SourceConfigID req) = Inr (proj, srcEnv)"
    and create: "aq_TargetConfigID req = ''''" "aq_CreateTarget req" "aq_TargetEnvID req \<noteq> ''''"
    and new: "cfg_Create newID (aq_TargetEnvID req) (aq_TargetName req) None now db = Inr (c, db1)"
    and fails: "plan_rest kr db1 so proj srcEnv newID req = Inl e"
  shows "Apply kr commit so newID fresh cvID walk r now req db = (Inl e, db1)" "configs db1 = configs db @ [c]"
    "Apply kr' commit' so' newID' fresh' cvID' walk' r' now' req db1 = (Inl (PmStore ErrAlreadyExists), db1)"
proof -
  have c: "c_ID c = newID" "c_EnvironmentID c = aq_TargetEnvID req" "c_Name c = aq_TargetName req" "live_config c"
    and db1: "db1 = db\<lparr>configs := configs db @ [c]\<rparr>"
    using new by (auto simp: cfg_Create_def Let_def live_config_def split: if_splits)
  show "Apply kr commit so newID fresh cvID walk r now req db = (Inl e, db1)"
    using src create new fails c(1) by (simp add: Apply_def Plan_def plan_target_def)
  show "configs db1 = configs db @ [c]" by (simp add: db1)
  have "projectAndEnv db1 (aq_SourceConfigID req) = Inr (proj, srcEnv)"
    using src by (auto simp: projectAndEnv_def bind_err_Inr cfg_Get_def env_Get_def db1 intro: one_row_append split: if_splits)
  moreover have "config_name_taken db1 (aq_TargetEnvID req) (aq_TargetName req)"
    using c by (auto simp: config_name_taken_def db1)
  ultimately show "Apply kr' commit' so' newID' fresh' cvID' walk' r' now' req db1 = (Inl (PmStore ErrAlreadyExists), db1)"
    using create by (simp add: Apply_def Plan_def plan_target_def cfg_Create_def mapError_def unique_violation_def)
qed


section \<open>Pipelines\<close>

text \<open>Setting a pipeline: the environments are distinct, are read back in order, and each is followed by the next one.\<close>

lemma insert_steps_Inr:
  assumes "insert_steps p i eids db = Inr db'" "\<forall>s\<in>set (promotion_pipeline_steps db). st_ProjectID s = p \<longrightarrow> st_Position s < i"
  shows "promotion_pipeline_steps db' = promotion_pipeline_steps db @ map (\<lambda>(j, e). \<lparr>st_ProjectID = p, st_Position = j, st_EnvironmentID = e\<rparr>) (enumerate i eids)"
    "distinct eids"
    "\<forall>s\<in>set (promotion_pipeline_steps db). st_ProjectID s = p \<longrightarrow> st_EnvironmentID s \<notin> set eids"
proof -
  have "promotion_pipeline_steps db' = promotion_pipeline_steps db @ map (\<lambda>(j, e). \<lparr>st_ProjectID = p, st_Position = j, st_EnvironmentID = e\<rparr>) (enumerate i eids) \<and>
      distinct eids \<and> (\<forall>s\<in>set (promotion_pipeline_steps db). st_ProjectID s = p \<longrightarrow> st_EnvironmentID s \<notin> set eids)"
    using assms
  proof (induction p i eids db rule: insert_steps.induct)
    case (2 p i eid eids db)
    let ?db = "db\<lparr>promotion_pipeline_steps := promotion_pipeline_steps db @ [\<lparr>st_ProjectID = p, st_Position = i, st_EnvironmentID = eid\<rparr>]\<rparr>"
    have step: "insert_steps p (i + 1) eids ?db = Inr db'"
      and free: "\<forall>s\<in>set (promotion_pipeline_steps db). st_ProjectID s = p \<longrightarrow> st_EnvironmentID s \<noteq> eid"
      using "2.prems"(1) by (auto split: if_splits)
    have "\<not> (\<exists>s\<in>set (promotion_pipeline_steps db). st_ProjectID s = p \<and> (st_Position s = i \<or> st_EnvironmentID s = eid))"
      "\<not> (p \<notin> p_ID ` set (projects db) \<or> eid \<notin> e_ID ` set (environments db))"
      using "2.prems"(1) by (auto split: if_splits)
    from "2.IH" [OF this step] show ?case using "2.prems"(2) free by (auto simp: less_Suc_eq)
  qed simp
  then show "promotion_pipeline_steps db' = promotion_pipeline_steps db @ map (\<lambda>(j, e). \<lparr>st_ProjectID = p, st_Position = j, st_EnvironmentID = e\<rparr>) (enumerate i eids)"
    "distinct eids" "\<forall>s\<in>set (promotion_pipeline_steps db). st_ProjectID s = p \<longrightarrow> st_EnvironmentID s \<notin> set eids" by blast+
qed

lemma pipe_Set_steps:
  assumes "pipe_Set commit p eids db = (Inr u, db')"
  shows "filter (\<lambda>s. st_ProjectID s = p) (promotion_pipeline_steps db') = map (\<lambda>(j, e). \<lparr>st_ProjectID = p, st_Position = j, st_EnvironmentID = e\<rparr>) (enumerate 0 eids)"
    "distinct eids"
proof -
  let ?db = "db\<lparr>promotion_pipeline_steps := filter (\<lambda>s. st_ProjectID s \<noteq> p) (promotion_pipeline_steps db)\<rparr>"
  have ins: "insert_steps p 0 eids ?db = Inr db'"
    using assms by (auto simp: pipe_Set_def withTx_ok bind_err_Inr)
  have none: "\<forall>s\<in>set (promotion_pipeline_steps ?db). st_ProjectID s = p \<longrightarrow> st_Position s < 0" by simp
  note i = insert_steps_Inr [OF ins none]
  show "distinct eids" by (rule i(2))
  have "filter (\<lambda>s. st_ProjectID s = p) (map (\<lambda>(j, e). \<lparr>st_ProjectID = p, st_Position = j, st_EnvironmentID = e\<rparr>) xs) =
      map (\<lambda>(j, e). \<lparr>st_ProjectID = p, st_Position = j, st_EnvironmentID = e\<rparr>) xs" for xs :: "(nat \<times> string) list"
    by (rule filter_True) auto
  moreover have "filter (\<lambda>s. st_ProjectID s = p) (filter (\<lambda>s. st_ProjectID s \<noteq> p) t) = []" for t by (simp add: filter_empty_conv)
  ultimately show "filter (\<lambda>s. st_ProjectID s = p) (promotion_pipeline_steps db') = map (\<lambda>(j, e). \<lparr>st_ProjectID = p, st_Position = j, st_EnvironmentID = e\<rparr>) (enumerate 0 eids)"
    unfolding i(1) by simp
qed

lemma filter_enumerate_pos:
  "filter (\<lambda>x. fst x = k) (enumerate i xs) = (if i \<le> k \<and> k < i + length xs then [(k, xs ! (k - i))] else [])"
  by (induction xs arbitrary: i) (auto simp: nth_Cons')

lemma filter_enumerate_val:
  "distinct xs \<Longrightarrow> n < length xs \<Longrightarrow> filter (\<lambda>x. snd x = xs ! n) (enumerate i xs) = [(i + n, xs ! n)]"
proof (induction xs arbitrary: i n)
  case (Cons a xs)
  have "filter (\<lambda>x. snd x = a) (enumerate (Suc i) xs) = []" using Cons.prems by (auto simp: filter_empty_conv in_set_enumerate_eq)
  then show ?case using Cons by (cases n) auto
qed simp

theorem pipeline_roundtrip:
  assumes set: "pipe_Set commit p eids db = (Inr u, db')"
  shows "map st_EnvironmentID (pipe_Get db' p) = eids \<and> distinct eids \<and>
    (\<forall>n < length eids. NextEnv db' p (eids ! n) = (if n + 1 < length eids then Some (eids ! (n + 1)) else None)) \<and>
    (\<forall>e. e \<notin> set eids \<longrightarrow> NextEnv db' p e = None)"
proof -
  let ?row = "\<lambda>(j, e). \<lparr>st_ProjectID = p, st_Position = j, st_EnvironmentID = e\<rparr>"
  let ?rows = "map ?row (enumerate 0 eids)"
  note s = pipe_Set_steps [OF set]
  have only: "filter (\<lambda>x. st_ProjectID x = p \<and> Q x) (promotion_pipeline_steps db') = filter Q ?rows" for Q
    using s(1) by (metis (no_types, lifting) filter_cong filter_filter)
  have "sorted (map st_Position ?rows)" by (simp add: comp_def split_beta enumerate_eq_zip)
  then have get: "pipe_Get db' p = ?rows" unfolding pipe_Get_def s(1) by (simp add: sort_key_id_if_sorted)
  have here: "filter (\<lambda>x. st_EnvironmentID x = eids ! n) ?rows = [?row (n, eids ! n)]" if "n < length eids" for n
    using filter_enumerate_val [OF s(2) that, of 0] by (simp add: filter_map comp_def split_beta)
  have pos: "filter (\<lambda>x. st_Position x = k) ?rows = (if k < length eids then [?row (k, eids ! k)] else [])" for k
    using filter_enumerate_pos [of k 0 eids] by (simp add: filter_map comp_def split_beta)
  have "NextEnv db' p (eids ! n) = (if n + 1 < length eids then Some (eids ! (n + 1)) else None)" if "n < length eids" for n
    unfolding NextEnv_def only here [OF that] by (simp add: only pos)
  moreover have "NextEnv db' p e = None" if "e \<notin> set eids" for e
  proof -
    have "filter (\<lambda>x. st_EnvironmentID x = e) ?rows = []" using that by (auto simp: filter_empty_conv in_set_enumerate_eq)
    then show ?thesis unfolding NextEnv_def only by simp
  qed
  moreover have "map st_EnvironmentID ?rows = eids" by (simp add: comp_def split_beta)
  ultimately show ?thesis using s(2) get by simp
qed

end
