(* ===== verification/Authz.thy ===== *)
theory Authz
  imports Store_Base "HOL-Library.List_Lexorder" "HOL-Library.Char_ord"
begin

section \<open>Authorisation\<close>

text \<open>
  \<^verbatim>\<open>internal/authz\<close>, with the tables behind it (\<^verbatim>\<open>internal/store/role_bindings.go\<close>, \<^verbatim>\<open>break_glass.go\<close>,
  \<^verbatim>\<open>rbac_models.go\<close>) and the principal of \<^verbatim>\<open>internal/auth/principal.go\<close>: the role matrix, the scope
  rules, the decision \<^verbatim>\<open>Can\<close>, the effective permission set, the effective role, and the management of
  bindings. The engine's stores are functions that return rows or an error; the engine's clock is a
  field. The theorems: the decision is that of the highest applicable role, it fails closed, it is
  confined to the scope of the binding, grant or token, the bulk and presentation functions agree with
  it exactly, and granting and revoking through the table have exactly the effect they name.
\<close>

subsection \<open>Actions and roles\<close>

type_synonym Action = string
type_synonym Role = string

definition SecretRead :: Action where "SecretRead = ''secret:read''"
definition SecretWrite :: Action where "SecretWrite = ''secret:write''"
definition ConfigRead :: Action where "ConfigRead = ''config:read''"
definition ConfigCreate :: Action where "ConfigCreate = ''config:create''"
definition ConfigDelete :: Action where "ConfigDelete = ''config:delete''"
definition EnvCreate :: Action where "EnvCreate = ''env:create''"
definition EnvDelete :: Action where "EnvDelete = ''env:delete''"
definition EnvUpdate :: Action where "EnvUpdate = ''env:update''"
definition ProjectRead :: Action where "ProjectRead = ''project:read''"
definition ProjectCreate :: Action where "ProjectCreate = ''project:create''"
definition ProjectUpdate :: Action where "ProjectUpdate = ''project:update''"
definition ProjectDelete :: Action where "ProjectDelete = ''project:delete''"
definition MemberRead :: Action where "MemberRead = ''member:read''"
definition MemberManage :: Action where "MemberManage = ''member:manage''"
definition TokenRead :: Action where "TokenRead = ''token:read''"
definition TokenMint :: Action where "TokenMint = ''token:mint''"
definition TokenRevoke :: Action where "TokenRevoke = ''token:revoke''"
definition UserManage :: Action where "UserManage = ''user:manage''"
definition GroupManage :: Action where "GroupManage = ''group:manage''"
definition AuditRead :: Action where "AuditRead = ''audit:read''"
definition SysSeal :: Action where "SysSeal = ''sys:seal''"
definition SysBackup :: Action where "SysBackup = ''sys:backup''"
definition TransitRead :: Action where "TransitRead = ''transit:read''"
definition TransitUse :: Action where "TransitUse = ''transit:use''"
definition TransitManage :: Action where "TransitManage = ''transit:manage''"
definition OIDCManage :: Action where "OIDCManage = ''oidc:manage''"
definition RotationManage :: Action where "RotationManage = ''rotation:manage''"
definition SyncManage :: Action where "SyncManage = ''sync:manage''"
definition DynamicManage :: Action where "DynamicManage = ''dynamic:manage''"
definition DynamicIssue :: Action where "DynamicIssue = ''dynamic:issue''"
definition KEKManage :: Action where "KEKManage = ''kek:manage''"
definition SysMasterKey :: Action where "SysMasterKey = ''sys:master-key''"
definition AuditManage :: Action where "AuditManage = ''audit:manage''"
definition SysEgress :: Action where "SysEgress = ''sys:egress''"
definition SecretPrune :: Action where "SecretPrune = ''secret:prune''"
definition SecretPromote :: Action where "SecretPromote = ''secret:promote''"
definition PromotionManage :: Action where "PromotionManage = ''promotion:manage''"
definition PromotionRequest :: Action where "PromotionRequest = ''promotion:request''"
definition NotificationManage :: Action where "NotificationManage = ''notification:manage''"

lemmas actions = SecretRead_def SecretWrite_def ConfigRead_def ConfigCreate_def ConfigDelete_def
  EnvCreate_def EnvDelete_def EnvUpdate_def ProjectRead_def ProjectCreate_def ProjectUpdate_def
  ProjectDelete_def MemberRead_def MemberManage_def TokenRead_def TokenMint_def TokenRevoke_def
  UserManage_def GroupManage_def AuditRead_def SysSeal_def SysBackup_def TransitRead_def
  TransitUse_def TransitManage_def OIDCManage_def RotationManage_def SyncManage_def
  DynamicManage_def DynamicIssue_def KEKManage_def SysMasterKey_def AuditManage_def SysEgress_def
  SecretPrune_def SecretPromote_def PromotionManage_def PromotionRequest_def NotificationManage_def

definition RoleViewer :: Role where "RoleViewer = ''viewer''"
definition RoleDeveloper :: Role where "RoleDeveloper = ''developer''"
definition RoleAdmin :: Role where "RoleAdmin = ''admin''"
definition RoleOwner :: Role where "RoleOwner = ''owner''"

lemmas roles = RoleViewer_def RoleDeveloper_def RoleAdmin_def RoleOwner_def

definition viewerActions :: "Action set" where
  "viewerActions = {SecretRead, ConfigRead, ProjectRead, MemberRead, TransitRead}"

definition developerActions :: "Action set" where
  "developerActions = viewerActions \<union>
    {SecretWrite, ConfigCreate, TransitUse, DynamicIssue, SecretPromote, PromotionRequest}"

definition adminActions :: "Action set" where
  "adminActions = developerActions \<union>
    {ConfigDelete, EnvCreate, EnvDelete, EnvUpdate, ProjectCreate, ProjectUpdate, MemberManage,
     TokenRead, TokenMint, TokenRevoke, UserManage, GroupManage, AuditRead, SysSeal, SysBackup,
     TransitManage, OIDCManage, RotationManage, SyncManage, DynamicManage, PromotionManage,
     NotificationManage}"

definition ownerActions :: "Action set" where
  "ownerActions = adminActions \<union>
    {ProjectDelete, KEKManage, SysMasterKey, AuditManage, SecretPrune, SysEgress}"

text \<open>A missing key of a Go map reads as the zero value: the empty bundle, the rank 0.\<close>

definition roleActions :: "Role \<Rightarrow> Action set" where
  "roleActions role =
    (if role = RoleViewer then viewerActions else if role = RoleDeveloper then developerActions
     else if role = RoleAdmin then adminActions else if role = RoleOwner then ownerActions else {})"

definition roleRank :: "Role \<Rightarrow> int" where
  "roleRank role =
    (if role = RoleViewer then 1 else if role = RoleDeveloper then 2
     else if role = RoleAdmin then 3 else if role = RoleOwner then 4 else 0)"

definition roleAllows :: "Role \<Rightarrow> Action \<Rightarrow> bool" where
  "roleAllows role action \<longleftrightarrow> action \<in> roleActions role"

definition ValidRole :: "string \<Rightarrow> bool" where
  "ValidRole s \<longleftrightarrow> s \<in> {RoleViewer, RoleDeveloper, RoleAdmin, RoleOwner}"

definition RoleAtLeast :: "Role \<Rightarrow> Role \<Rightarrow> bool" where
  "RoleAtLeast a b \<longleftrightarrow> roleRank a \<ge> roleRank b"

definition RoleRankOf :: "Role \<Rightarrow> int" where
  "RoleRankOf r = roleRank r"

definition RoleStrictlyAbove :: "Role \<Rightarrow> Role \<Rightarrow> bool" where
  "RoleStrictlyAbove a b \<longleftrightarrow> roleRank a > roleRank b"

subsection \<open>Principals, resources, bindings and grants\<close>

definition KindUser :: string where "KindUser = ''user''"
definition KindServiceToken :: string where "KindServiceToken = ''service_token''"

record Principal =
  Kind :: string
  ID :: string
  Name :: string

record Resource =
  ProjectID :: string
  EnvID :: string
  ConfigID :: string
  TransitKey :: string

definition Instance :: Resource where
  "Instance = \<lparr>ProjectID = '''', EnvID = '''', ConfigID = '''', TransitKey = ''''\<rparr>"

record TokenScope =
  Kind_ts :: string
  ID_ts :: string
  Access :: string

record RoleBinding =
  ID_rb :: string
  SubjectUserID :: string
  ScopeLevel :: string
  ProjectID_rb :: "string option"
  EnvironmentID :: "string option"
  Role_rb :: string
  CreatedBy :: "string option"
  CreatedAt :: int
  ViaGroupID :: "string option"
  ViaGroupName :: string

record BreakGlassGrant =
  ID_bg :: string
  UserID :: string
  ScopeLevel_bg :: string
  ProjectID_bg :: "string option"
  EnvironmentID_bg :: "string option"
  ElevatedRole :: string
  Reason :: string
  ActivatedAt :: int
  ExpiresAt :: int
  RevokedAt :: "int option"
  CreatedAt_bg :: int

definition Active :: "BreakGlassGrant \<Rightarrow> int \<Rightarrow> bool" where
  "Active g now \<longleftrightarrow> RevokedAt g = None \<and> now < ExpiresAt g"

subsection \<open>The rules\<close>

definition tokenCapabilities :: "string \<Rightarrow> Action set" where
  "tokenCapabilities access =
    (if access = ''read'' then {SecretRead, ConfigRead}
     else if access = ''readwrite'' then {SecretRead, ConfigRead, SecretWrite}
     else {})"

definition transitTokenCapabilities :: "string \<Rightarrow> Action set" where
  "transitTokenCapabilities access =
    (if access = ''use'' then {TransitRead, TransitUse}
     else if access = ''manage'' then {TransitRead, TransitUse, TransitManage}
     else {})"

definition tokenAllows :: "TokenScope \<Rightarrow> Action \<Rightarrow> Resource \<Rightarrow> bool" where
  "tokenAllows scope action res =
    (if Kind_ts scope = ''config'' then
       action \<in> tokenCapabilities (Access scope) \<and> ConfigID res \<noteq> '''' \<and> ConfigID res = ID_ts scope
     else if Kind_ts scope = ''environment'' then
       action \<in> tokenCapabilities (Access scope) \<and> EnvID res \<noteq> '''' \<and> EnvID res = ID_ts scope
     else if Kind_ts scope = ''transit'' then
       (if action \<notin> transitTokenCapabilities (Access scope) then False
        else ID_ts scope = '''' \<or> ID_ts scope = TransitKey res)
     else False)"

text \<open>\<^verbatim>\<open>bindingApplies\<close> and \<^verbatim>\<open>grantApplies\<close> are the same switch over the scope of a row.\<close>

definition bindingApplies :: "RoleBinding \<Rightarrow> Resource \<Rightarrow> bool" where
  "bindingApplies b res =
    (if ScopeLevel b = ''instance'' then True
     else if ScopeLevel b = ''project'' then
       (case ProjectID_rb b of None \<Rightarrow> False | Some p \<Rightarrow> ProjectID res \<noteq> '''' \<and> p = ProjectID res)
     else if ScopeLevel b = ''environment'' then
       (case EnvironmentID b of None \<Rightarrow> False | Some e \<Rightarrow> EnvID res \<noteq> '''' \<and> e = EnvID res)
     else False)"

definition grantApplies :: "BreakGlassGrant \<Rightarrow> Resource \<Rightarrow> bool" where
  "grantApplies g res =
    (if ScopeLevel_bg g = ''instance'' then True
     else if ScopeLevel_bg g = ''project'' then
       (case ProjectID_bg g of None \<Rightarrow> False | Some p \<Rightarrow> ProjectID res \<noteq> '''' \<and> p = ProjectID res)
     else if ScopeLevel_bg g = ''environment'' then
       (case EnvironmentID_bg g of None \<Rightarrow> False | Some e \<Rightarrow> EnvID res \<noteq> '''' \<and> e = EnvID res)
     else False)"

fun userAllows :: "RoleBinding list \<Rightarrow> Action \<Rightarrow> Resource \<Rightarrow> bool" where
  "userAllows [] action res = False"
| "userAllows (b # bs) action res =
    (if bindingApplies b res \<and> roleAllows (Role_rb b) action then True else userAllows bs action res)"

fun grantsAllow :: "BreakGlassGrant list \<Rightarrow> int \<Rightarrow> Action \<Rightarrow> Resource \<Rightarrow> bool" where
  "grantsAllow [] now action res = False"
| "grantsAllow (g # gs) now action res =
    (if \<not> Active g now then grantsAllow gs now action res
     else if grantApplies g res \<and> roleAllows (ElevatedRole g) action then True
     else grantsAllow gs now action res)"

subsection \<open>The engine\<close>

datatype authz_err = ErrForbidden | ErrStore store_err

record Engine =
  bindings :: "string \<Rightarrow> store_err + RoleBinding list"
  groups :: "(string \<Rightarrow> store_err + RoleBinding list) option"
  grants :: "(string \<Rightarrow> int \<Rightarrow> store_err + BreakGlassGrant list) option"
  now :: int

definition lift_store :: "store_err + 'a \<Rightarrow> authz_err + 'a" where
  "lift_store r = (case r of Inl e \<Rightarrow> Inl (ErrStore e) | Inr x \<Rightarrow> Inr x)"

definition bindingsFor :: "Engine \<Rightarrow> string \<Rightarrow> authz_err + RoleBinding list" where
  "bindingsFor e userID = bind_err (lift_store (bindings e userID)) (\<lambda>direct.
     case groups e of
       None \<Rightarrow> Inr direct
     | Some g \<Rightarrow> bind_err (lift_store (g userID)) (\<lambda>viaGroups. Inr (direct @ viaGroups)))"

definition grantsFor :: "Engine \<Rightarrow> string \<Rightarrow> authz_err + BreakGlassGrant list" where
  "grantsFor e userID = (case grants e of None \<Rightarrow> Inr [] | Some g \<Rightarrow> lift_store (g userID (now e)))"

definition grantAllows :: "Engine \<Rightarrow> string \<Rightarrow> Action \<Rightarrow> Resource \<Rightarrow> authz_err + bool" where
  "grantAllows e userID action res = (case grants e of
      None \<Rightarrow> Inr False
    | Some g \<Rightarrow> bind_err (lift_store (g userID (now e))) (\<lambda>gs. Inr (grantsAllow gs (now e) action res)))"

definition Can :: "Engine \<Rightarrow> Principal \<Rightarrow> TokenScope option \<Rightarrow> Action \<Rightarrow> Resource \<Rightarrow> authz_err + unit" where
  "Can e p scope action res =
    (if Kind p = KindServiceToken then
       (case scope of
          Some sc \<Rightarrow> if tokenAllows sc action res then Inr () else Inl ErrForbidden
        | None \<Rightarrow> Inl ErrForbidden)
     else if Kind p = KindUser then
       bind_err (bindingsFor e (ID p)) (\<lambda>bs.
         if userAllows bs action res then Inr ()
         else bind_err (grantAllows e (ID p) action res) (\<lambda>allowed.
           if allowed then Inr () else Inl ErrForbidden))
     else Inl ErrForbidden)"

fun RoleFromBindings_loop :: "RoleBinding list \<Rightarrow> Resource \<Rightarrow> Role \<Rightarrow> Role" where
  "RoleFromBindings_loop [] res best = best"
| "RoleFromBindings_loop (b # bs) res best =
    RoleFromBindings_loop bs res
      (if bindingApplies b res \<and> roleRank (Role_rb b) > roleRank best then Role_rb b else best)"

definition RoleFromBindings :: "RoleBinding list \<Rightarrow> Resource \<Rightarrow> Role" where
  "RoleFromBindings bs res = RoleFromBindings_loop bs res ''''"

definition ApplicableBindings :: "RoleBinding list \<Rightarrow> Resource \<Rightarrow> RoleBinding list" where
  "ApplicableBindings bs res = filter (\<lambda>b. bindingApplies b res) bs"

definition BoundRole :: "Engine \<Rightarrow> string \<Rightarrow> Resource \<Rightarrow> authz_err + Role" where
  "BoundRole e userID res = bind_err (bindingsFor e userID) (\<lambda>bs. Inr (RoleFromBindings bs res))"

definition BoundRoles :: "Engine \<Rightarrow> string \<Rightarrow> Resource list \<Rightarrow> authz_err + Role list" where
  "BoundRoles e userID resources =
    (if resources = [] then Inr []
     else bind_err (bindingsFor e userID) (\<lambda>bs. Inr (map (RoleFromBindings bs) resources)))"

fun grant_role_loop :: "BreakGlassGrant list \<Rightarrow> int \<Rightarrow> Resource \<Rightarrow> Role \<Rightarrow> Role" where
  "grant_role_loop [] t res best = best"
| "grant_role_loop (g # gs) t res best =
    grant_role_loop gs t res
      (if Active g t \<and> grantApplies g res \<and> roleRank (ElevatedRole g) > roleRank best
       then ElevatedRole g else best)"

definition EffectiveRole :: "Engine \<Rightarrow> string \<Rightarrow> Resource \<Rightarrow> authz_err + Role" where
  "EffectiveRole e userID res = bind_err (BoundRole e userID res) (\<lambda>best.
     case grants e of
       None \<Rightarrow> Inr best
     | Some g \<Rightarrow> bind_err (lift_store (g userID (now e))) (\<lambda>gs. Inr (grant_role_loop gs (now e) res best)))"

definition AllowedProjects :: "Engine \<Rightarrow> Principal \<Rightarrow> Action \<Rightarrow> string list \<Rightarrow> authz_err + string list" where
  "AllowedProjects e p action projectIDs =
    (if Kind p \<noteq> KindUser \<or> projectIDs = [] then Inr []
     else bind_err (bindingsFor e (ID p)) (\<lambda>bs.
       bind_err (grantsFor e (ID p)) (\<lambda>gs.
         Inr (filter (\<lambda>pid. let res = Instance\<lparr>ProjectID := pid\<rparr> in
             userAllows bs action res \<or>
             (\<exists>g \<in> set gs. Active g (now e) \<and> grantApplies g res \<and> roleAllows (ElevatedRole g) action))
           projectIDs))))"

subsection \<open>The effective permission set\<close>

record Effective =
  Instance_eff :: "Action list"
  Anywhere :: "Action list"

definition sortedActions :: "Action set \<Rightarrow> Action list" where
  "sortedActions s = sorted_list_of_set s"

definition AllActions :: "Action list" where
  "AllActions = sortedActions ownerActions"

definition tokenResource :: "TokenScope \<Rightarrow> Resource" where
  "tokenResource s =
    (if Kind_ts s = ''config'' then Instance\<lparr>ConfigID := ID_ts s\<rparr>
     else if Kind_ts s = ''environment'' then Instance\<lparr>EnvID := ID_ts s\<rparr>
     else if Kind_ts s = ''transit'' then Instance\<lparr>TransitKey := ID_ts s\<rparr>
     else Instance)"

text \<open>\<^verbatim>\<open>candidateScopes\<close>: the loop's \<^verbatim>\<open>add\<close> skips the zero resource and what was seen before.\<close>

definition add_scope :: "Resource option \<Rightarrow> Resource list \<Rightarrow> Resource list" where
  "add_scope r out = (case r of
      None \<Rightarrow> out
    | Some r \<Rightarrow> if r = Instance \<or> r \<in> set out then out else out @ [r])"

definition binding_scope :: "RoleBinding \<Rightarrow> Resource option" where
  "binding_scope b =
    (if ScopeLevel b = ''project'' then map_option (\<lambda>p. Instance\<lparr>ProjectID := p\<rparr>) (ProjectID_rb b)
     else if ScopeLevel b = ''environment'' then map_option (\<lambda>i. Instance\<lparr>EnvID := i\<rparr>) (EnvironmentID b)
     else None)"

definition grant_scope :: "BreakGlassGrant \<Rightarrow> Resource option" where
  "grant_scope g =
    (if ScopeLevel_bg g = ''project'' then map_option (\<lambda>p. Instance\<lparr>ProjectID := p\<rparr>) (ProjectID_bg g)
     else if ScopeLevel_bg g = ''environment'' then map_option (\<lambda>i. Instance\<lparr>EnvID := i\<rparr>) (EnvironmentID_bg g)
     else None)"

definition candidateScopes :: "RoleBinding list \<Rightarrow> BreakGlassGrant list \<Rightarrow> Resource list" where
  "candidateScopes bs gs = fold add_scope (map grant_scope gs) (fold add_scope (map binding_scope bs) [])"

definition Effective_of :: "Engine \<Rightarrow> Principal \<Rightarrow> TokenScope option \<Rightarrow> authz_err + Effective" where
  "Effective_of e p scope =
    (if Kind p = KindServiceToken then
       (case scope of
          None \<Rightarrow> Inr \<lparr>Instance_eff = [], Anywhere = []\<rparr>
        | Some sc \<Rightarrow>
           let allow = (\<lambda>res. {a \<in> set AllActions. tokenAllows sc a res}); inst = allow Instance in
           Inr \<lparr>Instance_eff = sortedActions inst,
                Anywhere = sortedActions (inst \<union> allow (tokenResource sc))\<rparr>)
     else if Kind p = KindUser then
       bind_err (bindingsFor e (ID p)) (\<lambda>bs.
       bind_err (grantsFor e (ID p)) (\<lambda>gs.
         let allow = (\<lambda>res. {a \<in> set AllActions. userAllows bs a res \<or> grantsAllow gs (now e) a res});
             inst = allow Instance;
             anywhere = fold (\<lambda>res acc. acc \<union> allow res) (candidateScopes bs gs) inst
         in Inr \<lparr>Instance_eff = sortedActions inst, Anywhere = sortedActions anywhere\<rparr>))
     else Inr \<lparr>Instance_eff = [], Anywhere = []\<rparr>)"

subsection \<open>The table of role bindings\<close>

text \<open>
  \<^verbatim>\<open>RoleBindingRepo\<close>: the table is a list of rows; \<open>newID\<close> and \<open>ts\<close> are what Postgres generates on
  insertion. \<open>same_scope\<close> is the \<^verbatim>\<open>WHERE\<close> clause of the exact scope.
\<close>

record RoleBindingInput =
  SubjectUserID_in :: string
  ScopeLevel_in :: string
  ProjectID_in :: "string option"
  EnvironmentID_in :: "string option"
  Role_in :: string
  CreatedBy_in :: "string option"

definition same_scope :: "string \<Rightarrow> string \<Rightarrow> string option \<Rightarrow> string option \<Rightarrow> RoleBinding \<Rightarrow> bool" where
  "same_scope u l p i b \<longleftrightarrow> SubjectUserID b = u \<and> ScopeLevel b = l \<and> ProjectID_rb b = p \<and> EnvironmentID b = i"

definition rb_Create :: "string \<Rightarrow> int \<Rightarrow> RoleBindingInput \<Rightarrow> RoleBinding list \<Rightarrow> RoleBinding \<times> RoleBinding list" where
  "rb_Create newID ts inp t =
    (case filter (same_scope (SubjectUserID_in inp) (ScopeLevel_in inp) (ProjectID_in inp) (EnvironmentID_in inp)) t of
       b # _ \<Rightarrow>
         let b' = b\<lparr>Role_rb := Role_in inp, CreatedBy := CreatedBy_in inp\<rparr> in
         (b', map (\<lambda>x. if ID_rb x = ID_rb b then x\<lparr>Role_rb := Role_in inp, CreatedBy := CreatedBy_in inp\<rparr> else x) t)
     | [] \<Rightarrow>
         let b = \<lparr>ID_rb = newID, SubjectUserID = SubjectUserID_in inp, ScopeLevel = ScopeLevel_in inp,
             ProjectID_rb = ProjectID_in inp, EnvironmentID = EnvironmentID_in inp, Role_rb = Role_in inp,
             CreatedBy = CreatedBy_in inp, CreatedAt = ts, ViaGroupID = None, ViaGroupName = ''''\<rparr> in
         (b, t @ [b]))"

definition rb_ListForUser :: "RoleBinding list \<Rightarrow> string \<Rightarrow> store_err + RoleBinding list" where
  "rb_ListForUser t userID = Inr (filter (\<lambda>b. SubjectUserID b = userID) t)"

definition rb_DeleteForSubjectScope :: "string \<Rightarrow> string \<Rightarrow> string option \<Rightarrow> string option \<Rightarrow>
    RoleBinding list \<Rightarrow> store_err + RoleBinding list" where
  "rb_DeleteForSubjectScope u l p i t =
    execAffectingOne (Inr (length (filter (same_scope u l p i) t), filter (\<lambda>b. \<not> same_scope u l p i b) t))"

definition rb_CountInstanceOwners :: "RoleBinding list \<Rightarrow> nat" where
  "rb_CountInstanceOwners t = length (filter (\<lambda>b. ScopeLevel b = ''instance'' \<and> Role_rb b = ''owner'') t)"

text \<open>\<^verbatim>\<open>Grant\<close> and \<^verbatim>\<open>Revoke\<close> of the engine delegate to the table.\<close>

definition Grant :: "string \<Rightarrow> int \<Rightarrow> RoleBindingInput \<Rightarrow> RoleBinding list \<Rightarrow> RoleBinding list" where
  "Grant newID ts inp t = snd (rb_Create newID ts inp t)"

definition Revoke :: "string \<Rightarrow> string \<Rightarrow> string option \<Rightarrow> string option \<Rightarrow> RoleBinding list \<Rightarrow>
    store_err + RoleBinding list" where
  "Revoke u l p i t = rb_DeleteForSubjectScope u l p i t"

text \<open>The break-glass table.\<close>

definition bg_ListActiveForUser :: "BreakGlassGrant list \<Rightarrow> string \<Rightarrow> int \<Rightarrow> store_err + BreakGlassGrant list" where
  "bg_ListActiveForUser t userID ts =
    Inr (filter (\<lambda>g. UserID g = userID \<and> RevokedAt g = None \<and> ExpiresAt g > ts) t)"

definition bg_Revoke :: "string \<Rightarrow> int \<Rightarrow> BreakGlassGrant list \<Rightarrow> store_err + BreakGlassGrant list" where
  "bg_Revoke i ts t =
    execAffectingOne (Inr (length (filter (\<lambda>g. ID_bg g = i \<and> RevokedAt g = None) t),
      map (\<lambda>g. if ID_bg g = i \<and> RevokedAt g = None then g\<lparr>RevokedAt := Some ts\<rparr> else g) t))"

definition bg_SweepExpired :: "int \<Rightarrow> BreakGlassGrant list \<Rightarrow> BreakGlassGrant list \<times> BreakGlassGrant list" where
  "bg_SweepExpired ts t =
    (let stamp = (\<lambda>g. g\<lparr>RevokedAt := Some (ExpiresAt g)\<rparr>); lapsed = (\<lambda>g. RevokedAt g = None \<and> ExpiresAt g \<le> ts) in
     (map stamp (filter lapsed t), map (\<lambda>g. if lapsed g then stamp g else g) t))"

subsection \<open>The matrix\<close>

lemma roles_distinct [simp]:
  "RoleViewer \<noteq> RoleDeveloper" "RoleViewer \<noteq> RoleAdmin" "RoleViewer \<noteq> RoleOwner"
  "RoleDeveloper \<noteq> RoleAdmin" "RoleDeveloper \<noteq> RoleOwner" "RoleAdmin \<noteq> RoleOwner"
  by (simp_all add: roles)

lemma bundles_mono: "viewerActions \<subseteq> developerActions" "developerActions \<subseteq> adminActions" "adminActions \<subseteq> ownerActions"
  by (auto simp: developerActions_def adminActions_def ownerActions_def)

lemma finite_ownerActions: "finite ownerActions"
  by (simp add: ownerActions_def adminActions_def developerActions_def viewerActions_def)

lemma rank_range: "0 \<le> roleRank a" "roleRank a \<le> 4"
  by (auto simp: roleRank_def)

lemma rank_zero: "roleRank a = 0 \<Longrightarrow> roleActions a = {}"
  by (auto simp: roleRank_def roleActions_def split: if_splits)

text \<open>A role of higher rank allows everything a role of lower rank allows.\<close>

lemma roleActions_mono:
  assumes "roleRank a \<le> roleRank b"
  shows "roleActions a \<subseteq> roleActions b"
proof -
  have m: "viewerActions \<subseteq> adminActions" "viewerActions \<subseteq> ownerActions" "developerActions \<subseteq> ownerActions"
    using bundles_mono by blast+
  show ?thesis
    using assms bundles_mono m unfolding roleRank_def roleActions_def by (auto split: if_splits)
qed

lemma roleActions_owner: "roleActions a \<subseteq> ownerActions"
proof -
  have "roleRank RoleOwner = 4" by (simp add: roleRank_def roles)
  then have "roleRank a \<le> roleRank RoleOwner" using rank_range(2) [of a] by simp
  from roleActions_mono [OF this] show ?thesis by (simp add: roleActions_def roles)
qed

lemma roleAllows_mono: "roleAllows a x \<Longrightarrow> roleRank a \<le> roleRank b \<Longrightarrow> roleAllows b x"
  using roleActions_mono by (auto simp: roleAllows_def)

subsection \<open>The rules as existence of a row\<close>

lemma userAllows_iff: "userAllows bs a res \<longleftrightarrow> (\<exists>b \<in> set bs. bindingApplies b res \<and> roleAllows (Role_rb b) a)"
  by (induction bs) auto

lemma grantsAllow_iff:
  "grantsAllow gs t a res \<longleftrightarrow> (\<exists>g \<in> set gs. Active g t \<and> grantApplies g res \<and> roleAllows (ElevatedRole g) a)"
  by (induction gs) auto

text \<open>The loop returns one of the roles it saw, or the one it started with, and none ranks higher.\<close>

lemma RoleFromBindings_loop_mem:
  "RoleFromBindings_loop bs res best = best \<or>
    (\<exists>b \<in> set bs. bindingApplies b res \<and> Role_rb b = RoleFromBindings_loop bs res best)"
proof (induction bs arbitrary: best)
  case (Cons b bs)
  let ?b = "if bindingApplies b res \<and> roleRank (Role_rb b) > roleRank best then Role_rb b else best"
  from Cons.IH [of ?b] show ?case by (cases "bindingApplies b res \<and> roleRank (Role_rb b) > roleRank best") auto
qed simp

lemma RoleFromBindings_loop_ge:
  "roleRank best \<le> roleRank (RoleFromBindings_loop bs res best)"
  "b \<in> set bs \<Longrightarrow> bindingApplies b res \<Longrightarrow> roleRank (Role_rb b) \<le> roleRank (RoleFromBindings_loop bs res best)"
proof (induction bs arbitrary: best)
  case (Cons x xs)
  {
    case 1
    let ?b = "if bindingApplies x res \<and> roleRank (Role_rb x) > roleRank best then Role_rb x else best"
    from Cons.IH(1) [of ?b] show ?case by (auto split: if_splits)
  next
    case 2
    let ?b = "if bindingApplies x res \<and> roleRank (Role_rb x) > roleRank best then Role_rb x else best"
    from Cons.IH(1) [of ?b] Cons.IH(2) [of ?b] 2 show ?case by (auto split: if_splits)
  }
qed auto

lemma grant_role_loop_ge:
  "roleRank best \<le> roleRank (grant_role_loop gs t res best)"
  "g \<in> set gs \<Longrightarrow> Active g t \<Longrightarrow> grantApplies g res \<Longrightarrow>
    roleRank (ElevatedRole g) \<le> roleRank (grant_role_loop gs t res best)"
proof (induction gs arbitrary: best)
  case (Cons x xs)
  {
    case 1
    let ?b = "if Active x t \<and> grantApplies x res \<and> roleRank (ElevatedRole x) > roleRank best then ElevatedRole x else best"
    from Cons.IH(1) [of ?b] show ?case by (auto split: if_splits)
  next
    case 2
    let ?b = "if Active x t \<and> grantApplies x res \<and> roleRank (ElevatedRole x) > roleRank best then ElevatedRole x else best"
    from Cons.IH(1) [of ?b] Cons.IH(2) [of ?b] 2 show ?case by (auto split: if_splits)
  }
qed auto

lemma grant_role_loop_mem:
  "grant_role_loop gs t res best = best \<or>
    (\<exists>g \<in> set gs. Active g t \<and> grantApplies g res \<and> ElevatedRole g = grant_role_loop gs t res best)"
proof (induction gs arbitrary: best)
  case (Cons g gs)
  let ?P = "Active g t \<and> grantApplies g res \<and> roleRank (ElevatedRole g) > roleRank best"
  from Cons.IH [of "if ?P then ElevatedRole g else best"] show ?case by (cases ?P) auto
qed simp

lemma roleAllows_empty [simp]: "\<not> roleAllows '''' a"
  by (simp add: roleAllows_def roleActions_def roles)

text \<open>The decision over fetched rows is the decision of the highest role.\<close>

lemma allows_iff_best_role:
  "userAllows bs a res \<or> grantsAllow gs t a res \<longleftrightarrow>
    roleAllows (grant_role_loop gs t res (RoleFromBindings bs res)) a" (is "?L \<longleftrightarrow> roleAllows ?r a")
proof
  assume ?L
  then consider b where "b \<in> set bs" "bindingApplies b res" "roleAllows (Role_rb b) a"
    | g where "g \<in> set gs" "Active g t" "grantApplies g res" "roleAllows (ElevatedRole g) a"
    by (auto simp: userAllows_iff grantsAllow_iff)
  then show "roleAllows ?r a"
  proof cases
    case 1
    then have "roleRank (Role_rb b) \<le> roleRank (RoleFromBindings bs res)"
      unfolding RoleFromBindings_def by (intro RoleFromBindings_loop_ge(2))
    also have "\<dots> \<le> roleRank ?r" by (rule grant_role_loop_ge(1))
    finally show ?thesis using 1(3) roleAllows_mono by blast
  next
    case 2
    then show ?thesis using grant_role_loop_ge(2) roleAllows_mono by blast
  qed
next
  assume r: "roleAllows ?r a"
  from grant_role_loop_mem [of gs t res "RoleFromBindings bs res"] show ?L
  proof
    assume "?r = RoleFromBindings bs res"
    with r RoleFromBindings_loop_mem [of bs res "''''"] have "userAllows bs a res"
      by (auto simp: userAllows_iff RoleFromBindings_def)
    then show ?L ..
  qed (use r in \<open>auto simp: grantsAllow_iff\<close>)
qed

subsection \<open>The decision\<close>

lemma lift_store_simps [simp]: "lift_store (Inl e) = Inl (ErrStore e)" "lift_store (Inr x) = Inr x"
  by (simp_all add: lift_store_def)

lemma lift_store_Inr [go_result]: "lift_store r = Inr x \<longleftrightarrow> r = Inr x"
  by (cases r) auto

lemma grantAllows_grantsFor:
  "grantAllows e u a res = bind_err (grantsFor e u) (\<lambda>gs. Inr (grantsAllow gs (now e) a res))"
  by (auto simp: grantAllows_def grantsFor_def split: option.splits)

lemma kinds_distinct [simp]: "KindUser \<noteq> KindServiceToken" "KindServiceToken \<noteq> KindUser"
  by (simp_all add: KindUser_def KindServiceToken_def)

lemma Can_user:
  assumes "Kind p = KindUser" "bindingsFor e (ID p) = Inr bs" "grantsFor e (ID p) = Inr gs"
  shows "Can e p sc a res = (if userAllows bs a res \<or> grantsAllow gs (now e) a res then Inr () else Inl ErrForbidden)"
  using assms by (simp add: Can_def grantAllows_grantsFor)

lemma EffectiveRole_eq:
  "EffectiveRole e u res = bind_err (bindingsFor e u) (\<lambda>bs. bind_err (grantsFor e u) (\<lambda>gs.
     Inr (grant_role_loop gs (now e) res (RoleFromBindings bs res))))"
  by (cases "bindingsFor e u") (auto simp: EffectiveRole_def BoundRole_def grantsFor_def split: option.splits)

subsection \<open>Candidate scopes\<close>

lemma fold_add_scope: "set (fold add_scope rs out) \<union> {Instance} = set out \<union> {r. Some r \<in> set rs} \<union> {Instance}"
proof (induction rs arbitrary: out)
  case (Cons r rs)
  have "set (add_scope r out) \<union> {Instance} = set out \<union> {x. r = Some x} \<union> {Instance}"
    by (cases r) (auto simp: add_scope_def)
  with Cons [of "add_scope r out"] show ?case by auto
qed simp

lemma candidateScopes_set:
  "set (candidateScopes bs gs) \<union> {Instance} =
    {r. \<exists>b \<in> set bs. binding_scope b = Some r} \<union> {r. \<exists>g \<in> set gs. grant_scope g = Some r} \<union> {Instance}"
proof -
  have "set (candidateScopes bs gs) \<union> {Instance} =
    set (fold add_scope (map binding_scope bs) []) \<union> {r. Some r \<in> set (map grant_scope gs)} \<union> {Instance}"
    unfolding candidateScopes_def by (rule fold_add_scope)
  also have "\<dots> = (set (fold add_scope (map binding_scope bs) []) \<union> {Instance}) \<union> {r. Some r \<in> set (map grant_scope gs)}"
    by auto
  also have "set (fold add_scope (map binding_scope bs) []) \<union> {Instance} =
    {r. Some r \<in> set (map binding_scope bs)} \<union> {Instance}"
    using fold_add_scope [of "map binding_scope bs" "[]"] by simp
  finally show ?thesis by (auto simp: image_iff) (metis+)
qed

text \<open>A row that applies anywhere applies at its own scope, or everywhere.\<close>

lemma bindingApplies_scope:
  "bindingApplies b res \<Longrightarrow> \<exists>r. (r = Instance \<or> binding_scope b = Some r) \<and> bindingApplies b r"
  by (cases "binding_scope b")
    (auto simp: bindingApplies_def binding_scope_def split: if_splits option.splits)

lemma grantApplies_scope:
  "grantApplies g res \<Longrightarrow> \<exists>r. (r = Instance \<or> grant_scope g = Some r) \<and> grantApplies g r"
  by (cases "grant_scope g")
    (auto simp: grantApplies_def grant_scope_def split: if_splits option.splits)

lemma allows_somewhere:
  "(\<exists>res. userAllows bs a res \<or> grantsAllow gs t a res) \<longleftrightarrow>
    (\<exists>res \<in> set (candidateScopes bs gs) \<union> {Instance}. userAllows bs a res \<or> grantsAllow gs t a res)"
    (is "?L \<longleftrightarrow> ?R")
proof
  assume ?L
  then consider b res where "b \<in> set bs" "bindingApplies b res" "roleAllows (Role_rb b) a"
    | g res where "g \<in> set gs" "Active g t" "grantApplies g res" "roleAllows (ElevatedRole g) a"
    by (auto simp: userAllows_iff grantsAllow_iff)
  then show ?R
  proof cases
    case 1
    from bindingApplies_scope [OF 1(2)] obtain r where r: "r = Instance \<or> binding_scope b = Some r" "bindingApplies b r"
      by blast
    with 1 have "r \<in> set (candidateScopes bs gs) \<union> {Instance}" unfolding candidateScopes_set by blast
    with 1 r show ?thesis by (auto simp only: userAllows_iff)
  next
    case 2
    from grantApplies_scope [OF 2(3)] obtain r where r: "r = Instance \<or> grant_scope g = Some r" "grantApplies g r"
      by blast
    with 2 have "r \<in> set (candidateScopes bs gs) \<union> {Instance}" unfolding candidateScopes_set by blast
    with 2 r show ?thesis by (auto simp only: grantsAllow_iff)
  qed
qed blast

lemma fold_union: "fold (\<lambda>r acc. acc \<union> f r) rs acc = acc \<union> (\<Union>r \<in> set rs. f r)"
  by (induction rs arbitrary: acc) auto

lemma set_AllActions [simp]: "set AllActions = ownerActions"
  by (simp add: AllActions_def sortedActions_def finite_ownerActions)

lemma allowed_in_owner: "userAllows bs a res \<or> grantsAllow gs t a res \<Longrightarrow> a \<in> ownerActions"
  using roleActions_owner by (auto simp: userAllows_iff grantsAllow_iff roleAllows_def)

lemma token_in_owner: "tokenAllows sc a res \<Longrightarrow> a \<in> ownerActions"
  by (auto simp: tokenAllows_def tokenCapabilities_def transitTokenCapabilities_def ownerActions_def adminActions_def
      developerActions_def viewerActions_def split: if_splits)

lemma token_somewhere:
  "(\<exists>res. tokenAllows sc a res) \<longleftrightarrow> tokenAllows sc a Instance \<or> tokenAllows sc a (tokenResource sc)"
proof
  assume "\<exists>res. tokenAllows sc a res"
  then show "tokenAllows sc a Instance \<or> tokenAllows sc a (tokenResource sc)"
    by (auto simp: tokenAllows_def tokenResource_def split: if_splits)
qed blast

subsection \<open>The contract of the binding table\<close>

definition scope_of :: "RoleBinding \<Rightarrow> string \<times> string \<times> string option \<times> string option" where
  "scope_of b = (SubjectUserID b, ScopeLevel b, ProjectID_rb b, EnvironmentID b)"

definition scope_in :: "RoleBindingInput \<Rightarrow> string \<times> string \<times> string option \<times> string option" where
  "scope_in i = (SubjectUserID_in i, ScopeLevel_in i, ProjectID_in i, EnvironmentID_in i)"

lemma same_scope_iff: "same_scope u l p i b \<longleftrightarrow> scope_of b = (u, l, p, i)"
  by (auto simp: same_scope_def scope_of_def)

text \<open>
  What the engine relies on of a table of bindings with a listing, an upsert and a deletion: the
  upsert sets the role of exactly its user and scope, the deletion removes exactly its user and scope.
\<close>

locale binding_store =
  fixes wf :: "'t \<Rightarrow> bool"
    and listing :: "'t \<Rightarrow> string \<Rightarrow> RoleBinding list"
    and create :: "string \<Rightarrow> int \<Rightarrow> RoleBindingInput \<Rightarrow> 't \<Rightarrow> 't"
    and delete :: "string \<Rightarrow> string \<Rightarrow> string option \<Rightarrow> string option \<Rightarrow> 't \<Rightarrow> store_err + 't"
    and fresh :: "string \<Rightarrow> 't \<Rightarrow> bool"
  assumes list_subject: "b \<in> set (listing t u) \<Longrightarrow> SubjectUserID b = u"
    and create_wf: "wf t \<Longrightarrow> fresh n t \<Longrightarrow> wf (create n ts inp t)"
    and create_list: "wf t \<Longrightarrow> fresh n t \<Longrightarrow>
      (\<lambda>b. (scope_of b, Role_rb b)) ` set (listing (create n ts inp t) u) =
      {x \<in> (\<lambda>b. (scope_of b, Role_rb b)) ` set (listing t u). fst x \<noteq> scope_in inp} \<union>
      (if SubjectUserID_in inp = u then {(scope_in inp, Role_in inp)} else {})"
    and delete_wf: "wf t \<Longrightarrow> delete u l p i t = Inr t' \<Longrightarrow> wf t'"
    and delete_list: "delete u l p i t = Inr t' \<Longrightarrow>
      (\<lambda>b. (scope_of b, Role_rb b)) ` set (listing t' v) =
      {x \<in> (\<lambda>b. (scope_of b, Role_rb b)) ` set (listing t v). fst x \<noteq> (u, l, p, i)}"
    and delete_error: "(\<exists>e. delete u l p i t = Inl e) \<longleftrightarrow> (\<forall>b \<in> set (listing t u). scope_of b \<noteq> (u, l, p, i))"
begin

text \<open>Whether a binding applies depends on its scope only, so the decision is one over the pairs.\<close>

definition pair_applies :: "string \<times> string \<times> string option \<times> string option \<Rightarrow> Resource \<Rightarrow> bool" where
  "pair_applies s res \<longleftrightarrow> (case s of (u, l, p, i) \<Rightarrow>
     l = ''instance'' \<or> (l = ''project'' \<and> p = Some (ProjectID res) \<and> ProjectID res \<noteq> '''') \<or>
     (l = ''environment'' \<and> i = Some (EnvID res) \<and> EnvID res \<noteq> ''''))"

lemma bindingApplies_pair: "bindingApplies b res \<longleftrightarrow> pair_applies (scope_of b) res"
  by (auto simp: bindingApplies_def pair_applies_def scope_of_def split: option.splits)

lemma userAllows_pairs:
  "userAllows bs a res \<longleftrightarrow>
    (\<exists>x \<in> (\<lambda>b. (scope_of b, Role_rb b)) ` set bs. pair_applies (fst x) res \<and> roleAllows (snd x) a)"
  by (auto simp: userAllows_iff bindingApplies_pair)

lemma grant_allows:
  assumes "wf t" "fresh n t" "\<And>b. scope_of b = scope_in inp \<Longrightarrow> bindingApplies b res" "roleAllows (Role_in inp) a"
  shows "userAllows (listing (create n ts inp t) (SubjectUserID_in inp)) a res"
proof -
  let ?b = "\<lparr>ID_rb = n, SubjectUserID = SubjectUserID_in inp, ScopeLevel = ScopeLevel_in inp,
    ProjectID_rb = ProjectID_in inp, EnvironmentID = EnvironmentID_in inp, Role_rb = Role_in inp,
    CreatedBy = None, CreatedAt = 0, ViaGroupID = None, ViaGroupName = ''''\<rparr>"
  have "scope_of ?b = scope_in inp" by (simp add: scope_of_def scope_in_def)
  then have "pair_applies (scope_in inp) res" using assms(3) [of ?b] bindingApplies_pair [of ?b res] by simp
  then show ?thesis
    unfolding userAllows_pairs create_list [OF assms(1,2)] using assms(4) by auto
qed

lemma create_other_user:
  assumes "wf t" "fresh n t" "u \<noteq> SubjectUserID_in inp"
  shows "userAllows (listing (create n ts inp t) u) a res = userAllows (listing t u) a res"
proof -
  have "{x \<in> (\<lambda>b. (scope_of b, Role_rb b)) ` set (listing t u). fst x \<noteq> scope_in inp} =
      (\<lambda>b. (scope_of b, Role_rb b)) ` set (listing t u)"
    using assms(3) list_subject [of _ t u] by (auto simp: scope_of_def scope_in_def)
  then show ?thesis unfolding userAllows_pairs create_list [OF assms(1,2)] using assms(3) by simp
qed

lemma delete_decision:
  assumes "delete u l p i t = Inr t'"
  shows "userAllows (listing t' v) a res \<longleftrightarrow>
    (\<exists>b \<in> set (listing t v). scope_of b \<noteq> (u, l, p, i) \<and> bindingApplies b res \<and> roleAllows (Role_rb b) a)"
  unfolding userAllows_pairs delete_list [OF assms] by (auto simp: bindingApplies_pair)

end

text \<open>The keys of the table: the primary key and the unique index on user and scope.\<close>

definition rb_wf :: "RoleBinding list \<Rightarrow> bool" where
  "rb_wf t \<longleftrightarrow> distinct (map ID_rb t) \<and> distinct (map scope_of t)"

definition rb_list :: "RoleBinding list \<Rightarrow> string \<Rightarrow> RoleBinding list" where
  "rb_list t u = filter (\<lambda>b. SubjectUserID b = u) t"

definition rb_fresh :: "string \<Rightarrow> RoleBinding list \<Rightarrow> bool" where
  "rb_fresh n t \<longleftrightarrow> n \<notin> ID_rb ` set t"

lemma scope_of_update [simp]: "scope_of (b\<lparr>Role_rb := r, CreatedBy := c\<rparr>) = scope_of b"
  "ID_rb (b\<lparr>Role_rb := r, CreatedBy := c\<rparr>) = ID_rb b"
  by (simp_all add: scope_of_def)

lemma filter_same_scope:
  "filter (same_scope (SubjectUserID_in inp) (ScopeLevel_in inp) (ProjectID_in inp) (EnvironmentID_in inp)) t =
    filter (\<lambda>b. scope_of b = scope_in inp) t"
  by (rule filter_cong [OF refl]) (simp add: same_scope_iff scope_in_def)

text \<open>The two branches of the upsert.\<close>

lemma Grant_update:
  assumes "rb_wf t" "b \<in> set t" "scope_of b = scope_in inp"
  shows "Grant n ts inp t = map (\<lambda>x. if scope_of x = scope_in inp
      then x\<lparr>Role_rb := Role_in inp, CreatedBy := CreatedBy_in inp\<rparr> else x) t"
proof -
  obtain b0 rest where f: "filter (\<lambda>b. scope_of b = scope_in inp) t = b0 # rest"
    using assms(2,3) by (cases "filter (\<lambda>b. scope_of b = scope_in inp) t") (auto simp: filter_empty_conv)
  then have b0: "b0 \<in> set t" "scope_of b0 = scope_in inp" by (auto simp: filter_eq_Cons_iff)
  have "ID_rb x = ID_rb b0 \<longleftrightarrow> scope_of x = scope_in inp" if "x \<in> set t" for x
    using assms(1) b0 that unfolding rb_wf_def distinct_map inj_on_def by metis
  then show ?thesis
    by (auto simp: Grant_def rb_Create_def filter_same_scope f Let_def)
qed

lemma Grant_insert:
  assumes "scope_in inp \<notin> scope_of ` set t"
  shows "\<exists>b. Grant n ts inp t = t @ [b] \<and> ID_rb b = n \<and> scope_of b = scope_in inp \<and>
    Role_rb b = Role_in inp \<and> SubjectUserID b = SubjectUserID_in inp"
proof -
  have "filter (\<lambda>b. scope_of b = scope_in inp) t = []"
    using assms unfolding filter_empty_conv by (metis image_eqI)
  then show ?thesis
    unfolding Grant_def rb_Create_def filter_same_scope Let_def by (simp add: scope_of_def scope_in_def)
qed

lemma Grant_wf: "rb_wf t \<Longrightarrow> rb_fresh n t \<Longrightarrow> rb_wf (Grant n ts inp t)"
proof (cases "scope_in inp \<in> scope_of ` set t")
  case True
  assume wf: "rb_wf t"
  from True obtain b where b: "b \<in> set t" "scope_of b = scope_in inp" by auto
  have "map ID_rb (Grant n ts inp t) = map ID_rb t" "map scope_of (Grant n ts inp t) = map scope_of t"
    unfolding Grant_update [OF wf b] by (auto simp: comp_def)
  then show ?thesis using wf by (simp add: rb_wf_def)
next
  case False
  assume "rb_wf t" "rb_fresh n t"
  with Grant_insert [OF False, of n ts] False show ?thesis by (auto simp: rb_wf_def rb_fresh_def)
qed

lemma Grant_pairs:
  assumes "rb_wf t" "rb_fresh n t"
  shows "(\<lambda>b. (scope_of b, Role_rb b)) ` set (rb_list (Grant n ts inp t) u) =
      {x \<in> (\<lambda>b. (scope_of b, Role_rb b)) ` set (rb_list t u). fst x \<noteq> scope_in inp} \<union>
      (if SubjectUserID_in inp = u then {(scope_in inp, Role_in inp)} else {})"
proof (cases "scope_in inp \<in> scope_of ` set t")
  case True
  then obtain b where b: "b \<in> set t" "scope_of b = scope_in inp" by auto
  have sub: "scope_of x = scope_in inp \<Longrightarrow> SubjectUserID x = SubjectUserID_in inp" for x
    by (simp add: scope_of_def scope_in_def)
  let ?f = "\<lambda>x. if scope_of x = scope_in inp then x\<lparr>Role_rb := Role_in inp, CreatedBy := CreatedBy_in inp\<rparr> else x"
  let ?g = "\<lambda>x. if scope_of x = scope_in inp then (scope_in inp, Role_in inp) else (scope_of x, Role_rb x)"
  have eq: "SubjectUserID (?f x) = SubjectUserID x" "(scope_of (?f x), Role_rb (?f x)) = ?g x" for x by auto
  have "(\<lambda>b. (scope_of b, Role_rb b)) ` set (rb_list (map ?f t) u) = ?g ` {x \<in> set t. SubjectUserID x = u}"
    by (simp only: rb_list_def filter_map comp_def eq set_map image_image set_filter)
  also have "\<dots> = {x \<in> (\<lambda>b. (scope_of b, Role_rb b)) ` set (rb_list t u). fst x \<noteq> scope_in inp} \<union>
      (if SubjectUserID_in inp = u then {(scope_in inp, Role_in inp)} else {})" (is "?A = ?B")
  proof
    show "?A \<subseteq> ?B" using sub by (auto simp: rb_list_def)
    show "?B \<subseteq> ?A" using b sub [OF b(2)] by (auto simp: rb_list_def image_iff split: if_splits)
  qed
  finally show ?thesis unfolding Grant_update [OF assms(1) b] .
next
  case False
  from Grant_insert [OF this, of n ts] obtain b where b: "Grant n ts inp t = t @ [b]" "scope_of b = scope_in inp"
    "Role_rb b = Role_in inp" "SubjectUserID b = SubjectUserID_in inp" by blast
  show ?thesis unfolding b(1) rb_list_def using b(2-4) False by (auto simp: image_iff)
qed

lemma Revoke_eq:
  "Revoke u l p i t = (if \<exists>b \<in> set t. scope_of b = (u, l, p, i)
     then Inr (filter (\<lambda>b. scope_of b \<noteq> (u, l, p, i)) t) else Inl ErrNotFound)"
  by (auto simp: Revoke_def rb_DeleteForSubjectScope_def execAffectingOne_def same_scope_iff filter_empty_conv)

interpretation rb: binding_store rb_wf rb_list Grant Revoke rb_fresh
proof
  show "(\<exists>e. Revoke u l p i t = Inl e) \<longleftrightarrow> (\<forall>b \<in> set (rb_list t u). scope_of b \<noteq> (u, l, p, i))" for u l p i t
    by (auto simp: Revoke_eq rb_list_def scope_of_def)
  show "(\<lambda>b. (scope_of b, Role_rb b)) ` set (rb_list (Grant n ts inp t) u) =
      {x \<in> (\<lambda>b. (scope_of b, Role_rb b)) ` set (rb_list t u). fst x \<noteq> scope_in inp} \<union>
      (if SubjectUserID_in inp = u then {(scope_in inp, Role_in inp)} else {})"
    if "rb_wf t" "rb_fresh n t" for t n ts inp u
    by (rule Grant_pairs [OF that])
  show "rb_wf t'" if "rb_wf t" "Revoke u l p i t = Inr t'" for t u l p i t'
    using that by (auto simp: Revoke_eq rb_wf_def distinct_map_filter split: if_splits)
  show "(\<lambda>b. (scope_of b, Role_rb b)) ` set (rb_list t' v) =
      {x \<in> (\<lambda>b. (scope_of b, Role_rb b)) ` set (rb_list t v). fst x \<noteq> (u, l, p, i)}"
    if "Revoke u l p i t = Inr t'" for u l p i t t' v
    using that by (auto simp: Revoke_eq rb_list_def split: if_splits)
qed (auto simp: rb_list_def Grant_wf)

subsection \<open>The contract of authorisation\<close>

text \<open>
  C6. The decision for a user is that of the effective role: \<^verbatim>\<open>Can\<close> allows an action on a resource
  exactly when the stores answer and the highest-ranked role among the applicable direct bindings,
  group bindings and live break-glass grants allows it.
\<close>

theorem can_iff_effective_role:
  assumes "Kind p = KindUser" "grantsFor e (ID p) = Inr gs"
  shows "Can e p scope action res = Inr () \<longleftrightarrow>
    (\<exists>role. EffectiveRole e (ID p) res = Inr role \<and> roleAllows role action)"
proof (cases "bindingsFor e (ID p)")
  case (Inl err)
  then show ?thesis using assms by (simp add: Can_def EffectiveRole_eq)
next
  case (Inr bs)
  then show ?thesis
    using assms allows_iff_best_role [of bs action res gs "now e"]
    by (simp add: Can_user [OF assms(1) Inr assms(2)] EffectiveRole_eq)
qed

text \<open>
  Roles are cumulative: the higher the rank, the larger the bundle, and the inclusions between
  viewer, developer, admin and owner are strict; an unknown role has rank 0 and allows nothing; and
  deleting a project, managing KEKs, the master key, the audit log, egress and pruning are for owners
  only.
\<close>

theorem roles_cumulative:
  "(roleRank a \<le> roleRank b \<longleftrightarrow> roleActions a \<subseteq> roleActions b) \<and>
   (roleRank a = 0 \<longleftrightarrow> roleActions a = {}) \<and> (roleRank a = 0 \<longleftrightarrow> \<not> ValidRole a) \<and>
   (\<forall>x \<in> {ProjectDelete, KEKManage, SysMasterKey, AuditManage, SecretPrune, SysEgress}. roleAllows a x = (a = RoleOwner))"
proof -
  have strict: "SecretWrite \<notin> viewerActions" "SecretWrite \<in> developerActions" "SecretRead \<in> viewerActions"
    "ConfigDelete \<notin> developerActions" "ConfigDelete \<in> adminActions" "SysEgress \<notin> adminActions" "SysEgress \<in> ownerActions"
    by (simp_all add: viewerActions_def developerActions_def adminActions_def ownerActions_def actions)
  have m: "viewerActions \<subseteq> adminActions" "viewerActions \<subseteq> ownerActions" "developerActions \<subseteq> ownerActions"
    using bundles_mono by blast+
  have "roleRank a \<le> roleRank b" if "roleActions a \<subseteq> roleActions b"
  proof (rule ccontr)
    assume "\<not> roleRank a \<le> roleRank b"
    then show False
      using that strict bundles_mono m unfolding roleRank_def roleActions_def by (auto split: if_splits)
  qed
  moreover have "roleRank a = 0 \<longleftrightarrow> roleActions a = {}"
    using strict m bundles_mono unfolding roleRank_def roleActions_def by auto
  moreover have "roleRank a = 0 \<longleftrightarrow> \<not> ValidRole a" by (auto simp: roleRank_def ValidRole_def)
  moreover have "\<forall>x \<in> {ProjectDelete, KEKManage, SysMasterKey, AuditManage, SecretPrune, SysEgress}.
      roleAllows a x = (a = RoleOwner)"
  proof
    fix x assume x: "x \<in> {ProjectDelete, KEKManage, SysMasterKey, AuditManage, SecretPrune, SysEgress}"
    have "x \<in> ownerActions" using x by (auto simp: ownerActions_def)
    moreover have "x \<notin> adminActions"
      using x by (auto simp: adminActions_def developerActions_def viewerActions_def actions)
    ultimately show "roleAllows a x = (a = RoleOwner)"
      using m bundles_mono unfolding roleAllows_def roleActions_def by auto
  qed
  ultimately show ?thesis using roleActions_mono by blast
qed

text \<open>
  C25. Fail closed. For a user, when the direct bindings or the group bindings cannot be read, \<^verbatim>\<open>Can\<close> returns the store's
  error; when the grants cannot be read, it returns that error too unless the bindings alone allow the action, in which
  case the grants are not asked. A service token without a scope and a principal of any other kind are
  forbidden everything. So whenever \<^verbatim>\<open>Can\<close> allows a user, the direct and the group bindings have been read, and either
  they allow the action or the grants have been read as well.
\<close>

theorem can_fails_closed:
  "(Kind p = KindUser \<longrightarrow>
     (\<forall>err. bindings e (ID p) = Inl err \<longrightarrow> Can e p scope action res = Inl (ErrStore err)) \<and>
     (\<forall>ds g err. bindings e (ID p) = Inr ds \<longrightarrow> groups e = Some g \<longrightarrow> g (ID p) = Inl err \<longrightarrow> Can e p scope action res = Inl (ErrStore err)) \<and>
     (\<forall>bs h err. bindingsFor e (ID p) = Inr bs \<longrightarrow> grants e = Some h \<longrightarrow> h (ID p) (now e) = Inl err \<longrightarrow>
        Can e p scope action res = (if userAllows bs action res then Inr () else Inl (ErrStore err))) \<and>
     (Can e p scope action res = Inr () \<longrightarrow> (\<exists>bs. bindingsFor e (ID p) = Inr bs \<and>
        (userAllows bs action res \<or> (\<exists>h gs. grants e = Some h \<and> h (ID p) (now e) = Inr gs))))) \<and>
   (Kind p = KindServiceToken \<longrightarrow> scope = None \<longrightarrow> Can e p scope action res = Inl ErrForbidden) \<and>
   (Kind p \<noteq> KindUser \<longrightarrow> Kind p \<noteq> KindServiceToken \<longrightarrow> Can e p scope action res = Inl ErrForbidden)"
proof (intro conjI impI allI)
  assume u: "Kind p = KindUser"
  show "Can e p scope action res = Inl (ErrStore err)" if "bindings e (ID p) = Inl err" for err
    using u that by (simp add: Can_def bindingsFor_def)
  show "Can e p scope action res = Inl (ErrStore err)" if "bindings e (ID p) = Inr ds" "groups e = Some g" "g (ID p) = Inl err" for ds g err
    using u that by (simp add: Can_def bindingsFor_def)
  show "Can e p scope action res = (if userAllows bs action res then Inr () else Inl (ErrStore err))"
    if "bindingsFor e (ID p) = Inr bs" "grants e = Some h" "h (ID p) (now e) = Inl err" for bs h err
    using u that by (simp add: Can_def grantAllows_def)
  show "\<exists>bs. bindingsFor e (ID p) = Inr bs \<and> (userAllows bs action res \<or> (\<exists>h gs. grants e = Some h \<and> h (ID p) (now e) = Inr gs))"
    if "Can e p scope action res = Inr ()"
    using u that by (auto simp: Can_def bind_err_Inr grantAllows_def lift_store_Inr split: if_splits option.splits)
qed (simp_all add: Can_def)

text \<open>
  C26. Confinement of service tokens, exactly. A token is allowed an action just when it carries a scope, the
  resource is the one the scope names (or any transit key, for a transit token without a name), and its access level
  lists the action: reading secrets and configs for \<open>read\<close>, also writing secrets for \<open>readwrite\<close>, reading and using transit keys
  for \<open>use\<close>, also managing them for \<open>manage\<close>. Everything else is forbidden, in particular with an unknown scope kind or
  access level, and whatever roles are bound.
\<close>

theorem token_confined:
  assumes "Kind p = KindServiceToken"
  shows "Can e p scope action res = (if \<exists>sc. scope = Some sc \<and>
    ((Kind_ts sc = ''config'' \<and> ID_ts sc \<noteq> '''' \<and> ConfigID res = ID_ts sc \<or> Kind_ts sc = ''environment'' \<and> ID_ts sc \<noteq> '''' \<and> EnvID res = ID_ts sc) \<and>
       (Access sc = ''read'' \<and> action \<in> {SecretRead, ConfigRead} \<or> Access sc = ''readwrite'' \<and> action \<in> {SecretRead, ConfigRead, SecretWrite}) \<or>
     Kind_ts sc = ''transit'' \<and> ID_ts sc \<in> {'''', TransitKey res} \<and>
       (Access sc = ''use'' \<and> action \<in> {TransitRead, TransitUse} \<or> Access sc = ''manage'' \<and> action \<in> {TransitRead, TransitUse, TransitManage}))
    then Inr () else Inl ErrForbidden)"
proof (cases scope)
  case (Some sc)
  then show ?thesis
    using assms by (auto simp: Can_def tokenAllows_def tokenCapabilities_def transitTokenCapabilities_def)
qed (simp add: Can_def assms)

text \<open>
  Confinement to scopes: a user all of whose bindings and live grants are attached to a project
  or an environment other than those of the resource is refused every action on it.
\<close>

theorem scoped_rows_do_not_leak:
  assumes "Kind p = KindUser" "bindingsFor e (ID p) = Inr bs" "grantsFor e (ID p) = Inr gs"
    and "\<forall>b \<in> set bs. ScopeLevel b \<noteq> ''instance'' \<and> ProjectID_rb b \<noteq> Some (ProjectID res) \<and> EnvironmentID b \<noteq> Some (EnvID res)"
    and "\<forall>g \<in> set gs. Active g (now e) \<longrightarrow>
      ScopeLevel_bg g \<noteq> ''instance'' \<and> ProjectID_bg g \<noteq> Some (ProjectID res) \<and> EnvironmentID_bg g \<noteq> Some (EnvID res)"
  shows "Can e p scope action res = Inl ErrForbidden"
proof -
  have "\<not> userAllows bs action res"
    using assms(4) by (fastforce simp: userAllows_iff bindingApplies_def split: if_splits option.splits)
  moreover have "\<not> grantsAllow gs (now e) action res"
    using assms(5) by (fastforce simp: grantsAllow_iff grantApplies_def split: if_splits option.splits)
  ultimately show ?thesis by (simp add: Can_user [OF assms(1-3)])
qed

text \<open>
  A break-glass grant ends: the decision is the same as if the grant store returned only the
  grants that are not revoked and not expired at the engine's clock, even if it returns stale rows.
\<close>

theorem stale_grants_ignored:
  "Can e p scope action res =
    Can (e\<lparr>grants := map_option (\<lambda>g u t. case g u t of Inl err \<Rightarrow> Inl err | Inr gs \<Rightarrow> Inr (filter (\<lambda>x. Active x (now e)) gs)) (grants e)\<rparr>)
      p scope action res"
proof -
  have f: "grantsAllow (filter (\<lambda>x. Active x t) gs) t action res = grantsAllow gs t action res" for gs t
    by (auto simp: grantsAllow_iff)
  show ?thesis
    by (cases "grants e") (auto simp: Can_def bindingsFor_def grantAllows_def f lift_store_def bind_err_def
        split: sum.splits option.splits)
qed

text \<open>
  C27. The permission set shown to a principal is exact: an action is listed for the instance exactly
  when \<^verbatim>\<open>Can\<close> allows it on the instance, and listed as available somewhere exactly when \<^verbatim>\<open>Can\<close>
  allows it on some resource; both lists are sorted and without repetition.
\<close>

theorem effective_exact:
  assumes "Effective_of e p scope = Inr eff"
  shows "(a \<in> set (Instance_eff eff) \<longleftrightarrow> Can e p scope a Instance = Inr ()) \<and>
    (a \<in> set (Anywhere eff) \<longleftrightarrow> (\<exists>res. Can e p scope a res = Inr ())) \<and>
    sorted (Instance_eff eff) \<and> distinct (Instance_eff eff) \<and> sorted (Anywhere eff) \<and> distinct (Anywhere eff)"
proof -
  have fin: "finite {a \<in> ownerActions. P a}" for P using finite_ownerActions by simp
  consider "Kind p = KindServiceToken" | "Kind p = KindUser" | "Kind p \<noteq> KindServiceToken" "Kind p \<noteq> KindUser" by blast
  then show ?thesis
  proof cases
    case 1
    show ?thesis
    proof (cases scope)
      case None
      then show ?thesis using 1 assms by (auto simp: Effective_of_def Can_def)
    next
      case (Some sc)
      have eff: "eff = \<lparr>Instance_eff = sortedActions {a \<in> ownerActions. tokenAllows sc a Instance},
        Anywhere = sortedActions ({a \<in> ownerActions. tokenAllows sc a Instance} \<union> {a \<in> ownerActions. tokenAllows sc a (tokenResource sc)})\<rparr>"
        using assms 1 Some by (simp add: Effective_of_def Let_def)
      have "Can e p scope a res = Inr () \<longleftrightarrow> tokenAllows sc a res" for res
        using 1 Some by (simp add: Can_def)
      then show ?thesis
        using token_in_owner [of sc a] token_somewhere [of sc a] fin by (auto simp: eff sortedActions_def)
    qed
  next
    case 2
    from assms 2 obtain bs gs where bg: "bindingsFor e (ID p) = Inr bs" "grantsFor e (ID p) = Inr gs"
      by (auto simp: Effective_of_def bind_err_Inr)
    let ?ok = "\<lambda>a res. userAllows bs a res \<or> grantsAllow gs (now e) a res"
    have can: "Can e p scope a res = Inr () \<longleftrightarrow> ?ok a res" for res by (simp add: Can_user [OF 2 bg])
    have eff: "eff = \<lparr>Instance_eff = sortedActions {a \<in> ownerActions. ?ok a Instance},
        Anywhere = sortedActions ({a \<in> ownerActions. ?ok a Instance} \<union>
          (\<Union>res \<in> set (candidateScopes bs gs). {a \<in> ownerActions. ?ok a res}))\<rparr>"
      using assms 2 bg by (simp add: Effective_of_def Let_def fold_union)
    have "(\<exists>res. ?ok a res) \<longleftrightarrow> ?ok a Instance \<or> (\<exists>res \<in> set (candidateScopes bs gs). ?ok a res)"
      using allows_somewhere [of bs a gs "now e"] by auto
    moreover have "?ok a res \<Longrightarrow> a \<in> ownerActions" for res by (rule allowed_in_owner)
    ultimately show ?thesis unfolding can using fin by (auto simp: eff sortedActions_def)
  next
    case 3
    then show ?thesis using assms by (auto simp: Effective_of_def Can_def)
  qed
qed

text \<open>
  The bulk filter agrees with the decision: for a user whose stores answer, \<^verbatim>\<open>AllowedProjects\<close>
  returns exactly the projects on which \<^verbatim>\<open>Can\<close> allows the action, in the order given.
\<close>

theorem allowed_projects_exact:
  assumes "Kind p = KindUser" "AllowedProjects e p action pids = Inr out"
  shows "out = filter (\<lambda>pid. Can e p scope action (Instance\<lparr>ProjectID := pid\<rparr>) = Inr ()) pids"
proof (cases "pids = []")
  case False
  with assms obtain bs gs where bg: "bindingsFor e (ID p) = Inr bs" "grantsFor e (ID p) = Inr gs"
    by (auto simp: AllowedProjects_def bind_err_Inr)
  show ?thesis
    using assms False bg
    by (auto simp: AllowedProjects_def Can_user [OF assms(1) bg] grantsAllow_iff Let_def intro!: filter_cong)
qed (use assms in \<open>simp add: AllowedProjects_def\<close>)

text \<open>
  Granting and revoking through the table: after \<^verbatim>\<open>Grant\<close> of a role at a project, the user is
  allowed every action of the role on that project and every other user's decisions on it are
  unchanged; after \<^verbatim>\<open>Revoke\<close> of that scope, exactly what the user's other bindings allow remains.
\<close>

theorem grant_and_revoke:
  assumes "rb_wf t" "rb_fresh n t" "pid \<noteq> ''''" "ProjectID res = pid"
    and "inp = \<lparr>SubjectUserID_in = u, ScopeLevel_in = ''project'', ProjectID_in = Some pid, EnvironmentID_in = None,
      Role_in = role, CreatedBy_in = None\<rparr>"
  shows "(roleAllows role a \<longrightarrow> userAllows (rb_list (Grant n ts inp t) u) a res) \<and>
    (v \<noteq> u \<longrightarrow> userAllows (rb_list (Grant n ts inp t) v) a res = userAllows (rb_list t v) a res) \<and>
    (\<exists>t'. Revoke u ''project'' (Some pid) None (Grant n ts inp t) = Inr t' \<and> rb_wf t' \<and>
      userAllows (rb_list t' u) a res =
        (\<exists>b \<in> set (rb_list t u). scope_of b \<noteq> (u, ''project'', Some pid, None) \<and> bindingApplies b res \<and> roleAllows (Role_rb b) a))"
proof (intro conjI impI)
  have s: "scope_in inp = (u, ''project'', Some pid, None)" "SubjectUserID_in inp = u" "Role_in inp = role"
    using assms(5) by (simp_all add: scope_in_def)
  assume "roleAllows role a"
  then have "roleAllows (Role_in inp) a" by (simp add: s)
  moreover have "bindingApplies b res" if "scope_of b = scope_in inp" for b
    using that assms(3,4) by (auto simp: s scope_of_def bindingApplies_def)
  ultimately have "userAllows (rb_list (Grant n ts inp t) (SubjectUserID_in inp)) a res"
    by (intro rb.grant_allows [OF assms(1,2)])
  then show "userAllows (rb_list (Grant n ts inp t) u) a res" by (simp add: s)
next
  assume "v \<noteq> u"
  then show "userAllows (rb_list (Grant n ts inp t) v) a res = userAllows (rb_list t v) a res"
    using rb.create_other_user [OF assms(1,2), of v inp] assms(5) by simp
next
  have s: "scope_in inp = (u, ''project'', Some pid, None)" "SubjectUserID_in inp = u"
    using assms(5) by (simp_all add: scope_in_def)
  let ?P = "\<lambda>t. (\<lambda>b. (scope_of b, Role_rb b)) ` set (rb_list t u)"
  have G: "?P (Grant n ts inp t) = {x \<in> ?P t. fst x \<noteq> scope_in inp} \<union> {(scope_in inp, Role_in inp)}"
    using rb.create_list [OF assms(1,2), of ts inp u] s by simp
  then have "(scope_in inp, Role_in inp) \<in> ?P (Grant n ts inp t)" by simp
  then obtain b where "b \<in> set (rb_list (Grant n ts inp t) u)" "scope_of b = (u, ''project'', Some pid, None)"
    unfolding s(1) by auto
  with rb.delete_error [of u "''project''" "Some pid" None "Grant n ts inp t"]
  obtain t' where t': "Revoke u ''project'' (Some pid) None (Grant n ts inp t) = Inr t'"
    by (cases "Revoke u ''project'' (Some pid) None (Grant n ts inp t)") auto
  have "?P t' = {x \<in> ?P t. fst x \<noteq> (u, ''project'', Some pid, None)}"
    unfolding rb.delete_list [OF t'] G s(1) by auto
  then have "userAllows (rb_list t' u) a res =
      (\<exists>b \<in> set (rb_list t u). scope_of b \<noteq> (u, ''project'', Some pid, None) \<and> bindingApplies b res \<and> roleAllows (Role_rb b) a)"
    unfolding rb.userAllows_pairs rb.bindingApplies_pair by auto
  then show "\<exists>t'. Revoke u ''project'' (Some pid) None (Grant n ts inp t) = Inr t' \<and> rb_wf t' \<and>
      userAllows (rb_list t' u) a res =
        (\<exists>b \<in> set (rb_list t u). scope_of b \<noteq> (u, ''project'', Some pid, None) \<and> bindingApplies b res \<and> roleAllows (Role_rb b) a)"
    using t' rb.delete_wf [OF Grant_wf [OF assms(1,2)] t'] by blast
qed

text \<open>Witnesses: a user who is a developer of one project and holds a live admin grant on another.\<close>

definition example_user :: Principal where
  "example_user = \<lparr>Kind = KindUser, ID = ''u'', Name = ''u''\<rparr>"

definition example_binding :: RoleBinding where
  "example_binding = \<lparr>ID_rb = ''b1'', SubjectUserID = ''u'', ScopeLevel = ''project'', ProjectID_rb = Some ''p'',
     EnvironmentID = None, Role_rb = RoleDeveloper, CreatedBy = None, CreatedAt = 0, ViaGroupID = None, ViaGroupName = ''''\<rparr>"

definition example_grant :: BreakGlassGrant where
  "example_grant = \<lparr>ID_bg = ''g1'', UserID = ''u'', ScopeLevel_bg = ''project'', ProjectID_bg = Some ''q'',
     EnvironmentID_bg = None, ElevatedRole = RoleAdmin, Reason = '''', ActivatedAt = 0, ExpiresAt = 10, RevokedAt = None,
     CreatedAt_bg = 0\<rparr>"

definition example_engine :: Engine where
  "example_engine = \<lparr>bindings = rb_ListForUser [example_binding], groups = None,
     grants = Some (bg_ListActiveForUser [example_grant]), now = 5\<rparr>"

lemma example_rows:
  "bindingsFor example_engine ''u'' = Inr [example_binding]" "grantsFor example_engine ''u'' = Inr [example_grant]"
  "now example_engine = 5" "Kind example_user = KindUser" "ID example_user = ''u''"
  by (simp_all add: example_engine_def bindingsFor_def rb_ListForUser_def example_binding_def grantsFor_def
      bg_ListActiveForUser_def example_grant_def example_user_def)

lemma example_role: "EffectiveRole example_engine ''u'' (Instance\<lparr>ProjectID := ''p''\<rparr>) = Inr RoleDeveloper"
proof -
  have "bindingApplies example_binding (Instance\<lparr>ProjectID := ''p''\<rparr>)" "\<not> grantApplies example_grant (Instance\<lparr>ProjectID := ''p''\<rparr>)"
    "Role_rb example_binding = RoleDeveloper" "roleRank RoleDeveloper > roleRank ''''"
    by (simp_all add: bindingApplies_def grantApplies_def example_binding_def example_grant_def roleRank_def roles)
  then show ?thesis by (simp add: EffectiveRole_eq example_rows RoleFromBindings_def)
qed

lemma developer_allows: "roleAllows RoleDeveloper SecretWrite" "\<not> roleAllows RoleDeveloper ProjectDelete"
  by (simp_all add: roleAllows_def roleActions_def roles developerActions_def viewerActions_def actions)

theorem can_iff_effective_role_witness:
  "Can example_engine example_user None SecretWrite (Instance\<lparr>ProjectID := ''p''\<rparr>) = Inr () \<and>
   Can example_engine example_user None ProjectDelete (Instance\<lparr>ProjectID := ''p''\<rparr>) \<noteq> Inr ()"
  using can_iff_effective_role [of example_user example_engine "[example_grant]"] example_role developer_allows
  by (simp add: example_rows)

theorem roles_cumulative_witness:
  "roleAllows RoleAdmin SysEgress = (RoleAdmin = RoleOwner) \<and> (roleRank ''root'' = 0 \<longleftrightarrow> roleActions ''root'' = {})"
  using roles_cumulative [of RoleAdmin] roles_cumulative [of "''root''"] by simp

theorem can_fails_closed_witness:
  "Can (example_engine\<lparr>groups := Some (\<lambda>_. Inl ErrConflict)\<rparr>) example_user None SecretRead Instance = Inl (ErrStore ErrConflict) \<and>
   Can (example_engine\<lparr>bindings := (\<lambda>_. Inl ErrNotFound)\<rparr>) example_user None SecretRead Instance = Inl (ErrStore ErrNotFound) \<and>
   Can example_engine \<lparr>Kind = KindServiceToken, ID = ''t'', Name = ''t''\<rparr> None SecretRead Instance = Inl ErrForbidden \<and>
   Can example_engine \<lparr>Kind = ''robot'', ID = ''t'', Name = ''t''\<rparr> None SecretRead Instance = Inl ErrForbidden"
  using can_fails_closed [of example_user "example_engine\<lparr>groups := Some (\<lambda>_. Inl ErrConflict)\<rparr>" None SecretRead Instance]
    can_fails_closed [of example_user "example_engine\<lparr>bindings := (\<lambda>_. Inl ErrNotFound)\<rparr>" None SecretRead Instance]
    can_fails_closed [of "\<lparr>Kind = KindServiceToken, ID = ''t'', Name = ''t''\<rparr>" example_engine None SecretRead Instance]
    can_fails_closed [of "\<lparr>Kind = ''robot'', ID = ''t'', Name = ''t''\<rparr>" example_engine None SecretRead Instance]
  by (simp add: example_rows example_engine_def rb_ListForUser_def KindUser_def KindServiceToken_def)

theorem token_confined_witness:
  "Can example_engine \<lparr>Kind = KindServiceToken, ID = ''t'', Name = ''t''\<rparr>
      (Some \<lparr>Kind_ts = ''config'', ID_ts = ''c'', Access = ''read''\<rparr>) SecretRead (Instance\<lparr>ConfigID := ''c''\<rparr>) = Inr () \<and>
   Can example_engine \<lparr>Kind = KindServiceToken, ID = ''t'', Name = ''t''\<rparr>
      (Some \<lparr>Kind_ts = ''config'', ID_ts = ''c'', Access = ''read''\<rparr>) SecretWrite (Instance\<lparr>ConfigID := ''c''\<rparr>) = Inl ErrForbidden"
  using token_confined [of "\<lparr>Kind = KindServiceToken, ID = ''t'', Name = ''t''\<rparr>" example_engine
      "Some \<lparr>Kind_ts = ''config'', ID_ts = ''c'', Access = ''read''\<rparr>" _ "Instance\<lparr>ConfigID := ''c''\<rparr>"]
  by (simp add: actions)

theorem scoped_rows_do_not_leak_witness:
  "Can example_engine example_user None SecretRead (Instance\<lparr>ProjectID := ''r''\<rparr>) = Inl ErrForbidden"
  by (rule scoped_rows_do_not_leak [of _ _ "[example_binding]" "[example_grant]"])
    (simp_all add: example_rows, simp_all add: example_binding_def example_grant_def)

theorem effective_exact_witness:
  "\<exists>eff. Effective_of example_engine example_user None = Inr eff \<and> SecretWrite \<in> set (Anywhere eff)"
proof -
  obtain eff where eff: "Effective_of example_engine example_user None = Inr eff"
    by (simp add: Effective_of_def example_rows Let_def)
  have "Can example_engine example_user None SecretWrite (Instance\<lparr>ProjectID := ''p''\<rparr>) = Inr ()"
    by (simp add: Can_user [OF example_rows(4)] example_rows)
      (simp add: example_binding_def bindingApplies_def developer_allows)
  with effective_exact [OF eff, of SecretWrite] eff show ?thesis by blast
qed

theorem allowed_projects_exact_witness:
  "AllowedProjects example_engine example_user SecretWrite [''p'', ''q'', ''r''] =
    Inr (filter (\<lambda>pid. Can example_engine example_user None SecretWrite (Instance\<lparr>ProjectID := pid\<rparr>) = Inr ()) [''p'', ''q'', ''r''])"
proof -
  obtain out where o: "AllowedProjects example_engine example_user SecretWrite [''p'', ''q'', ''r''] = Inr out"
    by (simp add: AllowedProjects_def example_rows)
  from allowed_projects_exact [OF example_rows(4) o, of None] o show ?thesis by simp
qed

theorem grant_and_revoke_witness:
  "rb_wf [example_binding] \<and>
   userAllows (rb_list (Grant ''b2'' 0 \<lparr>SubjectUserID_in = ''u'', ScopeLevel_in = ''project'', ProjectID_in = Some ''z'',
     EnvironmentID_in = None, Role_in = RoleDeveloper, CreatedBy_in = None\<rparr> [example_binding]) ''u'') SecretWrite
     (Instance\<lparr>ProjectID := ''z''\<rparr>)"
proof -
  have wf: "rb_wf [example_binding]" "rb_fresh ''b2'' [example_binding]"
    by (simp_all add: rb_wf_def rb_fresh_def example_binding_def)
  from grant_and_revoke [OF wf, of "''z''" "Instance\<lparr>ProjectID := ''z''\<rparr>" _ "''u''" RoleDeveloper SecretWrite 0 "''v''"] wf developer_allows
  show ?thesis by simp
qed

end
