(* ===== verification/Write_Api.thy ===== *)
theory Write_Api
  imports Promotion Authz
begin

section \<open>The handlers that write secrets\<close>

text \<open>
  \<^verbatim>\<open>internal/api\<close>: the handlers through which users and tokens change the secrets of a config, ask for a change and decide on
  one (\<^verbatim>\<open>secrets_write_handlers.go\<close>, \<^verbatim>\<open>versions_handlers.go\<close>, \<^verbatim>\<open>edit_request_handlers.go\<close>, \<^verbatim>\<open>promotion_handlers.go\<close>,
  \<^verbatim>\<open>promotion_request_handlers.go\<close>), and those that set the retention of versions and prune them
  (\<^verbatim>\<open>version_retention_handlers.go\<close>), with the authorisation and audit of \<^verbatim>\<open>authz_mw.go\<close> and \<^verbatim>\<open>audit.go\<close>. A handler gets the
  decoded body, \<open>None\<close> when decoding fails, runs on one database and returns its reply, the audit events it recorded
  and the database after it. Approvals that race are in the theory of edit requests. Ids in a request are uuids.
\<close>

subsection \<open>Requests, replies and what the outside decides\<close>

record Server =
  sv_Keyring :: Keyring
  sv_IsUser :: "string \<Rightarrow> bool"
  sv_EditReq :: bool
  sv_Authz :: Engine
  sv_Floor :: RetentionFloor

record Request =
  rq_Principal :: Principal
  rq_Scope :: "TokenScope option"
  rq_Reason :: string

text \<open>Outcomes of commits and of the audit write, ids, randomness, clock, and the order in which maps are walked.\<close>

record Draws =
  dw_Commit :: "svc_err tx_err option"
  dw_StoreCommit :: "store_err option"
  dw_Recorded :: bool
  dw_NewID :: string
  dw_Fresh :: "string \<Rightarrow> string"
  dw_CvID :: string
  dw_Walk :: "string list \<Rightarrow> string list"
  dw_Source :: "string list"
  dw_Target :: "string list"
  dw_Rng :: rng
  dw_Now :: int

datatype api_err = ApiStore store_err | ApiSvc svc_err | ApiEdit er_err | ApiPromote pm_err | ErrBadScopeKind

datatype reply = RVersion ConfigVersion | RFiled string | RPromoted PromotionResult | RApplied ApplyResult | RPruned PruneResult | RRetention RetentionPolicy | RDone
  | RBadRequest | RForbidden | RConflict | RUnavailable | RInternal | RError api_err

text \<open>An audit event: action, resource, result and detail.\<close>

type_synonym event = "string \<times> string \<times> string \<times> string"

type_synonym outcome = "reply \<times> event list \<times> secret_db"

subsection \<open>Authorisation and audit\<close>

definition can :: "Server \<Rightarrow> Request \<Rightarrow> Action \<Rightarrow> Resource \<Rightarrow> authz_err + unit" where
  "can sv rq action res = Can (sv_Authz sv) (rq_Principal rq) (rq_Scope rq) action res"

definition writeAuthzError :: "authz_err \<Rightarrow> reply" where
  "writeAuthzError e = (if e = ErrForbidden then RForbidden else RInternal)"

definition if_can :: "Server \<Rightarrow> Request \<Rightarrow> Action \<Rightarrow> Resource \<Rightarrow> secret_db \<Rightarrow> outcome \<Rightarrow> outcome" where
  "if_can sv rq action res db k = (case can sv rq action res of Inr _ \<Rightarrow> k | Inl e \<Rightarrow> (writeAuthzError e, [], db))"

definition authorize :: "Server \<Rightarrow> Request \<Rightarrow> Draws \<Rightarrow> Action \<Rightarrow> Resource \<Rightarrow> string \<Rightarrow> string \<Rightarrow> secret_db \<Rightarrow> outcome \<Rightarrow> outcome" where
  "authorize sv rq d action res auditAction auditResource db k =
    (case can sv rq action res of
       Inr _ \<Rightarrow> k
     | Inl e \<Rightarrow>
       if e = ErrForbidden
       then (if dw_Recorded d then (RForbidden, [(auditAction, auditResource, ''denied'', '''')], db) else (RInternal, [], db))
       else (writeAuthzError e, [], db))"

text \<open>The last act of a handler that changed something: record the success, and fail the request when that fails.\<close>

definition recorded :: "Draws \<Rightarrow> string \<Rightarrow> string \<Rightarrow> string \<Rightarrow> reply \<Rightarrow> secret_db \<Rightarrow> outcome" where
  "recorded d action resource detail rep db =
    (if dw_Recorded d then (rep, [(action, resource, ''success'', detail)], db) else (RInternal, [], db))"

definition resolveScopeResource :: "secret_db \<Rightarrow> string \<Rightarrow> string \<Rightarrow> api_err + Resource" where
  "resolveScopeResource db kind i =
    (if kind = ''environment'' then
       bind_err (map_err ApiStore (env_Get db i)) (\<lambda>env. Inr \<lparr>ProjectID = e_ProjectID env, EnvID = e_ID env, ConfigID = '''', TransitKey = ''''\<rparr>)
     else if kind = ''config'' then
       bind_err (map_err ApiStore (cfg_Get db i)) (\<lambda>cfg.
       bind_err (map_err ApiStore (env_Get db (c_EnvironmentID cfg))) (\<lambda>env.
         Inr \<lparr>ProjectID = e_ProjectID env, EnvID = e_ID env, ConfigID = c_ID cfg, TransitKey = ''''\<rparr>))
     else if kind = ''transit'' then Inr \<lparr>ProjectID = '''', EnvID = '''', ConfigID = '''', TransitKey = i\<rparr>
     else Inl ErrBadScopeKind)"

text \<open>Continue with the value of a lookup, or reply with its error.\<close>

definition or_error :: "api_err + 'a \<Rightarrow> secret_db \<Rightarrow> ('a \<Rightarrow> outcome) \<Rightarrow> outcome" where
  "or_error m db k = (case m of Inl e \<Rightarrow> (RError e, [], db) | Inr x \<Rightarrow> k x)"

definition configResource :: "secret_db \<Rightarrow> string \<Rightarrow> api_err + Resource" where
  "configResource db cid = resolveScopeResource db ''config'' cid"

definition actorOf :: "Request \<Rightarrow> string" where
  "actorOf rq = ID (rq_Principal rq)"

definition promoteActorUser :: "Request \<Rightarrow> string" where
  "promoteActorUser rq = (if Kind (rq_Principal rq) = KindUser then ID (rq_Principal rq) else '''')"

definition join_keys :: "string list \<Rightarrow> string" where
  "join_keys ks = concat (case ks of [] \<Rightarrow> [] | k # rest \<Rightarrow> k # map (\<lambda>s. CHR '','' # s) rest)"

subsection \<open>Writing secrets\<close>

definition requireApproval :: "secret_db \<Rightarrow> string \<Rightarrow> api_err + bool" where
  "requireApproval db cid =
    bind_err (map_err ApiStore (cfg_Get db cid)) (\<lambda>c.
      if c_RequireApproval c then Inr True
      else bind_err (map_err ApiStore (env_Get db (c_EnvironmentID c))) (\<lambda>env. Inr (e_RequireApproval env)))"

definition submitEditRequest :: "Server \<Rightarrow> Request \<Rightarrow> Draws \<Rightarrow> string \<Rightarrow> SecretChange list \<Rightarrow> string \<Rightarrow> secret_db \<Rightarrow> outcome" where
  "submitEditRequest sv rq d cid changes message db =
    (if \<not> sv_EditReq sv then (RUnavailable, [], db)
     else (case er_Submit (sv_Keyring sv) (sv_IsUser sv) db (dw_NewID d)
             \<lparr>ci_ConfigID = cid, ci_Changes = changes, ci_Message = message, ci_Reason = TrimSpace (rq_Reason rq), ci_RequestedBy = actorOf rq\<rparr>
             (dw_Rng d) (dw_Now d) db of
         Inl e \<Rightarrow> (RError (ApiEdit e), [], db)
       | Inr (i, _, db') \<Rightarrow> recorded d ''secret.edit_request.create'' (''configs/'' @ cid @ ''/edit-requests/'' @ i)
           (''keys='' @ join_keys (map sc_Key changes)) (RFiled i) db'))"

text \<open>Save directly, as the actor of the request.\<close>

definition save_now :: "Server \<Rightarrow> Request \<Rightarrow> Draws \<Rightarrow> string \<Rightarrow> SecretChange list \<Rightarrow> string \<Rightarrow> string \<Rightarrow> string \<Rightarrow> string \<Rightarrow> secret_db \<Rightarrow> outcome" where
  "save_now sv rq d cid changes message auditAction auditResource auditDetail db =
    (case SetSecrets (sv_Keyring sv) db (dw_Commit d) cid changes message (actorOf rq) (dw_Fresh d) (dw_CvID d)
            (dw_Walk d (map sc_Key changes)) (dw_Rng d) (dw_Now d) db of
       (Inl e, db') \<Rightarrow> (RError (ApiSvc e), [], db')
     | (Inr (cv, _), db') \<Rightarrow> recorded d auditAction auditResource auditDetail (RVersion cv) db')"

definition applyWrite :: "Server \<Rightarrow> Request \<Rightarrow> Draws \<Rightarrow> string \<Rightarrow> SecretChange list \<Rightarrow> string \<Rightarrow> string \<Rightarrow> secret_db \<Rightarrow> outcome" where
  "applyWrite sv rq d cid changes message auditDetail db =
    or_error (requireApproval db cid) db (\<lambda>protected.
      if protected then submitEditRequest sv rq d cid changes message db
      else save_now sv rq d cid changes message ''secret.write'' (''configs/'' @ cid @ ''/secrets'') auditDetail db)"

record secretChangeBody =
  sb_Key :: string
  sb_Value :: string
  sb_Delete :: bool
  sb_Type :: string

record batchWriteRequest =
  bw_Message :: string
  bw_Changes :: "secretChangeBody list"

text \<open>The loop over the changes of a batch: a missing or repeated key is refused.\<close>

fun batch_changes :: "string list \<Rightarrow> secretChangeBody list \<Rightarrow> SecretChange list option" where
  "batch_changes seen [] = Some []"
| "batch_changes seen (c # cs) =
    (if sb_Key c = '''' \<or> sb_Key c \<in> set seen then None
     else map_option ((#) \<lparr>sc_Key = sb_Key c, sc_Value = bytes_of (sb_Value c), sc_Delete = sb_Delete c, sc_Type = sb_Type c\<rparr>)
       (batch_changes (sb_Key c # seen) cs))"

definition handleSecretsBatchWrite :: "Server \<Rightarrow> Request \<Rightarrow> Draws \<Rightarrow> string \<Rightarrow> batchWriteRequest option \<Rightarrow> secret_db \<Rightarrow> outcome" where
  "handleSecretsBatchWrite sv rq d cid body db =
    or_error (configResource db cid) db (\<lambda>res.
    authorize sv rq d SecretWrite res ''secret.write'' (''configs/'' @ cid @ ''/secrets'') db
      (case body of
         None \<Rightarrow> (RBadRequest, [], db)
       | Some b \<Rightarrow>
         if bw_Changes b = [] then (RBadRequest, [], db)
         else (case batch_changes [] (bw_Changes b) of
             None \<Rightarrow> (RBadRequest, [], db)
           | Some changes \<Rightarrow> applyWrite sv rq d cid changes (bw_Message b) (''keys='' @ decimal (int (length changes))) db)))"

definition handleSecretPut :: "Server \<Rightarrow> Request \<Rightarrow> Draws \<Rightarrow> string \<Rightarrow> string \<Rightarrow> (string \<times> string) option \<Rightarrow> secret_db \<Rightarrow> outcome" where
  "handleSecretPut sv rq d cid key body db =
    or_error (configResource db cid) db (\<lambda>res.
    authorize sv rq d SecretWrite res ''secret.write'' (''configs/'' @ cid @ ''/secrets/'' @ key) db
      (case body of
         None \<Rightarrow> (RBadRequest, [], db)
       | Some (val, typ) \<Rightarrow> applyWrite sv rq d cid [\<lparr>sc_Key = key, sc_Value = bytes_of val, sc_Delete = False, sc_Type = typ\<rparr>] '''' (''key='' @ key) db))"

definition handleSecretDelete :: "Server \<Rightarrow> Request \<Rightarrow> Draws \<Rightarrow> string \<Rightarrow> string \<Rightarrow> secret_db \<Rightarrow> outcome" where
  "handleSecretDelete sv rq d cid key db =
    or_error (configResource db cid) db (\<lambda>res.
    authorize sv rq d SecretWrite res ''secret.delete'' (''configs/'' @ cid @ ''/secrets/'' @ key) db
      (or_error (requireApproval db cid) db (\<lambda>protected.
        let changes = [\<lparr>sc_Key = key, sc_Value = [], sc_Delete = True, sc_Type = ''''\<rparr>] in
        if protected then submitEditRequest sv rq d cid changes '''' db
        else save_now sv rq d cid changes '''' ''secret.delete'' (''configs/'' @ cid @ ''/secrets/'' @ key) '''' db)))"

definition handleRollback :: "Server \<Rightarrow> Request \<Rightarrow> Draws \<Rightarrow> string \<Rightarrow> (int \<times> string) option \<Rightarrow> secret_db \<Rightarrow> outcome" where
  "handleRollback sv rq d cid body db =
    or_error (configResource db cid) db (\<lambda>res.
    authorize sv rq d SecretWrite res ''config.rollback'' (''configs/'' @ cid) db
      (case body of
         None \<Rightarrow> (RBadRequest, [], db)
       | Some (target, message) \<Rightarrow>
         if target < 1 then (RBadRequest, [], db)
         else or_error (requireApproval db cid) db (\<lambda>protected.
           if protected
           then or_error (map_err ApiSvc (RollbackChanges (sv_Keyring sv) db (dw_Source d) (dw_Target d) cid target)) db (\<lambda>changes.
             submitEditRequest sv rq d cid changes message db)
           else (case svc_Rollback (dw_StoreCommit d) cid target message (actorOf rq) (dw_CvID d) (dw_Now d) db of
               (Inl e, db') \<Rightarrow> (RError (ApiSvc e), [], db')
             | (Inr cv, db') \<Rightarrow> recorded d ''config.rollback'' (''configs/'' @ cid) (''target='' @ decimal target) (RVersion cv) db'))))"


subsection \<open>Protection and edit requests\<close>

definition boolStr :: "bool \<Rightarrow> string" where
  "boolStr b = (if b then ''true'' else ''false'')"

definition handleRequireApprovalSet :: "Server \<Rightarrow> Request \<Rightarrow> Draws \<Rightarrow> string \<Rightarrow> bool option \<Rightarrow> secret_db \<Rightarrow> outcome" where
  "handleRequireApprovalSet sv rq d cid body db =
    or_error (configResource db cid) db (\<lambda>res.
    authorize sv rq d PromotionManage res ''config.require_approval.set'' (''configs/'' @ cid @ ''/require-approval'') db
      (case body of
         None \<Rightarrow> (RBadRequest, [], db)
       | Some enabled \<Rightarrow> or_error (map_err ApiStore (cfg_SetRequireApproval cid enabled (dw_Now d) db)) db (\<lambda>db'.
           recorded d ''config.require_approval.set'' (''configs/'' @ cid @ ''/require-approval'') (''enabled='' @ boolStr enabled) RDone db')))"

definition handleEnvRequireApprovalSet :: "Server \<Rightarrow> Request \<Rightarrow> Draws \<Rightarrow> string \<Rightarrow> bool option \<Rightarrow> secret_db \<Rightarrow> outcome" where
  "handleEnvRequireApprovalSet sv rq d eid body db =
    or_error (resolveScopeResource db ''environment'' eid) db (\<lambda>res.
    authorize sv rq d PromotionManage res ''environment.require_approval.set'' (''environments/'' @ eid @ ''/require-approval'') db
      (case body of
         None \<Rightarrow> (RBadRequest, [], db)
       | Some enabled \<Rightarrow> or_error (map_err ApiStore (env_SetRequireApproval eid enabled (dw_Now d) db)) db (\<lambda>db'.
           recorded d ''environment.require_approval.set'' (''environments/'' @ eid @ ''/require-approval'') (''enabled='' @ boolStr enabled) RDone db')))"

definition edit_path :: "ConfigEditRequest \<Rightarrow> string \<Rightarrow> string" where
  "edit_path er i = ''configs/'' @ er_ConfigID er @ ''/edit-requests/'' @ i"

definition edit_reply :: "er_err \<Rightarrow> reply" where
  "edit_reply e = (case e of ErrSelfApproval \<Rightarrow> RForbidden | ErrRequestConflict \<Rightarrow> RConflict | ErrConflictAfter _ \<Rightarrow> RConflict
    | _ \<Rightarrow> RError (ApiEdit e))"

definition handleEditRequestApprove :: "Server \<Rightarrow> Request \<Rightarrow> Draws \<Rightarrow> string \<Rightarrow> secret_db \<Rightarrow> outcome" where
  "handleEditRequestApprove sv rq d i db =
    (if \<not> sv_EditReq sv then (RUnavailable, [], db)
     else or_error (map_err ApiStore (er_Get db i)) db (\<lambda>er.
       or_error (configResource db (er_ConfigID er)) db (\<lambda>res.
       authorize sv rq d SecretWrite res ''secret.edit_request.approve'' (edit_path er i) db
         (let actor = promoteActorUser rq in
          if actor = '''' \<or> actor = er_RequestedBy er then (RForbidden, [], db)
          else (case Approve (sv_Keyring sv) (sv_IsUser sv) (dw_Commit d) i actor (dw_Fresh d) (dw_CvID d) (dw_Walk d) (dw_Rng d) (dw_Now d) db of
              (Inl e, db') \<Rightarrow> (edit_reply e, [], db')
            | (Inr (out, _), db') \<Rightarrow> recorded d ''secret.edit_request.approve'' (edit_path er i) (''keys='' @ join_keys (ar_Keys out)) (RApplied out) db')))))"

definition handleEditRequestReject :: "Server \<Rightarrow> Request \<Rightarrow> Draws \<Rightarrow> string \<Rightarrow> secret_db \<Rightarrow> outcome" where
  "handleEditRequestReject sv rq d i db =
    (if \<not> sv_EditReq sv then (RUnavailable, [], db)
     else or_error (map_err ApiStore (er_Get db i)) db (\<lambda>er.
       or_error (configResource db (er_ConfigID er)) db (\<lambda>res.
       authorize sv rq d SecretWrite res ''secret.edit_request.reject'' (edit_path er i) db
         (let actor = promoteActorUser rq in
          if actor = '''' \<or> actor = er_RequestedBy er then (RForbidden, [], db)
          else (case Reject (sv_IsUser sv) i actor (dw_Now d) db of
              Inl e \<Rightarrow> (edit_reply e, [], db)
            | Inr db' \<Rightarrow> recorded d ''secret.edit_request.reject'' (edit_path er i) '''' RDone db')))))"

definition handleEditRequestCancel :: "Server \<Rightarrow> Request \<Rightarrow> Draws \<Rightarrow> string \<Rightarrow> secret_db \<Rightarrow> outcome" where
  "handleEditRequestCancel sv rq d i db =
    (if \<not> sv_EditReq sv then (RUnavailable, [], db)
     else or_error (map_err ApiStore (er_Get db i)) db (\<lambda>er.
       let actor = promoteActorUser rq in
       if actor = '''' \<or> actor \<noteq> er_RequestedBy er then (RForbidden, [], db)
       else (case Cancel (sv_IsUser sv) i actor (dw_Now d) db of
           Inl e \<Rightarrow> (edit_reply e, [], db)
         | Inr db' \<Rightarrow> recorded d ''secret.edit_request.cancel'' (edit_path er i) '''' RDone db')))"

subsection \<open>Pipelines, locks and promotions\<close>

definition handlePipelinePut :: "Server \<Rightarrow> Request \<Rightarrow> Draws \<Rightarrow> string \<Rightarrow> string list option \<Rightarrow> secret_db \<Rightarrow> outcome" where
  "handlePipelinePut sv rq d pid body db =
    authorize sv rq d PromotionManage \<lparr>ProjectID = pid, EnvID = '''', ConfigID = '''', TransitKey = ''''\<rparr> ''promotion.pipeline.set'' (''projects/'' @ pid @ ''/pipeline'') db
      (case body of
         None \<Rightarrow> (RBadRequest, [], db)
       | Some envIDs \<Rightarrow>
         (case pipe_Set (dw_StoreCommit d) pid envIDs db of
            (Inl e, db') \<Rightarrow> (RError (ApiStore e), [], db')
          | (Inr _, db') \<Rightarrow> recorded d ''promotion.pipeline.set'' (''projects/'' @ pid @ ''/pipeline'') '''' RDone db'))"

definition handleLockedKeyCreate :: "Server \<Rightarrow> Request \<Rightarrow> Draws \<Rightarrow> string \<Rightarrow> string option \<Rightarrow> secret_db \<Rightarrow> outcome" where
  "handleLockedKeyCreate sv rq d cid body db =
    or_error (configResource db cid) db (\<lambda>res.
    authorize sv rq d PromotionManage res ''promotion.key.lock'' (''configs/'' @ cid @ ''/locked-keys'') db
      (case body of
         None \<Rightarrow> (RBadRequest, [], db)
       | Some key \<Rightarrow>
         if key = '''' then (RBadRequest, [], db)
         else or_error (map_err ApiStore (Lock (sv_IsUser sv) cid key (promoteActorUser rq) db)) db (\<lambda>db'.
           recorded d ''promotion.key.lock'' (''configs/'' @ cid @ ''/locked-keys/'' @ key) '''' RDone db')))"

definition handleLockedKeyDelete :: "Server \<Rightarrow> Request \<Rightarrow> Draws \<Rightarrow> string \<Rightarrow> string \<Rightarrow> secret_db \<Rightarrow> outcome" where
  "handleLockedKeyDelete sv rq d cid key db =
    or_error (configResource db cid) db (\<lambda>res.
    authorize sv rq d PromotionManage res ''promotion.key.unlock'' (''configs/'' @ cid @ ''/locked-keys/'' @ key) db
      (recorded d ''promotion.key.unlock'' (''configs/'' @ cid @ ''/locked-keys/'' @ key) '''' RDone (Unlock cid key db)))"

definition promote_reply :: "pm_err \<Rightarrow> reply" where
  "promote_reply e = (case e of ErrIllegalStep \<Rightarrow> RConflict | ErrNoPipeline \<Rightarrow> RConflict | ErrLockedKey _ \<Rightarrow> RConflict | _ \<Rightarrow> RError (ApiPromote e))"

record PromoteBody =
  pb_From :: string
  pb_To :: string
  pb_ToEnv :: string
  pb_ToName :: string
  pb_Create :: bool
  pb_SourceVersion :: int
  pb_Note :: string
  pb_Selections :: "Selection list"

definition apply_request :: "PromoteBody \<Rightarrow> Request \<Rightarrow> ApplyRequest" where
  "apply_request b rq = \<lparr>aq_SourceConfigID = pb_From b, aq_TargetConfigID = pb_To b, aq_TargetEnvID = pb_ToEnv b, aq_TargetName = pb_ToName b,
     aq_CreateTarget = pb_Create b, aq_SourceVersion = pb_SourceVersion b, aq_Selections = pb_Selections b, aq_Actor = promoteActorUser rq\<rparr>"

text \<open>The commit of a promotion, once it is authorised and the target needs no approval.\<close>

definition promote_now :: "Server \<Rightarrow> Request \<Rightarrow> Draws \<Rightarrow> PromoteBody \<Rightarrow> secret_db \<Rightarrow> outcome" where
  "promote_now sv rq d b db =
    (case Apply (sv_Keyring sv) (dw_Commit d) (dw_Source d) (dw_NewID d) (dw_Fresh d) (dw_CvID d) (dw_Walk d) (dw_Rng d) (dw_Now d) (apply_request b rq) db of
       (Inl e, db') \<Rightarrow> (promote_reply e, [], db')
     | (Inr (res, _), db') \<Rightarrow> recorded d ''secret.promote'' (''configs/'' @ pb_To b) (join_keys (map fst (pa_Applied res))) (RPromoted res) db')"

text \<open>A promotion into a protected config becomes an edit request with the planned changes.\<close>

definition promote_protected :: "Server \<Rightarrow> Request \<Rightarrow> Draws \<Rightarrow> PromoteBody \<Rightarrow> secret_db \<Rightarrow> outcome" where
  "promote_protected sv rq d b db =
    (case Plan (sv_Keyring sv) (dw_Source d) (dw_NewID d) (dw_Now d) ((apply_request b rq)\<lparr>aq_TargetEnvID := '''', aq_TargetName := '''', aq_CreateTarget := False\<rparr>) db of
       (Inl e, db') \<Rightarrow> (promote_reply e, [], db')
     | (Inr plan, db') \<Rightarrow>
       if pl_Changes plan = [] then (RPromoted \<lparr>pa_TargetVersion = 0, pa_Applied = [], pa_Skipped = pl_Skipped plan\<rparr>, [], db')
       else submitEditRequest sv rq d (pb_To b) (pl_Changes plan) (pl_Message plan) db')"

definition handlePromoteApply :: "Server \<Rightarrow> Request \<Rightarrow> Draws \<Rightarrow> PromoteBody option \<Rightarrow> secret_db \<Rightarrow> outcome" where
  "handlePromoteApply sv rq d body db =
    (case body of
       None \<Rightarrow> (RBadRequest, [], db)
     | Some b \<Rightarrow>
       if pb_From b = '''' then (RBadRequest, [], db)
       else or_error (configResource db (pb_From b)) db (\<lambda>srcRes.
         if_can sv rq SecretRead srcRes db
          (if pb_To b \<noteq> '''' then
             or_error (configResource db (pb_To b)) db (\<lambda>dstRes.
             authorize sv rq d SecretPromote dstRes ''secret.promote'' (''configs/'' @ pb_To b) db
               (or_error (requireApproval db (pb_To b)) db (\<lambda>protected.
                 if protected then promote_protected sv rq d b db else promote_now sv rq d b db)))
           else if pb_ToEnv b = '''' then (RBadRequest, [], db)
           else or_error (resolveScopeResource db ''environment'' (pb_ToEnv b)) db (\<lambda>dstRes.
             if_can sv rq ConfigCreate dstRes db
               (authorize sv rq d SecretPromote dstRes ''secret.promote'' (''configs/'' @ pb_To b) db (promote_now sv rq d b db))))))"

definition handlePromoteRequestCreate :: "Server \<Rightarrow> Request \<Rightarrow> Draws \<Rightarrow> PromoteBody option \<Rightarrow> secret_db \<Rightarrow> outcome" where
  "handlePromoteRequestCreate sv rq d body db =
    (case body of
       None \<Rightarrow> (RBadRequest, [], db)
     | Some b \<Rightarrow>
       if pb_From b = '''' \<or> pb_To b = '''' \<and> pb_ToEnv b = '''' then (RBadRequest, [], db)
       else or_error (configResource db (pb_From b)) db (\<lambda>srcRes.
         if_can sv rq SecretRead srcRes db
          (authorize sv rq d PromotionRequest srcRes ''promotion.request.create'' (''configs/'' @ pb_From b) db
            (or_error (if pb_To b \<noteq> '''' then Inr '''' else bind_err (resolveScopeResource db ''environment'' (pb_ToEnv b)) (\<lambda>res. Inr (EnvID res))) db (\<lambda>targetEnv.
              case CreateRequest (sv_IsUser sv) (dw_NewID d) (dw_Now d)
                  \<lparr>cr_SourceConfigID = pb_From b, cr_TargetConfigID = pb_To b, cr_TargetEnvID = targetEnv, cr_TargetName = pb_ToName b,
                   cr_CreateTarget = pb_Create b, cr_SourceVersion = pb_SourceVersion b, cr_Selections = pb_Selections b, cr_Note = pb_Note b,
                   cr_RequestedBy = promoteActorUser rq\<rparr> db of
                Inl e \<Rightarrow> (promote_reply e, [], db)
              | Inr (i, db') \<Rightarrow> recorded d ''promotion.request.create'' (''promote/requests/'' @ i) '''' (RFiled i) db')))))"

definition request_resource :: "PromotionRequestRow \<Rightarrow> Resource" where
  "request_resource q = \<lparr>ProjectID = pr_ProjectID q, EnvID = pr_TargetEnvID q, ConfigID = '''', TransitKey = ''''\<rparr>"

definition conflict_reply :: "pm_err \<Rightarrow> reply" where
  "conflict_reply e = (case e of ErrPromotionConflict \<Rightarrow> RConflict | PmConflictAfter _ \<Rightarrow> RConflict | _ \<Rightarrow> promote_reply e)"

definition handlePromoteRequestApprove :: "Server \<Rightarrow> Request \<Rightarrow> Draws \<Rightarrow> string \<Rightarrow> secret_db \<Rightarrow> outcome" where
  "handlePromoteRequestApprove sv rq d i db =
    or_error (map_err ApiStore (pm_Get db i)) db (\<lambda>req.
    authorize sv rq d SecretPromote (request_resource req) ''promotion.request.approve'' (''promote/requests/'' @ i) db
      (let actor = promoteActorUser rq in
       if actor = pr_RequestedBy req then (RForbidden, [], db)
       else (case ApproveRequest (sv_Keyring sv) (sv_IsUser sv) (dw_Commit d) (dw_Source d) (dw_NewID d) (dw_Fresh d) (dw_CvID d) (dw_Walk d) (dw_Rng d) (dw_Now d) i actor db of
           (Inl e, db') \<Rightarrow> (conflict_reply e, [], db')
         | (Inr (res, _), db') \<Rightarrow> recorded d ''promotion.request.approve'' (''promote/requests/'' @ i) (join_keys (map fst (pa_Applied res))) (RPromoted res) db')))"

definition handlePromoteRequestReject :: "Server \<Rightarrow> Request \<Rightarrow> Draws \<Rightarrow> string \<Rightarrow> string option \<Rightarrow> secret_db \<Rightarrow> outcome" where
  "handlePromoteRequestReject sv rq d i body db =
    (case body of
       None \<Rightarrow> (RBadRequest, [], db)
     | Some text \<Rightarrow>
       or_error (map_err ApiStore (pm_Get db i)) db (\<lambda>req.
       authorize sv rq d SecretPromote (request_resource req) ''promotion.request.reject'' (''promote/requests/'' @ i) db
         (let actor = promoteActorUser rq in
          if actor = pr_RequestedBy req then (RForbidden, [], db)
          else (case RejectRequest (sv_IsUser sv) i actor text (dw_Now d) db of
              Inl e \<Rightarrow> (conflict_reply e, [], db)
            | Inr db' \<Rightarrow> recorded d ''promotion.request.reject'' (''promote/requests/'' @ i) '''' RDone db'))))"

definition handlePromoteRequestCancel :: "Server \<Rightarrow> Request \<Rightarrow> Draws \<Rightarrow> string \<Rightarrow> secret_db \<Rightarrow> outcome" where
  "handlePromoteRequestCancel sv rq d i db =
    or_error (map_err ApiStore (pm_Get db i)) db (\<lambda>req.
      let actor = promoteActorUser rq in
      if actor \<noteq> pr_RequestedBy req then (RForbidden, [], db)
      else (case CancelRequest (sv_IsUser sv) i actor (dw_Now d) db of
          Inl e \<Rightarrow> (conflict_reply e, [], db)
        | Inr db' \<Rightarrow> recorded d ''promotion.request.cancel'' (''promote/requests/'' @ i) '''' RDone db'))"


subsection \<open>Retention and pruning of versions\<close>

definition optInt :: "int option \<Rightarrow> string" where
  "optInt v = (case v of None \<Rightarrow> ''none'' | Some n \<Rightarrow> decimal n)"

text \<open>After the override is written and recorded, the handler reads the resolved policy and replies with it.\<close>

definition retention_reply :: "Server \<Rightarrow> string \<Rightarrow> secret_db \<Rightarrow> reply" where
  "retention_reply sv cid db = (case GetVersionRetention (sv_Floor sv) db cid of Inl e \<Rightarrow> RError (ApiSvc e) | Inr pol \<Rightarrow> RRetention pol)"

definition handleVersionRetentionPut :: "Server \<Rightarrow> Request \<Rightarrow> Draws \<Rightarrow> string \<Rightarrow> (int option \<times> int option) option \<Rightarrow> secret_db \<Rightarrow> outcome" where
  "handleVersionRetentionPut sv rq d cid body db =
    or_error (configResource db cid) db (\<lambda>res.
    authorize sv rq d SecretPrune res ''secret.retention.set'' (''configs/'' @ cid @ ''/versions/retention'') db
      (case body of
         None \<Rightarrow> (RBadRequest, [], db)
       | Some (minVersions, minDays) \<Rightarrow>
         if minVersions = None \<and> minDays = None
         then or_error (map_err ApiSvc (ClearVersionRetention cid db)) db (\<lambda>db'.
           recorded d ''secret.retention.clear'' (''configs/'' @ cid @ ''/versions/retention'') '''' (retention_reply sv cid db') db')
         else or_error (map_err ApiSvc (SetVersionRetention cid minVersions minDays db)) db (\<lambda>db'.
           recorded d ''secret.retention.set'' (''configs/'' @ cid @ ''/versions/retention'')
             (''min_versions='' @ optInt minVersions @ '',min_days='' @ optInt minDays) (retention_reply sv cid db') db')))"

definition prune_detail :: "bool \<Rightarrow> PruneResult \<Rightarrow> string" where
  "prune_detail dryRun p = ''dry_run='' @ boolStr dryRun @ '',keep_versions='' @ decimal (prr_KeepVersions p) @ '',keep_days='' @ decimal (prr_KeepDays p) @
     '',versions_deleted='' @ decimal (int (DeletedVersions p)) @ '',values_deleted='' @ decimal (int (DeletedValues p)) @
     '',versions_retained='' @ decimal (int (RetainedVersions p))"

text \<open>A preview unless the body says \<open>dry_run: false\<close>; only a preview fails when it cannot be recorded.\<close>

definition handleVersionPrune :: "Server \<Rightarrow> Request \<Rightarrow> Draws \<Rightarrow> string \<Rightarrow> (int \<times> int \<times> bool option) option \<Rightarrow> secret_db \<Rightarrow> outcome" where
  "handleVersionPrune sv rq d cid body db =
    or_error (configResource db cid) db (\<lambda>res.
    authorize sv rq d SecretPrune res ''secret.version.prune'' (''configs/'' @ cid @ ''/versions/prune'') db
      (case body of
         None \<Rightarrow> (RBadRequest, [], db)
       | Some (keepVersions, keepDays, dry) \<Rightarrow>
         let dryRun = (case dry of None \<Rightarrow> True | Some b \<Rightarrow> b);
             action = (if dryRun then ''secret.version.prune.preview'' else ''secret.version.prune'') in
         (case PruneVersions (sv_Floor sv) db (dw_StoreCommit d) cid \<lparr>rq_KeepVersions = keepVersions, rq_KeepDays = keepDays, rq_DryRun = dryRun\<rparr> (dw_Now d) db of
            (Inl e, db') \<Rightarrow> (if e = SvcPruneBlocked then RConflict else RError (ApiSvc e), [], db')
          | (Inr result, db') \<Rightarrow>
            if dw_Recorded d then (RPruned result, [(action, ''configs/'' @ cid @ ''/versions/prune'', ''success'', prune_detail dryRun result)], db')
            else if dryRun then (RInternal, [], db') else (RPruned result, [], db'))))"

subsection \<open>One call\<close>

text \<open>The calls of the handlers above, and the handler that serves each.\<close>

datatype api_call =
    SecretsBatchWrite string "batchWriteRequest option"
  | SecretPut string string "(string \<times> string) option"
  | SecretDelete string string
  | RollbackTo string "(int \<times> string) option"
  | RequireApprovalSet string "bool option"
  | EnvRequireApprovalSet string "bool option"
  | EditRequestApprove string
  | EditRequestReject string
  | EditRequestCancel string
  | PipelinePut string "string list option"
  | LockedKeyCreate string "string option"
  | LockedKeyDelete string string
  | PromoteApply "PromoteBody option"
  | PromoteRequestCreate "PromoteBody option"
  | PromoteRequestApprove string
  | PromoteRequestReject string "string option"
  | PromoteRequestCancel string
  | VersionRetentionPut string "(int option \<times> int option) option"
  | VersionPrune string "(int \<times> int \<times> bool option) option"

fun serve :: "Server \<Rightarrow> Request \<Rightarrow> Draws \<Rightarrow> api_call \<Rightarrow> secret_db \<Rightarrow> outcome" where
  "serve sv rq d (SecretsBatchWrite cid body) = handleSecretsBatchWrite sv rq d cid body"
| "serve sv rq d (SecretPut cid key body) = handleSecretPut sv rq d cid key body"
| "serve sv rq d (SecretDelete cid key) = handleSecretDelete sv rq d cid key"
| "serve sv rq d (RollbackTo cid body) = handleRollback sv rq d cid body"
| "serve sv rq d (RequireApprovalSet cid body) = handleRequireApprovalSet sv rq d cid body"
| "serve sv rq d (EnvRequireApprovalSet eid body) = handleEnvRequireApprovalSet sv rq d eid body"
| "serve sv rq d (EditRequestApprove i) = handleEditRequestApprove sv rq d i"
| "serve sv rq d (EditRequestReject i) = handleEditRequestReject sv rq d i"
| "serve sv rq d (EditRequestCancel i) = handleEditRequestCancel sv rq d i"
| "serve sv rq d (PipelinePut pid body) = handlePipelinePut sv rq d pid body"
| "serve sv rq d (LockedKeyCreate cid body) = handleLockedKeyCreate sv rq d cid body"
| "serve sv rq d (LockedKeyDelete cid key) = handleLockedKeyDelete sv rq d cid key"
| "serve sv rq d (PromoteApply body) = handlePromoteApply sv rq d body"
| "serve sv rq d (PromoteRequestCreate body) = handlePromoteRequestCreate sv rq d body"
| "serve sv rq d (PromoteRequestApprove i) = handlePromoteRequestApprove sv rq d i"
| "serve sv rq d (PromoteRequestReject i body) = handlePromoteRequestReject sv rq d i body"
| "serve sv rq d (PromoteRequestCancel i) = handlePromoteRequestCancel sv rq d i"
| "serve sv rq d (VersionRetentionPut cid body) = handleVersionRetentionPut sv rq d cid body"
| "serve sv rq d (VersionPrune cid body) = handleVersionPrune sv rq d cid body"

section \<open>What a call leaves alone\<close>

definition spares :: "Keyring \<Rightarrow> string \<Rightarrow> secret_db \<Rightarrow> secret_db \<Rightarrow> bool" where
  "spares kr c db db' \<longleftrightarrow> vault_inv kr db' \<and> history (vault_of kr db') c = history (vault_of kr db) c"

lemma spares_refl [simp]: "vault_inv kr db \<Longrightarrow> spares kr c db db"
  by (simp add: spares_def)

lemma spares_trans: "spares kr c db1 db2 \<Longrightarrow> spares kr c db2 db3 \<Longrightarrow> spares kr c db1 db3"
  by (simp add: spares_def)

lemma spares_vault: "vault_inv kr db' \<Longrightarrow> vault_of kr db' = vault_of kr db \<Longrightarrow> spares kr c db db'"
  by (simp add: spares_def)

lemma spares_keeps: "vault_inv kr db \<Longrightarrow> keeps_secrets kr db db' \<Longrightarrow> spares kr c db db'"
  using keeps_vault by (auto intro: spares_vault)

lemma spares_beside: "vault_inv kr db \<Longrightarrow> beside db db' \<Longrightarrow> spares kr c db db'"
  using beside_vault by (auto intro: spares_vault)

lemma push_other: "c' \<noteq> c \<Longrightarrow> history (push c' m a) c = history a c"
  by (simp add: push_def)

lemma spares_set:
  assumes "vault_inv kr db" "c' \<noteq> c" "distinct order" "set order = sc_Key ` set changes"
    and "SetSecrets kr db commit c' changes msg actor fresh cvID order r clk db = (out, db')"
  shows "spares kr c db db'"
proof (cases out)
  case (Inl e)
  then show ?thesis using assms SetSecrets_Inl by (metis spares_refl)
next
  case (Inr x)
  then show ?thesis using set_pushes [OF assms(1,3,4)] assms(2,5) by (cases x) (auto simp: spares_def push_other)
qed

lemma spares_rollback:
  assumes inv: "vault_inv kr db" and "c' \<noteq> c" and run: "svc_Rollback commit c' v msg actor cvID clk db = (out, db')"
  shows "spares kr c db db'"
proof (cases out)
  case (Inl e)
  then show ?thesis using assms Rollback_Inl by (metis spares_refl)
next
  case (Inr cv)
  have wf: "store_wf db" "readable kr db" using inv by (simp_all add: vault_inv_def)
  note sp = Rollback_shown [OF wf run [unfolded Inr]]
  show ?thesis using sp(1,2,6) assms(2) by (simp add: spares_def vault_inv_def vault_of_def)
qed

lemma spares_hierarchy:
  "vault_inv kr db \<Longrightarrow> relabels f g h \<Longrightarrow> spares kr c db (relabelled f g h db)"
  "vault_inv kr db \<Longrightarrow> hierarchy_ok (extended ps es cs db) \<Longrightarrow> spares kr c db (extended ps es cs db)"
  by (rule spares_keeps, assumption, rule keeps_hierarchy; simp add: vault_inv_def relabelled_wf relabelled_keys extended_wf extended_keys; simp add: relabelled_def extended_def)+

lemma spares_flags:
  "vault_inv kr db \<Longrightarrow> cfg_SetRequireApproval i b clk db = Inr db' \<Longrightarrow> spares kr c db db'"
  "vault_inv kr db \<Longrightarrow> env_SetRequireApproval i b clk db = Inr db' \<Longrightarrow> spares kr c db db'"
  unfolding cfg_SetRequireApproval_def env_SetRequireApproval_def
  by (drule update_config_relabels update_env_relabels, simp, auto intro: spares_hierarchy(1))+

lemma spares_create: "vault_inv kr db \<Longrightarrow> cfg_Create i eid name inh clk db = Inr (x, db') \<Longrightarrow> spares kr c db db'"
  using cfg_Create_extends spares_hierarchy(2) by (metis store_wf_def vault_inv_def)

lemma spares_update_edit: "vault_inv kr db \<Longrightarrow> execAffectingOne (update_edit P f db) = Inr db' \<Longrightarrow> spares kr c db db'"
  by (auto simp: update_edit_Inr intro: spares_beside edit_update_beside)

lemma spares_resolve_edit: "vault_inv kr db \<Longrightarrow> execAffectingOne (resolve_edit is_user P who f db) = Inr db' \<Longrightarrow> spares kr c db db'"
  by (auto simp: resolve_edit_Inr intro: spares_beside edit_update_beside)


text \<open>An outcome leaves a config alone when its database does; the pieces of handlers carry that through.\<close>

definition leaves :: "Keyring \<Rightarrow> string \<Rightarrow> secret_db \<Rightarrow> outcome \<Rightarrow> bool" where
  "leaves kr c db out \<longleftrightarrow> spares kr c db (snd (snd out))"

lemma leavesD: "leaves kr c db (rep, ev, db') \<Longrightarrow> spares kr c db db'"
  by (simp add: leaves_def)

lemma leaves_same [intro]: "vault_inv kr db \<Longrightarrow> leaves kr c db (rep, ev, db)"
  by (simp add: leaves_def)

lemma leaves_pair: "spares kr c db db' \<Longrightarrow> leaves kr c db (rep, ev, db')"
  by (simp add: leaves_def)

lemma leaves_recorded: "spares kr c db db' \<Longrightarrow> leaves kr c db (recorded d a res t rep db')"
  by (simp add: leaves_def recorded_def)

lemma leaves_or_error: "vault_inv kr db \<Longrightarrow> (\<And>x. m = Inr x \<Longrightarrow> leaves kr c db (k x)) \<Longrightarrow> leaves kr c db (or_error m db k)"
  by (cases m) (auto simp: or_error_def)

lemma leaves_if_can: "vault_inv kr db \<Longrightarrow> (can sv rq action res = Inr () \<Longrightarrow> leaves kr c db k) \<Longrightarrow> leaves kr c db (if_can sv rq action res db k)"
  by (cases "can sv rq action res") (auto simp: if_can_def)

lemma leaves_authorize:
  "vault_inv kr db \<Longrightarrow> (can sv rq action res = Inr () \<Longrightarrow> leaves kr c db k) \<Longrightarrow> leaves kr c db (authorize sv rq d action res aa ar db k)"
  by (cases "can sv rq action res") (auto simp: authorize_def)

lemmas leaves_rules = leaves_or_error leaves_if_can leaves_authorize

lemma leaves_submit:
  assumes "vault_inv (sv_Keyring sv) db"
  shows "leaves (sv_Keyring sv) c db (submitEditRequest sv rq d cid changes msg db)"
proof (cases "er_Submit (sv_Keyring sv) (sv_IsUser sv) db (dw_NewID d) \<lparr>ci_ConfigID = cid, ci_Changes = changes, ci_Message = msg,
    ci_Reason = TrimSpace (rq_Reason rq), ci_RequestedBy = actorOf rq\<rparr> (dw_Rng d) (dw_Now d) db")
  case (Inl e)
  then show ?thesis using assms by (auto simp: submitEditRequest_def)
next
  case (Inr x)
  obtain i r' db' where x: "x = (i, r', db')" by (cases x)
  have "beside db db'" by (rule er_Submit_Inr [OF Inr [unfolded x]]) (simp add: edit_update_beside)
  then show ?thesis using assms Inr x by (auto simp: submitEditRequest_def intro: leaves_recorded spares_beside)
qed

lemma leaves_save:
  assumes "vault_inv (sv_Keyring sv) db" "walks (dw_Walk d)" "cid \<noteq> c"
  shows "leaves (sv_Keyring sv) c db (save_now sv rq d cid changes msg aa ar ad db)"
proof -
  obtain out db' where run: "SetSecrets (sv_Keyring sv) db (dw_Commit d) cid changes msg (actorOf rq) (dw_Fresh d) (dw_CvID d)
      (dw_Walk d (map sc_Key changes)) (dw_Rng d) (dw_Now d) db = (out, db')" by fastforce
  have "spares (sv_Keyring sv) c db db'" by (rule spares_set [OF assms(1,3) walksD [OF assms(2)] run])
  then show ?thesis using run by (auto simp: save_now_def intro: leaves_recorded leaves_pair split: sum.splits)
qed

text \<open>A protected config: every direct write to it is filed as a request.\<close>

lemma leaves_write:
  assumes "vault_inv (sv_Keyring sv) db" "walks (dw_Walk d)" "requireApproval db c = Inr True"
  shows "leaves (sv_Keyring sv) c db (or_error (requireApproval db cid) db (\<lambda>protected.
    if protected then submitEditRequest sv rq d cid changes msg db else save_now sv rq d cid changes msg aa ar ad db))"
proof (rule leaves_or_error [OF assms(1)])
  fix protected
  assume p: "requireApproval db cid = Inr protected"
  show "leaves (sv_Keyring sv) c db (if protected then submitEditRequest sv rq d cid changes msg db else save_now sv rq d cid changes msg aa ar ad db)"
    using p assms leaves_submit leaves_save [OF assms(1,2), of cid] by (cases "cid = c") auto
qed

lemma handlers_write:
  assumes inv: "vault_inv (sv_Keyring sv) db" and prot: "requireApproval db c = Inr True"
  shows "walks (dw_Walk d) \<Longrightarrow> leaves (sv_Keyring sv) c db (handleSecretsBatchWrite sv rq d cid body db)"
    "walks (dw_Walk d) \<Longrightarrow> leaves (sv_Keyring sv) c db (handleSecretPut sv rq d cid key vt db)"
    "walks (dw_Walk d) \<Longrightarrow> leaves (sv_Keyring sv) c db (handleSecretDelete sv rq d cid key db)"
  using leaves_write [OF inv _ prot] inv
  by (auto simp: handleSecretsBatchWrite_def handleSecretPut_def handleSecretDelete_def applyWrite_def Let_def
    intro!: leaves_or_error [of _ _ "configResource db cid"] leaves_authorize split: option.splits)

lemma handler_rollback:
  assumes inv: "vault_inv (sv_Keyring sv) db" and prot: "requireApproval db c = Inr True"
  shows "leaves (sv_Keyring sv) c db (handleRollback sv rq d cid tm db)"
proof -
  have direct: "leaves (sv_Keyring sv) c db (case svc_Rollback (dw_StoreCommit d) cid target message (actorOf rq) (dw_CvID d) (dw_Now d) db of
      (Inl e, db') \<Rightarrow> (RError (ApiSvc e), [], db')
    | (Inr cv, db') \<Rightarrow> recorded d aa ar ad (RVersion cv) db')" if "cid \<noteq> c" for target message aa ar ad
    using spares_rollback [OF inv that] by (auto intro: leaves_recorded leaves_pair split: prod.splits sum.splits)
  show ?thesis
    using inv prot direct leaves_submit [OF inv]
    by (cases "cid = c") (auto simp: handleRollback_def intro!: leaves_rules split: option.splits)
qed


lemma handlers_protection:
  assumes "vault_inv (sv_Keyring sv) db"
  shows "leaves (sv_Keyring sv) c db (handleRequireApprovalSet sv rq d cid b db)"
    "leaves (sv_Keyring sv) c db (handleEnvRequireApprovalSet sv rq d eid b db)"
  using assms spares_flags [OF assms]
  by (auto simp: handleRequireApprovalSet_def handleEnvRequireApprovalSet_def map_err_Inr_iff intro!: leaves_rules leaves_recorded split: option.splits)

lemma spares_decisions:
  assumes "vault_inv kr db"
  shows "Reject is_user i who clk db = Inr db' \<Longrightarrow> spares kr c db db'" "Cancel is_user i who clk db = Inr db' \<Longrightarrow> spares kr c db db'"
  using assms by (auto simp: Reject_def Cancel_def er_Decide_def bind_err_Inr map_err_Inr_iff intro: spares_resolve_edit split: if_splits)

lemma handlers_edit:
  assumes "vault_inv (sv_Keyring sv) db"
  shows "leaves (sv_Keyring sv) c db (handleEditRequestReject sv rq d i db)" "leaves (sv_Keyring sv) c db (handleEditRequestCancel sv rq d i db)"
  using assms spares_decisions [OF assms]
  by (auto simp: handleEditRequestReject_def handleEditRequestCancel_def Let_def intro!: leaves_rules leaves_recorded split: sum.splits)

lemma pipe_Set_beside: "pipe_Set commit p es db = (res, db') \<Longrightarrow> beside db db'"
proof -
  have "insert_steps p i es db1 = Inr db2 \<Longrightarrow> beside db1 db2" for i es db1 db2
  proof (induction es arbitrary: i db1)
    case (Cons e es)
    then have "beside (db1\<lparr>promotion_pipeline_steps := promotion_pipeline_steps db1 @ [\<lparr>st_ProjectID = p, st_Position = i, st_EnvironmentID = e\<rparr>]\<rparr>) db2"
      by (auto split: if_splits)
    then show ?case by (simp add: beside_def)
  qed simp
  then show "pipe_Set commit p es db = (res, db') \<Longrightarrow> beside db db'"
    by (fastforce simp: pipe_Set_def withTx_def bind_err_Inr beside_def split: sum.splits option.splits)
qed

lemma Lock_beside: "Lock is_user cid key by db = Inr db' \<Longrightarrow> beside db db'" "beside db (Unlock cid key db)"
  by (auto simp: Lock_def Unlock_def beside_def split: if_splits)

lemma request_beside:
  "CreateRequest is_user i clk inp db = Inr (i', db') \<Longrightarrow> beside db db'" "RejectRequest is_user i who txt clk db = Inr db' \<Longrightarrow> beside db db'"
  "CancelRequest is_user i who clk db = Inr db' \<Longrightarrow> beside db db'" "pm_MarkApplied is_user i who v clk db = Inr db' \<Longrightarrow> beside db db'"
  by (auto simp: CreateRequest_def RejectRequest_def CancelRequest_def pm_Create_def pm_Decide_def pm_MarkApplied_def decide_request_def update_request_def
    execAffectingOne_def bind_err_Inr map_err_Inr_iff Let_def beside_def split: if_splits prod.splits)

lemma handlers_promotion_side:
  assumes "vault_inv (sv_Keyring sv) db"
  shows "leaves (sv_Keyring sv) c db (handlePipelinePut sv rq d pid eids db)" "leaves (sv_Keyring sv) c db (handleLockedKeyCreate sv rq d cid ko db)"
    "leaves (sv_Keyring sv) c db (handleLockedKeyDelete sv rq d cid key db)" "leaves (sv_Keyring sv) c db (handlePromoteRequestCreate sv rq d pb db)"
    "leaves (sv_Keyring sv) c db (handlePromoteRequestReject sv rq d i txt db)" "leaves (sv_Keyring sv) c db (handlePromoteRequestCancel sv rq d i db)"
  using assms
  by (auto simp: handlePipelinePut_def handleLockedKeyCreate_def handleLockedKeyDelete_def handlePromoteRequestCreate_def handlePromoteRequestReject_def
      handlePromoteRequestCancel_def Let_def map_err_Inr_iff intro: spares_beside [OF assms pipe_Set_beside] spares_beside [OF assms Lock_beside(1)]
      spares_beside [OF assms Lock_beside(2)] request_beside [THEN spares_beside [OF assms]]
    intro!: leaves_rules leaves_recorded leaves_pair split: option.splits sum.splits prod.splits)

text \<open>Promotions and approvals change only their target.\<close>

lemma spares_Apply:
  assumes inv: "vault_inv kr db" and walk: "walks walk" and c: "c \<in> c_ID ` set (configs db)"
    and tgt: "aq_TargetConfigID req \<noteq> c \<or> aq_TargetConfigID req = ''''"
    and run: "Apply kr commit so newID fresh cvID walk r clk req db = (out, db')"
  shows "spares kr c db db'"
proof (cases "projectAndEnv db (aq_SourceConfigID req)")
  case (Inl e)
  then show ?thesis using run inv by (auto simp: Apply_def Plan_def)
next
  case (Inr pe)
  obtain proj srcEnv where pe: "projectAndEnv db (aq_SourceConfigID req) = Inr (proj, srcEnv)" using Inr by (cases pe) simp
  show ?thesis
  proof (cases "plan_target newID clk req db")
    case (Inl e)
    then show ?thesis using run inv pe by (auto simp: Apply_def Plan_def)
  next
    case (Inr x)
    obtain t db1 where x: "plan_target newID clk req db = Inr (t, db1)" using Inr by (cases x) simp
    have s1: "spares kr c db db1"
      using x inv by (auto simp: plan_target_def bind_err_Inr map_err_Inr_iff split: if_splits intro: spares_create)
    have t: "t \<noteq> c \<or> t = ''''"
      using x c tgt by (auto simp: plan_target_def cfg_Create_def bind_err_Inr map_err_Inr_iff Let_def split: if_splits)
    have inv1: "vault_inv kr db1" using s1 by (simp add: spares_def)
    show ?thesis
    proof (cases "plan_rest kr db1 so proj srcEnv t req")
      case (Inl e)
      then show ?thesis using run s1 pe x by (auto simp: Apply_def Plan_def)
    next
      case (Inr plan)
      obtain q e where "projectAndEnv db1 t = Inr (q, e)" and pt: "pl_TargetConfigID plan = t" by (rule plan_rest_Inr [OF Inr])
      then have "t \<noteq> c" using t by (auto simp: projectAndEnv_def)
      obtain sres db2 where s: "SetSecrets kr db1 commit t (pl_Changes plan) (pl_Message plan) (aq_Actor req) fresh cvID (walk (map sc_Key (pl_Changes plan))) r clk db1 = (sres, db2)"
        by fastforce
      have s2: "spares kr c db db2" by (rule spares_trans [OF s1 spares_set [OF inv1 \<open>t \<noteq> c\<close> walksD [OF walk] s]])
      have "spares kr c db2 db3" if "MarkPromoted i e v db2 = Inr db3" for i e v db3
        using spares_keeps MarkPromoted_keeps [OF _ that] s2 by (auto simp: spares_def)
      then have mark: "spares kr c db db3" if "MarkPromoted i e v db2 = Inr db3" for i e v db3 using spares_trans [OF s2] that by blast
      show ?thesis using run pe x Inr s pt s1 s2 mark by (auto simp: Apply_def Plan_def split: if_splits sum.splits prod.splits)
    qed
  qed
qed


lemma protected_exists: "requireApproval db c = Inr b \<Longrightarrow> c \<in> c_ID ` set (configs db)"
  by (auto simp: requireApproval_def bind_err_Inr map_err_Inr_iff cfg_Get_def dest!: one_row_Inr)

lemma spares_Approve:
  assumes inv: "vault_inv kr db" and walk: "walks walk" and er: "er_Get db i = Inr er"
    and other: "er_ConfigID er \<noteq> c \<or> er_Status er \<noteq> ''pending''"
    and run: "Approve kr is_user commit i approver fresh cvID walk r clk db = (out, db')"
  shows "spares kr c db db'"
proof -
  have saved: "spares kr c db db2 \<and> vault_inv kr db2"
    if "approve_check db i approver = Inr q" "approve_claim i db = Inr db1" "approve_save kr db1 commit q approver fresh cvID walk r clk db1 = (res, db2)" for q db1 res db2
  proof -
    have "q = er" "er_Status er = ''pending''" using that(1) er by (auto simp: approve_check_Inr)
    then have q: "er_ConfigID q \<noteq> c" using other by simp
    have s1: "spares kr c db db1"
      using that(2) by (auto simp: approve_claim_def map_err_Inr_iff ClaimForApply_def intro: spares_update_edit [OF inv])
    then have inv1: "vault_inv kr db1" by (simp add: spares_def)
    have keys: "set (walk (map pc_Key pcs)) = sc_Key ` set (map accept_change pcs)" for pcs
      using walksD(2) [OF walk, of pc_Key pcs] by (simp add: image_image accept_change_def)
    have "spares kr c db1 db2"
      using that(3) inv1 spares_set [OF inv1 q walksD(1) [OF walk] keys]
      by (auto simp: approve_save_def split: sum.splits option.splits prod.splits)
    then show ?thesis using spares_trans [OF s1] by (simp add: spares_def)
  qed
  from run show ?thesis
  proof (cases rule: Approve_cases)
    case (failed q db1 db2 e)
    then have s: "spares kr c db db2" "vault_inv kr db2" using saved by blast+
    have "spares kr c db2 (revert_claim i db2)"
      using s(2) by (auto simp: revert_claim_def RevertApplying_def intro: spares_update_edit split: sum.splits)
    then show ?thesis using spares_trans [OF s(1)] failed(5) by simp
  next
    case (applied q db1 db2 res r')
    then have s: "spares kr c db db2" "vault_inv kr db2" using saved by blast+
    show ?thesis using spares_trans [OF s(1) spares_resolve_edit [OF s(2) applied(4) [unfolded er_MarkApplied_def]]] .
  qed (use inv saved in auto)
qed

lemma spares_ApproveRequest:
  assumes inv: "vault_inv kr db" and walk: "walks walk" and c: "c \<in> c_ID ` set (configs db)" and q: "pm_Get db i = Inr q"
    and other: "pr_TargetConfigID q \<noteq> Some c \<or> pr_Status q \<noteq> ''pending''"
    and run: "ApproveRequest kr is_user commit so newID fresh cvID walk r clk i approver db = (out, db')"
  shows "spares kr c db db'"
proof (cases "pr_Status q = ''pending''")
  case True
  obtain ares db1 where a: "Apply kr commit so newID fresh cvID walk r clk (request_apply q approver) db = (ares, db1)" by fastforce
  have s: "spares kr c db db1"
    by (rule spares_Apply [OF inv walk c _ a]) (use other True in \<open>auto simp: request_apply_def split: option.splits\<close>)
  then have "spares kr c db db2" if "pm_MarkApplied is_user i approver v clk db1 = Inr db2" for v db2
    using spares_trans [OF s] spares_beside [OF _ request_beside(4) [OF that]] by (simp add: spares_def)
  then show ?thesis using run q True a s by (auto simp: ApproveRequest_def split: sum.splits)
qed (use run q inv in \<open>auto simp: ApproveRequest_def\<close>)

text \<open>Only users promote: no access mode of a token carries the action.\<close>

lemma can_promote_user: "can sv rq SecretPromote res = Inr () \<Longrightarrow> Kind (rq_Principal rq) = KindUser"
  by (auto simp: can_def Can_def tokenAllows_def tokenCapabilities_def transitTokenCapabilities_def actions split: option.splits if_splits)

lemma handler_promote:
  assumes inv: "vault_inv (sv_Keyring sv) db" and walk: "walks (dw_Walk d)" and prot: "requireApproval db c = Inr True"
  shows "leaves (sv_Keyring sv) c db (handlePromoteApply sv rq d pb db)"
proof -
  have now: "leaves (sv_Keyring sv) c db (promote_now sv rq d b db)" if "pb_To b \<noteq> c \<or> pb_To b = ''''" for b
  proof -
    obtain res db' where run: "Apply (sv_Keyring sv) (dw_Commit d) (dw_Source d) (dw_NewID d) (dw_Fresh d) (dw_CvID d) (dw_Walk d) (dw_Rng d) (dw_Now d)
        (apply_request b rq) db = (res, db')" by fastforce
    have "spares (sv_Keyring sv) c db db'"
      by (rule spares_Apply [OF inv walk protected_exists [OF prot] _ run]) (use that in \<open>simp add: apply_request_def\<close>)
    then show ?thesis using run by (auto simp: promote_now_def intro: leaves_recorded leaves_pair split: sum.splits)
  qed
  have later: "leaves (sv_Keyring sv) c db (promote_protected sv rq d b db)" for b
    using inv leaves_submit [OF inv]
    by (auto simp: promote_protected_def Plan_def plan_target_def apply_request_def split: sum.splits prod.splits if_splits)
  have free: "leaves (sv_Keyring sv) c db (promote_now sv rq d b db)" if "requireApproval db (pb_To b) = Inr False" for b
    using now [of b] that prot by (cases "pb_To b = c") auto
  show ?thesis
    using inv now later free by (auto simp: handlePromoteApply_def intro!: leaves_rules split: option.splits)
qed


lemma handler_approve_edit:
  assumes inv: "vault_inv (sv_Keyring sv) db" and walk: "walks (dw_Walk d)" and run: "handleEditRequestApprove sv rq d i db = (rep, ev, db')"
  shows "spares (sv_Keyring sv) c db db' \<or> (\<exists>q. er_Get db i = Inr q \<and> er_ConfigID q = c \<and> er_Status q = ''pending'' \<and> er_RequestedBy q \<noteq> ID (rq_Principal rq) \<and>
    Kind (rq_Principal rq) = KindUser \<and> (\<exists>res. configResource db c = Inr res \<and> can sv rq SecretWrite res = Inr ()))"
proof (rule disjCI)
  assume none: "\<not> (\<exists>q. er_Get db i = Inr q \<and> er_ConfigID q = c \<and> er_Status q = ''pending'' \<and> er_RequestedBy q \<noteq> ID (rq_Principal rq) \<and>
    Kind (rq_Principal rq) = KindUser \<and> (\<exists>res. configResource db c = Inr res \<and> can sv rq SecretWrite res = Inr ()))"
  have step: "leaves (sv_Keyring sv) c db
      (case Approve (sv_Keyring sv) (sv_IsUser sv) (dw_Commit d) i actor (dw_Fresh d) (dw_CvID d) (dw_Walk d) (dw_Rng d) (dw_Now d) db of
         (Inl e, db') \<Rightarrow> (edit_reply e, [], db') | (Inr (out, _), db') \<Rightarrow> recorded d aa ar (''keys='' @ join_keys (ar_Keys out)) (RApplied out) db')"
    if "er_Get db i = Inr er" "configResource db (er_ConfigID er) = Inr res" "can sv rq SecretWrite res = Inr ()" "actor = promoteActorUser rq"
      "actor \<noteq> ''''" "actor \<noteq> er_RequestedBy er" for er res actor aa ar
  proof -
    have "er_ConfigID er \<noteq> c \<or> er_Status er \<noteq> ''pending''"
      using none that er_Get_Inr [OF that(1)] by (auto simp: promoteActorUser_def split: if_splits)
    from spares_Approve [OF inv walk that(1) this] show ?thesis by (auto intro: leaves_recorded leaves_pair split: sum.splits prod.splits)
  qed
  have "leaves (sv_Keyring sv) c db (handleEditRequestApprove sv rq d i db)"
    using inv step by (auto simp: handleEditRequestApprove_def Let_def map_err_Inr_iff intro!: leaves_rules)
  then show "spares (sv_Keyring sv) c db db'" using run leavesD by metis
qed

lemma handler_approve_promotion:
  assumes inv: "vault_inv (sv_Keyring sv) db" and walk: "walks (dw_Walk d)" and c: "c \<in> c_ID ` set (configs db)"
    and run: "handlePromoteRequestApprove sv rq d i db = (rep, ev, db')"
  shows "spares (sv_Keyring sv) c db db' \<or> (\<exists>q. pm_Get db i = Inr q \<and> pr_TargetConfigID q = Some c \<and> pr_Status q = ''pending'' \<and>
    pr_RequestedBy q \<noteq> ID (rq_Principal rq) \<and> Kind (rq_Principal rq) = KindUser \<and> can sv rq SecretPromote (request_resource q) = Inr ())"
proof (rule disjCI)
  assume none: "\<not> (\<exists>q. pm_Get db i = Inr q \<and> pr_TargetConfigID q = Some c \<and> pr_Status q = ''pending'' \<and>
    pr_RequestedBy q \<noteq> ID (rq_Principal rq) \<and> Kind (rq_Principal rq) = KindUser \<and> can sv rq SecretPromote (request_resource q) = Inr ())"
  have step: "leaves (sv_Keyring sv) c db
      (case ApproveRequest (sv_Keyring sv) (sv_IsUser sv) (dw_Commit d) (dw_Source d) (dw_NewID d) (dw_Fresh d) (dw_CvID d) (dw_Walk d) (dw_Rng d) (dw_Now d) i actor db of
         (Inl e, db') \<Rightarrow> (conflict_reply e, [], db') | (Inr (res, _), db') \<Rightarrow> recorded d aa ar (join_keys (map fst (pa_Applied res))) (RPromoted res) db')"
    if "pm_Get db i = Inr q" "can sv rq SecretPromote (request_resource q) = Inr ()" "actor = promoteActorUser rq" "actor \<noteq> pr_RequestedBy q" for q actor aa ar
  proof -
    have "q \<in> set (promotion_requests db)" using that(1) by (auto simp: pm_Get_def dest: one_row_Inr)
    then have "pr_TargetConfigID q \<noteq> Some c \<or> pr_Status q \<noteq> ''pending''"
      using none that can_promote_user [OF that(2)] by (auto simp: promoteActorUser_def)
    from spares_ApproveRequest [OF inv walk c that(1) this] show ?thesis by (auto intro: leaves_recorded leaves_pair split: sum.splits prod.splits)
  qed
  have "leaves (sv_Keyring sv) c db (handlePromoteRequestApprove sv rq d i db)"
    using inv step by (auto simp: handlePromoteRequestApprove_def Let_def map_err_Inr_iff intro!: leaves_rules)
  then show "spares (sv_Keyring sv) c db db'" using run leavesD by metis
qed

text \<open>A prune forgets old versions of its own config and changes nothing else.\<close>

lemma prune_history:
  assumes inv: "vault_inv kr db" and run: "PruneVersions fl rdb commit cid req clk db = (out, db')"
  shows "vault_inv kr db'"
    "history (vault_of kr db') c v = history (vault_of kr db) c v \<or> c = cid \<and> v \<noteq> max_version db c \<and> history (vault_of kr db') c v = None"
proof -
  note sim = simulates_prune [OF inv run, unfolded simulates_def]
  then show "vault_inv kr db'" by simp
  show "history (vault_of kr db') c v = history (vault_of kr db) c v \<or> c = cid \<and> v \<noteq> max_version db c \<and> history (vault_of kr db') c v = None"
  proof (cases "reported_prune cid out = Quiet")
    case True
    then show ?thesis using sim by simp
  next
    case False
    then obtain V where V: "reported_prune cid out = Pruned cid V" by (auto simp: reported_prune_def split: sum.splits if_splits)
    then have h: "head_of (vault_of kr db) cid \<notin> V" "vault_of kr db' = forget cid V (vault_of kr db)" using sim by (auto split: if_splits)
    have "head_of (vault_of kr db) cid = max_version db cid" by (simp add: vault_of_def)
    then show ?thesis using h(1) unfolding h(2) by (auto simp: forget_def restrict_map_def)
  qed
qed

lemma handler_prune:
  assumes inv: "vault_inv (sv_Keyring sv) db" and run: "handleVersionPrune sv rq d cid body db = (rep, ev, db')"
  shows "spares (sv_Keyring sv) c db db' \<or>
    (cid = c \<and> (\<exists>res. configResource db c = Inr res \<and> can sv rq SecretPrune res = Inr ()) \<and> vault_inv (sv_Keyring sv) db' \<and>
     (\<forall>v. history (vault_of (sv_Keyring sv) db') c v = history (vault_of (sv_Keyring sv) db) c v \<or>
        v \<noteq> max_version db c \<and> history (vault_of (sv_Keyring sv) db') c v = None))"
proof (cases "db' = db")
  case True
  then show ?thesis using inv by simp
next
  case False
  then obtain res fl commit req out where res: "configResource db cid = Inr res" "can sv rq SecretPrune res = Inr ()"
    and p: "PruneVersions fl db commit cid req (dw_Now d) db = (out, db')"
    using run by (auto simp: handleVersionPrune_def or_error_def authorize_def Let_def split: sum.splits if_splits option.splits prod.splits)
  note h = prune_history [OF inv p]
  show ?thesis
  proof (cases "cid = c")
    case True
    then show ?thesis using res h by blast
  next
    case False
    then show ?thesis using h by (auto simp: spares_def)
  qed
qed

lemma handler_retention:
  assumes inv: "vault_inv (sv_Keyring sv) db"
  shows "leaves (sv_Keyring sv) c db (handleVersionRetentionPut sv rq d cid body db)"
proof -
  have quiet: "spares (sv_Keyring sv) c db db'" if "simulates (sv_Keyring sv) Quiet db db'" for db'
    using that by (simp add: spares_def simulates_def)
  have clear: "spares (sv_Keyring sv) c db db'" if "ClearVersionRetention cid db = Inr db'" for db'
    using simulates_retention [OF inv] that by (auto simp: ClearVersionRetention_def ret_Clear_def bind_err_Inr intro: quiet)
  have set: "spares (sv_Keyring sv) c db db'" if "SetVersionRetention cid mv md db = Inr db'" for mv md db'
    using simulates_set_retention [OF inv that] by (rule quiet)
  show ?thesis
    using inv by (auto simp: handleVersionRetentionPut_def map_err_Inr_iff intro!: leaves_rules leaves_recorded split: option.splits dest: clear set)
qed

lemma protected_call:
  assumes inv: "vault_inv (sv_Keyring sv) db" and walk: "walks (dw_Walk d)" and run: "serve sv rq d call db = (rep, ev, db')"
    and prot: "requireApproval db c = Inr True"
  shows "spares (sv_Keyring sv) c db db' \<or>
    (\<exists>i q. call = EditRequestApprove i \<and> er_Get db i = Inr q \<and> er_ConfigID q = c \<and> er_Status q = ''pending'' \<and> er_RequestedBy q \<noteq> ID (rq_Principal rq) \<and>
       Kind (rq_Principal rq) = KindUser \<and> (\<exists>res. configResource db c = Inr res \<and> can sv rq SecretWrite res = Inr ())) \<or>
    (\<exists>i q. call = PromoteRequestApprove i \<and> pm_Get db i = Inr q \<and> pr_TargetConfigID q = Some c \<and> pr_Status q = ''pending'' \<and>
       pr_RequestedBy q \<noteq> ID (rq_Principal rq) \<and> Kind (rq_Principal rq) = KindUser \<and> can sv rq SecretPromote (request_resource q) = Inr ()) \<or>
    (\<exists>body res. call = VersionPrune c body \<and> configResource db c = Inr res \<and> can sv rq SecretPrune res = Inr () \<and> vault_inv (sv_Keyring sv) db' \<and>
       (\<forall>v. history (vault_of (sv_Keyring sv) db') c v = history (vault_of (sv_Keyring sv) db) c v \<or>
          v \<noteq> max_version db c \<and> history (vault_of (sv_Keyring sv) db') c v = None))"
proof -
  have left: ?thesis if "leaves (sv_Keyring sv) c db (serve sv rq d call db)" using that run leavesD by metis
  show ?thesis
  proof (cases call)
    case (EditRequestApprove i)
    then show ?thesis using handler_approve_edit [OF inv walk, of rq i] run by auto
  next
    case (PromoteRequestApprove i)
    then show ?thesis using handler_approve_promotion [OF inv walk protected_exists [OF prot], of rq i] run by auto
  next
    case (VersionPrune cid body)
    then show ?thesis using handler_prune [OF inv, of rq d cid body rep ev db' c] run by auto
  next
    case (SecretsBatchWrite cid body)
    then show ?thesis using handlers_write(1) [OF inv prot walk] by (intro left) simp
  next
    case (SecretPut cid key body)
    then show ?thesis using handlers_write(2) [OF inv prot walk] by (intro left) simp
  next
    case (SecretDelete cid key)
    then show ?thesis using handlers_write(3) [OF inv prot walk] by (intro left) simp
  qed (intro left, simp add: handler_rollback [OF inv prot] handler_promote [OF inv walk prot] handlers_protection [OF inv] handlers_edit [OF inv]
      handlers_promotion_side [OF inv] handler_retention [OF inv])+
qed


text \<open>
  C10. Four eyes: let a config be protected, by its own flag or by its environment's, and let any of the modelled handlers
  serve a call. Then the versions of the config stay as they are, unless the call itself is one of three:
  the approval of a pending edit request for this config, by a user other than the requester who may write secrets to
  it; the approval of a pending promotion into this config, by a user other than the requester who may promote to the
  project and environment recorded in the request; or a prune of this config's versions by someone who may
  prune them, which removes old versions but neither the latest one nor the content of any that stays. The handlers are those that write,
  delete and roll back secrets, set the protection flags, decide on edit requests, set pipelines and locked keys,
  promote and decide on promotions, and set retention and prune versions; secret rotation is not among them.
\<close>

theorem protected_config_four_eyes:
  assumes inv: "vault_inv (sv_Keyring sv) db" and walk: "walks (dw_Walk d)" and run: "serve sv rq d call db = (rep, ev, db')"
    and prot: "requireApproval db c = Inr True"
  shows "vault_inv (sv_Keyring sv) db' \<and> history (vault_of (sv_Keyring sv) db') c = history (vault_of (sv_Keyring sv) db) c \<or>
    (\<exists>i q. call = EditRequestApprove i \<and> er_Get db i = Inr q \<and> er_ConfigID q = c \<and> er_Status q = ''pending'' \<and> er_RequestedBy q \<noteq> ID (rq_Principal rq) \<and>
       Kind (rq_Principal rq) = KindUser \<and> (\<exists>res. configResource db c = Inr res \<and> can sv rq SecretWrite res = Inr ())) \<or>
    (\<exists>i q. call = PromoteRequestApprove i \<and> pm_Get db i = Inr q \<and> pr_TargetConfigID q = Some c \<and> pr_Status q = ''pending'' \<and>
       pr_RequestedBy q \<noteq> ID (rq_Principal rq) \<and> Kind (rq_Principal rq) = KindUser \<and> can sv rq SecretPromote (request_resource q) = Inr ()) \<or>
    (\<exists>body res. call = VersionPrune c body \<and> configResource db c = Inr res \<and> can sv rq SecretPrune res = Inr () \<and> vault_inv (sv_Keyring sv) db' \<and>
       (\<forall>v. history (vault_of (sv_Keyring sv) db') c v = history (vault_of (sv_Keyring sv) db) c v \<or>
          v \<noteq> max_version db c \<and> history (vault_of (sv_Keyring sv) db') c v = None))"
  using protected_call [OF assms] unfolding spares_def .


section \<open>The door past an environment's protection\<close>

lemma new_config_empty: "store_wf db \<Longrightarrow> i \<notin> c_ID ` set (configs db) \<Longrightarrow> max_version db i = 0"
proof -
  assume "store_wf db" "i \<notin> c_ID ` set (configs db)"
  then have "v \<notin> set (versions_of db i)" for v by (auto simp: versions_of_iff store_wf_def versions_ok_def)
  then have "versions_of db i = []" by (metis list.set_intros(1) neq_Nil_conv)
  then show "max_version db i = 0" by (simp add: max_version_def)
qed

lemma MarkPromoted_frame: "MarkPromoted i e v db = Inr db' \<Longrightarrow> configs db' = configs db \<and> environments db' = environments db \<and> side db' = side db"
  by (auto simp: MarkPromoted_def execAffectingOne_def Let_def side_def split: if_splits prod.splits)

lemma Apply_creates:
  assumes inv: "vault_inv kr db" and walk: "walks walk" and create: "aq_TargetConfigID req = ''''" "aq_CreateTarget req"
    and run: "Apply kr commit so newID fresh cvID walk r clk req db = (Inr (res, r'), db')" and ver: "pa_TargetVersion res \<noteq> 0"
  shows "\<exists>cfg. newID \<notin> c_ID ` set (configs db) \<and> configs db' = configs db @ [cfg] \<and> c_ID cfg = newID \<and> c_EnvironmentID cfg = aq_TargetEnvID req \<and> live_config cfg \<and>
    environments db' = environments db \<and> side db' = side db \<and> history (vault_of kr db') newID 1 \<noteq> None"
proof -
  obtain proj srcEnv t db1 plan cv db2 where t: "plan_target newID clk req db = Inr (t, db1)" and plan: "plan_rest kr db1 so proj srcEnv t req = Inr plan"
    and set: "SetSecrets kr db1 commit (pl_TargetConfigID plan) (pl_Changes plan) (pl_Message plan) (aq_Actor req) fresh cvID (walk (map sc_Key (pl_Changes plan))) r clk db1 = (Inr (cv, r'), db2)"
    and mark: "db' = db2 \<or> (\<exists>i e v. MarkPromoted i e v db2 = Inr db')"
    using run ver by (auto simp: Apply_def Plan_def split: sum.splits prod.splits if_splits) blast+
  have pt: "pl_TargetConfigID plan = t" by (rule plan_rest_Inr [OF plan])
  obtain cfg where cr: "cfg_Create newID (aq_TargetEnvID req) (aq_TargetName req) None clk db = Inr (cfg, db1)" and tc: "t = c_ID cfg"
    using t create by (auto simp: plan_target_def bind_err_Inr map_err_Inr_iff split: if_splits)
  then have c: "newID \<notin> c_ID ` set (configs db)" "c_ID cfg = newID" "c_EnvironmentID cfg = aq_TargetEnvID req" "live_config cfg"
    and db1: "db1 = db\<lparr>configs := configs db @ [cfg]\<rparr>"
    by (auto simp: cfg_Create_def Let_def live_config_def split: if_splits)
  have inv1: "vault_inv kr db1" using spares_create [OF inv cr] by (simp add: spares_def)
  have "max_version db newID = 0" using new_config_empty c(1) inv by (simp add: vault_inv_def)
  then have zero: "max_version db1 newID = 0" by (simp add: db1 max_version_def versions_of_def)
  note p = set_pushes [OF inv1 walksD [OF walk] set]
  have h: "history (vault_of kr db2) newID 1 \<noteq> None" using p(2) zero tc c(2) pt by (simp add: push_def) (simp add: vault_of_def)
  obtain nw ptrs tombs where "db2 = with_version (db1\<lparr>secret_values := secret_values db1 @ nw\<rparr>) cv ptrs tombs"
    using SetSecrets_frame [OF _ walksD [OF walk] set] inv1 by (auto simp: vault_inv_def)
  then have same: "configs db2 = configs db1" "environments db2 = environments db1" by simp_all
  have "vault_of kr db' = vault_of kr db2" using mark MarkPromoted_keeps [OF p(1)] keeps_vault [OF _ p(1)] by blast
  moreover have "configs db' = configs db2 \<and> environments db' = environments db2 \<and> side db' = side db2" using mark MarkPromoted_frame by blast
  ultimately show ?thesis
    using c same h set_side [OF set] by (intro exI [of _ cfg]) (simp add: db1 side_def)
qed

text \<open>
  C40. A promotion that creates its target is not reviewed: when one caller's promotion with \<open>create\<close> into an environment that requires approval
  answers with a new version, the environment holds a new config with secrets in it, no edit request was filed, and the
  config is protected from then on.
\<close>

theorem create_promotion_unreviewed:
  assumes inv: "vault_inv (sv_Keyring sv) db" and walk: "walks (dw_Walk d)" and env: "env_Get db (pb_ToEnv b) = Inr env" "e_RequireApproval env"
    and b: "pb_To b = ''''" "pb_Create b" and run: "handlePromoteApply sv rq d (Some b) db = (RPromoted res, ev, db')" "pa_TargetVersion res \<noteq> 0"
  shows "dw_NewID d \<notin> c_ID ` set (configs db) \<and> config_edit_requests db' = config_edit_requests db \<and>
    history (vault_of (sv_Keyring sv) db') (dw_NewID d) 1 \<noteq> None \<and> requireApproval db' (dw_NewID d) = Inr True"
proof -
  obtain r' where ap: "Apply (sv_Keyring sv) (dw_Commit d) (dw_Source d) (dw_NewID d) (dw_Fresh d) (dw_CvID d) (dw_Walk d) (dw_Rng d) (dw_Now d)
      (apply_request b rq) db = (Inr (res, r'), db')"
    using run(1) b(1) by (auto simp: handlePromoteApply_def promote_now_def or_error_def if_can_def authorize_def recorded_def writeAuthzError_def promote_reply_def
      split: sum.splits if_splits prod.splits pm_err.splits)
  obtain cfg where c: "dw_NewID d \<notin> c_ID ` set (configs db)" "configs db' = configs db @ [cfg]" "c_ID cfg = dw_NewID d" "c_EnvironmentID cfg = pb_ToEnv b" "live_config cfg"
    and e: "environments db' = environments db" "side db' = side db" and h: "history (vault_of (sv_Keyring sv) db') (dw_NewID d) 1 \<noteq> None"
    using Apply_creates [OF inv walk _ _ ap run(2)] b by (auto simp: apply_request_def)
  have "one_row (\<lambda>x. c_ID x = dw_NewID d \<and> live_config x) (configs db) = Inl ErrNotFound" using c(1) by (force simp: one_row_Inl)
  then have "cfg_Get db' (dw_NewID d) = Inr cfg" using c(2,3,5) by (simp add: cfg_Get_def one_row_snoc)
  then have "requireApproval db' (dw_NewID d) = Inr True" using env e(1) c(4) by (simp add: requireApproval_def env_Get_def)
  then show ?thesis using c(1) h e(2) by (simp add: side_def)
qed


subsection \<open>Witnesses\<close>

text \<open>Ann is a developer everywhere; the environment \<open>f\<close> of the small instance requires approval.\<close>

definition demo_server :: Server where
  "demo_server = \<lparr>sv_Keyring = demo_kr, sv_IsUser = (\<lambda>_. True), sv_EditReq = True, sv_Authz = \<lparr>bindings = (\<lambda>_. Inr
     [\<lparr>ID_rb = ''b'', SubjectUserID = ''ann'', ScopeLevel = ''instance'', ProjectID_rb = None, EnvironmentID = None, Role_rb = RoleDeveloper,
       CreatedBy = None, CreatedAt = 0, ViaGroupID = None, ViaGroupName = ''''\<rparr>]), groups = None, grants = None, now = 0\<rparr>,
     sv_Floor = \<lparr>fl_MinVersions = 0, fl_MinDays = 0\<rparr>\<rparr>"

definition demo_ann :: Request where
  "demo_ann = \<lparr>rq_Principal = \<lparr>Kind = KindUser, ID = ''ann'', Name = ''''\<rparr>, rq_Scope = None, rq_Reason = ''''\<rparr>"

definition demo_draws :: "string \<Rightarrow> (string \<Rightarrow> string) \<Rightarrow> string \<Rightarrow> Draws" where
  "demo_draws n f v = \<lparr>dw_Commit = None, dw_StoreCommit = None, dw_Recorded = True, dw_NewID = n, dw_Fresh = f, dw_CvID = v, dw_Walk = remdups,
     dw_Source = [''K''], dw_Target = [], dw_Rng = replicate 56 0, dw_Now = 2\<rparr>"

lemma demo_draws_simps [simp]:
  "dw_Commit (demo_draws n f v) = None" "dw_Recorded (demo_draws n f v)" "dw_NewID (demo_draws n f v) = n" "dw_Fresh (demo_draws n f v) = f"
  "dw_CvID (demo_draws n f v) = v" "dw_Walk (demo_draws n f v) = remdups" "dw_Source (demo_draws n f v) = [''K'']"
  "dw_Rng (demo_draws n f v) = replicate 56 0" "dw_Now (demo_draws n f v) = 2"
  by (simp_all add: demo_draws_def)

lemma demo_can: "action \<in> developerActions \<Longrightarrow> can demo_server demo_ann action res = Inr ()"
  by (simp add: can_def Can_def demo_server_def demo_ann_def bindingsFor_def bindingApplies_def roleAllows_def roleActions_def
    RoleDeveloper_def RoleViewer_def)

lemma demo_actor [simp]: "actorOf demo_ann = ''ann''" "promoteActorUser demo_ann = ''ann''" "rq_Reason demo_ann = ''''"
  "sv_Keyring demo_server = demo_kr" "sv_IsUser demo_server u" "sv_EditReq demo_server"
  by (simp_all add: actorOf_def promoteActorUser_def demo_ann_def demo_server_def)

lemma promo_protected: "requireApproval promo_db ''d'' = Inr True" "\<exists>res. configResource promo_db ''d'' = Inr res"
  by (simp_all add: requireApproval_def configResource_def resolveScopeResource_def cfg_Get_def env_Get_def one_row_def promo_db_def demo_db_def example_db_def
    live_config_def live_env_def)

theorem protected_config_four_eyes_witness:
  "\<exists>ev db'. handleSecretPut demo_server demo_ann (demo_draws ''q'' id ''v'') ''d'' ''K'' (Some (''x'', '''')) promo_db = (RFiled ''q'', ev, db') \<and>
     history (vault_of demo_kr db') ''d'' = history (vault_of demo_kr promo_db) ''d''"
proof -
  let ?d = "demo_draws ''q'' id ''v''"
  let ?chs = "[\<lparr>sc_Key = ''K'', sc_Value = bytes_of ''x'', sc_Delete = False, sc_Type = ''''\<rparr>]"
  obtain cfg where c: "resolveProject promo_db ''d'' = Inr (cfg, demo_project)" using promo_lookups(2) [of promo_db] by auto
  have "length (print_json (JArr (map pc_json (map propose ?chs)))) \<le> 200" by code_simp
  then have size: "length (marshal_proposal (map propose ?chs)) \<le> gcm_limit" by (simp add: marshal_proposal_def bytes_of_def gcm_limit_def)
  obtain blob r' where e: "EncryptConfigBlob demo_kr promo_db ''d'' (marshal_proposal (map propose ?chs)) (replicate 56 0) = Inr (blob, r')"
    using EncryptConfigBlob_ok [OF demo_keyring(1) c demo_key size, of "replicate 56 0"] by auto
  have none: "config_edit_requests promo_db = []" "promotion_requests promo_db = []" "''d'' \<in> c_ID ` set (configs promo_db)"
    by (simp_all add: promo_db_def demo_db_def example_db_def)
  have "SecretWrite \<in> developerActions" by (simp add: developerActions_def)
  then obtain ev db' where put: "handleSecretPut demo_server demo_ann ?d ''d'' ''K'' (Some (''x'', '''')) promo_db = (RFiled ''q'', ev, db')"
    using promo_protected e none demo_can [of SecretWrite]
    by (auto simp: handleSecretPut_def or_error_def authorize_def applyWrite_def submitEditRequest_def er_Submit_def er_Create_def recorded_def Let_def)
  have served: "serve demo_server demo_ann ?d (SecretPut ''d'' ''K'' (Some (''x'', []))) promo_db = (RFiled ''q'', ev, db')" using put by simp
  have "walks (dw_Walk ?d)" using walks_remdups by simp
  from protected_config_four_eyes [OF _ this served promo_protected(1)] have "history (vault_of demo_kr db') ''d'' = history (vault_of demo_kr promo_db) ''d''"
    using promo_inv none by simp
  then show ?thesis using put by blast
qed


definition promo_body :: PromoteBody where
  "promo_body = \<lparr>pb_From = ''c'', pb_To = '''', pb_ToEnv = ''f'', pb_ToName = ''new'', pb_Create = True, pb_SourceVersion = 1, pb_Note = '''',
     pb_Selections = [(''K'', ActionSet)]\<rparr>"

lemma promo_created:
  assumes same: "projects db = projects promo_db" "environments db = environments promo_db" "configs db = configs promo_db"
    "promotion_pipeline_steps db = promotion_pipeline_steps promo_db"
  shows "\<exists>cfg. cfg_Create ''n'' ''f'' ''new'' None 2 db = Inr (cfg, db\<lparr>configs := configs db @ [cfg]\<rparr>) \<and> c_ID cfg = ''n'' \<and>
    (let db' = db\<lparr>configs := configs db @ [cfg]\<rparr> in resolveProject db' ''n'' = Inr (cfg, demo_project) \<and> cfg_Get db' ''n'' = Inr cfg \<and>
      (\<exists>cc. resolveProject db' ''c'' = Inr (cc, demo_project)) \<and> projectAndEnv db' ''n'' = Inr (''p'', ''f'') \<and> validateStep db' ''p'' ''e'' ''f'' = Inr ())"
    "\<exists>res. configResource db ''c'' = Inr res" "\<exists>res. resolveScopeResource db ''environment'' ''f'' = Inr res"
    "\<exists>env. env_Get db ''f'' = Inr env \<and> e_RequireApproval env"
  using same by (simp_all add: cfg_Create_def config_name_taken_def resolveProject_def cfg_Get_def env_Get_def proj_Get_def one_row_def promo_db_def demo_db_def
      example_db_def live_config_def live_env_def live_project_def projectAndEnv_def validateStep_def NextEnv_def configResource_def resolveScopeResource_def Let_def)

theorem create_promotion_unreviewed_witness:
  "\<exists>db i v res ev db'. handlePromoteApply demo_server demo_ann (demo_draws ''n'' i v) (Some promo_body) db = (RPromoted res, ev, db') \<and>
     (\<exists>env. env_Get db ''f'' = Inr env \<and> e_RequireApproval env) \<and> history (vault_of demo_kr db') ''n'' 1 \<noteq> None \<and>
     config_edit_requests db' = config_edit_requests db \<and> requireApproval db' ''n'' = Inr True"
proof -
  obtain db where inv: "vault_inv demo_kr db" and same: "projects db = projects promo_db" "environments db = environments promo_db" "configs db = configs promo_db"
    and sd: "side db = side promo_db" and v: "vault_of demo_kr db = push ''c'' [''K'' \<mapsto> ([1, 2, 3], ''string'')] (vault_of demo_kr promo_db)"
    using promo_saved by blast
  have steps: "promotion_pipeline_steps db = promotion_pipeline_steps promo_db" "config_locked_keys db = []"
    using sd by (simp_all add: side_def promo_db_def demo_db_def example_db_def)
  note look = promo_lookups [OF same steps(1)] and new = promo_created [OF same steps(1)]
  obtain cfg where cr: "cfg_Create ''n'' ''f'' ''new'' None 2 db = Inr (cfg, db\<lparr>configs := configs db @ [cfg]\<rparr>)" "c_ID cfg = ''n''"
    and rest: "let db' = db\<lparr>configs := configs db @ [cfg]\<rparr> in resolveProject db' ''n'' = Inr (cfg, demo_project) \<and> cfg_Get db' ''n'' = Inr cfg \<and>
      (\<exists>cc. resolveProject db' ''c'' = Inr (cc, demo_project)) \<and> projectAndEnv db' ''n'' = Inr (''p'', ''f'') \<and> validateStep db' ''p'' ''e'' ''f'' = Inr ()"
    using new(1) by blast
  let ?db = "db\<lparr>configs := configs db @ [cfg]\<rparr>"
  have look': "resolveProject ?db ''n'' = Inr (cfg, demo_project)" "cfg_Get ?db (c_ID cfg) = Inr cfg"
    "\<exists>cc. resolveProject ?db ''c'' = Inr (cc, demo_project)" "projectAndEnv ?db ''n'' = Inr (''p'', ''f'')" "validateStep ?db ''p'' ''e'' ''f'' = Inr ()"
    using rest cr(2) by (simp_all add: Let_def)
  have sp: "spares demo_kr ''c'' db ?db" by (rule spares_create [OF inv cr(1)])
  have zero: "max_version promo_db ''c'' = 0" by (simp add: max_version_def versions_of_def promo_db_def demo_db_def)
  have "history (vault_of demo_kr db) ''c'' 1 = Some [''K'' \<mapsto> ([1, 2, 3], ''string'')]" using v zero by (simp add: push_def) (simp add: vault_of_def)
  then have h: "history (vault_of demo_kr ?db) ''c'' 1 = Some [''K'' \<mapsto> ([1, 2, 3], ''string'')]" and inv': "vault_inv demo_kr ?db"
    using sp by (simp_all add: spares_def)
  obtain m se where rev: "RevealConfigVersion demo_kr ?db [''K''] ''c'' 1 = Inr m" and se: "m ''K'' = Some se" "se_Value se = [1, 2, 3]" "se_Type se = ''string''"
    using promo_reveal [OF inv' _ h] look'(3) by blast
  obtain i w where fresh: "i \<notin> sv_ID ` set (secret_values ?db)" "w \<notin> cv_ID ` set (config_versions ?db)" using fresh_ids by blast
  let ?req = "apply_request promo_body demo_ann"
  have plan: "plan_rest demo_kr ?db [''K''] ''p'' ''e'' ''n'' ?req = Inr \<lparr>pl_TargetConfigID = ''n'', pl_SourceEnv = ''e'', pl_SourceVersion = 1,
      pl_Message = ''promote from env '' @ ''e'' @ '' v'' @ decimal 1, pl_Changes = [promo_change], pl_Applied = [(''K'', ActionSet)], pl_Skipped = []\<rparr>"
    using look' steps rev se by (simp add: plan_rest_def apply_request_def promo_body_def promo_change_def AreLocked_def key_locked_def)
  obtain cv r' db' where set: "SetSecrets demo_kr ?db None ''n'' [promo_change] (''promote from env '' @ ''e'' @ '' v'' @ decimal 1) ''ann'' (\<lambda>_. i) w [''K''] (replicate 56 0) 2 ?db = (Inr (cv, r'), db')"
    using promo_save [OF look'(1,2) fresh] by blast
  have one: "cv_Version cv = max_version ?db ''n'' + 1" by (rule set_pushes(3) [OF inv' _ _ set]) (simp_all add: promo_change_def)
  let ?d = "demo_draws ''n'' (\<lambda>_. i) w"
  obtain res r2 db2 where ap: "Apply demo_kr None [''K''] ''n'' (\<lambda>_. i) w remdups (replicate 56 0) 2 ?req db = (Inr (res, r2), db2)" and ver: "pa_TargetVersion res = cv_Version cv"
    using plan set look cr by (fastforce simp: Apply_def Plan_def plan_target_def apply_request_def promo_body_def promo_change_def)
  have acts: "SecretRead \<in> developerActions" "ConfigCreate \<in> developerActions" "SecretPromote \<in> developerActions"
    by (simp_all add: developerActions_def viewerActions_def)
  obtain ev where run: "handlePromoteApply demo_server demo_ann ?d (Some promo_body) db = (RPromoted res, ev, db2)"
    using new(2,3) demo_can acts ap by (auto simp: handlePromoteApply_def promo_body_def or_error_def if_can_def authorize_def promote_now_def recorded_def)
  obtain env where env: "env_Get db ''f'' = Inr env" "e_RequireApproval env" using new(4) by blast
  have nz: "pa_TargetVersion res \<noteq> 0" using ver one max_version_nonneg [of ?db "''n''"] by simp
  have "''n'' \<notin> c_ID ` set (configs db) \<and> config_edit_requests db2 = config_edit_requests db \<and> history (vault_of demo_kr db2) ''n'' 1 \<noteq> None \<and> requireApproval db2 ''n'' = Inr True"
    using create_promotion_unreviewed [of demo_server db ?d promo_body env demo_ann res ev db2] inv walks_remdups env run nz by (simp add: promo_body_def)
  then show ?thesis using run env by blast
qed

end
