(* ===== verification/Spec2Isabelle.thy ===== *)
theory Spec2Isabelle
  imports Masterkeys Audit_Log Write_Api
begin

section \<open>A verification library for the Janus secrets manager\<close>

text \<open>
  \<^bold>\<open>The program.\<close> Janus (\<^verbatim>\<open>src/\<close>) is a self-hosted secrets manager written in Go over PostgreSQL.
  A master key exists only in the memory of an unsealed process; it comes from a quorum of Shamir
  shares or from a cloud KMS. Every project has a key (KEK) wrapped by the master key, and every
  secret value a data key (DEK) wrapped by its project's key. Values live in immutable, numbered
  versions of configs, which belong to environments, which belong to projects. Configs inherit from
  one another and values may refer to other values. Every request is authorised by roles bound to
  scopes or by the scope of a service token, and recorded in a hash-chained audit log.

  \<^bold>\<open>Conventions.\<close> A Go byte slice is \<^typ>\<open>8 word list\<close>, a Go string an Isabelle string, whose
  characters are bytes. A call that may fail returns \<open>error + result\<close>; sentinel errors are
  constructors, and so is a panic. \<^verbatim>\<open>crypto/rand\<close> is the list of bytes it will deliver, threaded through
  the calls; a read beyond its end is the error of the reader. The order in which Go walks a map is an
  argument, as are the clock and the ids the database draws. A table is the list of its rows; a
  transaction takes the outcome of its commit as an argument and leaves the state as it was when it
  fails. Where a handler reads the database before its transaction runs, the two databases are two
  arguments, so that what happens in between is covered. Zeroisation of buffers has no effect a later
  step can observe and is left out.

  \<^bold>\<open>Theories and the code they model.\<close>
  \<^item> \<^verbatim>\<open>Prelude\<close>: bytes, results, big-endian encodings, \<open>bind_err\<close>, \<open>map_err\<close>, the collection \<open>go_result\<close>.
  \<^item> \<^verbatim>\<open>Go_Text\<close>: the functions of Go's \<^verbatim>\<open>strings\<close>, \<^verbatim>\<open>strconv\<close> and \<^verbatim>\<open>fmt\<close> that the services use.
  \<^item> \<^verbatim>\<open>Std_Crypto\<close>: AES, GCM, SHA-1, SHA-256, HMAC and HKDF as the standard library computes them,
    executable bit by bit.
  \<^item> \<^verbatim>\<open>Interpolation\<close>, \<^verbatim>\<open>GF256\<close>, \<^verbatim>\<open>Shamir\<close>: \<^verbatim>\<open>internal/crypto/shamir/shamir.go\<close>. The byte operations are
    proved to be the field of 256 elements; any threshold of shares combines to the secret and one
    share less says nothing about it.
  \<^item> \<^verbatim>\<open>Envelope\<close>: \<^verbatim>\<open>internal/crypto/aead.go\<close>, \<^verbatim>\<open>keys.go\<close> and the additional data of every kind of slot.
    The locale \<open>aead\<close> states what a cipher promises and is interpreted on GCM.
  \<^item> \<^verbatim>\<open>Seal\<close>: \<^verbatim>\<open>unseal.go\<close>, \<^verbatim>\<open>shamir.go\<close>, \<^verbatim>\<open>kms.go\<close> and \<^verbatim>\<open>internal/store/sealconfig.go\<close>; the locale
    \<open>seal_store\<close> is interpreted on the Postgres store. The KMS is an argument.
  \<^item> \<^verbatim>\<open>Keyring\<close>: \<^verbatim>\<open>internal/crypto/keyring.go\<close>; the locale \<open>keyring_slot\<close> holds what wrapping promises and
    is interpreted on every pair of methods.
  \<^item> \<^verbatim>\<open>Masterkeys\<close>: \<^verbatim>\<open>internal/masterkeys/service.go\<close> and \<^verbatim>\<open>internal/store/masterkey.go\<close>, the rotation of the
    master key over all the tables that hold wrapped blobs; the locale \<open>unsealer\<close> is interpreted on
    both kinds of seal, and the facts about the two doors, \<open>Rotate\<close> and \<open>RekeySubmit\<close>, rest on it.
  \<^item> \<^verbatim>\<open>Store_Base\<close>: \<^verbatim>\<open>internal/store/errors.go\<close> and the transactions of \<^verbatim>\<open>store.go\<close>; the locale \<open>keyset_pages\<close>
    shows that following cursors lists every row once.
  \<^item> \<^verbatim>\<open>Authz\<close>: \<^verbatim>\<open>internal/authz\<close> with its tables; the locale \<open>binding_store\<close> is interpreted on the
    role bindings.
  \<^item> \<^verbatim>\<open>Audit_Log\<close>: \<^verbatim>\<open>internal/audit\<close> with its repositories and the prune endpoint, whose store may fail. A run of
    the log (\<open>audit_reach\<close>) records whether a prune has ever emptied the table; the chain restarts there.
  \<^item> \<^verbatim>\<open>Resolve\<close>: \<^verbatim>\<open>internal/resolve\<close>, references and inheritance over the port \<^verbatim>\<open>RawReader\<close>; the locale
    \<open>raw_source\<close> states what the port promises.
  \<^item> \<^verbatim>\<open>Secret_Store\<close>, \<^verbatim>\<open>Kek_Versions\<close>, \<^verbatim>\<open>Version_Prune\<close>: the tables of projects, environments, configs,
    versions, values and manifests in \<^verbatim>\<open>internal/store\<close>, with the constraints and cascades of the schema;
    superseded project keys and the batch re-wrap; pruning of old versions.
  \<^item> \<^verbatim>\<open>Secrets\<close>, \<^verbatim>\<open>Secret_Versions\<close>: \<^verbatim>\<open>internal/secrets\<close>, the envelope encryption of writes, reads that
    follow a value to the project key it was written under, versions, rollback, retention, edit-request
    blobs. \<open>raw_source\<close> is interpreted here, on the service's own readers.
  \<^item> \<^verbatim>\<open>Project_Keys\<close>, \<^verbatim>\<open>Key_Sweep\<close>: \<^verbatim>\<open>internal/projectkeys/service.go\<close>, rotation of a project key and the
    sweep that re-wraps data keys in batches.
  \<^item> \<^verbatim>\<open>Hierarchy\<close>, \<^verbatim>\<open>Vault\<close>, \<^verbatim>\<open>Vault_Properties\<close>: the abstract specification. A vault maps a config and a
    version number to the plaintexts and types it holds. A run of the service (\<open>svc_run\<close>) carries a label for each
    call, with what it asked for and reported, and replaying the labels on the vault (\<open>replay\<close>) is shown to give
    the vault of the final tables. A save may read the database earlier than its transaction runs; runs require
    only that the project key it read is still on file then (\<open>key_on_file\<close>), and what happens otherwise is a
    theorem of its own. \<open>edit_step\<close>, \<open>destroy_step\<close> and \<open>svc_step\<close> are the same operations without labels.
  \<^item> \<^verbatim>\<open>Json_Codec\<close>: the parts of \<^verbatim>\<open>encoding/json\<close> the program stores data with: UTF-8 repair, escapes, the
    scanner with its nesting limit, and struct fields; printing and parsing are proved to be inverse.
  \<^item> \<^verbatim>\<open>Edit_Requests\<close>: \<^verbatim>\<open>internal/store/config_edit_requests.go\<close> and \<^verbatim>\<open>internal/editreq/service.go\<close>, the four-eyes
    workflow on protected configs. Approval is split where other requests can run in between, and any
    number of approvals is interleaved with everything else that happens to the table.
  \<^item> \<^verbatim>\<open>Promotion\<close>: \<^verbatim>\<open>internal/store/promotion.go\<close>, \<^verbatim>\<open>promotion_requests.go\<close> and \<^verbatim>\<open>internal/promote\<close>: pipelines, locked
    keys, previews, plans, promotions and requests for them.
  \<^item> \<^verbatim>\<open>Write_Api\<close>: the handlers of \<^verbatim>\<open>internal/api\<close> that write secrets, ask for a change or decide on one, set
    retention and prune versions, with their authorisation by the engine of \<^verbatim>\<open>Authz\<close>; \<open>api_call\<close> is any call of one of
    them and \<open>serve\<close> the handler it reaches.

  \<^bold>\<open>What the groups of lemmas show.\<close> Cryptography: round trips, exact acceptance, separation of slots.
  Sealing and rotation: whoever held a quorum can unseal; a rotation loses no blob. Authorisation:
  decisions equal the effective role, fail closed, and tokens stay inside their scope. Audit: the log
  verifies in every run that does not prune it empty, tampering behind the latest checkpoint shows up, and the
  prune endpoint fails closed. Store and service: well-formedness (\<open>store_wf\<close>) and
  readability of every value (\<open>readable\<close>) are invariants of every operation; the tables refine the
  vault; a write is read back; rotations and re-wraps are invisible to readers and end. Approvals: a
  request is applied at most once and never by its requester, and what is applied is what was proposed; a
  promotion moves exactly its selection; none of the modelled handlers changes a protected config except an
  approval by a second user and an authorised prune of old versions, and the door past an environment's
  protection, a promotion that creates its target, is exhibited.

  \<^bold>\<open>Termination and fuel.\<close> The resolver's recursion is bounded by the code's own depth limit
  (\<open>maxDepth\<close>), the inheritance walk by the set of configs visited, the batch loop of the re-wrap by
  the rows left beyond its cursor; all are total functions, and their results are proved, not assumed.

  \<^bold>\<open>Not modelled.\<close> The read handlers and middleware of the HTTP layer, the command line, the SDKs, the
  Terraform provider and the web interface translate between formats and hold no state of their own.
  Providers that talk to other systems (dynamic secrets, rotation back ends, secret synchronisation,
  notification channels, audit shipping, backups) are I/O; of these, secret rotation (\<^verbatim>\<open>internal/rotation\<close>) saves
  the credentials it has made with \<open>SetSecrets\<close> and does so in protected configs too, which \<^verbatim>\<open>status.md\<close> lists as an
  accepted trade-off (L-6). Authentication (passwords, sessions, TOTP,
  OIDC, WebAuthn) yields the principal that the model of authorisation starts from and rests on
  third-party libraries; the operations of the transit engine, cloning and comparison of configs, and the
  tables of users and groups are left out.
\<close>

end
